(* ===== verification/Prelude.thy ===== *)
theory Prelude
  imports Main "HOL-Library.Word"
begin

text \<open>
  Shared vocabulary of the tendrilix development: the machine-integer types, the
  outcome of code that can panic, byte strings with the little- and big-endian
  conversions of the Rust standard library, slices, and the generic lemmas that
  the component theories rest on.

  Conventions used by every theory:
  \<^item> a Rust \<^verbatim>\<open>Result<T, E>\<close> is \<open>'e + 't\<close>, with \<open>Inl\<close> the error;
  \<^item> a Rust \<^verbatim>\<open>Option<T>\<close> is \<open>'t option\<close>;
  \<^item> code that can panic returns \<open>'t run\<close>;
  \<^item> \<^verbatim>\<open>u8\<close> .. \<^verbatim>\<open>u128\<close> are words of that width; a \<^verbatim>\<open>usize\<close> that is
    a length or an index of a collection is a \<open>nat\<close>.
\<close>

unbundle bit_operations_syntax

section \<open>Collections of facts\<close>

named_theorems byte_simps \<open>lengths and round trips of byte conversions\<close>
named_theorems run_simps \<open>evaluation of code that can panic\<close>

section \<open>Machine integers\<close>

type_synonym u8 = "8 word"
type_synonym u16 = "16 word"
type_synonym u32 = "32 word"
type_synonym u64 = "64 word"
type_synonym u128 = "128 word"
type_synonym bytes = "u8 list"

lemma unat_plus_nowrap:
  fixes a b :: "'a::len word"
  assumes "unat a + unat b < 2 ^ LENGTH('a)"
  shows "unat (a + b) = unat a + unat b"
  using assms by (simp add: unat_word_ariths)

lemma unat_Suc_nowrap:
  fixes a b :: "'a::len word"
  assumes "a < b"
  shows "unat (a + 1) = Suc (unat a)"
proof -
  have "unat a < unat b" using assms by (simp add: word_less_nat_alt)
  then have "unat a + 1 < 2 ^ LENGTH('a)"
    using unsigned_less [of b, where 'a = nat] by linarith
  then show ?thesis by (simp add: unat_word_ariths)
qed

lemma unat_minus_le:
  fixes a b :: "'a::len word"
  assumes "b \<le> a"
  shows "unat (a - b) = unat a - unat b"
  using assms by (rule unat_sub)

lemma unat_of_nat_small:
  "n < 2 ^ LENGTH('a) \<Longrightarrow> unat (of_nat n :: 'a::len word) = n"
  by (simp add: unat_of_nat)

section \<open>Time\<close>

text \<open>A \<^verbatim>\<open>Duration\<close> is a number of nanoseconds, and an \<^verbatim>\<open>Instant\<close> one since a fixed
  origin of the monotonic clock. \<^verbatim>\<open>Instant::duration_since\<close> saturates at zero, as
  subtraction on \<open>nat\<close> does. Where the source reads the clock, the instant is an argument.\<close>

type_synonym instant = nat
type_synonym duration = nat

definition SECOND :: duration where "SECOND = 1000000000"
definition MILLISECOND :: duration where "MILLISECOND = 1000000"

section \<open>Sizes of \<^verbatim>\<open>lib.rs\<close>\<close>

definition PACKET_OVERHEAD :: nat where "PACKET_OVERHEAD = 32"
definition MTU :: nat where "MTU = 1280"
definition ENVELOPE_HEADER_SIZE :: nat where "ENVELOPE_HEADER_SIZE = 36"
definition MAX_PACKET_SIZE :: nat where
  "MAX_PACKET_SIZE = MTU + 2 * PACKET_OVERHEAD + ENVELOPE_HEADER_SIZE"

section \<open>Code that can panic\<close>

datatype 'a run = Ret 'a | Panic

definition run_bind :: "'a run \<Rightarrow> ('a \<Rightarrow> 'b run) \<Rightarrow> 'b run" where
  "run_bind r f = (case r of Ret x \<Rightarrow> f x | Panic \<Rightarrow> Panic)"

lemma run_bind_simps [simp, run_simps]:
  "run_bind (Ret x) f = f x" "run_bind Panic f = Panic"
  by (simp_all add: run_bind_def)

lemma run_bind_eq_Ret [run_simps]:
  "run_bind r f = Ret y \<longleftrightarrow> (\<exists>x. r = Ret x \<and> f x = Ret y)"
  by (cases r) auto

text \<open>What holds of every result of code that does not panic.\<close>

definition run_all :: "('a \<Rightarrow> bool) \<Rightarrow> 'a run \<Rightarrow> bool" where
  "run_all Q r = (case r of Ret x \<Rightarrow> Q x | Panic \<Rightarrow> True)"

lemma run_all_simps [simp]:
  "run_all Q (Ret x) = Q x" "run_all Q Panic" "run_all Q (run_bind r f) = run_all (\<lambda>x. run_all Q (f x)) r"
  "run_all (\<lambda>_. True) r"
  by (cases r; simp add: run_all_def)+

lemma run_all_mono: "run_all Q r \<Longrightarrow> (\<And>x. Q x \<Longrightarrow> Q' x) \<Longrightarrow> run_all Q' r"
  by (cases r) auto

lemma run_all_trivial: "(\<And>x. Q x) \<Longrightarrow> run_all Q r"
  by (cases r) auto

lemma run_all_bindI: "run_all R r \<Longrightarrow> (\<And>x. R x \<Longrightarrow> run_all Q (f x)) \<Longrightarrow> run_all Q (run_bind r f)"
  by (cases r) auto

lemma run_all_ifI: "(b \<Longrightarrow> run_all Q r) \<Longrightarrow> (\<not> b \<Longrightarrow> run_all Q s) \<Longrightarrow> run_all Q (if b then r else s)"
  by simp

lemma run_allD: "run_all Q r \<Longrightarrow> r = Ret x \<Longrightarrow> Q x"
  by simp

section \<open>Slices\<close>

text \<open>\<^verbatim>\<open>&xs[a..b]\<close>, used where the source has checked \<open>a \<le> b\<close> and
  \<open>b \<le> length xs\<close>, and \<^verbatim>\<open>dst[at..at + src.len()].copy_from_slice(src)\<close>.\<close>

definition slice :: "nat \<Rightarrow> nat \<Rightarrow> 'a list \<Rightarrow> 'a list" where
  "slice a b xs = take (b - a) (drop a xs)"

definition copy_into :: "nat \<Rightarrow> 'a list \<Rightarrow> 'a list \<Rightarrow> 'a list" where
  "copy_into at src dst = take at dst @ src @ drop (at + length src) dst"

lemma length_slice [simp, byte_simps]:
  "b \<le> length xs \<Longrightarrow> length (slice a b xs) = b - a"
  by (simp add: slice_def)

lemma nth_slice:
  "b \<le> length xs \<Longrightarrow> i < b - a \<Longrightarrow> slice a b xs ! i = xs ! (a + i)"
  by (simp add: slice_def)

lemma slice_append_left:
  "b \<le> length xs \<Longrightarrow> slice a b (xs @ ys) = slice a b xs"
  by (cases "a \<le> length xs") (simp_all add: slice_def)

lemma slice_append_right:
  "length xs \<le> a \<Longrightarrow> slice a b (xs @ ys) = slice (a - length xs) (b - length xs) ys"
  by (simp add: slice_def)

lemma slice_full [simp]: "slice 0 (length xs) xs = xs"
  by (simp add: slice_def)

lemma slice_all: "length xs \<le> b \<Longrightarrow> slice 0 b xs = xs"
  by (simp add: slice_def)

lemma slice_split: "a \<le> b \<Longrightarrow> drop a xs = slice a b xs @ drop b xs"
  by (simp add: slice_def) (metis append_take_drop_id drop_drop le_add_diff_inverse2)

lemmas slice_simps = slice_append_left slice_append_right slice_all

lemma length_copy_into [simp, byte_simps]:
  "at + length src \<le> length dst \<Longrightarrow> length (copy_into at src dst) = length dst"
  by (simp add: copy_into_def)

lemma slice_copy_into_same:
  "at + length src \<le> length dst \<Longrightarrow> slice at (at + length src) (copy_into at src dst) = src"
  by (simp add: slice_def copy_into_def)

lemma nth_copy_into:
  assumes "at + length src \<le> length dst" and "i < length dst"
  shows "copy_into at src dst ! i =
    (if at \<le> i \<and> i < at + length src then src ! (i - at) else dst ! i)"
  using assms by (auto simp: copy_into_def nth_append min_def)

lemma slice_copy_into_other:
  assumes "at + length src \<le> length dst" and "b \<le> length dst"
    and "b \<le> at \<or> at + length src \<le> a"
  shows "slice a b (copy_into at src dst) = slice a b dst"
proof (rule nth_equalityI)
  show "length (slice a b (copy_into at src dst)) = length (slice a b dst)"
    using assms by simp
next
  fix i assume "i < length (slice a b (copy_into at src dst))"
  with assms have i: "i < b - a" by simp
  with assms show "slice a b (copy_into at src dst) ! i = slice a b dst ! i"
    by (auto simp: nth_slice nth_copy_into)
qed

lemma copy_into_append:
  "length xs = at \<Longrightarrow> copy_into at src (xs @ ys) = xs @ src @ drop (length src) ys"
  by (simp add: copy_into_def)

section \<open>Byte order\<close>

text \<open>\<^verbatim>\<open>to_le_bytes\<close>, \<^verbatim>\<open>from_le_bytes\<close>, \<^verbatim>\<open>to_be_bytes\<close> and
  \<^verbatim>\<open>from_be_bytes\<close> of the unsigned integer types; \<open>n\<close> is the size in bytes.\<close>

definition to_le_bytes :: "nat \<Rightarrow> 'a::len word \<Rightarrow> bytes" where
  "to_le_bytes n w = map (\<lambda>i. ucast (drop_bit (8 * i) w)) [0..<n]"

primrec from_le_bytes :: "bytes \<Rightarrow> 'a::len word" where
  "from_le_bytes [] = 0"
| "from_le_bytes (b # bs) = ucast b OR push_bit 8 (from_le_bytes bs)"

definition to_be_bytes :: "nat \<Rightarrow> 'a::len word \<Rightarrow> bytes" where
  "to_be_bytes n w = rev (to_le_bytes n w)"

definition from_be_bytes :: "bytes \<Rightarrow> 'a::len word" where
  "from_be_bytes bs = from_le_bytes (rev bs)"

lemma length_to_le_bytes [simp, byte_simps]: "length (to_le_bytes n w) = n"
  by (simp add: to_le_bytes_def)

lemma length_to_be_bytes [simp, byte_simps]: "length (to_be_bytes n w) = n"
  by (simp add: to_be_bytes_def)

lemma bit_from_le_bytes:
  "bit (from_le_bytes bs :: 'a::len word) i \<longleftrightarrow>
     i < LENGTH('a) \<and> i < 8 * length bs \<and> bit (bs ! (i div 8)) (i mod 8)"
proof (induction bs arbitrary: i)
  case Nil
  then show ?case by simp
next
  case (Cons b bs)
  show ?case
  proof (cases "i < 8")
    case True
    then show ?thesis
      by (auto simp: bit_or_iff bit_push_bit_iff bit_ucast_iff)
  next
    case False
    then have "i div 8 = Suc ((i - 8) div 8)" and "i mod 8 = (i - 8) mod 8"
      by (simp_all add: le_div_geq le_mod_geq)
    moreover have "\<not> bit b i"
      using False bit_imp_le_length [of b i] by auto
    ultimately show ?thesis
      using False Cons.IH [of "i - 8"]
      by (auto simp: bit_or_iff bit_push_bit_iff bit_ucast_iff)
  qed
qed

lemma bit_nth_to_le_bytes:
  "i < n \<Longrightarrow> bit (to_le_bytes n (w :: 'a::len word) ! i) j \<longleftrightarrow>
     j < 8 \<and> 8 * i + j < LENGTH('a) \<and> bit w (8 * i + j)"
  by (auto simp: to_le_bytes_def bit_ucast_iff bit_drop_bit_eq dest: bit_imp_le_length)

lemma from_le_to_le_bytes [simp, byte_simps]:
  assumes "LENGTH('a) \<le> 8 * n"
  shows "from_le_bytes (to_le_bytes n w) = (w :: 'a::len word)"
proof (rule bit_word_eqI)
  fix i assume i: "i < LENGTH('a)"
  then have "i div 8 < n" using assms by auto
  then show "bit (from_le_bytes (to_le_bytes n w) :: 'a word) i = bit w i"
    using i assms by (simp add: bit_from_le_bytes bit_nth_to_le_bytes)
qed

lemma to_le_from_le_bytes:
  assumes "8 * length bs \<le> LENGTH('a)"
  shows "to_le_bytes (length bs) (from_le_bytes bs :: 'a::len word) = bs"
proof (rule nth_equalityI)
  fix i assume "i < length (to_le_bytes (length bs) (from_le_bytes bs :: 'a word))"
  then have i: "i < length bs" by simp
  show "to_le_bytes (length bs) (from_le_bytes bs :: 'a word) ! i = bs ! i"
  proof (rule bit_word_eqI)
    fix j assume j: "j < LENGTH(8)"
    have "8 * i + j < 8 * length bs" using i j by simp
    then show "bit (to_le_bytes (length bs) (from_le_bytes bs :: 'a word) ! i) j = bit (bs ! i) j"
      using assms i j by (simp add: bit_nth_to_le_bytes bit_from_le_bytes)
  qed
qed simp

lemma from_be_to_be_bytes [simp, byte_simps]:
  assumes "LENGTH('a) \<le> 8 * n"
  shows "from_be_bytes (to_be_bytes n w) = (w :: 'a::len word)"
  using assms by (simp add: from_be_bytes_def to_be_bytes_def)

lemma to_be_from_be_bytes:
  assumes "8 * length bs \<le> LENGTH('a)"
  shows "to_be_bytes (length bs) (from_be_bytes bs :: 'a::len word) = bs"
  using to_le_from_le_bytes [where 'a = 'a, of "rev bs"] assms
  by (simp add: from_be_bytes_def to_be_bytes_def)

lemma to_le_slice:
  assumes "b \<le> length xs" and "b - a = n" and "8 * n \<le> LENGTH('a)"
  shows "to_le_bytes n (from_le_bytes (slice a b xs) :: 'a::len word) = slice a b xs"
  using to_le_from_le_bytes [where 'a = 'a, of "slice a b xs"] assms by simp

lemma to_le_bytes_inject [byte_simps]:
  fixes v w :: "'a::len word"
  assumes "LENGTH('a) \<le> 8 * n"
  shows "to_le_bytes n v = to_le_bytes n w \<longleftrightarrow> v = w"
  using assms by (metis from_le_to_le_bytes)

section \<open>Errors of the WireGuard layer\<close>

text \<open>\<^verbatim>\<open>enum WireGuardError\<close> of \<^verbatim>\<open>noise/errors.rs\<close>.\<close>

datatype WireGuardError =
    DestinationBufferTooSmall
  | UnexpectedPacket
  | WrongIndex
  | WrongKey
  | WrongTimestamp
  | InvalidMac
  | InvalidAeadTag
  | InvalidCounter
  | DuplicateCounter
  | InvalidPacket
  | NoCurrentSession
  | ConnectionExpired
  | UnderLoad

end
