(* ===== verification/Lfsr_Period.thy ===== *)
theory Lfsr_Period
  imports Prelude
begin

text \<open>
  The period of the 24-bit Galois LFSR of \<^verbatim>\<open>index.rs\<close>. The inverse \<open>vmulx\<close> of its step is
  multiplication by \<open>x\<close> in \<open>GF(2)[x]\<close> modulo the feedback polynomial, on vectors of 24 bits,
  least significant first. A linear map that commutes with \<open>vmulx\<close> is determined by its value on
  the unit vector, so powers of \<open>vmulx\<close> are computed by repeated squaring in the kernel; an
  explicit inverse for each prime factor of \<open>2 ^ 24 - 1\<close> excludes every shorter period.
\<close>

section \<open>Vectors\<close>

definition vxor :: "bool list \<Rightarrow> bool list \<Rightarrow> bool list" where
  "vxor xs ys = map2 (\<noteq>) xs ys"

definition vzero :: "bool list" where "vzero = replicate 24 False"

definition vunit :: "nat \<Rightarrow> bool list" where
  "vunit k = replicate k False @ True # replicate (23 - k) False"

definition feedback :: "bool list" where
  "feedback = [True, False, False, False, False, False, False, False, False, False, False, False,
     False, False, False, False, False, False, False, False, True, True, False, True]"

definition vmulx :: "bool list \<Rightarrow> bool list" where
  "vmulx v = vxor (False # butlast v) (if last v then feedback else vzero)"

primrec vmul :: "bool list \<Rightarrow> bool list \<Rightarrow> bool list" where
  "vmul [] c = vzero"
| "vmul (x # bs) c = vxor (if x then c else vzero) (vmul bs (vmulx c))"

lemma length_vxor [simp]: "length (vxor xs ys) = min (length xs) (length ys)"
  by (simp add: vxor_def)

lemma length_consts [simp]: "length vzero = 24" "length feedback = 24" "k < 24 \<Longrightarrow> length (vunit k) = 24"
  by (simp_all add: vzero_def feedback_def vunit_def)

lemma length_vmulx [simp]: "length v = 24 \<Longrightarrow> length (vmulx v) = 24"
  by (simp add: vmulx_def)

lemma length_vmulx_pow [simp]: "length v = 24 \<Longrightarrow> length ((vmulx ^^ k) v) = 24"
  by (induction k) auto

lemma length_vmul [simp]: "length c = 24 \<Longrightarrow> length (vmul bs c) = 24"
  by (induction bs arbitrary: c) auto

lemma nth_vxor [simp]: "i < length xs \<Longrightarrow> i < length ys \<Longrightarrow> vxor xs ys ! i = (xs ! i \<noteq> ys ! i)"
  by (simp add: vxor_def)

lemma vxor_assoc: "length a = 24 \<Longrightarrow> length b = 24 \<Longrightarrow> length c = 24 \<Longrightarrow> vxor (vxor a b) c = vxor a (vxor b c)"
  by (rule nth_equalityI) auto

lemma vxor_comm: "length a = length b \<Longrightarrow> vxor a b = vxor b a"
  by (rule nth_equalityI) auto

lemma vxor_zero [simp]: "length a = 24 \<Longrightarrow> vxor a vzero = a" "length a = 24 \<Longrightarrow> vxor vzero a = a"
  by (auto intro!: nth_equalityI simp: vzero_def)

lemma vxor_self [simp]: "length a = 24 \<Longrightarrow> vxor a a = vzero"
  by (auto intro!: nth_equalityI simp: vzero_def)

lemma vxor_eq_zero: "length a = 24 \<Longrightarrow> length b = 24 \<Longrightarrow> vxor a b = vzero \<Longrightarrow> a = b"
  by (metis vxor_assoc vxor_self vxor_zero(1,2))

text \<open>Multiplication by \<open>x\<close> is linear and injective.\<close>

lemma nth_vmulx:
  assumes "length v = 24" and "i < 24"
  shows "vmulx v ! i = ((i \<noteq> 0 \<and> v ! (i - 1)) \<noteq> (v ! 23 \<and> feedback ! i))"
proof -
  have "last v = v ! 23" using assms(1) by (subst last_conv_nth) auto
  then show ?thesis using assms by (cases i) (auto simp: vmulx_def nth_butlast vzero_def)
qed

lemma vmulx_linear:
  assumes "length a = 24" and "length b = 24"
  shows "vmulx (vxor a b) = vxor (vmulx a) (vmulx b)"
  using assms by (intro nth_equalityI) (auto simp: nth_vmulx)

lemma vmulx_zero [simp]: "vmulx vzero = vzero"
  by (intro nth_equalityI) (auto simp: nth_vmulx vzero_def)

lemma vmulx_inj:
  assumes "length a = 24" "length b = 24" "vmulx a = vmulx b"
  shows "a = b"
proof (rule nth_equalityI)
  have nth: "vmulx a ! i = vmulx b ! i" for i using assms(3) by simp
  have top: "a ! 23 = b ! 23" using nth [of 0] assms(1,2) by (simp add: nth_vmulx feedback_def)
  fix i assume "i < length a"
  then show "a ! i = b ! i"
    using nth [of "Suc i"] top assms(1,2) by (cases "i = 23") (auto simp: nth_vmulx)
qed (use assms in simp)

lemma vmulx_pow_linear:
  assumes "length a = 24" and "length b = 24"
  shows "(vmulx ^^ k) (vxor a b) = vxor ((vmulx ^^ k) a) ((vmulx ^^ k) b)"
  using assms by (induction k) (auto simp: vmulx_linear)

lemma vmulx_pow_zero [simp]: "(vmulx ^^ k) vzero = vzero"
  by (induction k) auto

lemma vmulx_pow_inj:
  "length a = 24 \<Longrightarrow> length b = 24 \<Longrightarrow> (vmulx ^^ k) a = (vmulx ^^ k) b \<Longrightarrow> a = b"
  by (induction k) (auto dest!: vmulx_inj [rotated 2])

lemma vunit_pow: "k < 24 \<Longrightarrow> (vmulx ^^ k) (vunit 0) = vunit k"
proof (induction k)
  case (Suc k)
  have "vmulx (vunit k) = vunit (Suc k)"
    using Suc.prems by (intro nth_equalityI) (auto simp: nth_vmulx vunit_def nth_append nth_Cons')
  with Suc show ?case by simp
qed simp

section \<open>Maps that commute with the step\<close>

definition vlinear :: "(bool list \<Rightarrow> bool list) \<Rightarrow> bool" where
  "vlinear L \<longleftrightarrow>
     (\<forall>a. length a = 24 \<longrightarrow> length (L a) = 24) \<and>
     (\<forall>a b. length a = 24 \<longrightarrow> length b = 24 \<longrightarrow> L (vxor a b) = vxor (L a) (L b)) \<and>
     (\<forall>a. length a = 24 \<longrightarrow> L (vmulx a) = vmulx (L a))"

lemma vlinear_zero: "vlinear L \<Longrightarrow> L vzero = vzero"
  unfolding vlinear_def by (metis length_consts(1) vxor_self)

lemma vlinear_pow: "vlinear L \<Longrightarrow> length a = 24 \<Longrightarrow> L ((vmulx ^^ k) a) = (vmulx ^^ k) (L a)"
  by (induction k) (auto simp: vlinear_def)

lemma vlinear_vmul_from:
  assumes "vlinear L" and "k + length bs = 24"
  shows "L (replicate k False @ bs) = vmul bs ((vmulx ^^ k) (L (vunit 0)))"
  using assms(2)
proof (induction bs arbitrary: k)
  case Nil
  then show ?case using vlinear_zero [OF assms(1)] by (simp add: vzero_def)
next
  case (Cons x bs)
  let ?rest = "replicate (Suc k) False @ bs" and ?u = "if x then vunit k else vzero"
  have l: "length ?u = 24" "length ?rest = 24" using Cons.prems by auto
  have "replicate k False @ x # bs = vxor ?u ?rest"
    using Cons.prems by (intro nth_equalityI) (auto simp: vunit_def vzero_def nth_append nth_Cons')
  then have "L (replicate k False @ x # bs) = vxor (L ?u) (L ?rest)"
    using assms(1) l by (simp add: vlinear_def)
  moreover have "L ?u = (if x then (vmulx ^^ k) (L (vunit 0)) else vzero)"
    using vlinear_zero [OF assms(1)] vlinear_pow [OF assms(1), of "vunit 0" k] vunit_pow [of k] Cons.prems by auto
  moreover have "L ?rest = vmul bs ((vmulx ^^ Suc k) (L (vunit 0)))"
    using Cons.IH [of "Suc k"] Cons.prems by simp
  ultimately show ?case by simp
qed

lemma vlinear_vmul:
  assumes "vlinear L" and "length b = 24"
  shows "L b = vmul b (L (vunit 0))"
  using vlinear_vmul_from [OF assms(1), of 0 b] assms(2) by simp

lemma vxor_interchange:
  assumes "length a = 24" "length b = 24" "length c = 24" "length d = 24"
  shows "vxor (vxor a b) (vxor c d) = vxor (vxor a c) (vxor b d)"
  using assms by (intro nth_equalityI) auto

lemma vlinear_vmul_left: "vlinear (\<lambda>v. vmul e v)"
proof -
  have "vmul e (vxor a b) = vxor (vmul e a) (vmul e b) \<and> vmul e (vmulx a) = vmulx (vmul e a)"
    if "length a = 24" "length b = 24" for a b
    using that by (induction e arbitrary: a b) (auto simp: vxor_interchange vmulx_linear)
  then show ?thesis by (auto simp: vlinear_def)
qed

lemma vlinear_vmulx_pow: "vlinear (vmulx ^^ k)"
  by (auto simp: vlinear_def vmulx_pow_linear funpow_swap1)

text \<open>Powers of \<open>x\<close> by multiplication.\<close>

definition vpow :: "nat \<Rightarrow> bool list" where
  "vpow k = (vmulx ^^ k) (vunit 0)"

lemma length_vpow [simp]: "length (vpow k) = 24"
  by (simp add: vpow_def)

lemma vpow_add: "vpow (k + l) = vmul (vpow l) (vpow k)"
  using vlinear_vmul [OF vlinear_vmulx_pow, of "vpow l" k] by (simp add: vpow_def funpow_add)

lemma vpow_double: "vpow (2 * k) = vmul (vpow k) (vpow k)"
  using vpow_add [of k k] by (simp add: mult_2)

section \<open>Computing powers\<close>

text \<open>Square and multiply over the binary digits of the exponent, least significant first.\<close>

primrec digits_value :: "bool list \<Rightarrow> nat" where
  "digits_value [] = 0"
| "digits_value (d # ds) = (if d then 1 else 0) + 2 * digits_value ds"

primrec vexp :: "bool list \<Rightarrow> bool list" where
  "vexp [] = vunit 0"
| "vexp (d # ds) = (let w = vexp ds; s = vmul w w in if d then vmulx s else s)"

lemma vexp_vpow: "vexp ds = vpow (digits_value ds)"
proof (induction ds)
  case Nil
  then show ?case by (simp add: vpow_def)
next
  case (Cons d ds)
  have "vmulx (vpow k) = vpow (1 + k)" for k by (simp add: vpow_def)
  then show ?case using Cons.IH by (simp add: Let_def vpow_double [symmetric])
qed

lemma digits_value_power: "digits_value (replicate n False @ [True]) = 2 ^ n"
  by (induction n) simp_all

text \<open>\<open>x ^ (2 ^ 24) = x\<close>.\<close>

lemma vpow_full: "vpow (2 ^ 24) = vpow 1"
proof -
  have "vexp (replicate 24 False @ [True]) = vexp [True]" by code_simp
  moreover have "digits_value (replicate 24 False @ [True]) = 2 ^ 24" "digits_value [True] = 1"
    by (simp_all only: digits_value_power) simp
  ultimately show ?thesis by (simp only: vexp_vpow)
qed

text \<open>For a prime factor \<open>p\<close> of \<open>2 ^ 24 - 1\<close> and \<open>k = (2 ^ 24 - 1) / p\<close>, an inverse of \<open>x ^ k + 1\<close>.\<close>

definition has_inverse :: "nat \<Rightarrow> bool" where
  "has_inverse k \<longleftrightarrow> (\<exists>e. length e = 24 \<and> vmul e (vxor (vpow k) (vunit 0)) = vunit 0)"

lemma has_inverseI:
  assumes "digits_value ds = k" "length e = 24" "vmul e (vxor (vexp ds) (vunit 0)) = vunit 0"
  shows "has_inverse k"
  using assms vexp_vpow [of ds] by (auto simp: has_inverse_def)

lemma inverse_3: "has_inverse 5592405"
proof (rule has_inverseI)
  let ?ds = "[True, False, True, False, True, False, True, False, True, False, True, False, True, False, True, False, True,
     False, True, False, True, False, True]"
  let ?e = "[True, False, False, False, False, False, False, False, True, True, False, True, True, False, True, True,
     False, False, True, False, False, False, False, True]"
  show "digits_value ?ds = 5592405" by simp
  show "length ?e = 24" by simp
  show "vmul ?e (vxor (vexp ?ds) (vunit 0)) = vunit 0" by code_simp
qed

lemma inverse_5: "has_inverse 3355443"
proof (rule has_inverseI)
  let ?ds = "[True, True, False, False, True, True, False, False, True, True, False, False, True, True, False, False, True,
     True, False, False, True, True]"
  let ?e = "[True, False, False, False, True, True, True, False, True, False, False, True, False, False, True, True,
     False, True, True, True, False, True, True, False]"
  show "digits_value ?ds = 3355443" by simp
  show "length ?e = 24" by simp
  show "vmul ?e (vxor (vexp ?ds) (vunit 0)) = vunit 0" by code_simp
qed

lemma inverse_7: "has_inverse 2396745"
proof (rule has_inverseI)
  let ?ds = "[True, False, False, True, False, False, True, False, False, True, False, False, True, False, False, True,
     False, False, True, False, False, True]"
  let ?e = "[False, False, True, True, False, True, False, True, False, True, True, True, False, True, False, True, True,
     False, True, True, True, False, True, False]"
  show "digits_value ?ds = 2396745" by simp
  show "length ?e = 24" by simp
  show "vmul ?e (vxor (vexp ?ds) (vunit 0)) = vunit 0" by code_simp
qed

lemma inverse_13: "has_inverse 1290555"
proof (rule has_inverseI)
  let ?ds = "[True, True, False, True, True, True, False, False, True, False, False, False, True, True, False, True, True,
     True, False, False, True]"
  let ?e = "[False, False, False, True, True, True, False, False, False, False, True, True, True, True, False, False,
     False, False, False, True, True, True, True, False]"
  show "digits_value ?ds = 1290555" by simp
  show "length ?e = 24" by simp
  show "vmul ?e (vxor (vexp ?ds) (vunit 0)) = vunit 0" by code_simp
qed

lemma inverse_17: "has_inverse 986895"
proof (rule has_inverseI)
  let ?ds = "[True, True, True, True, False, False, False, False, True, True, True, True, False, False, False, False, True,
     True, True, True]"
  let ?e = "[False, True, True, False, True, False, True, True, False, True, False, False, True, True, True, True, True,
     False, False, True, True, True, True, False]"
  show "digits_value ?ds = 986895" by simp
  show "length ?e = 24" by simp
  show "vmul ?e (vxor (vexp ?ds) (vunit 0)) = vunit 0" by code_simp
qed

lemma inverse_241: "has_inverse 69615"
proof (rule has_inverseI)
  let ?ds = "[True, True, True, True, False, True, True, True, True, True, True, True, False, False, False, False, True]"
  let ?e = "[True, True, False, False, False, True, True, False, False, False, False, False, True, True, True, True, True,
     True, True, False, True, True, False, True]"
  show "digits_value ?ds = 69615" by simp
  show "length ?e = 24" by simp
  show "vmul ?e (vxor (vexp ?ds) (vunit 0)) = vunit 0" by code_simp
qed

section \<open>The period is \<open>2 ^ 24 - 1\<close>\<close>

definition PERIOD :: nat where "PERIOD = 2 ^ 24 - 1"

lemma period_all:
  assumes "length b = 24"
  shows "(vmulx ^^ PERIOD) b = b"
proof -
  have "vmulx (vpow PERIOD) = vmulx (vunit 0)"
  proof -
    have e: "2 ^ 24 = Suc PERIOD" by (simp add: PERIOD_def)
    have "vpow (Suc PERIOD) = vmulx (vpow PERIOD)" "vpow 1 = vmulx (vunit 0)" by (simp_all add: vpow_def)
    then show ?thesis using vpow_full [unfolded e] by simp
  qed
  then have "vpow PERIOD = vunit 0" by (rule vmulx_inj [rotated 2]) simp_all
  moreover have "(vmulx ^^ PERIOD) b = vmul b (vpow PERIOD)"
    using vlinear_vmul [OF vlinear_vmulx_pow assms, of PERIOD] by (simp add: vpow_def)
  moreover have "b = vmul b (vunit 0)"
    using vlinear_vmul [OF vlinear_vmulx_pow assms, of 0] by simp
  ultimately show ?thesis by simp
qed

lemma no_period:
  assumes "has_inverse k" and b: "length b = 24" and per: "(vmulx ^^ k) b = b"
  shows "b = vzero"
proof -
  obtain e where e: "length e = 24" "vmul e (vxor (vpow k) (vunit 0)) = vunit 0"
    using assms(1) by (auto simp: has_inverse_def)
  define M where "M = (\<lambda>v. vxor ((vmulx ^^ k) v) v)"
  define E where "E = (\<lambda>v. vmul e v)"
  have linE: "vlinear E" unfolding E_def by (rule vlinear_vmul_left)
  have linM: "vlinear M"
    unfolding M_def vlinear_def by (auto simp: vmulx_pow_linear vmulx_linear funpow_swap1 vxor_interchange)
  have "vlinear (\<lambda>v. E (M v))" using linE linM by (simp add: vlinear_def)
  then have "E (M b) = vmul b (E (M (vunit 0)))" by (rule vlinear_vmul) (rule b)
  moreover have "E (M (vunit 0)) = vunit 0" using e(2) by (simp add: E_def M_def vpow_def)
  moreover have "vmul b (vunit 0) = b" using vlinear_vmul [OF vlinear_vmulx_pow b, of 0] by simp
  moreover have "M b = vzero" using per b by (simp add: M_def)
  ultimately show ?thesis using vlinear_zero [OF linE] by simp
qed

text \<open>The exponents that fix a vector are closed under sums, multiples and greatest common divisors.\<close>

lemma fix_mult: "(vmulx ^^ k) b = b \<Longrightarrow> (vmulx ^^ (k * m)) b = b"
  by (induction m) (auto simp: funpow_add)

lemma fix_mod:
  assumes "(vmulx ^^ m) b = b" and "(vmulx ^^ n) b = b"
  shows "(vmulx ^^ (m mod n)) b = b"
proof -
  have "b = (vmulx ^^ (m mod n + n * (m div n))) b" using assms(1) by simp
  also have "\<dots> = (vmulx ^^ (m mod n)) b" by (simp only: funpow_add comp_apply fix_mult [OF assms(2)])
  finally show ?thesis by simp
qed

lemma fix_gcd: "(vmulx ^^ m) b = b \<Longrightarrow> (vmulx ^^ n) b = b \<Longrightarrow> (vmulx ^^ gcd m n) b = b"
proof (induction m n rule: gcd_nat_induct)
  case (step m n)
  then show ?case using fix_mod by (simp add: gcd_red_nat [of m n])
qed simp

lemma factor_dvd:
  fixes d c c' M :: nat
  assumes "d dvd c * M" and "\<not> d dvd c' * M" and "\<And>x. x dvd c \<Longrightarrow> x = c \<or> x dvd c'"
  shows "c dvd d"
proof -
  obtain x y where xy: "d = x * y" "x dvd c" "y dvd M" using division_decomp [OF assms(1)] by blast
  then have "\<not> x dvd c'" using assms(2) by (auto simp: mult_dvd_mono)
  then have "x = c" using assms(3) [OF xy(2)] by blast
  then show ?thesis using xy(1) by simp
qed

lemma divisor_below_18:
  fixes x c :: nat
  assumes "x dvd c" and "0 < c" and "c < 18"
  shows "x = 0 \<or> x = 1 \<or> x = 2 \<or> x = 3 \<or> x = 4 \<or> x = 5 \<or> x = 6 \<or> x = 7 \<or> x = 8 \<or>
    x = 9 \<or> x = 10 \<or> x = 11 \<or> x = 12 \<or> x = 13 \<or> x = 14 \<or> x = 15 \<or> x = 16 \<or> x = 17"
proof -
  have "x < 18" using dvd_imp_le [OF assms(1,2)] assms(3) by simp
  then show ?thesis by presburger
qed

lemma factor_9: "x dvd 9 \<Longrightarrow> x = 9 \<or> x dvd (3::nat)"
  using divisor_below_18 [of x 9] by auto

lemma factor_5: "x dvd 5 \<Longrightarrow> x = 5 \<or> x dvd (1::nat)"
  using divisor_below_18 [of x 5] by auto

lemma factor_7: "x dvd 7 \<Longrightarrow> x = 7 \<or> x dvd (1::nat)"
  using divisor_below_18 [of x 7] by auto

lemma factor_13: "x dvd 13 \<Longrightarrow> x = 13 \<or> x dvd (1::nat)"
  using divisor_below_18 [of x 13] by auto

lemma factor_17: "x dvd 17 \<Longrightarrow> x = 17 \<or> x dvd (1::nat)"
  using divisor_below_18 [of x 17] by auto

lemma factor_241:
  assumes "x dvd 241"
  shows "x = 241 \<or> x dvd (1::nat)"
proof -
  obtain y where y: "241 = x * y" using assms by (elim dvdE)
  have small: "a = 1" if "a dvd 241" "a < 16" for a :: nat
  proof -
    have "a \<noteq> 0" using that(1) by (intro notI) simp
    then show ?thesis using divisor_below_18 [of a a] that by auto
  qed
  have "x < 16 \<or> y < 16"
  proof (rule ccontr)
    assume "\<not> (x < 16 \<or> y < 16)"
    then have "16 * 16 \<le> x * y" by (intro mult_le_mono) simp_all
    with y show False by simp
  qed
  then show ?thesis using small [of x] small [of y] y by auto
qed

lemma period_exact:
  assumes b: "length b = 24" "b \<noteq> vzero" and k: "(vmulx ^^ k) b = b"
  shows "PERIOD dvd k"
proof -
  define d where "d = gcd k PERIOD"
  have fixd: "(vmulx ^^ d) b = b" unfolding d_def by (rule fix_gcd [OF k period_all [OF b(1)]])
  have dvd: "d dvd PERIOD" by (simp add: d_def)
  have not: "\<not> d dvd m" if "has_inverse m" for m
  proof
    assume "d dvd m"
    then have "(vmulx ^^ m) b = b" using fix_mult [OF fixd] by (auto elim: dvdE)
    from no_period [OF that b(1) this] b(2) show False by simp
  qed
  have "9 dvd d"
  proof (rule factor_dvd [of d 9 1864135 3])
    show "d dvd 9 * 1864135" using dvd by (simp add: PERIOD_def)
    show "\<not> d dvd 3 * 1864135" using not [OF inverse_3] by simp
  qed (rule factor_9)
  moreover have "5 dvd d"
  proof (rule factor_dvd [of d 5 3355443 1])
    show "d dvd 5 * 3355443" using dvd by (simp add: PERIOD_def)
    show "\<not> d dvd 1 * 3355443" using not [OF inverse_5] by simp
  qed (rule factor_5)
  moreover have "7 dvd d"
  proof (rule factor_dvd [of d 7 2396745 1])
    show "d dvd 7 * 2396745" using dvd by (simp add: PERIOD_def)
    show "\<not> d dvd 1 * 2396745" using not [OF inverse_7] by simp
  qed (rule factor_7)
  moreover have "13 dvd d"
  proof (rule factor_dvd [of d 13 1290555 1])
    show "d dvd 13 * 1290555" using dvd by (simp add: PERIOD_def)
    show "\<not> d dvd 1 * 1290555" using not [OF inverse_13] by simp
  qed (rule factor_13)
  moreover have "17 dvd d"
  proof (rule factor_dvd [of d 17 986895 1])
    show "d dvd 17 * 986895" using dvd by (simp add: PERIOD_def)
    show "\<not> d dvd 1 * 986895" using not [OF inverse_17] by simp
  qed (rule factor_17)
  moreover have "241 dvd d"
  proof (rule factor_dvd [of d 241 69615 1])
    show "d dvd 241 * 69615" using dvd by (simp add: PERIOD_def)
    show "\<not> d dvd 1 * 69615" using not [OF inverse_241] by simp
  qed (rule factor_241)
  moreover have "coprime (9::nat) 5" "coprime (45::nat) 7" "coprime (315::nat) 13" "coprime (4095::nat) 17" "coprime (69615::nat) 241"
    by (simp_all add: coprime_iff_gcd_eq_1 gcd_non_0_nat)
  ultimately have "69615 * 241 dvd d"
    using divides_mult [of 9 d 5] divides_mult [of 45 d 7] divides_mult [of 315 d 13] divides_mult [of 4095 d 17]
      divides_mult [of 69615 d 241] by simp
  then show ?thesis by (auto simp: d_def PERIOD_def intro: dvd_trans)
qed

end
