(* ===== verification/Index_Generator.thy ===== *)
theory Index_Generator
  imports Lfsr_Period
begin

text \<open>
  The peer-index generator (\<^verbatim>\<open>index.rs\<close>): a Galois LFSR whose states, decremented and
  masked, are the 24-bit peer indices. The random number generator is a parameter, a function
  from its state to the next 32-bit value. The atomics are modelled twice: as a sequential state
  for the operations, and as the steps of concurrent callers in the last section.
\<close>

section \<open>The generator\<close>

definition LFSR_MAX :: u32 where "LFSR_MAX = 0x00ffffff"
definition LFSR_POLY :: u32 where "LFSR_POLY = 0x00d80000"

record IndexGenerator =
  ig_lfsr :: u32
  ig_remaining :: u32
  ig_mask :: u32

definition index_generator_new :: IndexGenerator where
  "index_generator_new = \<lparr>ig_lfsr = 0, ig_remaining = LFSR_MAX, ig_mask = 0\<rparr>"

text \<open>\<open>None\<close>: the generator keeps giving values whose low 24 bits are zero.\<close>

partial_function (option) random_index :: "('r \<Rightarrow> u32 \<times> 'r) \<Rightarrow> 'r \<Rightarrow> (u32 \<times> 'r) option" where
  "random_index next_u32 rng =
     (case next_u32 rng of (x, rng') \<Rightarrow>
        (let val = x AND LFSR_MAX in if val \<noteq> 0 then Some (val, rng') else random_index next_u32 rng'))"

text \<open>The two atomic writes of \<open>initialize\<close>, which a concurrent \<open>new_index\<close> can come between.\<close>

definition init_exchange :: "u32 \<Rightarrow> IndexGenerator \<Rightarrow> bool \<times> IndexGenerator" where
  "init_exchange seed g = (if ig_lfsr g = 0 then (True, g\<lparr>ig_lfsr := seed\<rparr>) else (False, g))"

definition init_store_mask :: "u32 \<Rightarrow> IndexGenerator \<Rightarrow> IndexGenerator" where
  "init_store_mask msk g = g\<lparr>ig_mask := msk\<rparr>"

definition initialize ::
  "('r \<Rightarrow> u32 \<times> 'r) \<Rightarrow> 'r \<Rightarrow> IndexGenerator \<Rightarrow> (IndexGenerator \<times> 'r) option" where
  "initialize next_u32 rng g =
     (if ig_lfsr g \<noteq> 0 then Some (g, rng)
      else case random_index next_u32 rng of
        None \<Rightarrow> None
      | Some (seed, rng1) \<Rightarrow>
          (case random_index next_u32 rng1 of
             None \<Rightarrow> None
           | Some (msk, rng2) \<Rightarrow>
               (case init_exchange seed g of (ok, g1) \<Rightarrow>
                  Some (if ok then init_store_mask msk g1 else g1, rng2))))"

definition lfsr_step :: "u32 \<Rightarrow> u32" where
  "lfsr_step state = drop_bit 1 state XOR ((0 - (state AND 1)) AND LFSR_POLY)"

definition index_value :: "u32 \<Rightarrow> u32 \<Rightarrow> u32" where
  "index_value msk current =
     (let index = ((current - 1) XOR msk) AND LFSR_MAX
      in if index = 0 then LFSR_MAX XOR msk else index)"

definition new_index :: "IndexGenerator \<Rightarrow> (u32 \<times> IndexGenerator) run" where
  "new_index g =
     (if ig_lfsr g = 0 then Panic
      else if ig_remaining g = 0 then Panic
      else Ret (index_value (ig_mask g) (ig_lfsr g),
                g\<lparr>ig_remaining := ig_remaining g - 1, ig_lfsr := lfsr_step (ig_lfsr g)\<rparr>))"

text \<open>A sequence of calls.\<close>

primrec new_indices :: "nat \<Rightarrow> IndexGenerator \<Rightarrow> (u32 list \<times> IndexGenerator) run" where
  "new_indices 0 g = Ret ([], g)"
| "new_indices (Suc n) g =
     run_bind (new_index g) (\<lambda>(i, g1). run_bind (new_indices n g1) (\<lambda>(is, g2). Ret (i # is, g2)))"

section \<open>States as vectors\<close>

definition lfsr_vec :: "u32 \<Rightarrow> bool list" where
  "lfsr_vec s = map (bit s) [0..<24]"

lemma length_lfsr_vec [simp]: "length (lfsr_vec s) = 24"
  by (simp add: lfsr_vec_def)

lemma LFSR_MAX_mask: "LFSR_MAX = mask 24"
  by (simp add: LFSR_MAX_def mask_eq_exp_minus_1)

lemma le_LFSR_MAX_iff: "s \<le> LFSR_MAX \<longleftrightarrow> (\<forall>n \<ge> 24. \<not> bit s n)"
proof -
  have "s \<le> LFSR_MAX \<longleftrightarrow> unat s < 2 ^ 24" by (simp add: LFSR_MAX_def word_le_nat_alt) linarith
  also have "\<dots> \<longleftrightarrow> take_bit 24 (unat s) = unat s" by (simp add: take_bit_nat_eq_self_iff)
  also have "\<dots> \<longleftrightarrow> (\<forall>n. bit (unat s) n \<longrightarrow> n < 24)" by (auto simp: bit_eq_iff bit_take_bit_iff)
  also have "\<dots> \<longleftrightarrow> (\<forall>n \<ge> 24. \<not> bit s n)" by (auto simp: bit_unsigned_iff not_less [symmetric])
  finally show ?thesis .
qed

lemma lfsr_vec_inject:
  assumes "s \<le> LFSR_MAX" "t \<le> LFSR_MAX" "lfsr_vec s = lfsr_vec t"
  shows "s = t"
proof (rule bit_word_eqI)
  fix n :: nat
  show "bit s n \<longleftrightarrow> bit t n"
  proof (cases "n < 24")
    case True
    then have "lfsr_vec s ! n = bit s n" "lfsr_vec t ! n = bit t n" by (simp_all add: lfsr_vec_def)
    with assms(3) show ?thesis by simp
  qed (use assms(1,2) in \<open>simp add: le_LFSR_MAX_iff\<close>)
qed

lemma lfsr_vec_zero [simp]: "lfsr_vec 0 = vzero"
  by (auto intro!: nth_equalityI simp: lfsr_vec_def vzero_def)

lemma bit_lfsr_step: "bit (lfsr_step s) i \<longleftrightarrow> (bit s (Suc i) \<noteq> (odd s \<and> bit LFSR_POLY i))"
proof (cases "odd s")
  case True
  then have "s AND 1 = 1" by (simp add: and_one_eq odd_iff_mod_2_eq_one)
  then show ?thesis
    using True by (auto simp: lfsr_step_def bit_xor_iff bit_and_iff bit_drop_bit_eq LFSR_POLY_def)
next
  case False
  then have "s AND 1 = 0" by (simp add: and_one_eq even_iff_mod_2_eq_zero)
  then show ?thesis using False by (simp add: lfsr_step_def bit_xor_iff bit_drop_bit_eq)
qed

lemma poly_feedback:
  assumes "0 < i" "i < 24"
  shows "bit LFSR_POLY (i - 1) = feedback ! i"
proof -
  have "list_all (\<lambda>k. bit LFSR_POLY k = feedback ! Suc k) [0..<23]"
    by (simp add: upt_rec LFSR_POLY_def feedback_def)
  then have "bit LFSR_POLY k = feedback ! Suc k" if "k < 23" for k
    using that by (simp add: list_all_iff)
  from this [of "i - 1"] assms show ?thesis by simp
qed

lemma vmulx_lfsr_step:
  assumes "s \<le> LFSR_MAX"
  shows "vmulx (lfsr_vec (lfsr_step s)) = lfsr_vec s"
proof (rule nth_equalityI)
  fix i assume "i < length (vmulx (lfsr_vec (lfsr_step s)))"
  then have i: "i < 24" by simp
  have "\<not> bit s 24" using assms by (simp add: le_LFSR_MAX_iff)
  then have top: "lfsr_vec (lfsr_step s) ! 23 = odd s"
    using poly_feedback [of 23] by (simp add: lfsr_vec_def bit_lfsr_step LFSR_POLY_def)
  show "vmulx (lfsr_vec (lfsr_step s)) ! i = lfsr_vec s ! i"
  proof (cases "i = 0")
    case True
    then show ?thesis using top by (simp add: nth_vmulx feedback_def lfsr_vec_def bit_0)
  next
    case False
    then have "lfsr_vec (lfsr_step s) ! (i - 1) = (bit s i \<noteq> (odd s \<and> feedback ! i))"
      using i poly_feedback [of i] by (simp add: lfsr_vec_def bit_lfsr_step)
    then show ?thesis using False i top by (auto simp: nth_vmulx lfsr_vec_def)
  qed
qed simp

lemma lfsr_step_le: "s \<le> LFSR_MAX \<Longrightarrow> lfsr_step s \<le> LFSR_MAX"
proof -
  have "\<not> bit LFSR_POLY n" if "24 \<le> n" for n
  proof -
    have "LFSR_POLY \<le> LFSR_MAX" by (simp add: LFSR_POLY_def LFSR_MAX_def)
    then show ?thesis using that by (simp add: le_LFSR_MAX_iff)
  qed
  then show "s \<le> LFSR_MAX \<Longrightarrow> lfsr_step s \<le> LFSR_MAX"
    by (simp add: le_LFSR_MAX_iff bit_lfsr_step)
qed

lemma lfsr_step_nonzero:
  assumes "s \<le> LFSR_MAX" "s \<noteq> 0"
  shows "lfsr_step s \<noteq> 0"
proof
  assume "lfsr_step s = 0"
  then have "lfsr_vec s = lfsr_vec 0" using vmulx_lfsr_step [OF assms(1)] by simp
  then have "s = 0" by (rule lfsr_vec_inject [rotated 2]) (use assms(1) in \<open>simp_all add: LFSR_MAX_def\<close>)
  with assms(2) show False by simp
qed

lemma lfsr_pow_range: "s \<le> LFSR_MAX \<Longrightarrow> s \<noteq> 0 \<Longrightarrow> (lfsr_step ^^ k) s \<le> LFSR_MAX \<and> (lfsr_step ^^ k) s \<noteq> 0"
  by (induction k) (auto simp: lfsr_step_le lfsr_step_nonzero)

lemma vmulx_lfsr_pow:
  assumes "s \<le> LFSR_MAX" "s \<noteq> 0"
  shows "(vmulx ^^ k) (lfsr_vec ((lfsr_step ^^ k) s)) = lfsr_vec s"
proof (induction k)
  case (Suc k)
  then show ?case
    using vmulx_lfsr_step [of "(lfsr_step ^^ k) s"] lfsr_pow_range [OF assms, of k] by (simp add: funpow_swap1)
qed simp

text \<open>Two states of the register are equal only a multiple of the period apart.\<close>

lemma lfsr_states_distinct:
  assumes s: "s \<le> LFSR_MAX" "s \<noteq> 0" and "i < j" "j < i + PERIOD"
  shows "(lfsr_step ^^ i) s \<noteq> (lfsr_step ^^ j) s"
proof
  let ?a = "(lfsr_step ^^ i) s"
  assume eq: "?a = (lfsr_step ^^ j) s"
  have a: "?a \<le> LFSR_MAX" "?a \<noteq> 0" using lfsr_pow_range [OF s] by auto
  have "(lfsr_step ^^ j) s = (lfsr_step ^^ (j - i)) ?a"
    using assms(3) funpow_add [of "j - i" i lfsr_step] by simp
  with eq vmulx_lfsr_pow [OF a, of "j - i"] have "(vmulx ^^ (j - i)) (lfsr_vec ?a) = lfsr_vec ?a" by simp
  moreover have "lfsr_vec ?a \<noteq> vzero"
    using lfsr_vec_inject [of ?a 0] a by (auto simp: LFSR_MAX_def)
  ultimately have "PERIOD dvd j - i" by (intro period_exact) simp_all
  with assms(3,4) show False by (auto dest: dvd_imp_le)
qed

section \<open>Index values\<close>

lemma xor_le_MAX: "a \<le> LFSR_MAX \<Longrightarrow> b \<le> LFSR_MAX \<Longrightarrow> a XOR b \<le> LFSR_MAX"
  by (simp add: le_LFSR_MAX_iff bit_xor_iff)

lemma and_MAX:
  assumes "a \<le> LFSR_MAX"
  shows "a AND LFSR_MAX = a"
proof -
  have "\<not> bit a n" if "24 \<le> n" for n using assms that by (simp add: le_LFSR_MAX_iff)
  then show ?thesis
    unfolding LFSR_MAX_mask by (intro bit_word_eqI) (auto simp: bit_and_iff bit_mask_iff not_le [symmetric])
qed

lemma pred_le_MAX:
  assumes "c \<le> LFSR_MAX" "c \<noteq> 0"
  shows "c - 1 < LFSR_MAX"
proof -
  have "unat (c - 1) = unat c - 1" using assms(2) by (simp add: unat_minus_one)
  moreover have "0 < unat c" using assms(2) by (simp add: unat_gt_0)
  ultimately show ?thesis using assms(1) by (simp add: word_le_nat_alt word_less_nat_alt)
qed

lemma xor_zero_word: "(a :: u32) XOR b = 0 \<Longrightarrow> a = b"
  by (rule bit_word_eqI) (auto simp: bit_eq_iff bit_xor_iff)

lemma index_value_eq:
  assumes "c \<le> LFSR_MAX" "c \<noteq> 0" "m \<le> LFSR_MAX"
  shows "index_value m c = (if c - 1 = m then LFSR_MAX XOR m else (c - 1) XOR m)"
proof -
  have "c - 1 \<le> LFSR_MAX" using pred_le_MAX [OF assms(1,2)] by simp
  then have "((c - 1) XOR m) AND LFSR_MAX = (c - 1) XOR m"
    using assms(3) by (intro and_MAX xor_le_MAX)
  then show ?thesis by (auto simp: index_value_def Let_def dest: xor_zero_word)
qed

lemma xor_cancel_word:
  assumes "(a :: u32) XOR m = b XOR m"
  shows "a = b"
proof -
  have "(a XOR m) XOR m = (b XOR m) XOR m" using assms by simp
  then show ?thesis by (simp add: xor.assoc)
qed

lemma index_value_range:
  assumes c: "c \<le> LFSR_MAX" "c \<noteq> 0" and m: "m \<le> LFSR_MAX"
  shows "index_value m c \<noteq> 0 \<and> index_value m c \<le> LFSR_MAX"
proof -
  have lt: "c - 1 < LFSR_MAX" by (rule pred_le_MAX [OF c])
  then have "LFSR_MAX XOR m \<noteq> 0" if "c - 1 = m" using that xor_zero_word [of LFSR_MAX m] by auto
  moreover have "(c - 1) XOR m \<noteq> 0" if "c - 1 \<noteq> m" using that xor_zero_word [of "c - 1" m] by auto
  ultimately show ?thesis
    using c m lt by (auto simp: index_value_eq intro: xor_le_MAX)
qed

lemma index_value_inject:
  assumes c: "c \<le> LFSR_MAX" "c \<noteq> 0" and d: "d \<le> LFSR_MAX" "d \<noteq> 0" and m: "m \<le> LFSR_MAX"
    and eq: "index_value m c = index_value m d"
  shows "c = d"
proof -
  have "c - 1 \<noteq> LFSR_MAX" "d - 1 \<noteq> LFSR_MAX" using pred_le_MAX [OF c] pred_le_MAX [OF d] by auto
  then have "c - 1 = d - 1"
    using eq c d m by (auto simp: index_value_eq split: if_splits dest: xor_cancel_word xor_cancel_word [OF sym])
  then show ?thesis by simp
qed

section \<open>Sequences of calls\<close>

definition ready :: "IndexGenerator \<Rightarrow> bool" where
  "ready g \<longleftrightarrow> ig_lfsr g \<noteq> 0 \<and> ig_lfsr g \<le> LFSR_MAX \<and> ig_mask g \<le> LFSR_MAX"

lemma new_index_ready: "ready g \<Longrightarrow> new_index g = Ret (i, g') \<Longrightarrow> ready g'"
  by (auto simp: ready_def new_index_def lfsr_step_le lfsr_step_nonzero split: if_splits)

lemma new_indices_eq:
  assumes "ready g" "n \<le> unat (ig_remaining g)"
  shows "new_indices n g =
    Ret (map (\<lambda>k. index_value (ig_mask g) ((lfsr_step ^^ k) (ig_lfsr g))) [0..<n],
         g\<lparr>ig_remaining := ig_remaining g - of_nat n, ig_lfsr := (lfsr_step ^^ n) (ig_lfsr g)\<rparr>)"
  using assms
proof (induction n arbitrary: g)
  case (Suc n)
  define g1 where "g1 = g\<lparr>ig_remaining := ig_remaining g - 1, ig_lfsr := lfsr_step (ig_lfsr g)\<rparr>"
  have nz: "ig_remaining g \<noteq> 0" using Suc.prems(2) by auto
  then have one: "new_index g = Ret (index_value (ig_mask g) (ig_lfsr g), g1)"
    using Suc.prems(1) by (simp add: new_index_def g1_def ready_def)
  have "unat (ig_remaining g - 1) = unat (ig_remaining g) - 1" using nz by (simp add: unat_minus_one)
  then have IH: "new_indices n g1 =
      Ret (map (\<lambda>k. index_value (ig_mask g1) ((lfsr_step ^^ k) (ig_lfsr g1))) [0..<n],
         g1\<lparr>ig_remaining := ig_remaining g1 - of_nat n, ig_lfsr := (lfsr_step ^^ n) (ig_lfsr g1)\<rparr>)"
    using Suc.prems(2) by (intro Suc.IH new_index_ready [OF Suc.prems(1) one]) (simp add: g1_def)
  have lst: "map f [0..<Suc n] = f 0 # map (\<lambda>k. f (Suc k)) [0..<n]" for f :: "nat \<Rightarrow> u32"
    by (simp add: upt_conv_Cons map_Suc_upt [symmetric] del: upt_Suc)
  have "new_indices (Suc n) g = run_bind (new_indices n g1) (\<lambda>(is, g2). Ret (index_value (ig_mask g) (ig_lfsr g) # is, g2))"
    by (simp add: one)
  then show ?case
    by (simp add: IH lst del: upt_Suc new_indices.simps) (simp add: g1_def funpow_swap1 algebra_simps)
qed simp

lemma new_indices_exhausted:
  assumes "ready g" "unat (ig_remaining g) < n"
  shows "new_indices n g = Panic"
  using assms
proof (induction n arbitrary: g)
  case (Suc n)
  show ?case
  proof (cases "ig_remaining g = 0")
    case True
    then show ?thesis by (simp add: new_index_def)
  next
    case False
    then have u: "unat (ig_remaining g - 1) = unat (ig_remaining g) - 1" "0 < unat (ig_remaining g)"
      by (simp_all add: unat_minus_one unat_gt_0)
    define g1 where "g1 = g\<lparr>ig_remaining := ig_remaining g - 1, ig_lfsr := lfsr_step (ig_lfsr g)\<rparr>"
    have one: "new_index g = Ret (index_value (ig_mask g) (ig_lfsr g), g1)"
      using Suc.prems(1) False by (simp add: new_index_def g1_def ready_def)
    have "new_indices n g1 = Panic"
      using Suc.prems(2) u by (intro Suc.IH new_index_ready [OF Suc.prems(1) one]) (simp add: g1_def)
    then show ?thesis by (simp add: one)
  qed
qed simp

lemma random_index_range:
  assumes "random_index next_u32 rng = Some r"
  shows "fst r \<noteq> 0 \<and> fst r \<le> LFSR_MAX"
proof (rule random_index.raw_induct [where P = "\<lambda>_ _ r. fst r \<noteq> 0 \<and> fst r \<le> LFSR_MAX", OF _ assms])
  fix f next_u32 and rng :: 'b and r :: "u32 \<times> 'b"
  assume IH: "\<And>n g y. f n g = Some y \<Longrightarrow> fst y \<noteq> 0 \<and> fst y \<le> LFSR_MAX"
    and eq: "(case next_u32 rng of (x, rng') \<Rightarrow>
      let val = x AND LFSR_MAX in if val \<noteq> 0 then Some (val, rng') else f next_u32 rng') = Some r"
  have "x AND LFSR_MAX \<le> LFSR_MAX" for x :: u32
    by (simp add: word_and_le1)
  with eq show "fst r \<noteq> 0 \<and> fst r \<le> LFSR_MAX"
    by (cases "next_u32 rng") (auto simp: Let_def split: if_splits dest: IH)
qed

text \<open>A generator that gives a value with a non-zero low part within \<open>n\<close> draws is enough.\<close>

lemma random_index_returns:
  assumes "fst (next_u32 (((\<lambda>r. snd (next_u32 r)) ^^ n) rng)) AND LFSR_MAX \<noteq> 0"
  shows "\<exists>r. random_index next_u32 rng = Some r"
  using assms
proof (induction n arbitrary: rng)
  case 0
  then show ?case by (subst random_index.simps) (cases "next_u32 rng"; simp add: Let_def)
next
  case (Suc n)
  then have "\<exists>r. random_index next_u32 (snd (next_u32 rng)) = Some r"
    by (intro Suc.IH) (use Suc.prems in \<open>simp add: funpow_Suc_right del: funpow.simps\<close>)
  then show ?case by (subst random_index.simps) (cases "next_u32 rng"; simp add: Let_def)
qed

lemma initialize_ready:
  assumes "initialize next_u32 rng index_generator_new = Some (g, rng')"
  shows "ready g \<and> ig_remaining g = LFSR_MAX"
proof -
  obtain seed msk rng1 where r: "random_index next_u32 rng = Some (seed, rng1)"
      "random_index next_u32 rng1 = Some (msk, rng')"
    and g: "g = index_generator_new\<lparr>ig_lfsr := seed, ig_mask := msk\<rparr>"
    using assms by (auto simp: initialize_def init_exchange_def init_store_mask_def index_generator_new_def split: option.splits prod.splits)
  then show ?thesis
    using random_index_range [OF r(1)] random_index_range [OF r(2)]
    by (simp add: ready_def index_generator_new_def)
qed

lemma unat_LFSR_MAX: "unat LFSR_MAX = PERIOD"
  by (simp add: LFSR_MAX_def PERIOD_def)

lemma ready_indices_distinct:
  assumes g: "ready g" and n: "n \<le> PERIOD"
  shows "distinct (map (\<lambda>k. index_value (ig_mask g) ((lfsr_step ^^ k) (ig_lfsr g))) [0..<n])"
  unfolding distinct_map
proof (intro conjI inj_onI)
  fix i j assume "i \<in> set [0..<n]" "j \<in> set [0..<n]"
    and eq: "index_value (ig_mask g) ((lfsr_step ^^ i) (ig_lfsr g)) = index_value (ig_mask g) ((lfsr_step ^^ j) (ig_lfsr g))"
  then have ij: "i < n" "j < n" by simp_all
  have s: "ig_lfsr g \<le> LFSR_MAX" "ig_lfsr g \<noteq> 0" "ig_mask g \<le> LFSR_MAX" using g by (simp_all add: ready_def)
  have "(lfsr_step ^^ i) (ig_lfsr g) = (lfsr_step ^^ j) (ig_lfsr g)"
    by (rule index_value_inject [OF _ _ _ _ s(3) eq]) (simp_all add: lfsr_pow_range [OF s(1,2)])
  then show "i = j"
    using lfsr_states_distinct [OF s(1,2), of i j] lfsr_states_distinct [OF s(1,2), of j i] ij n
    by (cases i j rule: linorder_cases) simp_all
qed simp

section \<open>Concurrent callers\<close>

text \<open>
  Each call of \<open>new_index\<close> is a sequence of atomic accesses; \<open>caller\<close> is where one call stands.
  \<open>cs_log\<close> is a ghost: the calls whose compare-exchange succeeded, in order, with the state they took.
\<close>

datatype caller = Idle | Checked | Counted | Loaded u32 | Claimed u32 | Returned u32 | Panicked

record call_state =
  cs_gen :: IndexGenerator
  cs_callers :: "nat \<Rightarrow> caller"
  cs_log :: "(nat \<times> u32) list"

inductive call_step :: "call_state \<Rightarrow> call_state \<Rightarrow> bool" where
  check_ok: "cs_callers s t = Idle \<Longrightarrow> ig_lfsr (cs_gen s) \<noteq> 0 \<Longrightarrow>
    call_step s (s\<lparr>cs_callers := (cs_callers s)(t := Checked)\<rparr>)"
| check_panic: "cs_callers s t = Idle \<Longrightarrow> ig_lfsr (cs_gen s) = 0 \<Longrightarrow>
    call_step s (s\<lparr>cs_callers := (cs_callers s)(t := Panicked)\<rparr>)"
| count_ok: "cs_callers s t = Checked \<Longrightarrow> ig_remaining (cs_gen s) \<noteq> 0 \<Longrightarrow>
    call_step s (s\<lparr>cs_callers := (cs_callers s)(t := Counted),
                   cs_gen := (cs_gen s)\<lparr>ig_remaining := ig_remaining (cs_gen s) - 1\<rparr>\<rparr>)"
| count_panic: "cs_callers s t = Checked \<Longrightarrow> ig_remaining (cs_gen s) = 0 \<Longrightarrow>
    call_step s (s\<lparr>cs_callers := (cs_callers s)(t := Panicked)\<rparr>)"
| load: "cs_callers s t = Counted \<Longrightarrow>
    call_step s (s\<lparr>cs_callers := (cs_callers s)(t := Loaded (ig_lfsr (cs_gen s)))\<rparr>)"
| exchange_ok: "cs_callers s t = Loaded c \<Longrightarrow> ig_lfsr (cs_gen s) = c \<Longrightarrow>
    call_step s (s\<lparr>cs_callers := (cs_callers s)(t := Claimed c),
                   cs_gen := (cs_gen s)\<lparr>ig_lfsr := lfsr_step c\<rparr>,
                   cs_log := cs_log s @ [(t, c)]\<rparr>)"
| exchange_fail: "cs_callers s t = Loaded c \<Longrightarrow>
    call_step s (s\<lparr>cs_callers := (cs_callers s)(t := Counted)\<rparr>)"
| mask_load: "cs_callers s t = Claimed c \<Longrightarrow>
    call_step s (s\<lparr>cs_callers := (cs_callers s)(t := Returned (index_value (ig_mask (cs_gen s)) c))\<rparr>)"

inductive_cases call_stepE: "call_step s s'"

definition calls_start :: "IndexGenerator \<Rightarrow> call_state" where
  "calls_start g = \<lparr>cs_gen = g, cs_callers = \<lambda>_. Idle, cs_log = []\<rparr>"

fun is_counted :: "caller \<Rightarrow> bool" where
  "is_counted Idle = False"
| "is_counted Checked = False"
| "is_counted Panicked = False"
| "is_counted _ = True"

fun is_claimed :: "caller \<Rightarrow> bool" where
  "is_claimed (Claimed _) = True"
| "is_claimed (Returned _) = True"
| "is_claimed _ = False"

definition counted_calls :: "call_state \<Rightarrow> nat set" where
  "counted_calls s = {t. is_counted (cs_callers s t)}"

definition calls_inv :: "IndexGenerator \<Rightarrow> call_state \<Rightarrow> bool" where
  "calls_inv g s \<longleftrightarrow>
     ig_mask (cs_gen s) = ig_mask g \<and>
     ig_lfsr (cs_gen s) = (lfsr_step ^^ length (cs_log s)) (ig_lfsr g) \<and>
     map snd (cs_log s) = map (\<lambda>k. (lfsr_step ^^ k) (ig_lfsr g)) [0..<length (cs_log s)] \<and>
     distinct (map fst (cs_log s)) \<and>
     (\<forall>t. is_claimed (cs_callers s t) \<longleftrightarrow> t \<in> fst ` set (cs_log s)) \<and>
     (\<forall>t c. cs_callers s t = Claimed c \<longrightarrow> (t, c) \<in> set (cs_log s)) \<and>
     (\<forall>t i. cs_callers s t = Returned i \<longrightarrow> (\<exists>c. (t, c) \<in> set (cs_log s) \<and> i = index_value (ig_mask g) c)) \<and>
     finite (counted_calls s) \<and>
     card (counted_calls s) + unat (ig_remaining (cs_gen s)) = unat (ig_remaining g)"

lemma calls_inv_start: "calls_inv g (calls_start g)"
  by (simp add: calls_inv_def calls_start_def counted_calls_def)

lemma counted_calls_upd:
  "counted_calls (s\<lparr>cs_callers := (cs_callers s)(t := p)\<rparr>) =
     (if is_counted p then insert t (counted_calls s) else counted_calls s - {t})"
  "counted_calls (s\<lparr>cs_gen := h\<rparr>) = counted_calls s"
  "counted_calls (s\<lparr>cs_log := l\<rparr>) = counted_calls s"
  by (auto simp: counted_calls_def)

lemma unclaimed_unlogged: "calls_inv g s \<Longrightarrow> \<not> is_claimed (cs_callers s t) \<Longrightarrow> (t, c) \<notin> set (cs_log s)"
  unfolding calls_inv_def by (metis fst_conv imageI)

lemma calls_inv_step:
  assumes "call_step s s'" "calls_inv g s"
  shows "calls_inv g s'"
  using assms
proof (induction rule: call_step.induct)
  case (count_ok s t)
  then have "t \<notin> counted_calls s" by (simp add: counted_calls_def)
  moreover have "unat (ig_remaining (cs_gen s) - 1) = unat (ig_remaining (cs_gen s)) - 1"
    "0 < unat (ig_remaining (cs_gen s))"
    using count_ok(2) by (simp_all add: unat_minus_one unat_gt_0)
  moreover have "\<not> is_claimed (cs_callers s t)" using count_ok(1) by simp
  ultimately show ?case
    using count_ok unclaimed_unlogged [of g s t] by (auto simp: calls_inv_def counted_calls_upd)
next
  case (exchange_ok s t c)
  have t: "t \<in> counted_calls s" "\<not> is_claimed (cs_callers s t)"
    using exchange_ok(1) by (simp_all add: counted_calls_def)
  then have "t \<notin> fst ` set (cs_log s)" using exchange_ok(3) by (simp add: calls_inv_def)
  with t exchange_ok show ?case
    by (auto simp: calls_inv_def counted_calls_upd insert_absorb)
next
  case (mask_load s t c)
  then have "t \<in> counted_calls s" "is_claimed (cs_callers s t)" "(t, c) \<in> set (cs_log s)"
    by (simp_all add: counted_calls_def calls_inv_def)
  moreover from this have "\<exists>d. (t, d) \<in> set (cs_log s) \<and> index_value (ig_mask g) c = index_value (ig_mask g) d"
    by blast
  ultimately show ?case
    using mask_load by (auto simp: calls_inv_def counted_calls_upd insert_absorb)
next
  case (load s t)
  then have "t \<in> counted_calls s" "\<not> is_claimed (cs_callers s t)" by (simp_all add: counted_calls_def)
  with load unclaimed_unlogged [of g s t] show ?case by (auto simp: calls_inv_def counted_calls_upd insert_absorb)
next
  case (exchange_fail s t c)
  then have "t \<in> counted_calls s" "\<not> is_claimed (cs_callers s t)" by (simp_all add: counted_calls_def)
  with exchange_fail unclaimed_unlogged [of g s t] show ?case by (auto simp: calls_inv_def counted_calls_upd insert_absorb)
next
  case (check_ok s t)
  then have "t \<notin> counted_calls s" "\<not> is_claimed (cs_callers s t)" by (simp_all add: counted_calls_def)
  with check_ok unclaimed_unlogged [of g s t] show ?case by (auto simp: calls_inv_def counted_calls_upd)
next
  case (check_panic s t)
  then have "t \<notin> counted_calls s" "\<not> is_claimed (cs_callers s t)" by (simp_all add: counted_calls_def)
  with check_panic unclaimed_unlogged [of g s t] show ?case by (auto simp: calls_inv_def counted_calls_upd)
next
  case (count_panic s t)
  then have "t \<notin> counted_calls s" "\<not> is_claimed (cs_callers s t)" by (simp_all add: counted_calls_def)
  with count_panic unclaimed_unlogged [of g s t] show ?case by (auto simp: calls_inv_def counted_calls_upd)
qed

lemma calls_inv_reach: "call_step\<^sup>*\<^sup>* (calls_start g) s \<Longrightarrow> calls_inv g s"
  by (induction rule: rtranclp_induct) (auto intro: calls_inv_start calls_inv_step)

lemma calls_inv_logged:
  assumes inv: "calls_inv g s" and g: "ig_remaining g \<le> LFSR_MAX"
    and tu: "cs_callers s t = Returned i"
  obtains k where "k < length (cs_log s)" "k < PERIOD" "fst (cs_log s ! k) = t"
    "i = index_value (ig_mask g) ((lfsr_step ^^ k) (ig_lfsr g))"
proof -
  have "\<forall>t i. cs_callers s t = Returned i \<longrightarrow> (\<exists>c. (t, c) \<in> set (cs_log s) \<and> i = index_value (ig_mask g) c)"
    using inv by (simp add: calls_inv_def)
  then obtain c where "(t, c) \<in> set (cs_log s)" and i: "i = index_value (ig_mask g) c"
    using tu by blast
  then obtain k where k: "k < length (cs_log s)" "cs_log s ! k = (t, c)" by (auto simp: in_set_conv_nth)
  have "map snd (cs_log s) ! k = map (\<lambda>k. (lfsr_step ^^ k) (ig_lfsr g)) [0..<length (cs_log s)] ! k"
    using inv by (simp add: calls_inv_def)
  with k have c: "c = (lfsr_step ^^ k) (ig_lfsr g)" by simp
  have "is_counted p" if "is_claimed p" for p using that by (cases p) simp_all
  then have "fst ` set (cs_log s) \<subseteq> counted_calls s"
    using inv by (auto simp: calls_inv_def counted_calls_def)
  then have "card (fst ` set (cs_log s)) \<le> card (counted_calls s)"
    using inv by (intro card_mono) (simp_all add: calls_inv_def)
  moreover have "card (fst ` set (cs_log s)) = length (cs_log s)"
    using inv distinct_card [of "map fst (cs_log s)"] by (simp add: calls_inv_def)
  moreover have "card (counted_calls s) \<le> unat (ig_remaining g)" using inv by (simp add: calls_inv_def)
  moreover have "unat (ig_remaining g) \<le> PERIOD" using g unat_LFSR_MAX by (simp add: word_le_nat_alt)
  ultimately have "k < PERIOD" using k(1) by simp
  with k i c show ?thesis by (intro that [of k]) simp_all
qed

lemma calls_distinct:
  assumes inv: "calls_inv g s" and g: "ready g" "ig_remaining g \<le> LFSR_MAX"
    and t: "cs_callers s t = Returned i" and u: "cs_callers s u = Returned i"
  shows "t = u"
proof -
  obtain k where k: "k < PERIOD" "k < length (cs_log s)" "fst (cs_log s ! k) = t"
      "i = index_value (ig_mask g) ((lfsr_step ^^ k) (ig_lfsr g))"
    by (rule calls_inv_logged [OF inv g(2) t])
  obtain l where l: "l < PERIOD" "l < length (cs_log s)" "fst (cs_log s ! l) = u"
      "i = index_value (ig_mask g) ((lfsr_step ^^ l) (ig_lfsr g))"
    by (rule calls_inv_logged [OF inv g(2) u])
  have "map (\<lambda>k. index_value (ig_mask g) ((lfsr_step ^^ k) (ig_lfsr g))) [0..<PERIOD] ! k =
      map (\<lambda>k. index_value (ig_mask g) ((lfsr_step ^^ k) (ig_lfsr g))) [0..<PERIOD] ! l"
    using k l by simp
  then have "k = l"
    using nth_eq_iff_index_eq [OF ready_indices_distinct [OF g(1) order.refl], of k l] k(1) l(1) by simp
  with k l show ?thesis by simp
qed

section \<open>Properties\<close>

text \<open>From a fresh generator that \<open>initialize\<close> has seeded, any number of calls of \<open>new_index\<close> up to
  \<open>2^24 - 1\<close> returns that many peer indices, all distinct, non-zero and within 24 bits; one more call
  panics rather than repeating an index.\<close>

theorem new_index_unique:
  assumes "initialize next_u32 rng index_generator_new = Some (g, rng')"
  shows "(n \<le> 2 ^ 24 - 1 \<longrightarrow> (\<exists>is g'.
      new_indices n g = Ret (is, g') \<and> length is = n \<and> distinct is \<and> (\<forall>i \<in> set is. i \<noteq> 0 \<and> i \<le> LFSR_MAX))) \<and>
    (2 ^ 24 - 1 < n \<longrightarrow> new_indices n g = Panic)"
proof -
  have g: "ready g" "unat (ig_remaining g) = PERIOD" using initialize_ready [OF assms] unat_LFSR_MAX by simp_all
  have P: "PERIOD = 2 ^ 24 - 1" by (simp add: PERIOD_def)
  have s: "ig_lfsr g \<le> LFSR_MAX" "ig_lfsr g \<noteq> 0" "ig_mask g \<le> LFSR_MAX" using g(1) by (simp_all add: ready_def)
  show ?thesis
  proof (cases "n \<le> PERIOD")
    case True
    let ?is = "map (\<lambda>k. index_value (ig_mask g) ((lfsr_step ^^ k) (ig_lfsr g))) [0..<n]"
    have "\<forall>i \<in> set ?is. i \<noteq> 0 \<and> i \<le> LFSR_MAX"
      using lfsr_pow_range [OF s(1,2)] index_value_range s(3) by auto
    with True g P new_indices_eq [of g n] ready_indices_distinct [of g n] show ?thesis
      by (intro conjI impI exI [of _ ?is] exI) simp_all
  next
    case False
    with g P new_indices_exhausted [of g n] show ?thesis by simp
  qed
qed

text \<open>A generator of random words that never gives a zero, for the examples below.\<close>

lemma initialize_example:
  "initialize (\<lambda>r. (r, r + 1)) (5 :: u32) index_generator_new =
     Some (\<lparr>ig_lfsr = 5, ig_remaining = LFSR_MAX, ig_mask = 6\<rparr>, 7)"
  by (simp add: initialize_def init_exchange_def init_store_mask_def index_generator_new_def
      random_index.simps LFSR_MAX_def)

theorem new_index_unique_witness:
  "\<exists>is g. new_indices 2 \<lparr>ig_lfsr = 5, ig_remaining = LFSR_MAX, ig_mask = 6\<rparr> = Ret (is, g) \<and> length is = 2 \<and> distinct is"
proof -
  have "(2 :: nat) \<le> 2 ^ 24 - 1" by simp
  then show ?thesis using new_index_unique [OF initialize_example, of 2] by blast
qed

text \<open>C31. The calls of \<open>new_index\<close> may run concurrently, interleaved at every atomic access: whatever the
  schedule, two calls on a seeded generator that have both returned have different indices.\<close>

theorem new_index_concurrent_unique:
  assumes "initialize next_u32 rng index_generator_new = Some (g, rng')"
    and "call_step\<^sup>*\<^sup>* (calls_start g) s"
    and "cs_callers s t = Returned i" and "cs_callers s u = Returned j" and "t \<noteq> u"
  shows "i \<noteq> j"
  using initialize_ready [OF assms(1)] calls_distinct [OF calls_inv_reach [OF assms(2)] _ _ assms(3)] assms(4,5)
  by auto

text \<open>Two callers that both load the first state; the second to exchange retries.\<close>

definition race_gen :: IndexGenerator where
  "race_gen = \<lparr>ig_lfsr = 5, ig_remaining = LFSR_MAX, ig_mask = 6\<rparr>"

lemma call_more: "call_step\<^sup>*\<^sup>* a b \<Longrightarrow> call_step b c \<Longrightarrow> call_step\<^sup>*\<^sup>* a c"
  by (rule rtranclp.rtrancl_into_rtrancl)

lemma race_example:
  "\<exists>s. call_step\<^sup>*\<^sup>* (calls_start race_gen) s \<and> cs_callers s 0 = Returned (index_value 6 5) \<and>
       cs_callers s 1 = Returned (index_value 6 (lfsr_step 5))"
proof -
  let ?f = "\<lambda>m r c l. \<lparr>cs_gen = \<lparr>ig_lfsr = m, ig_remaining = r, ig_mask = 6\<rparr>, cs_callers = c, cs_log = l\<rparr>"
  define c0 :: "nat \<Rightarrow> caller" where "c0 = (\<lambda>_. Idle)"
  have lfsr: "lfsr_step 5 \<noteq> 0" by (simp add: lfsr_step_def LFSR_POLY_def)
  have rem: "LFSR_MAX \<noteq> 0" "LFSR_MAX - 1 \<noteq> 0" by (simp_all add: LFSR_MAX_def)
  have 1: "call_step (?f 5 LFSR_MAX c0 []) (?f 5 LFSR_MAX (c0(0 := Checked)) [])"
    using check_ok [of "?f 5 LFSR_MAX c0 []" 0] by (simp add: c0_def)
  have 2: "call_step (?f 5 LFSR_MAX (c0(0 := Checked)) []) (?f 5 (LFSR_MAX - 1) (c0(0 := Counted)) [])"
    using count_ok [of "?f 5 LFSR_MAX (c0(0 := Checked)) []" 0] rem by simp
  have 3: "call_step (?f 5 (LFSR_MAX - 1) (c0(0 := Counted)) []) (?f 5 (LFSR_MAX - 1) (c0(0 := Loaded 5)) [])"
    using load [of "?f 5 (LFSR_MAX - 1) (c0(0 := Counted)) []" 0] by simp
  have 4: "call_step (?f 5 (LFSR_MAX - 1) (c0(0 := Loaded 5)) []) (?f 5 (LFSR_MAX - 1) (c0(0 := Loaded 5, 1 := Checked)) [])"
    using check_ok [of "?f 5 (LFSR_MAX - 1) (c0(0 := Loaded 5)) []" 1] by (simp add: c0_def)
  have 5: "call_step (?f 5 (LFSR_MAX - 1) (c0(0 := Loaded 5, 1 := Checked)) []) (?f 5 (LFSR_MAX - 1 - 1) (c0(0 := Loaded 5, 1 := Counted)) [])"
    using count_ok [of "?f 5 (LFSR_MAX - 1) (c0(0 := Loaded 5, 1 := Checked)) []" 1] rem by simp
  let ?r = "LFSR_MAX - 1 - 1"
  have 6: "call_step (?f 5 ?r (c0(0 := Loaded 5, 1 := Counted)) []) (?f 5 ?r (c0(0 := Loaded 5, 1 := Loaded 5)) [])"
    using load [of "?f 5 ?r (c0(0 := Loaded 5, 1 := Counted)) []" 1] by simp
  have 7: "call_step (?f 5 ?r (c0(0 := Loaded 5, 1 := Loaded 5)) []) (?f (lfsr_step 5) ?r (c0(0 := Claimed 5, 1 := Loaded 5)) [(0, 5)])"
    using exchange_ok [of "?f 5 ?r (c0(0 := Loaded 5, 1 := Loaded 5)) []" 0 5] by (simp add: fun_upd_twist)
  have 8: "call_step (?f (lfsr_step 5) ?r (c0(0 := Claimed 5, 1 := Loaded 5)) [(0, 5)]) (?f (lfsr_step 5) ?r (c0(0 := Claimed 5, 1 := Counted)) [(0, 5)])"
    using exchange_fail [of "?f (lfsr_step 5) ?r (c0(0 := Claimed 5, 1 := Loaded 5)) [(0, 5)]" 1 5] by simp
  have 9: "call_step (?f (lfsr_step 5) ?r (c0(0 := Claimed 5, 1 := Counted)) [(0, 5)]) (?f (lfsr_step 5) ?r (c0(0 := Claimed 5, 1 := Loaded (lfsr_step 5))) [(0, 5)])"
    using load [of "?f (lfsr_step 5) ?r (c0(0 := Claimed 5, 1 := Counted)) [(0, 5)]" 1] by simp
  let ?l = "[(0, 5), (1, lfsr_step 5)]"
  let ?m = "lfsr_step (lfsr_step 5)"
  have 10: "call_step (?f (lfsr_step 5) ?r (c0(0 := Claimed 5, 1 := Loaded (lfsr_step 5))) [(0, 5)]) (?f ?m ?r (c0(0 := Claimed 5, 1 := Claimed (lfsr_step 5))) ?l)"
    using exchange_ok [of "?f (lfsr_step 5) ?r (c0(0 := Claimed 5, 1 := Loaded (lfsr_step 5))) [(0, 5)]" 1 "lfsr_step 5"] by simp
  have 11: "call_step (?f ?m ?r (c0(0 := Claimed 5, 1 := Claimed (lfsr_step 5))) ?l) (?f ?m ?r (c0(0 := Claimed 5, 1 := Returned (index_value 6 (lfsr_step 5)))) ?l)"
    using mask_load [of "?f ?m ?r (c0(0 := Claimed 5, 1 := Claimed (lfsr_step 5))) ?l" 1 "lfsr_step 5"] by simp
  have 12: "call_step (?f ?m ?r (c0(0 := Claimed 5, 1 := Returned (index_value 6 (lfsr_step 5)))) ?l) (?f ?m ?r (c0(0 := Returned (index_value 6 5), 1 := Returned (index_value 6 (lfsr_step 5)))) ?l)"
    using mask_load [of "?f ?m ?r (c0(0 := Claimed 5, 1 := Returned (index_value 6 (lfsr_step 5)))) ?l" 0 5] by (simp add: fun_upd_twist)
  have start: "calls_start race_gen = ?f 5 LFSR_MAX c0 []" by (simp add: calls_start_def race_gen_def c0_def)
  have "call_step\<^sup>*\<^sup>* (calls_start race_gen) (?f ?m ?r (c0(0 := Returned (index_value 6 5), 1 := Returned (index_value 6 (lfsr_step 5)))) ?l)"
    unfolding start
    by (rule call_more, rule call_more, rule call_more, rule call_more, rule call_more, rule call_more,
        rule call_more, rule call_more, rule call_more, rule call_more, rule call_more, rule call_more,
        rule rtranclp.rtrancl_refl, rule 1, rule 2, rule 3, rule 4, rule 5, rule 6, rule 7, rule 8, rule 9,
        rule 10, rule 11, rule 12)
  then show ?thesis by (intro exI conjI, assumption) simp_all
qed

theorem new_index_concurrent_unique_witness:
  "index_value 6 5 \<noteq> index_value 6 (lfsr_step 5)"
proof -
  obtain s where "call_step\<^sup>*\<^sup>* (calls_start race_gen) s" "cs_callers s 0 = Returned (index_value 6 5)"
      "cs_callers s 1 = Returned (index_value 6 (lfsr_step 5))"
    using race_example by blast
  then show ?thesis
    by (rule new_index_concurrent_unique [OF initialize_example [folded race_gen_def]]) (rule zero_neq_one)
qed

text \<open>The mask is stored after the seed is visible. A call that runs between the two writes of
  \<open>initialize\<close> reads the mask 0, and the next call, after the store, can return the same index: the
  promise of a unique index fails for a generator that is being seeded.\<close>

theorem initialize_race_repeats_index:
  "\<exists>seed msk g1 i g2 g3. seed \<noteq> 0 \<and> seed \<le> LFSR_MAX \<and> msk \<noteq> 0 \<and> msk \<le> LFSR_MAX \<and>
     init_exchange seed index_generator_new = (True, g1) \<and>
     new_index g1 = Ret (i, g2) \<and> new_index (init_store_mask msk g2) = Ret (i, g3)"
  by (rule exI [of _ 2], rule exI [of _ 1])
    (simp add: init_exchange_def init_store_mask_def index_generator_new_def new_index_def index_value_def
      lfsr_step_def LFSR_MAX_def LFSR_POLY_def)

end
