(* ===== verification/Packets.thy ===== *)
theory Packets
  imports Prelude
begin

text \<open>
  The wire format of \<^verbatim>\<open>noise/mod.rs\<close>: the message types, the parsed packets
  and \<^verbatim>\<open>parse_incoming_packet\<close>, the first function that touches an incoming
  datagram.
\<close>

section \<open>Message types and sizes\<close>

definition HANDSHAKE_INIT :: u32 where "HANDSHAKE_INIT = 1"
definition HANDSHAKE_RESP :: u32 where "HANDSHAKE_RESP = 2"
definition COOKIE_REPLY :: u32 where "COOKIE_REPLY = 3"
definition DATA :: u32 where "DATA = 4"
definition RELAY_DATA :: u32 where "RELAY_DATA = 5"

definition HANDSHAKE_INIT_SZ :: nat where "HANDSHAKE_INIT_SZ = 148"
definition HANDSHAKE_RESP_SZ :: nat where "HANDSHAKE_RESP_SZ = 92"
definition COOKIE_REPLY_SZ :: nat where "COOKIE_REPLY_SZ = 64"
definition DATA_OVERHEAD_SZ :: nat where "DATA_OVERHEAD_SZ = 32"

lemmas message_consts =
  HANDSHAKE_INIT_def HANDSHAKE_RESP_def COOKIE_REPLY_def DATA_def RELAY_DATA_def
  HANDSHAKE_INIT_SZ_def HANDSHAKE_RESP_SZ_def COOKIE_REPLY_SZ_def DATA_OVERHEAD_SZ_def

section \<open>Parsed packets\<close>

record HandshakeInit =
  hi_sender_idx :: u32
  hi_unencrypted_ephemeral :: bytes
  hi_encrypted_static :: bytes
  hi_encrypted_timestamp :: bytes

record HandshakeResponse =
  hr_sender_idx :: u32
  hr_receiver_idx :: u32
  hr_unencrypted_ephemeral :: bytes
  hr_encrypted_nothing :: bytes

record CookieReply =
  cr_receiver_idx :: u32
  cr_nonce :: bytes
  cr_encrypted_cookie :: bytes

record Data =
  d_receiver_idx :: u32
  d_counter :: u64
  d_encrypted_encapsulated_packet :: bytes

datatype Packet =
    PHandshakeInit HandshakeInit
  | PHandshakeResponse HandshakeResponse
  | PCookieReply CookieReply
  | PData Data
  | PRelayData Data

section \<open>The parser\<close>

definition parse_incoming_packet :: "bytes \<Rightarrow> WireGuardError + Packet" where
  "parse_incoming_packet src =
     (if length src < 4 then Inl InvalidPacket
      else let packet_type = (from_le_bytes (slice 0 4 src) :: u32) in
        if packet_type = HANDSHAKE_INIT \<and> length src = HANDSHAKE_INIT_SZ then
          Inr (PHandshakeInit
            \<lparr>hi_sender_idx = from_le_bytes (slice 4 8 src),
             hi_unencrypted_ephemeral = slice 8 40 src,
             hi_encrypted_static = slice 40 88 src,
             hi_encrypted_timestamp = slice 88 116 src\<rparr>)
        else if packet_type = HANDSHAKE_RESP \<and> length src = HANDSHAKE_RESP_SZ then
          Inr (PHandshakeResponse
            \<lparr>hr_sender_idx = from_le_bytes (slice 4 8 src),
             hr_receiver_idx = from_le_bytes (slice 8 12 src),
             hr_unencrypted_ephemeral = slice 12 44 src,
             hr_encrypted_nothing = slice 44 60 src\<rparr>)
        else if packet_type = COOKIE_REPLY \<and> length src = COOKIE_REPLY_SZ then
          Inr (PCookieReply
            \<lparr>cr_receiver_idx = from_le_bytes (slice 4 8 src),
             cr_nonce = slice 8 32 src,
             cr_encrypted_cookie = slice 32 64 src\<rparr>)
        else if packet_type = DATA \<and> DATA_OVERHEAD_SZ \<le> length src then
          Inr (PData
            \<lparr>d_receiver_idx = from_le_bytes (slice 4 8 src),
             d_counter = from_le_bytes (slice 8 16 src),
             d_encrypted_encapsulated_packet = drop 16 src\<rparr>)
        else if packet_type = RELAY_DATA \<and> DATA_OVERHEAD_SZ \<le> length src then
          Inr (PRelayData
            \<lparr>d_receiver_idx = from_le_bytes (slice 4 8 src),
             d_counter = from_le_bytes (slice 8 16 src),
             d_encrypted_encapsulated_packet = drop 16 src\<rparr>)
        else Inl InvalidPacket)"

text \<open>The reference encoder: the layout a well-formed message of each type has on the
  wire. The two MAC fields of handshake messages are skipped by the parser (the rate
  limiter reads them from the datagram), so they are a separate argument.\<close>

fun packet_layout :: "Packet \<Rightarrow> bytes \<Rightarrow> bytes" where
  "packet_layout (PHandshakeInit p) macs =
     to_le_bytes 4 HANDSHAKE_INIT @ to_le_bytes 4 (hi_sender_idx p) @ hi_unencrypted_ephemeral p @
     hi_encrypted_static p @ hi_encrypted_timestamp p @ macs"
| "packet_layout (PHandshakeResponse p) macs =
     to_le_bytes 4 HANDSHAKE_RESP @ to_le_bytes 4 (hr_sender_idx p) @ to_le_bytes 4 (hr_receiver_idx p) @
     hr_unencrypted_ephemeral p @ hr_encrypted_nothing p @ macs"
| "packet_layout (PCookieReply p) macs =
     to_le_bytes 4 COOKIE_REPLY @ to_le_bytes 4 (cr_receiver_idx p) @ cr_nonce p @ cr_encrypted_cookie p"
| "packet_layout (PData p) macs =
     to_le_bytes 4 DATA @ to_le_bytes 4 (d_receiver_idx p) @ to_le_bytes 8 (d_counter p) @
     d_encrypted_encapsulated_packet p"
| "packet_layout (PRelayData p) macs =
     to_le_bytes 4 RELAY_DATA @ to_le_bytes 4 (d_receiver_idx p) @ to_le_bytes 8 (d_counter p) @
     d_encrypted_encapsulated_packet p"

text \<open>The field sizes of each packet and of its MAC trailer.\<close>

fun packet_wf :: "Packet \<Rightarrow> bytes \<Rightarrow> bool" where
  "packet_wf (PHandshakeInit p) macs \<longleftrightarrow>
     length (hi_unencrypted_ephemeral p) = 32 \<and> length (hi_encrypted_static p) = 48 \<and>
     length (hi_encrypted_timestamp p) = 28 \<and> length macs = 32"
| "packet_wf (PHandshakeResponse p) macs \<longleftrightarrow>
     length (hr_unencrypted_ephemeral p) = 32 \<and> length (hr_encrypted_nothing p) = 16 \<and> length macs = 32"
| "packet_wf (PCookieReply p) macs \<longleftrightarrow>
     length (cr_nonce p) = 24 \<and> length (cr_encrypted_cookie p) = 32 \<and> macs = []"
| "packet_wf (PData p) macs \<longleftrightarrow> 16 \<le> length (d_encrypted_encapsulated_packet p) \<and> macs = []"
| "packet_wf (PRelayData p) macs \<longleftrightarrow> 16 \<le> length (d_encrypted_encapsulated_packet p) \<and> macs = []"

lemma parse_layout:
  assumes "packet_wf p macs"
  shows "parse_incoming_packet (packet_layout p macs) = Inr p"
  using assms
  by (cases p) (auto simp: parse_incoming_packet_def Let_def message_consts slice_simps)

text \<open>Conversely, a parsed datagram is the layout of what was parsed from it.\<close>

lemma type_and_index:
  assumes "8 \<le> length src"
  shows "src = to_le_bytes 4 (from_le_bytes (slice 0 4 src) :: u32) @
    to_le_bytes 4 (from_le_bytes (slice 4 8 src) :: u32) @ drop 8 src"
  using assms slice_split [of 0 4 src] slice_split [of 4 8 src] by (simp add: to_le_slice)

lemma layout_parse_init:
  assumes "parse_incoming_packet src = Inr (PHandshakeInit q)"
  shows "packet_wf (PHandshakeInit q) (drop 116 src) \<and> src = packet_layout (PHandshakeInit q) (drop 116 src)"
proof -
  have l: "length src = 148" and t: "from_le_bytes (slice 0 4 src) = HANDSHAKE_INIT"
    and q: "q = \<lparr>hi_sender_idx = from_le_bytes (slice 4 8 src), hi_unencrypted_ephemeral = slice 8 40 src,
      hi_encrypted_static = slice 40 88 src, hi_encrypted_timestamp = slice 88 116 src\<rparr>"
    using assms by (auto simp: parse_incoming_packet_def Let_def HANDSHAKE_INIT_SZ_def split: if_splits)
  have "drop 8 src = slice 8 40 src @ slice 40 88 src @ slice 88 116 src @ drop 116 src"
    using slice_split [of 8 40 src] slice_split [of 40 88 src] slice_split [of 88 116 src] by simp
  then show ?thesis using type_and_index [of src] t q l by simp
qed

lemma layout_parse_resp:
  assumes "parse_incoming_packet src = Inr (PHandshakeResponse q)"
  shows "packet_wf (PHandshakeResponse q) (drop 60 src) \<and> src = packet_layout (PHandshakeResponse q) (drop 60 src)"
proof -
  have l: "length src = 92" and t: "from_le_bytes (slice 0 4 src) = HANDSHAKE_RESP"
    and q: "q = \<lparr>hr_sender_idx = from_le_bytes (slice 4 8 src), hr_receiver_idx = from_le_bytes (slice 8 12 src),
      hr_unencrypted_ephemeral = slice 12 44 src, hr_encrypted_nothing = slice 44 60 src\<rparr>"
    using assms by (auto simp: parse_incoming_packet_def Let_def HANDSHAKE_RESP_SZ_def split: if_splits)
  have "drop 8 src = slice 8 12 src @ slice 12 44 src @ slice 44 60 src @ drop 60 src"
    using slice_split [of 8 12 src] slice_split [of 12 44 src] slice_split [of 44 60 src] by simp
  then show ?thesis using type_and_index [of src] t q l by (simp add: to_le_slice)
qed

lemma layout_parse_cookie:
  assumes "parse_incoming_packet src = Inr (PCookieReply q)"
  shows "packet_wf (PCookieReply q) [] \<and> src = packet_layout (PCookieReply q) []"
proof -
  have l: "length src = 64" and t: "from_le_bytes (slice 0 4 src) = COOKIE_REPLY"
    and q: "q = \<lparr>cr_receiver_idx = from_le_bytes (slice 4 8 src), cr_nonce = slice 8 32 src,
      cr_encrypted_cookie = slice 32 64 src\<rparr>"
    using assms by (auto simp: parse_incoming_packet_def Let_def COOKIE_REPLY_SZ_def split: if_splits)
  have "drop 8 src = slice 8 32 src @ slice 32 64 src"
    using slice_split [of 8 32 src] slice_split [of 32 64 src] l by simp
  then show ?thesis using type_and_index [of src] t q l by simp
qed

lemma layout_parse_data:
  assumes "parse_incoming_packet src = Inr p" and "p = PData q \<or> p = PRelayData q"
  shows "packet_wf p [] \<and> src = packet_layout p []"
proof -
  have l: "32 \<le> length src"
    and t: "from_le_bytes (slice 0 4 src) = (if p = PData q then DATA else RELAY_DATA)"
    and q: "q = \<lparr>d_receiver_idx = from_le_bytes (slice 4 8 src), d_counter = from_le_bytes (slice 8 16 src),
      d_encrypted_encapsulated_packet = drop 16 src\<rparr>"
    using assms by (auto simp: parse_incoming_packet_def Let_def DATA_OVERHEAD_SZ_def split: if_splits)
  have "drop 8 src = slice 8 16 src @ drop 16 src" by (rule slice_split) simp
  then show ?thesis using type_and_index [of src] assms(2) t q l by (auto simp: to_le_slice)
qed

lemma layout_parse:
  assumes "parse_incoming_packet src = Inr p"
  shows "\<exists>macs. packet_wf p macs \<and> src = packet_layout p macs"
  using assms layout_parse_init layout_parse_resp layout_parse_cookie layout_parse_data
  by (cases p) metis+

text \<open>C27. The parser is exact: it returns a packet \<open>p\<close> if and only if the datagram is the wire
  layout of \<open>p\<close> with the field sizes of its type (and a MAC trailer for handshake messages);
  so the encoding round-trips for all five types and nothing else is accepted.\<close>

theorem parse_incoming_packet_exact:
  "parse_incoming_packet src = Inr p \<longleftrightarrow> (\<exists>macs. packet_wf p macs \<and> src = packet_layout p macs)"
  using layout_parse parse_layout by blast

end
