(* ===== verification/Replay_Window.thy ===== *)
theory Replay_Window
  imports Prelude
begin

text \<open>
  The anti-replay window of a session: \<^verbatim>\<open>ReceivingKeyCounterValidator\<close> of
  \<^verbatim>\<open>noise/session.rs\<close>, a 256-bit ring bitmap over the receive counters with the
  next expected counter. Counters are \<^verbatim>\<open>u64\<close> words; the loop that clears whole
  words is a \<^theory_text>\<open>partial_function\<close> because on counters near \<open>2 ^ 64\<close> its
  index wraps around, and the caller's guard (\<open>REJECT_AFTER_MESSAGES\<close>) is what makes
  it return.

  The specification is the set of counters accepted so far. The refinement theorem
  says that the bitmap decides membership of that set exactly on the window of the
  256 counters before \<open>next\<close>; replay safety and the absence of false rejections
  follow.
\<close>

section \<open>The validator\<close>

definition REJECT_AFTER_MESSAGES :: u64 where
  "REJECT_AFTER_MESSAGES = - 1 - (push_bit 16 1) - 1"

definition WORD_SIZE :: u64 where "WORD_SIZE = 64"
definition N_WORDS :: u64 where "N_WORDS = 4"
definition N_BITS :: u64 where "N_BITS = WORD_SIZE * N_WORDS"

record ReceivingKeyCounterValidator =
  rk_next :: u64
  rk_receive_cnt :: u64
  rk_bitmap :: "u64 list"

definition validator_default :: ReceivingKeyCounterValidator where
  "validator_default = \<lparr>rk_next = 0, rk_receive_cnt = 0, rk_bitmap = replicate (unat N_WORDS) 0\<rparr>"

definition validator_set_bit :: "u64 \<Rightarrow> ReceivingKeyCounterValidator \<Rightarrow> ReceivingKeyCounterValidator" where
  "validator_set_bit idx v =
     (let bit_idx = idx mod N_BITS;
          w = unat (bit_idx div WORD_SIZE);
          b = unat (bit_idx mod WORD_SIZE)
      in v\<lparr>rk_bitmap := (rk_bitmap v)[w := rk_bitmap v ! w OR push_bit b 1]\<rparr>)"

definition validator_clear_bit :: "u64 \<Rightarrow> ReceivingKeyCounterValidator \<Rightarrow> ReceivingKeyCounterValidator" where
  "validator_clear_bit idx v =
     (let bit_idx = idx mod N_BITS;
          w = unat (bit_idx div WORD_SIZE);
          b = unat (bit_idx mod WORD_SIZE)
      in v\<lparr>rk_bitmap := (rk_bitmap v)[w := rk_bitmap v ! w AND NOT (push_bit b 1)]\<rparr>)"

definition validator_clear_word :: "u64 \<Rightarrow> ReceivingKeyCounterValidator \<Rightarrow> ReceivingKeyCounterValidator" where
  "validator_clear_word idx v =
     (let bit_idx = idx mod N_BITS; w = unat (bit_idx div WORD_SIZE)
      in v\<lparr>rk_bitmap := (rk_bitmap v)[w := 0]\<rparr>)"

definition validator_check_bit :: "u64 \<Rightarrow> ReceivingKeyCounterValidator \<Rightarrow> bool" where
  "validator_check_bit idx v =
     (let bit_idx = idx mod N_BITS;
          w = unat (bit_idx div WORD_SIZE);
          b = unat (bit_idx mod WORD_SIZE)
      in drop_bit b (rk_bitmap v ! w) AND 1 = 1)"

definition will_accept :: "u64 \<Rightarrow> ReceivingKeyCounterValidator \<Rightarrow> WireGuardError + unit" where
  "will_accept counter v =
     (if counter \<ge> rk_next v then Inr ()
      else if counter + N_BITS < rk_next v then Inl InvalidCounter
      else if \<not> validator_check_bit counter v then Inr ()
      else Inl DuplicateCounter)"

text \<open>The three clearing loops of \<^verbatim>\<open>mark_did_receive\<close>; each returns the index it
  stopped at and the updated validator.\<close>

function clear_until_aligned ::
  "u64 \<Rightarrow> u64 \<Rightarrow> ReceivingKeyCounterValidator \<Rightarrow> u64 \<times> ReceivingKeyCounterValidator" where
  "clear_until_aligned i counter v =
     (if \<not> i mod WORD_SIZE = 0 \<and> i < counter
      then clear_until_aligned (i + 1) counter (validator_clear_bit i v) else (i, v))"
  by pat_completeness auto
termination
  by (relation "measure (\<lambda>(i, counter, v). unat counter - unat i)")
    (auto simp: unat_Suc_nowrap word_less_nat_alt)

partial_function (option) clear_whole_words ::
  "u64 \<Rightarrow> u64 \<Rightarrow> ReceivingKeyCounterValidator \<Rightarrow> (u64 \<times> ReceivingKeyCounterValidator) option" where
  "clear_whole_words i counter v =
     (if i + WORD_SIZE < counter
      then clear_whole_words ((i + WORD_SIZE) AND (0 - WORD_SIZE)) counter (validator_clear_word i v)
      else Some (i, v))"

function clear_remaining ::
  "u64 \<Rightarrow> u64 \<Rightarrow> ReceivingKeyCounterValidator \<Rightarrow> u64 \<times> ReceivingKeyCounterValidator" where
  "clear_remaining i counter v =
     (if i < counter then clear_remaining (i + 1) counter (validator_clear_bit i v) else (i, v))"
  by pat_completeness auto
termination
  by (relation "measure (\<lambda>(i, counter, v). unat counter - unat i)")
    (auto simp: unat_Suc_nowrap word_less_nat_alt)

declare clear_until_aligned.simps [simp del] clear_remaining.simps [simp del]

definition clear_skipped ::
  "u64 \<Rightarrow> ReceivingKeyCounterValidator \<Rightarrow> ReceivingKeyCounterValidator option" where
  "clear_skipped counter v =
     (if counter - rk_next v \<ge> N_BITS
      then Some (v\<lparr>rk_bitmap := map (\<lambda>_. 0) (rk_bitmap v)\<rparr>)
      else (case clear_until_aligned (rk_next v) counter v of (i, v1) \<Rightarrow>
            (case clear_whole_words i counter v1 of
               None \<Rightarrow> None
             | Some (i2, v2) \<Rightarrow> Some (snd (clear_remaining i2 counter v2)))))"

text \<open>\<open>None\<close>: the call does not return.\<close>

definition mark_did_receive ::
  "u64 \<Rightarrow> ReceivingKeyCounterValidator \<Rightarrow>
     ((WireGuardError + unit) \<times> ReceivingKeyCounterValidator) option" where
  "mark_did_receive counter v =
     (if counter + N_BITS < rk_next v then Some (Inl InvalidCounter, v)
      else if counter = rk_next v then
        (let v1 = validator_set_bit counter v in Some (Inr (), v1\<lparr>rk_next := rk_next v1 + 1\<rparr>))
      else if counter < rk_next v then
        (if validator_check_bit counter v then Some (Inl InvalidCounter, v)
         else Some (Inr (), validator_set_bit counter v))
      else (case clear_skipped counter v of
              None \<Rightarrow> None
            | Some v1 \<Rightarrow> Some (Inr (), (validator_set_bit counter v1)\<lparr>rk_next := counter + 1\<rparr>)))"

section \<open>The ring of slots\<close>

definition slot_set :: "ReceivingKeyCounterValidator \<Rightarrow> nat \<Rightarrow> bool" where
  "slot_set v p = bit (rk_bitmap v ! (p div 64)) (p mod 64)"

lemmas window_consts = WORD_SIZE_def N_WORDS_def N_BITS_def

lemma N_BITS_256 [simp]: "N_BITS = 256"
  by (simp add: window_consts)

lemma WORD_SIZE_64 [simp]: "WORD_SIZE = 64"
  by (simp add: window_consts)

lemma unat_REJECT: "unat REJECT_AFTER_MESSAGES = 2 ^ 64 - 2 ^ 16 - 2"
  by (simp add: REJECT_AFTER_MESSAGES_def)

lemma slot_coordinates:
  fixes idx :: u64
  shows "unat ((idx mod 256) div 64) = (unat idx mod 256) div 64"
    and "unat ((idx mod 256) mod 64) = (unat idx mod 256) mod 64"
  by (simp_all add: unat_div unat_mod)

lemma validator_frames [simp]:
  "rk_next (validator_set_bit i v) = rk_next v"
  "rk_next (validator_clear_bit i v) = rk_next v"
  "rk_next (validator_clear_word i v) = rk_next v"
  "rk_receive_cnt (validator_set_bit i v) = rk_receive_cnt v"
  "rk_receive_cnt (validator_clear_bit i v) = rk_receive_cnt v"
  "rk_receive_cnt (validator_clear_word i v) = rk_receive_cnt v"
  "length (rk_bitmap (validator_set_bit i v)) = length (rk_bitmap v)"
  "length (rk_bitmap (validator_clear_bit i v)) = length (rk_bitmap v)"
  "length (rk_bitmap (validator_clear_word i v)) = length (rk_bitmap v)"
  by (simp_all add: validator_set_bit_def validator_clear_bit_def validator_clear_word_def Let_def)

lemma slot_eq_iff:
  fixes p q :: nat
  shows "p = q \<longleftrightarrow> p div 64 = q div 64 \<and> p mod 64 = q mod 64"
  by (metis div_mult_mod_eq)

lemma validator_check_bit_slot: "validator_check_bit idx v \<longleftrightarrow> slot_set v (unat idx mod 256)"
  by (simp add: validator_check_bit_def slot_set_def Let_def slot_coordinates
      bit_iff_odd_drop_bit and_one_eq odd_iff_mod_2_eq_one)

lemma slot_set_bit:
  assumes "length (rk_bitmap v) = 4" and "p < 256"
  shows "slot_set (validator_set_bit idx v) p \<longleftrightarrow> p = unat idx mod 256 \<or> slot_set v p"
proof -
  have "p div 64 < 4" and "(unat idx mod 256) div 64 < 4" using assms(2) by auto
  then show ?thesis
    using assms(1) slot_eq_iff [of p "unat idx mod 256"]
    by (auto simp: slot_set_def validator_set_bit_def Let_def slot_coordinates nth_list_update
        bit_or_iff bit_exp_iff)
qed

lemma slot_clear_bit:
  assumes "length (rk_bitmap v) = 4" and "p < 256"
  shows "slot_set (validator_clear_bit idx v) p \<longleftrightarrow> p \<noteq> unat idx mod 256 \<and> slot_set v p"
proof -
  have "p div 64 < 4" and "(unat idx mod 256) div 64 < 4" using assms(2) by auto
  then show ?thesis
    using assms(1) slot_eq_iff [of p "unat idx mod 256"]
    by (auto simp: slot_set_def validator_clear_bit_def Let_def slot_coordinates nth_list_update
        bit_and_iff bit_not_iff bit_exp_iff)
qed

lemma slot_clear_word:
  assumes "length (rk_bitmap v) = 4" and "p < 256"
  shows "slot_set (validator_clear_word idx v) p \<longleftrightarrow>
    p div 64 \<noteq> (unat idx mod 256) div 64 \<and> slot_set v p"
proof -
  have "p div 64 < 4" and "(unat idx mod 256) div 64 < 4" using assms(2) by auto
  then show ?thesis
    using assms(1)
    by (auto simp: slot_set_def validator_clear_word_def Let_def slot_coordinates nth_list_update)
qed

section \<open>The clearing loops\<close>

text \<open>\<open>v'\<close> is \<open>v\<close> with exactly the slots of the counters \<open>a \<le> k < b\<close> cleared.\<close>

definition cleared ::
  "ReceivingKeyCounterValidator \<Rightarrow> ReceivingKeyCounterValidator \<Rightarrow> nat \<Rightarrow> nat \<Rightarrow> bool" where
  "cleared v v' a b \<longleftrightarrow>
     length (rk_bitmap v') = length (rk_bitmap v) \<and> rk_next v' = rk_next v \<and>
     rk_receive_cnt v' = rk_receive_cnt v \<and>
     (\<forall>p < 256. slot_set v' p \<longleftrightarrow> slot_set v p \<and> \<not> (\<exists>k. a \<le> k \<and> k < b \<and> k mod 256 = p))"

lemma cleared_refl [simp]: "cleared v v a a"
  by (simp add: cleared_def)

lemma cleared_trans:
  assumes "cleared v v' a b" "cleared v' v'' b c" "a \<le> b" "b \<le> c"
  shows "cleared v v'' a c"
proof -
  have "(\<exists>k. a \<le> k \<and> k < c \<and> k mod 256 = p) \<longleftrightarrow>
      (\<exists>k. a \<le> k \<and> k < b \<and> k mod 256 = p) \<or> (\<exists>k. b \<le> k \<and> k < c \<and> k mod 256 = p)" for p
    using assms(3,4) by (metis le_trans less_le_trans not_le)
  with assms(1,2) show ?thesis unfolding cleared_def by simp
qed

lemma cleared_bit:
  assumes "length (rk_bitmap v) = 4"
  shows "cleared v (validator_clear_bit i v) (unat i) (Suc (unat i))"
  using assms by (auto simp: cleared_def slot_clear_bit less_Suc_eq_le)

lemma mod_256_div_64: "((k::nat) mod 256) div 64 = (k div 64) mod 4"
  using mod_mult2_eq [of k 64 4] by simp

lemma aligned_block_slots:
  fixes n p :: nat
  assumes "n mod 64 = 0" and "p < 256"
  shows "(\<exists>k. n \<le> k \<and> k < n + 64 \<and> k mod 256 = p) \<longleftrightarrow> p div 64 = (n mod 256) div 64"
proof
  assume "\<exists>k. n \<le> k \<and> k < n + 64 \<and> k mod 256 = p"
  then obtain k where k: "n \<le> k" "k < n + 64" "k mod 256 = p" by blast
  have n: "64 * (n div 64) = n" using assms(1) by presburger
  have "k div 64 = n div 64"
    by (rule div_nat_eqI) (use k n in simp_all)
  then show "p div 64 = (n mod 256) div 64"
    using mod_256_div_64 [of k] mod_256_div_64 [of n] k(3) by simp
next
  assume p: "p div 64 = (n mod 256) div 64"
  have "(n mod 256) mod 64 = 0" using assms(1) by (simp add: mod_mod_cancel)
  then have "n mod 256 = 64 * (p div 64)"
    using mult_div_mod_eq [of 64 "n mod 256"] p by simp
  then have "n mod 256 + p mod 64 = p" by simp
  then have "(n + p mod 64) mod 256 = p"
    using assms(2) mod_add_left_eq [of n 256 "p mod 64"] by simp
  then show "\<exists>k. n \<le> k \<and> k < n + 64 \<and> k mod 256 = p"
    by (intro exI [of _ "n + p mod 64"]) simp
qed

lemma cleared_word:
  assumes "length (rk_bitmap v) = 4" and "unat i mod 64 = 0"
  shows "cleared v (validator_clear_word i v) (unat i) (unat i + 64)"
  using assms by (auto simp: cleared_def slot_clear_word aligned_block_slots)

lemma clear_until_aligned_spec:
  assumes "length (rk_bitmap v) = 4" and "i \<le> counter"
    and "clear_until_aligned i counter v = (i', v')"
  shows "cleared v v' (unat i) (unat i') \<and> i \<le> i' \<and> i' \<le> counter \<and>
    (unat i' mod 64 = 0 \<or> i' = counter)"
  using assms
proof (induction i counter v rule: clear_until_aligned.induct)
  case (1 i counter v)
  show ?case
  proof (cases "\<not> i mod WORD_SIZE = 0 \<and> i < counter")
    case True
    then have s: "unat (i + 1) = Suc (unat i)" using unat_Suc_nowrap by blast
    with True have le: "i + 1 \<le> counter" by (simp add: word_le_nat_alt word_less_nat_alt)
    have "cleared (validator_clear_bit i v) v' (unat (i + 1)) (unat i') \<and> i + 1 \<le> i' \<and>
        i' \<le> counter \<and> (unat i' mod 64 = 0 \<or> i' = counter)"
      using "1.IH" [OF True] "1.prems" True le by (simp add: clear_until_aligned.simps [of i])
    then show ?thesis
      using cleared_bit [OF "1.prems"(1), of i] s
      by (auto simp: word_le_nat_alt intro: cleared_trans)
  next
    case False
    then have "clear_until_aligned i counter v = (i, v)"
      by (subst clear_until_aligned.simps) (rule if_not_P)
    with "1.prems"(3) have e: "i' = i" "v' = v" by auto
    have "unat (i mod 64) = 0 \<or> i = counter"
      using False "1.prems"(2) by (auto simp: unat_eq_zero)
    then have "unat i mod 64 = 0 \<or> i = counter" by (simp add: unat_mod)
    with e show ?thesis using "1.prems"(2) by simp
  qed
qed

lemma clear_remaining_spec:
  assumes "length (rk_bitmap v) = 4" and "i \<le> counter"
  shows "cleared v (snd (clear_remaining i counter v)) (unat i) (unat counter)"
  using assms
proof (induction i counter v rule: clear_remaining.induct)
  case (1 i counter v)
  show ?case
  proof (cases "i < counter")
    case True
    then have s: "unat (i + 1) = Suc (unat i)" by (rule unat_Suc_nowrap)
    with True have le: "i + 1 \<le> counter" by (simp add: word_le_nat_alt word_less_nat_alt)
    have "cleared (validator_clear_bit i v) (snd (clear_remaining i counter v)) (unat (i + 1)) (unat counter)"
      using "1.IH" [OF True] "1.prems" True le by (simp add: clear_remaining.simps [of i])
    then show ?thesis
      using cleared_bit [OF "1.prems"(1), of i] s le
      by (auto simp: word_le_nat_alt intro: cleared_trans)
  next
    case False
    then have "clear_remaining i counter v = (i, v)"
      by (subst clear_remaining.simps) (rule if_not_P)
    moreover have "i = counter" using False "1.prems"(2) by simp
    ultimately show ?thesis by simp
  qed
qed

lemma and_neg64_aligned:
  fixes w :: u64
  assumes "unat w mod 64 = 0"
  shows "w AND (0 - 64) = w"
proof -
  have "unat (w mod 64) = 0" using assms by (simp add: unat_mod)
  then have "w mod 64 = 0" by (simp only: unat_eq_zero)
  then have "take_bit 6 w = 0" by (simp add: take_bit_eq_mod)
  then have "\<not> bit w n" if "n < 6" for n
    using that by (metis bit_0_eq bit_take_bit_iff bot_apply bot_bool_def)
  then have "w AND NOT (mask 6) = w"
    by (auto intro!: bit_word_eqI simp: bit_and_iff bit_not_iff bit_mask_iff)
  moreover have "(0 - 64 :: u64) = NOT (mask 6)" by (simp add: mask_eq_exp_minus_1)
  ultimately show ?thesis by (simp only:)
qed

lemma clear_whole_words_spec:
  assumes "length (rk_bitmap v) = 4" and "i \<le> counter" and "unat counter + 64 < 2 ^ 64"
    and "unat i mod 64 = 0 \<or> i = counter"
  shows "\<exists>i' v'. clear_whole_words i counter v = Some (i', v') \<and>
    cleared v v' (unat i) (unat i') \<and> i \<le> i' \<and> i' \<le> counter"
  using assms
proof (induction "unat counter - unat i" arbitrary: i v rule: less_induct)
  case less
  have s: "unat (i + 64) = unat i + 64"
    using less.prems(2,3) by (subst unat_plus_nowrap) (simp_all add: word_le_nat_alt)
  show ?case
  proof (cases "i + 64 < counter")
    case True
    then have lt: "unat i + 64 < unat counter" using s by (simp add: word_less_nat_alt)
    then have al: "unat i mod 64 = 0" using less.prems(4) by auto
    then have e: "(i + 64) AND (0 - 64) = i + 64" using s by (intro and_neg64_aligned) simp
    have "\<exists>i' v'. clear_whole_words (i + 64) counter (validator_clear_word i v) = Some (i', v') \<and>
        cleared (validator_clear_word i v) v' (unat (i + 64)) (unat i') \<and> i + 64 \<le> i' \<and> i' \<le> counter"
      using less.prems al lt s by (intro less.hyps) (auto simp: word_le_nat_alt)
    then obtain i' v' where r: "clear_whole_words (i + 64) counter (validator_clear_word i v) = Some (i', v')"
        "cleared (validator_clear_word i v) v' (unat i + 64) (unat i')" "i + 64 \<le> i'" "i' \<le> counter"
      using s by auto
    moreover have "unat i + 64 \<le> unat i'" using r(3) s by (simp add: word_le_nat_alt)
    moreover have "cleared v v' (unat i) (unat i')"
      by (rule cleared_trans [OF cleared_word [OF less.prems(1) al] r(2)])
        (use \<open>unat i + 64 \<le> unat i'\<close> in simp_all)
    ultimately show ?thesis
      using True e by (subst clear_whole_words.simps) (simp add: word_le_nat_alt)
  next
    case False
    then show ?thesis
      using less.prems(2) by (subst clear_whole_words.simps) simp
  qed
qed

lemma cleared_all:
  assumes "length (rk_bitmap v) = 4" and "a + 256 \<le> b"
  shows "cleared v (v\<lparr>rk_bitmap := map (\<lambda>_. 0) (rk_bitmap v)\<rparr>) a b"
proof -
  have "\<exists>k. a \<le> k \<and> k < b \<and> k mod 256 = p" if "p < 256" for p
  proof (rule exI)
    let ?k = "a + (p + (256 - a mod 256)) mod 256"
    have "?k mod 256 = (a mod 256 + (p + (256 - a mod 256))) mod 256"
      by (metis mod_add_left_eq mod_add_right_eq)
    also have "a mod 256 + (p + (256 - a mod 256)) = p + 256"
      using mod_less_divisor [of 256 a] by linarith
    also have "(p + 256) mod 256 = p" using that by simp
    finally have m: "?k mod 256 = p" .
    have "(p + (256 - a mod 256)) mod 256 < 256" by simp
    then have "?k < b" using assms(2) by linarith
    then show "a \<le> ?k \<and> ?k < b \<and> ?k mod 256 = p" using m by simp
  qed
  moreover have "p div 64 < 4" if "p < 256" for p :: nat using that by auto
  ultimately show ?thesis using assms(1) by (auto simp: cleared_def slot_set_def)
qed

lemma clear_skipped_spec:
  assumes "length (rk_bitmap v) = 4" and "rk_next v \<le> counter" and "unat counter + 64 < 2 ^ 64"
  shows "\<exists>v'. clear_skipped counter v = Some v' \<and> cleared v v' (unat (rk_next v)) (unat counter)"
proof (cases "counter - rk_next v \<ge> N_BITS")
  case True
  then have "unat (rk_next v) + 256 \<le> unat counter"
    using assms(2) by (simp add: word_le_nat_alt unat_sub)
  then show ?thesis using True cleared_all [OF assms(1)] by (simp add: clear_skipped_def)
next
  case False
  obtain i v1 where 1: "clear_until_aligned (rk_next v) counter v = (i, v1)" by fastforce
  note s1 = clear_until_aligned_spec [OF assms(1,2) 1]
  then have l1: "length (rk_bitmap v1) = 4" using assms(1) by (simp add: cleared_def)
  obtain i2 v2 where 2: "clear_whole_words i counter v1 = Some (i2, v2)"
      and s2: "cleared v1 v2 (unat i) (unat i2)" "i \<le> i2" "i2 \<le> counter"
    using clear_whole_words_spec [OF l1 _ assms(3), of i] s1 by auto
  have l2: "length (rk_bitmap v2) = 4" using s2 l1 by (simp add: cleared_def)
  have 3: "cleared v2 (snd (clear_remaining i2 counter v2)) (unat i2) (unat counter)"
    by (rule clear_remaining_spec [OF l2 s2(3)])
  have le: "unat (rk_next v) \<le> unat i" "unat i \<le> unat i2" "unat i2 \<le> unat counter"
    using s1 s2 by (simp_all add: word_le_nat_alt)
  have "cleared v v2 (unat (rk_next v)) (unat i2)"
    by (rule cleared_trans [OF conjunct1 [OF s1] s2(1) le(1,2)])
  from cleared_trans [OF this 3] le
  have "cleared v (snd (clear_remaining i2 counter v2)) (unat (rk_next v)) (unat counter)" by simp
  then show ?thesis using False 1 2 by (simp add: clear_skipped_def)
qed

section \<open>The accepted set and its refinement\<close>

text \<open>The contract: the counters accepted so far and the next expected one. A counter
  is accepted when it is new and at most 256 behind the next expected one.\<close>

definition window_receive :: "nat \<Rightarrow> nat \<times> nat set \<Rightarrow> (nat \<times> nat set) option" where
  "window_receive c st =
     (case st of (n, S) \<Rightarrow>
        if n \<le> c + 256 \<and> c \<notin> S then Some (max n (Suc c), insert c S) else None)"

text \<open>The bitmap decides membership on the 256 counters before \<open>next\<close>.\<close>

definition tracks :: "ReceivingKeyCounterValidator \<Rightarrow> nat \<times> nat set \<Rightarrow> bool" where
  "tracks v st =
     (case st of (n, S) \<Rightarrow>
        length (rk_bitmap v) = 4 \<and> n = unat (rk_next v) \<and> n \<le> unat REJECT_AFTER_MESSAGES \<and>
        (\<forall>c\<in>S. c < n) \<and>
        (\<forall>c. c < n \<and> n \<le> c + 256 \<longrightarrow> (slot_set v (c mod 256) \<longleftrightarrow> c \<in> S)))"

lemma tracks_default: "tracks validator_default (0, {})"
  by (simp add: tracks_def validator_default_def N_WORDS_def)

lemma tracks_receive_cnt [simp]: "tracks (v\<lparr>rk_receive_cnt := k\<rparr>) st = tracks v st"
  by (simp add: tracks_def slot_set_def)

lemma window_slots_distinct:
  fixes c k n :: nat
  assumes "c < n" "k < n" "n \<le> c + 256" "n \<le> k + 256" "c mod 256 = k mod 256"
  shows "c = k"
proof (rule ccontr)
  assume "c \<noteq> k"
  then consider "c < k" | "k < c" by linarith
  then show False
  proof cases
    case 1
    then have "256 dvd k - c" using assms(5) by (metis mod_eq_dvd_iff_nat less_imp_le)
    then show False using 1 assms by (auto dest: dvd_imp_le)
  next
    case 2
    then have "256 dvd c - k" using assms(5) by (metis mod_eq_dvd_iff_nat less_imp_le)
    then show False using 2 assms by (auto dest: dvd_imp_le)
  qed
qed

text \<open>Setting the slot of \<open>c\<close> and moving \<open>next\<close> to \<open>max next (c + 1)\<close> on a validator whose
  skipped slots have been cleared.\<close>

lemma tracks_accept:
  assumes "tracks v (n, S)" and "cleared v v1 n c" and "n \<le> c + 256"
    and "c < unat REJECT_AFTER_MESSAGES" and "v' = (validator_set_bit (of_nat c) v1)\<lparr>rk_next := of_nat (max n (Suc c))\<rparr>"
  shows "tracks v' (max n (Suc c), insert c S)"
proof -
  let ?n = "max n (Suc c)"
  have R: "unat REJECT_AFTER_MESSAGES < 2 ^ 64" by (simp add: unat_REJECT)
  have uc: "unat (of_nat c :: u64) = c" using assms(4) R by (intro unat_of_nat_small) simp
  have le: "?n \<le> unat REJECT_AFTER_MESSAGES" using assms(1,4) by (simp add: tracks_def)
  then have un: "unat (of_nat ?n :: u64) = ?n" using R by (intro unat_of_nat_small) simp
  have l: "length (rk_bitmap v) = 4" "length (rk_bitmap v1) = 4"
    using assms(1,2) by (simp_all add: tracks_def cleared_def)
  have "slot_set v' (k mod 256) \<longleftrightarrow> k \<in> insert c S" if k: "k < ?n" "?n \<le> k + 256" for k
  proof -
    have "slot_set v' (k mod 256) \<longleftrightarrow> k mod 256 = c mod 256 \<or> slot_set v1 (k mod 256)"
      using slot_set_bit [OF l(2), of "k mod 256" "of_nat c"] assms(5) uc
      by (simp add: slot_set_def)
    also have "k mod 256 = c mod 256 \<longleftrightarrow> k = c"
      using window_slots_distinct [of k ?n c] k assms(3) by auto
    also have "slot_set v1 (k mod 256) \<longleftrightarrow>
        slot_set v (k mod 256) \<and> \<not> (\<exists>j. n \<le> j \<and> j < c \<and> j mod 256 = k mod 256)"
      using assms(2) by (simp add: cleared_def)
    finally have s: "slot_set v' (k mod 256) \<longleftrightarrow> k = c \<or> (slot_set v (k mod 256) \<and>
        \<not> (\<exists>j. n \<le> j \<and> j < c \<and> j mod 256 = k mod 256))" .
    have j: "j = k" if "n \<le> j" "j < c" "j mod 256 = k mod 256" "?n \<le> j + 256" for j
      using window_slots_distinct [of j ?n k] that k by auto
    show ?thesis
    proof (cases "k < n")
      case True
      then have "slot_set v (k mod 256) \<longleftrightarrow> k \<in> S" using assms(1) k by (auto simp: tracks_def)
      moreover have "\<not> (\<exists>j. n \<le> j \<and> j < c \<and> j mod 256 = k mod 256)"
      proof (clarify)
        fix j assume a: "n \<le> j" "j < c" "j mod 256 = k mod 256"
        then have "?n \<le> j + 256" using True k by simp
        with j [OF a] a True show False by simp
      qed
      ultimately show ?thesis using s by auto
    next
      case False
      then have "k \<notin> S" using assms(1) by (auto simp: tracks_def)
      moreover have "k = c \<or> (\<exists>j. n \<le> j \<and> j < c \<and> j mod 256 = k mod 256)"
        using False k(1) by (cases "k = c") (auto intro!: exI [of _ k])
      ultimately show ?thesis using s by auto
    qed
  qed
  moreover have "k < ?n" if "k \<in> insert c S" for k using that assms(1) by (auto simp: tracks_def)
  ultimately show ?thesis
    using l un le assms(5) by (auto simp: tracks_def)
qed


lemma mark_did_receive_refines:
  assumes "tracks v (n, S)" and "unat c < unat REJECT_AFTER_MESSAGES"
  shows "\<exists>v'. mark_did_receive c v =
      Some (if window_receive (unat c) (n, S) = None then Inl InvalidCounter else Inr (), v') \<and>
    tracks v' (case window_receive (unat c) (n, S) of None \<Rightarrow> (n, S) | Some st \<Rightarrow> st) \<and>
    rk_receive_cnt v' = rk_receive_cnt v"
proof -
  have n: "n = unat (rk_next v)" and l: "length (rk_bitmap v) = 4" using assms(1) by (simp_all add: tracks_def)
  have up: "unat (c + N_BITS) = unat c + 256"
    using assms(2) by (subst unat_plus_nowrap) (simp_all add: unat_REJECT)
  have nn: "of_nat n = rk_next v" using n by simp
  consider "c + N_BITS < rk_next v" | "\<not> c + N_BITS < rk_next v" "c < rk_next v"
    | "\<not> c + N_BITS < rk_next v" "rk_next v \<le> c" by fastforce
  then show ?thesis
  proof cases
    case 1
    then have "\<not> n \<le> unat c + 256" using up n by (simp add: word_less_nat_alt)
    then show ?thesis using 1 assms(1) by (simp add: mark_did_receive_def window_receive_def)
  next
    case 2
    then have w: "n \<le> unat c + 256" and lt: "unat c < n" using up n by (simp_all add: word_less_nat_alt)
    have sl: "validator_check_bit c v \<longleftrightarrow> unat c \<in> S"
      using assms(1) w lt by (auto simp: tracks_def validator_check_bit_slot)
    have ne: "c \<noteq> rk_next v" using lt n by auto
    show ?thesis
    proof (cases "unat c \<in> S")
      case True
      then show ?thesis using 2 ne sl assms(1) by (simp add: mark_did_receive_def window_receive_def)
    next
      case False
      have "cleared v v n (unat c)" using lt by (simp add: cleared_def)
      moreover have "validator_set_bit c v =
          (validator_set_bit (of_nat (unat c)) v)\<lparr>rk_next := of_nat (max n (Suc (unat c)))\<rparr>"
        using lt nn by (cases v) (simp add: max_absorb1 validator_set_bit_def Let_def)
      ultimately have "tracks (validator_set_bit c v) (max n (Suc (unat c)), insert (unat c) S)"
        using tracks_accept [OF assms(1) _ w assms(2)] by blast
      then show ?thesis using 2 ne sl False w by (simp add: mark_did_receive_def window_receive_def)
    qed
  next
    case 3
    then have w: "n \<le> unat c + 256" and le: "n \<le> unat c" using up n by (simp_all add: word_less_nat_alt word_le_nat_alt)
    then have new: "unat c \<notin> S" using assms(1) by (auto simp: tracks_def)
    have mx: "of_nat (max n (Suc (unat c))) = c + 1" using le by (simp add: max_def)
    obtain v1 where v1: "cleared v v1 n (unat c)"
      and r: "mark_did_receive c v = Some (Inr (), (validator_set_bit c v1)\<lparr>rk_next := c + 1\<rparr>)"
    proof (cases "c = rk_next v")
      case True
      then show ?thesis using that [of v] n 3 by (simp add: mark_did_receive_def Let_def)
    next
      case False
      have "unat c + 64 < 2 ^ 64" using assms(2) by (simp add: unat_REJECT)
      from clear_skipped_spec [OF l 3(2) this]
      obtain v1 where "clear_skipped c v = Some v1" "cleared v v1 n (unat c)" using n by auto
      moreover have "\<not> c < rk_next v" using 3(2) by simp
      ultimately show ?thesis using that [of v1] False 3(1) by (simp add: mark_did_receive_def)
    qed
    have "tracks ((validator_set_bit c v1)\<lparr>rk_next := c + 1\<rparr>) (max n (Suc (unat c)), insert (unat c) S)"
      by (rule tracks_accept [OF assms(1) v1 w assms(2)]) (simp add: mx)
    then show ?thesis
      using r w new v1 by (simp add: window_receive_def cleared_def)
  qed
qed

lemma will_accept_refines:
  assumes "tracks v (n, S)" and "unat c < unat REJECT_AFTER_MESSAGES"
  shows "will_accept c v =
    (if unat c + 256 < n then Inl InvalidCounter
     else if unat c \<in> S then Inl DuplicateCounter else Inr ())"
proof -
  have up: "unat (c + N_BITS) = unat c + 256"
    using assms(2) by (subst unat_plus_nowrap) (simp_all add: unat_REJECT)
  have "unat c \<in> S \<Longrightarrow> unat c < n" using assms(1) by (auto simp: tracks_def)
  moreover have "n = unat (rk_next v)" using assms(1) by (simp add: tracks_def)
  moreover have "validator_check_bit c v \<longleftrightarrow> unat c \<in> S" if "unat c < n" "n \<le> unat c + 256"
    using assms(1) that by (auto simp: tracks_def validator_check_bit_slot)
  ultimately show ?thesis
    using up by (auto simp: will_accept_def word_less_nat_alt word_le_nat_alt)
qed

end
