(* ===== verification/Session.thy ===== *)
theory Session
  imports Packets Replay_Window
begin

text \<open>
  A transport session (\<^verbatim>\<open>noise/session.rs\<close>): encryption of outgoing packets under a
  fresh counter, and decryption of incoming ones behind the replay window. The AEAD cipher
  is a third-party crate and a parameter of the model; what the code relies on is stated
  as \<open>aead_correct\<close>. The last section is the session shared by concurrent tasks, as a
  step relation whose steps are the atomic accesses of the source.
\<close>

section \<open>The AEAD parameter\<close>

text \<open>\<^verbatim>\<open>ChaCha20Poly1305::{encrypt,decrypt}_in_place_detached\<close>: key, nonce, associated data
  and text. Sealing gives the ciphertext and the tag, or an error (\<open>None\<close>); opening
  gives the plaintext, or an error.\<close>

record aead =
  aead_seal :: "bytes \<Rightarrow> bytes \<Rightarrow> bytes \<Rightarrow> bytes \<Rightarrow> (bytes \<times> bytes) option"
  aead_open :: "bytes \<Rightarrow> bytes \<Rightarrow> bytes \<Rightarrow> bytes \<Rightarrow> bytes \<Rightarrow> bytes option"

definition aead_max_plaintext :: nat where "aead_max_plaintext = 2 ^ 38 - 64"

definition aead_correct :: "('z) aead_scheme \<Rightarrow> bool" where
  "aead_correct A \<longleftrightarrow>
     (\<forall>k n ad pt. length k = 32 \<longrightarrow> length n = 12 \<longrightarrow> length pt \<le> aead_max_plaintext \<longrightarrow>
        (\<exists>ct tag. aead_seal A k n ad pt = Some (ct, tag) \<and> length ct = length pt \<and> length tag = 16 \<and>
           aead_open A k n ad ct tag = Some pt))"

text \<open>A concrete instance of the parameter, used by the witnesses.\<close>

definition sample_aead :: aead where
  "sample_aead =
     \<lparr>aead_seal = (\<lambda>k n ad pt. Some (map (\<lambda>b. b XOR hd k) pt, take 16 (n @ k))),
      aead_open = (\<lambda>k n ad ct tag. if tag = take 16 (n @ k) then Some (map (\<lambda>b. b XOR hd k) ct) else None)\<rparr>"

lemma sample_aead_correct: "aead_correct sample_aead"
  by (auto simp: aead_correct_def sample_aead_def comp_def xor.assoc)

section \<open>Sessions\<close>

definition DATA_OFFSET :: nat where "DATA_OFFSET = 16"
definition AEAD_SIZE :: nat where "AEAD_SIZE = 16"

record Session =
  receiving_index :: u32
  sending_index :: u32
  receiver :: bytes
  sender :: bytes
  sending_key_counter :: u64
  receiving_key_counter :: ReceivingKeyCounterValidator

definition session_new :: "u32 \<Rightarrow> u32 \<Rightarrow> bytes \<Rightarrow> bytes \<Rightarrow> Session" where
  "session_new local_index peer_index receiving_key sending_key =
     \<lparr>receiving_index = local_index, sending_index = peer_index,
      receiver = receiving_key, sender = sending_key,
      sending_key_counter = 0, receiving_key_counter = validator_default\<rparr>"

subsection \<open>Sending\<close>

definition padded_len :: "bytes \<Rightarrow> nat" where
  "padded_len src =
     (if src = [] then 0
      else let candidate = (length src + 15) div 16 * 16
           in if candidate \<le> MTU then candidate else length src)"

text \<open>The counter reservation. The source loops over a load and a
  \<^verbatim>\<open>compare_exchange_weak\<close>; with no other task running, the exchange that
  succeeds is the one on the loaded value. The interleaved version is below.\<close>

definition counter_load :: "Session \<Rightarrow> u64 option" where
  "counter_load s =
     (let current = sending_key_counter s
      in if current \<ge> REJECT_AFTER_MESSAGES then None else Some current)"

definition counter_exchange :: "u64 \<Rightarrow> Session \<Rightarrow> Session option" where
  "counter_exchange current s =
     (if sending_key_counter s = current then Some (s\<lparr>sending_key_counter := current + 1\<rparr>) else None)"

definition reserve_counter :: "Session \<Rightarrow> (u64 \<times> Session) option" where
  "reserve_counter s =
     (case counter_load s of
        None \<Rightarrow> None
      | Some current \<Rightarrow>
          (case counter_exchange current s of None \<Rightarrow> None | Some s' \<Rightarrow> Some (current, s')))"

definition counter_nonce :: "u64 \<Rightarrow> bytes" where
  "counter_nonce c = replicate 4 0 @ to_le_bytes 8 c"

definition format_packet_data_with_type ::
  "('z) aead_scheme \<Rightarrow> u32 \<Rightarrow> bytes \<Rightarrow> bytes \<Rightarrow> Session \<Rightarrow> (Session \<times> bytes option) run" where
  "format_packet_data_with_type A packet_type src dst s =
     (let padded = padded_len src in
      if length dst < DATA_OFFSET + padded + AEAD_SIZE then Panic
      else case reserve_counter s of
        None \<Rightarrow> Ret (s, None)
      | Some (c, s') \<Rightarrow>
          (let hdr = to_le_bytes 4 packet_type @ to_le_bytes 4 (sending_index s) @ to_le_bytes 8 c;
               dst1 = copy_into 0 hdr dst;
               dst2 = copy_into DATA_OFFSET src dst1;
               dst3 = (if padded > length src
                       then copy_into (DATA_OFFSET + length src) (replicate (padded - length src) 0) dst2
                       else dst2)
           in case aead_seal A (sender s) (counter_nonce c) []
                    (slice DATA_OFFSET (DATA_OFFSET + padded) dst3) of
                None \<Rightarrow> Panic
              | Some (ct, tag) \<Rightarrow>
                  (let dst4 = copy_into DATA_OFFSET ct dst3;
                       dst5 = copy_into (DATA_OFFSET + padded) tag dst4
                   in Ret (s', Some (take (DATA_OFFSET + (padded + AEAD_SIZE)) dst5)))))"

definition format_packet_data ::
  "('z) aead_scheme \<Rightarrow> bytes \<Rightarrow> bytes \<Rightarrow> Session \<Rightarrow> (Session \<times> bytes option) run" where
  "format_packet_data A src dst s = format_packet_data_with_type A DATA src dst s"

subsection \<open>Receiving\<close>

definition receiving_counter_quick_check :: "u64 \<Rightarrow> Session \<Rightarrow> WireGuardError + unit" where
  "receiving_counter_quick_check c s = will_accept c (receiving_key_counter s)"

text \<open>\<open>None\<close>: the call does not return.\<close>

definition receiving_counter_mark ::
  "u64 \<Rightarrow> Session \<Rightarrow> ((WireGuardError + unit) \<times> Session) option" where
  "receiving_counter_mark c s =
     (case mark_did_receive c (receiving_key_counter s) of
        None \<Rightarrow> None
      | Some (Inl e, v) \<Rightarrow> Some (Inl e, s\<lparr>receiving_key_counter := v\<rparr>)
      | Some (Inr u, v) \<Rightarrow>
          Some (Inr u, s\<lparr>receiving_key_counter := v\<lparr>rk_receive_cnt := rk_receive_cnt v + 1\<rparr>\<rparr>))"

text \<open>The part of \<^verbatim>\<open>receive_packet_data\<close> before the second counter check: the plaintext,
  still unaccepted.\<close>

definition receive_decrypt ::
  "('z) aead_scheme \<Rightarrow> Data \<Rightarrow> nat \<Rightarrow> Session \<Rightarrow> (WireGuardError + bytes) run" where
  "receive_decrypt A packet dst_len s =
     (if dst_len < length (d_encrypted_encapsulated_packet packet) then Panic
      else if d_receiver_idx packet \<noteq> receiving_index s then Ret (Inl WrongIndex)
      else if d_counter packet \<ge> REJECT_AFTER_MESSAGES then Ret (Inl InvalidCounter)
      else case receiving_counter_quick_check (d_counter packet) s of
        Inl e \<Rightarrow> Ret (Inl e)
      | Inr _ \<Rightarrow>
          (let data = d_encrypted_encapsulated_packet packet in
           if length data < AEAD_SIZE then Panic
           else let pt_len = length data - AEAD_SIZE in
             case aead_open A (receiver s) (counter_nonce (d_counter packet)) []
                    (take pt_len data) (drop pt_len data) of
               None \<Rightarrow> Ret (Inl InvalidAeadTag)
             | Some pt \<Rightarrow> Ret (Inr pt)))"

definition receive_packet_data ::
  "('z) aead_scheme \<Rightarrow> Data \<Rightarrow> nat \<Rightarrow> Session \<Rightarrow> ((WireGuardError + bytes) \<times> Session) run option" where
  "receive_packet_data A packet dst_len s =
     (case receive_decrypt A packet dst_len s of
        Panic \<Rightarrow> Some Panic
      | Ret (Inl e) \<Rightarrow> Some (Ret (Inl e, s))
      | Ret (Inr pt) \<Rightarrow>
          (case receiving_counter_mark (d_counter packet) s of
             None \<Rightarrow> None
           | Some (Inl e, s') \<Rightarrow> Some (Ret (Inl e, s'))
           | Some (Inr _, s') \<Rightarrow> Some (Ret (Inr pt, s'))))"

definition current_packet_cnt :: "Session \<Rightarrow> u64 \<times> u64" where
  "current_packet_cnt s =
     (rk_next (receiving_key_counter s), rk_receive_cnt (receiving_key_counter s))"

lemmas session_consts = DATA_OFFSET_def AEAD_SIZE_def MTU_def

section \<open>Sending and receiving, functionally\<close>

lemma padded_len_bounds:
  "length src \<le> padded_len src" "padded_len src \<le> length src + 15"
  "padded_len src \<le> max MTU (length src)"
proof -
  have "(length src + 15) mod 16 < 16" by simp
  then have "length src \<le> (length src + 15) div 16 * 16" "(length src + 15) div 16 * 16 \<le> length src + 15"
    using div_mult_mod_eq [of "length src + 15" 16] by linarith+
  then show "length src \<le> padded_len src" "padded_len src \<le> length src + 15"
      "padded_len src \<le> max MTU (length src)"
    by (auto simp: padded_len_def Let_def)
qed

definition padded :: "bytes \<Rightarrow> bytes" where
  "padded src = src @ replicate (padded_len src - length src) 0"

lemma length_padded [simp]: "length (padded src) = padded_len src"
  using padded_len_bounds(1) [of src] by (simp add: padded_def)

lemma length_counter_nonce [simp]: "length (counter_nonce c) = 12"
  by (simp add: counter_nonce_def)

lemma counter_nonce_inject [simp]: "counter_nonce c = counter_nonce d \<longleftrightarrow> c = d"
  by (simp add: counter_nonce_def to_le_bytes_inject)

lemma reserve_counter_eq:
  "reserve_counter s =
     (if sending_key_counter s \<ge> REJECT_AFTER_MESSAGES then None
      else Some (sending_key_counter s, s\<lparr>sending_key_counter := sending_key_counter s + 1\<rparr>))"
  by (simp add: reserve_counter_def counter_load_def counter_exchange_def Let_def)

lemma format_packet_data_spec:
  assumes "aead_correct A" and "length (sender s) = 32" and "padded_len src \<le> aead_max_plaintext"
    and "32 + padded_len src \<le> length dst" and "reserve_counter s = Some (c, s')"
  shows "\<exists>ct tag. aead_open A (sender s) (counter_nonce c) [] ct tag = Some (padded src) \<and>
    length ct = padded_len src \<and> length tag = 16 \<and>
    format_packet_data_with_type A ty src dst s =
      Ret (s', Some (to_le_bytes 4 ty @ to_le_bytes 4 (sending_index s) @ to_le_bytes 8 c @ ct @ tag))"
proof -
  define hdr where "hdr = to_le_bytes 4 ty @ to_le_bytes 4 (sending_index s) @ to_le_bytes 8 c"
  have lh: "length hdr = 16" by (simp add: hdr_def)
  note pb = padded_len_bounds(1) [of src]
  define rest where "rest = drop (16 + padded_len src) dst"
  have lr: "16 \<le> length rest" using assms(4) by (simp add: rest_def)
  obtain ct tag where seal: "aead_seal A (sender s) (counter_nonce c) [] (padded src) = Some (ct, tag)"
      and l: "length ct = padded_len src" "length tag = 16"
      and op: "aead_open A (sender s) (counter_nonce c) [] ct tag = Some (padded src)"
    using assms(1-3) unfolding aead_correct_def by (metis length_counter_nonce length_padded)
  define dst3 where "dst3 = hdr @ padded src @ rest"
  have d1: "copy_into 0 hdr dst = hdr @ drop 16 dst" using lh by (simp add: copy_into_def)
  have d2: "copy_into 16 src (hdr @ drop 16 dst) = (hdr @ src) @ drop (16 + length src) dst"
    using lh by (simp add: copy_into_append add.commute)
  have d3: "(if padded_len src > length src
       then copy_into (16 + length src) (replicate (padded_len src - length src) 0)
              ((hdr @ src) @ drop (16 + length src) dst)
       else (hdr @ src) @ drop (16 + length src) dst) = dst3"
    using lh pb by (auto simp: copy_into_def dst3_def padded_def rest_def add.commute)
  have d4: "slice 16 (16 + padded_len src) dst3 = padded src"
    using lh by (simp add: dst3_def slice_def)
  have d5: "copy_into 16 ct dst3 = (hdr @ ct) @ rest"
    using lh l by (simp add: dst3_def copy_into_append)
  have d6: "copy_into (16 + padded_len src) tag ((hdr @ ct) @ rest) = hdr @ ct @ tag @ drop 16 rest"
    using lh l by (subst copy_into_append) simp_all
  have room: "(length dst < 16 + padded_len src + 16) = False" using assms(4) by simp
  have "format_packet_data_with_type A ty src dst s =
      Ret (s', Some (take (16 + (padded_len src + 16)) (hdr @ ct @ tag @ drop 16 rest)))"
    by (simp only: format_packet_data_with_type_def Let_def session_consts assms(5) option.case prod.case
        hdr_def [symmetric] room if_False d1 d2 d3 d4 d5 d6 seal)
  then have "format_packet_data_with_type A ty src dst s = Ret (s', Some (hdr @ ct @ tag))"
    using lh l by simp
  then show ?thesis using op l by (auto simp: hdr_def)
qed

text \<open>The contract of reception, on the state of the replay window: the result on every
  branch and the window afterwards.\<close>

definition receive_spec ::
  "('z) aead_scheme \<Rightarrow> Data \<Rightarrow> Session \<Rightarrow> nat \<times> nat set \<Rightarrow> (WireGuardError + bytes) \<times> (nat \<times> nat set)" where
  "receive_spec A p s st =
     (let c = unat (d_counter p); data = d_encrypted_encapsulated_packet p;
          ct_len = length data - 16
      in if d_receiver_idx p \<noteq> receiving_index s then (Inl WrongIndex, st)
         else if unat REJECT_AFTER_MESSAGES \<le> c \<or> c + 256 < fst st then (Inl InvalidCounter, st)
         else if c \<in> snd st then (Inl DuplicateCounter, st)
         else case aead_open A (receiver s) (counter_nonce (d_counter p)) [] (take ct_len data) (drop ct_len data) of
                None \<Rightarrow> (Inl InvalidAeadTag, st)
              | Some pt \<Rightarrow> (Inr pt, (max (fst st) (Suc c), insert c (snd st))))"

lemma receiving_counter_mark_accepts:
  assumes "tracks (receiving_key_counter s) (n, S)" and "unat c < unat REJECT_AFTER_MESSAGES"
    and "n \<le> unat c + 256" and "unat c \<notin> S"
  shows "\<exists>v. receiving_counter_mark c s = Some (Inr (), s\<lparr>receiving_key_counter := v\<rparr>) \<and>
    tracks v (max n (Suc (unat c)), insert (unat c) S)"
proof -
  from mark_did_receive_refines [OF assms(1,2)] assms(3,4)
  obtain v where v: "mark_did_receive c (receiving_key_counter s) = Some (Inr (), v)"
      "tracks v (max n (Suc (unat c)), insert (unat c) S)"
    by (auto simp: window_receive_def)
  then show ?thesis by (auto simp: receiving_counter_mark_def)
qed

lemma receive_packet_data_refines_aux:
  assumes "tracks (receiving_key_counter s) st"
    and "16 \<le> length (d_encrypted_encapsulated_packet p)"
    and "length (d_encrypted_encapsulated_packet p) \<le> dst_len"
  shows "\<exists>v. receive_packet_data A p dst_len s =
      Some (Ret (fst (receive_spec A p s st), s\<lparr>receiving_key_counter := v\<rparr>)) \<and>
    tracks v (snd (receive_spec A p s st))"
proof -
  obtain n S where st: "st = (n, S)" by fastforce
  let ?c = "d_counter p"
  have wa: "unat ?c < unat REJECT_AFTER_MESSAGES \<Longrightarrow>
      receiving_counter_quick_check ?c s = (if unat ?c + 256 < n then Inl InvalidCounter
        else if unat ?c \<in> S then Inl DuplicateCounter else Inr ())"
    using will_accept_refines assms(1) st by (simp add: receiving_counter_quick_check_def)
  have keep: "s = s\<lparr>receiving_key_counter := receiving_key_counter s\<rparr>" by simp
  consider "d_receiver_idx p \<noteq> receiving_index s \<or> unat REJECT_AFTER_MESSAGES \<le> unat ?c \<or>
      unat ?c + 256 < n \<or> unat ?c \<in> S"
    | "d_receiver_idx p = receiving_index s" "unat ?c < unat REJECT_AFTER_MESSAGES"
      "n \<le> unat ?c + 256" "unat ?c \<notin> S" by fastforce
  then show ?thesis
  proof cases
    case 1
    then have "receive_packet_data A p dst_len s = Some (Ret (fst (receive_spec A p s st), s)) \<and>
        snd (receive_spec A p s st) = st"
      using assms(2,3) wa st
      by (auto simp: receive_packet_data_def receive_decrypt_def receive_spec_def Let_def word_le_nat_alt)
    then show ?thesis using assms(1) keep by metis
  next
    case 2
    from receiving_counter_mark_accepts [of s n S ?c] assms(1) st 2
    obtain v where "receiving_counter_mark ?c s = Some (Inr (), s\<lparr>receiving_key_counter := v\<rparr>)"
        "tracks v (max n (Suc (unat ?c)), insert (unat ?c) S)" by auto
    then show ?thesis
      using 2 assms wa st keep
      by (auto simp: receive_packet_data_def receive_decrypt_def receive_spec_def Let_def
          word_le_nat_alt AEAD_SIZE_def split: option.split intro: exI [of _ "receiving_key_counter s"])
  qed
qed

text \<open>C3. Reception implements its contract: for a datagram with room for a tag and a large
  enough buffer, \<open>receive_packet_data\<close> returns (it neither panics nor loops), gives the
  contract's result on every branch, and the new window tracks the contract's window.\<close>

theorem receive_packet_data_refines:
  assumes "tracks (receiving_key_counter s) st"
    and "16 \<le> length (d_encrypted_encapsulated_packet p)"
    and "length (d_encrypted_encapsulated_packet p) \<le> dst_len"
  shows "\<exists>v. receive_packet_data A p dst_len s =
      Some (Ret (fst (receive_spec A p s st), s\<lparr>receiving_key_counter := v\<rparr>)) \<and>
    tracks v (snd (receive_spec A p s st))"
  using assms by (rule receive_packet_data_refines_aux)

text \<open>A session pair for the witnesses.\<close>

definition sample_key :: bytes where "sample_key = replicate 32 7"
definition sample_packet :: Data where
  "sample_packet = \<lparr>d_receiver_idx = 9, d_counter = 0,
     d_encrypted_encapsulated_packet = map (\<lambda>b. b XOR 7) [69, 1] @ replicate 12 0 @ replicate 4 7\<rparr>"

theorem receive_packet_data_refines_witness:
  "\<exists>v. receive_packet_data sample_aead sample_packet 64 (session_new 9 3 sample_key sample_key) =
      Some (Ret (fst (receive_spec sample_aead sample_packet (session_new 9 3 sample_key sample_key) (0, {})),
        (session_new 9 3 sample_key sample_key)\<lparr>receiving_key_counter := v\<rparr>)) \<and>
    tracks v (snd (receive_spec sample_aead sample_packet (session_new 9 3 sample_key sample_key) (0, {})))"
  by (rule receive_packet_data_refines)
    (simp_all add: session_new_def tracks_default sample_packet_def)

lemma parse_formatted:
  assumes "ty = DATA \<or> ty = RELAY_DATA" and "length tag = 16"
  shows "parse_incoming_packet (to_le_bytes 4 ty @ to_le_bytes 4 idx @ to_le_bytes 8 c @ ct @ tag) =
    Inr ((if ty = DATA then PData else PRelayData)
      \<lparr>d_receiver_idx = idx, d_counter = c, d_encrypted_encapsulated_packet = ct @ tag\<rparr>)"
  using assms by (auto simp: parse_incoming_packet_def Let_def message_consts slice_simps)

text \<open>C24. Round trip: what one end encrypts, the other end parses, authenticates and returns
  as the padded plaintext, and the counter is marked as received, whenever the counter is
  in the receiver's window and was not accepted before.\<close>

theorem send_receive_roundtrip:
  assumes "aead_correct A" and "ty = DATA \<or> ty = RELAY_DATA"
    and "length (sender s) = 32" and "receiver r = sender s" and "receiving_index r = sending_index s"
    and "padded_len src \<le> aead_max_plaintext" and "32 + padded_len src \<le> length dst"
    and "16 + padded_len src \<le> dst_len"
    and "sending_key_counter s < REJECT_AFTER_MESSAGES"
    and "tracks (receiving_key_counter r) (n, S)"
    and "n \<le> unat (sending_key_counter s) + 256" and "unat (sending_key_counter s) \<notin> S"
  shows "\<exists>pkt d v.
    format_packet_data_with_type A ty src dst s =
      Ret (s\<lparr>sending_key_counter := sending_key_counter s + 1\<rparr>, Some pkt) \<and>
    parse_incoming_packet pkt = Inr ((if ty = DATA then PData else PRelayData) d) \<and>
    receive_packet_data A d dst_len r = Some (Ret (Inr (padded src), r\<lparr>receiving_key_counter := v\<rparr>)) \<and>
    tracks v (max n (Suc (unat (sending_key_counter s))), insert (unat (sending_key_counter s)) S)"
proof -
  let ?c = "sending_key_counter s"
  have rc: "reserve_counter s = Some (?c, s\<lparr>sending_key_counter := ?c + 1\<rparr>)"
    using assms(9) by (simp add: reserve_counter_eq)
  obtain ct tag where op: "aead_open A (sender s) (counter_nonce ?c) [] ct tag = Some (padded src)"
      and l: "length ct = padded_len src" "length tag = 16"
      and f: "format_packet_data_with_type A ty src dst s = Ret (s\<lparr>sending_key_counter := ?c + 1\<rparr>,
        Some (to_le_bytes 4 ty @ to_le_bytes 4 (sending_index s) @ to_le_bytes 8 ?c @ ct @ tag))"
    using format_packet_data_spec [OF assms(1,3,6,7) rc] by blast
  define d where "d = \<lparr>d_receiver_idx = sending_index s, d_counter = ?c, d_encrypted_encapsulated_packet = ct @ tag\<rparr>"
  have "receive_spec A d r (n, S) = (Inr (padded src), (max n (Suc (unat ?c)), insert (unat ?c) S))"
    using assms(4,5,9,11,12) op l by (simp add: receive_spec_def d_def word_less_nat_alt Let_def)
  then have "\<exists>v. receive_packet_data A d dst_len r = Some (Ret (Inr (padded src), r\<lparr>receiving_key_counter := v\<rparr>)) \<and>
      tracks v (max n (Suc (unat ?c)), insert (unat ?c) S)"
    using receive_packet_data_refines_aux [OF assms(10), of d dst_len A] assms(8) l by (simp add: d_def)
  then show ?thesis using f parse_formatted [OF assms(2) l(2)] by (auto simp: d_def)
qed

theorem send_receive_roundtrip_witness:
  "\<exists>pkt d v.
    format_packet_data_with_type sample_aead RELAY_DATA [1, 2, 3] (replicate 100 0) (session_new 3 9 sample_key sample_key) =
      Ret ((session_new 3 9 sample_key sample_key)\<lparr>sending_key_counter :=
        sending_key_counter (session_new 3 9 sample_key sample_key) + 1\<rparr>, Some pkt) \<and>
    parse_incoming_packet pkt = Inr ((if RELAY_DATA = DATA then PData else PRelayData) d) \<and>
    receive_packet_data sample_aead d 100 (session_new 9 3 sample_key sample_key) =
      Some (Ret (Inr (padded [1, 2, 3]), (session_new 9 3 sample_key sample_key)\<lparr>receiving_key_counter := v\<rparr>)) \<and>
    tracks v (max 0 (Suc (unat (sending_key_counter (session_new 3 9 sample_key sample_key)))),
      insert (unat (sending_key_counter (session_new 3 9 sample_key sample_key))) {})"
  by (rule send_receive_roundtrip [OF sample_aead_correct])
    (simp_all add: session_new_def sample_key_def tracks_default padded_len_def MTU_def
      aead_max_plaintext_def word_less_nat_alt unat_REJECT)

section \<open>The session shared by concurrent tasks\<close>

text \<open>\<^verbatim>\<open>Session\<close> is used through a shared reference: the sending counter is an
  atomic and the replay window is behind a lock. The steps below are the atomic accesses of
  \<^verbatim>\<open>format_packet_data_with_type\<close> and \<^verbatim>\<open>receive_packet_data\<close>: load,
  weak compare-and-exchange (which may fail for no reason), quick check under the lock,
  decryption without it, and the final mark under the lock. Any number of tasks run
  interleaved; the history records the counters encrypted under and the counters accepted.\<close>

datatype sender_pc = SStart | SLoaded u64
datatype receiver_pc = RStart | RDecrypting u64

record shared_session =
  sh_session :: Session
  sh_senders :: "nat \<Rightarrow> sender_pc"
  sh_receivers :: "nat \<Rightarrow> receiver_pc"
  sh_used :: "u64 list"
  sh_accepted :: "u64 list"

definition shared_init :: "Session \<Rightarrow> shared_session" where
  "shared_init s = \<lparr>sh_session = s, sh_senders = (\<lambda>_. SStart), sh_receivers = (\<lambda>_. RStart),
     sh_used = [], sh_accepted = []\<rparr>"

inductive shared_step :: "shared_session \<Rightarrow> shared_session \<Rightarrow> bool" where
  send_load: "sh_senders z t = SStart \<Longrightarrow> counter_load (sh_session z) = Some cur \<Longrightarrow>
    shared_step z (z\<lparr>sh_senders := (sh_senders z)(t := SLoaded cur)\<rparr>)"
| send_exchange: "sh_senders z t = SLoaded cur \<Longrightarrow> counter_exchange cur (sh_session z) = Some s' \<Longrightarrow>
    shared_step z (z\<lparr>sh_session := s', sh_senders := (sh_senders z)(t := SStart), sh_used := cur # sh_used z\<rparr>)"
| send_retry: "sh_senders z t = SLoaded cur \<Longrightarrow>
    shared_step z (z\<lparr>sh_senders := (sh_senders z)(t := SStart)\<rparr>)"
| recv_check: "sh_receivers z t = RStart \<Longrightarrow> c < REJECT_AFTER_MESSAGES \<Longrightarrow>
    receiving_counter_quick_check c (sh_session z) = Inr u \<Longrightarrow>
    shared_step z (z\<lparr>sh_receivers := (sh_receivers z)(t := RDecrypting c)\<rparr>)"
| recv_bad_tag: "sh_receivers z t = RDecrypting c \<Longrightarrow>
    shared_step z (z\<lparr>sh_receivers := (sh_receivers z)(t := RStart)\<rparr>)"
| recv_mark: "sh_receivers z t = RDecrypting c \<Longrightarrow>
    receiving_counter_mark c (sh_session z) = Some (res, s') \<Longrightarrow>
    shared_step z (z\<lparr>sh_session := s', sh_receivers := (sh_receivers z)(t := RStart),
      sh_accepted := (case res of Inr _ \<Rightarrow> c # sh_accepted z | Inl _ \<Rightarrow> sh_accepted z)\<rparr>)"

inductive_cases shared_stepE: "shared_step z z'"

definition shared_inv :: "shared_session \<Rightarrow> bool" where
  "shared_inv z \<longleftrightarrow>
     distinct (sh_used z) \<and> (\<forall>c\<in>set (sh_used z). c < sending_key_counter (sh_session z)) \<and>
     sending_key_counter (sh_session z) \<le> REJECT_AFTER_MESSAGES \<and>
     (\<forall>t cur. sh_senders z t = SLoaded cur \<longrightarrow> cur < REJECT_AFTER_MESSAGES) \<and>
     (\<forall>t c. sh_receivers z t = RDecrypting c \<longrightarrow> c < REJECT_AFTER_MESSAGES) \<and>
     distinct (sh_accepted z) \<and>
     tracks (receiving_key_counter (sh_session z))
       (unat (rk_next (receiving_key_counter (sh_session z))), unat ` set (sh_accepted z))"

lemma shared_inv_init: "shared_inv (shared_init (session_new i j rk sk))"
  using tracks_default by (simp add: shared_inv_def shared_init_def session_new_def validator_default_def)

text \<open>The mark keeps the set of accepted counters: an accepted counter was not in it.\<close>

lemma receiving_counter_mark_history:
  assumes "tracks (receiving_key_counter s) (n, unat ` set acc)" and "c < REJECT_AFTER_MESSAGES"
    and "receiving_counter_mark c s = Some (res, s')"
  shows "sending_key_counter s' = sending_key_counter s \<and>
    (case res of
       Inr _ \<Rightarrow> c \<notin> set acc \<and> tracks (receiving_key_counter s')
         (unat (rk_next (receiving_key_counter s')), unat ` set (c # acc))
     | Inl _ \<Rightarrow> tracks (receiving_key_counter s')
         (unat (rk_next (receiving_key_counter s')), unat ` set acc))"
proof -
  let ?w = "window_receive (unat c) (n, unat ` set acc)"
  have c: "unat c < unat REJECT_AFTER_MESSAGES" using assms(2) by (simp add: word_less_nat_alt)
  obtain v where v: "mark_did_receive c (receiving_key_counter s) =
      Some (if ?w = None then Inl InvalidCounter else Inr (), v)"
      "tracks v (case ?w of None \<Rightarrow> (n, unat ` set acc) | Some st \<Rightarrow> st)"
    using mark_did_receive_refines [OF assms(1) c] by blast
  have nx: "m = unat (rk_next v)" if "tracks v (m, S)" for m S using that by (simp add: tracks_def)
  show ?thesis
    using assms(3) v nx
    by (auto simp: receiving_counter_mark_def window_receive_def split: if_splits)
qed

lemma shared_step_inv:
  assumes "shared_step z z'" and "shared_inv z"
  shows "shared_inv z'"
  using assms
proof (cases rule: shared_step.cases)
  case (send_load t cur)
  then show ?thesis
    using assms(2) by (auto simp: shared_inv_def counter_load_def Let_def split: if_splits)
next
  case (send_exchange t cur s')
  then have cur: "cur < REJECT_AFTER_MESSAGES" "sending_key_counter (sh_session z) = cur"
    and s': "s' = (sh_session z)\<lparr>sending_key_counter := cur + 1\<rparr>"
    using assms(2) by (auto simp: shared_inv_def counter_exchange_def split: if_splits)
  have lt: "c < cur + 1 \<longleftrightarrow> c \<le> cur" for c
    using unat_Suc_nowrap [OF cur(1)] by (auto simp: word_less_nat_alt word_le_nat_alt)
  have "cur + 1 \<le> REJECT_AFTER_MESSAGES"
    using unat_Suc_nowrap [OF cur(1)] cur(1) by (simp add: word_less_nat_alt word_le_nat_alt)
  then show ?thesis
    using send_exchange assms(2) cur s' lt by (auto simp: shared_inv_def)
next
  case (recv_mark t c res s')
  have c: "c < REJECT_AFTER_MESSAGES" using recv_mark assms(2) by (auto simp: shared_inv_def)
  show ?thesis
    using receiving_counter_mark_history [OF _ c recv_mark(3)] recv_mark assms(2)
    by (auto simp: shared_inv_def split: sum.splits)
qed (auto simp: shared_inv_def)

lemma shared_reach_inv:
  assumes "shared_step\<^sup>*\<^sup>* z z'" and "shared_inv z"
  shows "shared_inv z'"
  using assms by (induction rule: rtranclp_induct) (auto intro: shared_step_inv)

text \<open>C15. For every interleaving of any number of tasks on a new session: no counter is ever
  encrypted under twice (so no nonce is reused under the session key), every counter used is
  below the protocol limit, and no counter is ever accepted twice (no replay), even though
  the window is unlocked while a packet is being decrypted.\<close>

theorem shared_session_safe:
  assumes "shared_step\<^sup>*\<^sup>* (shared_init (session_new i j rk sk)) z"
  shows "distinct (map counter_nonce (sh_used z)) \<and>
    (\<forall>c\<in>set (sh_used z). c < REJECT_AFTER_MESSAGES) \<and> distinct (sh_accepted z)"
proof -
  have "shared_inv z" using shared_reach_inv [OF assms shared_inv_init] .
  then show ?thesis
    by (auto simp: shared_inv_def distinct_map inj_on_def intro: order_less_le_trans)
qed

text \<open>Two tasks load the same counter, one exchange succeeds, and a packet is accepted.\<close>

lemma sample_interleaving:
  "\<exists>z. shared_step\<^sup>*\<^sup>* (shared_init (session_new 9 3 sample_key sample_key)) z \<and>
     sh_used z = [0] \<and> sh_accepted z = [0] \<and> sh_senders z 1 = SLoaded 0"
proof -
  define s where "s = session_new 9 3 sample_key sample_key"
  define z0 where "z0 = shared_init s"
  define z1 where "z1 = z0\<lparr>sh_senders := (sh_senders z0)(0 := SLoaded 0)\<rparr>"
  define z2 where "z2 = z1\<lparr>sh_senders := (sh_senders z1)(1 := SLoaded 0)\<rparr>"
  define z3 where "z3 = z2\<lparr>sh_session := s\<lparr>sending_key_counter := 0 + 1\<rparr>,
    sh_senders := (sh_senders z2)(0 := SStart), sh_used := 0 # sh_used z2\<rparr>"
  define z4 where "z4 = z3\<lparr>sh_receivers := (sh_receivers z3)(0 := RDecrypting 0)\<rparr>"
  note z_defs = z4_def z3_def z2_def z1_def z0_def shared_init_def s_def session_new_def
  have "REJECT_AFTER_MESSAGES \<noteq> 0" by (simp add: REJECT_AFTER_MESSAGES_def)
  then have R: "\<not> REJECT_AFTER_MESSAGES \<le> 0" "0 < REJECT_AFTER_MESSAGES" "REJECT_AFTER_MESSAGES \<noteq> 0"
    by (simp_all add: word_greater_zero_iff)
  have 1: "shared_step z0 z1" unfolding z1_def
    by (rule shared_step.send_load) (simp_all add: z_defs counter_load_def R)
  have 2: "shared_step z1 z2" unfolding z2_def
    by (rule shared_step.send_load) (simp_all add: z_defs counter_load_def R)
  have 3: "shared_step z2 z3" unfolding z3_def
    by (rule shared_step.send_exchange) (simp_all add: z_defs counter_exchange_def)
  have 4: "shared_step z3 z4" unfolding z4_def
    by (rule shared_step.recv_check)
      (simp_all add: z_defs receiving_counter_quick_check_def will_accept_def validator_default_def R)
  obtain s' where m: "receiving_counter_mark 0 (sh_session z4) = Some (Inr (), s')"
    using receiving_counter_mark_accepts [of "sh_session z4" 0 "{}" 0] tracks_default R(2)
    by (auto simp: z_defs word_less_nat_alt)
  define z5 where "z5 = z4\<lparr>sh_session := s', sh_receivers := (sh_receivers z4)(0 := RStart),
      sh_accepted := (case (Inr () :: WireGuardError + unit) of Inr _ \<Rightarrow> 0 # sh_accepted z4 | Inl _ \<Rightarrow> sh_accepted z4)\<rparr>"
  have 5: "shared_step z4 z5" unfolding z5_def
    by (rule shared_step.recv_mark [OF _ m]) (simp add: z4_def)
  have "shared_step\<^sup>*\<^sup>* z0 z5"
    using 1 2 3 4 5 by (meson converse_rtranclp_into_rtranclp rtranclp.rtrancl_refl)
  moreover have "sh_used z5 = [0] \<and> sh_accepted z5 = [0] \<and> sh_senders z5 1 = SLoaded 0"
    by (simp add: z5_def z_defs)
  ultimately show ?thesis by (auto simp: z0_def s_def)
qed

theorem shared_session_safe_witness:
  "\<exists>z. shared_step\<^sup>*\<^sup>* (shared_init (session_new 9 3 sample_key sample_key)) z \<and>
     sh_used z = [0] \<and> distinct (map counter_nonce (sh_used z)) \<and> distinct (sh_accepted z)"
proof -
  obtain z where z: "shared_step\<^sup>*\<^sup>* (shared_init (session_new 9 3 sample_key sample_key)) z" "sh_used z = [0]"
    using sample_interleaving by blast
  from shared_session_safe [OF z(1)] z show ?thesis by blast
qed

end
