(* ===== verification/Timestamper.thy ===== *)
theory Timestamper
  imports Prelude
begin

text \<open>
  The TAI64N timestamps of \<^verbatim>\<open>timestamper.rs\<close>. The 64-bit
  additions of \<^verbatim>\<open>stamp\<close> are those of words; the bounds under which they do not wrap are
  hypotheses of the properties.
\<close>

record TimeStamper =
  instant_at_start :: instant
  unix_time_secs_at_start :: u64

definition TAI64_BASE :: u64 where "TAI64_BASE = 0x400000000000000a"
definition WHITENER_MASK :: u32 where "WHITENER_MASK = 0x01000000 - 1"

definition timestamper_new :: "instant \<Rightarrow> u64 \<Rightarrow> TimeStamper" where
  "timestamper_new now unix_time_secs = \<lparr>instant_at_start = now, unix_time_secs_at_start = unix_time_secs\<rparr>"

definition stamp :: "instant \<Rightarrow> TimeStamper \<Rightarrow> bytes" where
  "stamp now t =
     (let elapsed = now - instant_at_start t;
          seconds = TAI64_BASE + unix_time_secs_at_start t + of_nat (elapsed div SECOND);
          nanoseconds = of_nat (elapsed mod SECOND) AND NOT WHITENER_MASK
      in to_be_bytes 8 seconds @ to_be_bytes 4 nanoseconds)"

record Tai64N =
  secs :: u64
  nano :: u32

definition tai64n_zero :: Tai64N where "tai64n_zero = \<lparr>secs = 0, nano = 0\<rparr>"

definition tai64n_parse :: "bytes \<Rightarrow> WireGuardError + Tai64N" where
  "tai64n_parse buf = Inr \<lparr>secs = from_be_bytes (take 8 buf), nano = from_be_bytes (drop 8 buf)\<rparr>"

definition tai64n_after :: "Tai64N \<Rightarrow> Tai64N \<Rightarrow> bool" where
  "tai64n_after a b \<longleftrightarrow> secs a > secs b \<or> (secs a = secs b \<and> nano a > nano b)"

section \<open>Lemmas\<close>

lemma length_stamp [simp]: "length (stamp now t) = 12"
  by (simp add: stamp_def Let_def)

lemma tai64n_after_irrefl [simp]: "\<not> tai64n_after a a"
  by (simp add: tai64n_after_def)

lemma tai64n_parse_stamp:
  "tai64n_parse (stamp now t) = Inr
     \<lparr>secs = TAI64_BASE + unix_time_secs_at_start t + of_nat ((now - instant_at_start t) div SECOND),
      nano = of_nat ((now - instant_at_start t) mod SECOND) AND NOT WHITENER_MASK\<rparr>"
  by (simp add: tai64n_parse_def stamp_def Let_def)

lemma nano_whitened:
  assumes "n < SECOND"
  shows "unat ((of_nat n :: u32) AND NOT WHITENER_MASK) = n div 2 ^ 24 * 2 ^ 24"
proof -
  have n: "n < 2 ^ 32" using assms by (simp add: SECOND_def)
  have "(of_nat n :: u32) AND NOT WHITENER_MASK = (of_nat n :: u32) AND NOT (mask 24)"
    by (simp add: WHITENER_MASK_def mask_eq_exp_minus_1)
  also have "\<dots> = push_bit 24 (drop_bit 24 (of_nat n :: u32))"
    by (rule bit_word_eqI) (auto simp: bit_and_iff bit_not_iff bit_mask_iff bit_push_bit_iff bit_drop_bit_eq)
  finally have "unat ((of_nat n :: u32) AND NOT WHITENER_MASK) = unat (push_bit 24 (drop_bit 24 (of_nat n :: u32)))"
    by simp
  also have "\<dots> = n div 2 ^ 24 * 2 ^ 24"
  proof -
    have "unat (drop_bit 24 (of_nat n :: u32)) = n div 2 ^ 24"
      using n by (simp add: drop_bit_eq_div unat_div_distrib unat_of_nat)
    moreover have "n div 2 ^ 24 * 2 ^ 24 < 2 ^ 32" using n by (meson div_times_less_eq_dividend le_less_trans)
    ultimately show ?thesis
      by (simp add: push_bit_eq_mult unat_word_ariths)
  qed
  finally show ?thesis .
qed

text \<open>The order of the instants of a stamper, at the resolution of its timestamps.\<close>

definition tick :: "instant \<Rightarrow> TimeStamper \<Rightarrow> nat \<times> nat" where
  "tick now t = ((now - instant_at_start t) div SECOND, (now - instant_at_start t) mod SECOND div 2 ^ 24)"

lemma stamp_after_iff:
  assumes base: "unat TAI64_BASE + unat (unix_time_secs_at_start t) + (max a b - instant_at_start t) div SECOND < 2 ^ 64"
    and p: "tai64n_parse (stamp a t) = Inr ta" "tai64n_parse (stamp b t) = Inr tb"
  shows "tai64n_after tb ta \<longleftrightarrow>
    fst (tick a t) < fst (tick b t) \<or> (fst (tick a t) = fst (tick b t) \<and> snd (tick a t) < snd (tick b t))"
proof -
  have secs: "unat (TAI64_BASE + unix_time_secs_at_start t + of_nat ((x - instant_at_start t) div SECOND)) =
      unat TAI64_BASE + unat (unix_time_secs_at_start t) + (x - instant_at_start t) div SECOND" if "x \<le> max a b" for x
  proof -
    have le: "(x - instant_at_start t) div SECOND \<le> (max a b - instant_at_start t) div SECOND"
      using that by (intro div_le_mono diff_le_mono)
    then have "unat (of_nat ((x - instant_at_start t) div SECOND) :: u64) = (x - instant_at_start t) div SECOND"
      using base by (intro unat_of_nat_small) simp
    moreover have "unat (TAI64_BASE + unix_time_secs_at_start t) = unat TAI64_BASE + unat (unix_time_secs_at_start t)"
      using base by (intro unat_plus_nowrap) simp
    ultimately show ?thesis using base le by (subst unat_plus_nowrap) simp_all
  qed
  have nano: "unat ((of_nat ((x - instant_at_start t) mod SECOND) :: u32) AND NOT WHITENER_MASK) =
      (x - instant_at_start t) mod SECOND div 2 ^ 24 * 2 ^ 24" for x
    by (rule nano_whitened) (simp add: SECOND_def)
  have "ta = \<lparr>secs = TAI64_BASE + unix_time_secs_at_start t + of_nat ((a - instant_at_start t) div SECOND),
      nano = of_nat ((a - instant_at_start t) mod SECOND) AND NOT WHITENER_MASK\<rparr>"
    "tb = \<lparr>secs = TAI64_BASE + unix_time_secs_at_start t + of_nat ((b - instant_at_start t) div SECOND),
      nano = of_nat ((b - instant_at_start t) mod SECOND) AND NOT WHITENER_MASK\<rparr>"
    using p by (simp_all add: tai64n_parse_stamp)
  then have "unat (secs ta) = unat TAI64_BASE + unat (unix_time_secs_at_start t) + fst (tick a t)"
      "unat (secs tb) = unat TAI64_BASE + unat (unix_time_secs_at_start t) + fst (tick b t)"
      "unat (nano ta) = snd (tick a t) * 2 ^ 24" "unat (nano tb) = snd (tick b t) * 2 ^ 24"
    using secs [of a] secs [of b] by (simp_all add: nano tick_def)
  then show ?thesis
    unfolding tai64n_after_def word_less_nat_alt word_unat_eq_iff by auto
qed

section \<open>Properties\<close>

text \<open>The timestamps of one stamper never run backwards, and they grow whenever at least one whitened
  tick (\<open>2^24\<close> nanoseconds) or one second has passed, so a peer that keeps the greatest
  timestamp accepts every handshake started that much later: two timestamps are ordered exactly as
  the whole seconds and then the ticks of their instants.\<close>

theorem stamp_monotone:
  assumes "unat TAI64_BASE + unat (unix_time_secs_at_start t) + (b - instant_at_start t) div SECOND < 2 ^ 64"
    and "a \<le> b" and "tai64n_parse (stamp a t) = Inr ta" and "tai64n_parse (stamp b t) = Inr tb"
  shows "\<not> tai64n_after ta tb \<and> (tai64n_after tb ta \<longleftrightarrow> tick a t \<noteq> tick b t)"
proof (intro conjI)
  have m: "max a b = b" "max b a = b" using assms(2) by simp_all
  note ab = stamp_after_iff [of t a b, unfolded m, OF assms(1,3,4)]
  note ba = stamp_after_iff [of t b a, unfolded m, OF assms(1,4,3)]
  have le: "a - instant_at_start t \<le> b - instant_at_start t" using assms(2) by simp
  have s: "fst (tick a t) \<le> fst (tick b t)" unfolding tick_def using le by (simp add: div_le_mono)
  have n: "snd (tick a t) \<le> snd (tick b t)" if "fst (tick a t) = fst (tick b t)"
  proof -
    have "(a - instant_at_start t) mod SECOND \<le> (b - instant_at_start t) mod SECOND"
      using that le by (simp add: tick_def modulo_nat_def)
    then show ?thesis by (simp add: tick_def div_le_mono)
  qed
  show "\<not> tai64n_after ta tb" unfolding ba using s n by fastforce
  show "tai64n_after tb ta \<longleftrightarrow> tick a t \<noteq> tick b t"
    unfolding ab using s n by (auto simp: prod_eq_iff)
qed

text \<open>One second apart, from the Unix epoch.\<close>

theorem stamp_monotone_witness:
  "\<exists>ta tb. tai64n_parse (stamp 0 (timestamper_new 0 0)) = Inr ta \<and>
     tai64n_parse (stamp SECOND (timestamper_new 0 0)) = Inr tb \<and> tai64n_after tb ta"
proof -
  obtain ta tb where p: "tai64n_parse (stamp 0 (timestamper_new 0 0)) = Inr ta"
      "tai64n_parse (stamp SECOND (timestamper_new 0 0)) = Inr tb"
    by (simp add: tai64n_parse_stamp)
  have "tai64n_after tb ta \<longleftrightarrow> tick 0 (timestamper_new 0 0) \<noteq> tick SECOND (timestamper_new 0 0)"
    by (rule stamp_monotone [OF _ _ p, THEN conjunct2]) (simp_all add: timestamper_new_def TAI64_BASE_def SECOND_def)
  with p show ?thesis by (simp add: tick_def timestamper_new_def SECOND_def)
qed

end
