(* ===== verification/Handshake.thy ===== *)
theory Handshake
  imports Session Timestamper
begin

text \<open>
  The Noise IKpsk2 handshake of \<^verbatim>\<open>noise/handshake.rs\<close>. The primitives (X25519, BLAKE2s, HMAC,
  the AEAD ciphers) are third-party crates: they are the fields of the parameter \<open>crypto\<close>, and
  \<open>crypto_correct\<close> states what the code relies on. A key is its 32 bytes. Where the source draws
  an ephemeral secret or reads the clock, the value is an argument. An output buffer is given by its
  length: every byte of the message that is returned is written.
\<close>

section \<open>Primitives\<close>

record crypto = aead +
  blake2s :: "bytes \<Rightarrow> bytes"
  hmac_blake2s :: "bytes \<Rightarrow> bytes \<Rightarrow> bytes"
  blake2s_mac :: "nat \<Rightarrow> bytes \<Rightarrow> bytes \<Rightarrow> bytes"
  xseal :: "bytes \<Rightarrow> bytes \<Rightarrow> bytes \<Rightarrow> bytes \<Rightarrow> (bytes \<times> bytes) option"
  xopen :: "bytes \<Rightarrow> bytes \<Rightarrow> bytes \<Rightarrow> bytes \<Rightarrow> bytes \<Rightarrow> bytes option"
  public_key :: "bytes \<Rightarrow> bytes"
  diffie_hellman :: "bytes \<Rightarrow> bytes \<Rightarrow> bytes"

text \<open>Sizes of the outputs, opening what was sealed, and the commutation of Diffie-Hellman.\<close>

definition crypto_correct :: "crypto \<Rightarrow> bool" where
  "crypto_correct C \<longleftrightarrow> aead_correct C \<and>
     (\<forall>d. length (blake2s C d) = 32) \<and> (\<forall>k d. length (hmac_blake2s C k d) = 32) \<and>
     (\<forall>n k d. length (blake2s_mac C n k d) = n) \<and> (\<forall>a. length (public_key C a) = 32) \<and>
     (\<forall>a b. diffie_hellman C a (public_key C b) = diffie_hellman C b (public_key C a)) \<and>
     (\<forall>k n ad pt. length k = 32 \<longrightarrow> length n = 24 \<longrightarrow> length pt \<le> aead_max_plaintext \<longrightarrow>
        (\<exists>ct tag. xseal C k n ad pt = Some (ct, tag) \<and> length ct = length pt \<and> length tag = 16 \<and>
           xopen C k n ad ct tag = Some pt))"

definition LABEL_MAC1 :: bytes where "LABEL_MAC1 = [0x6d, 0x61, 0x63, 0x31, 0x2d, 0x2d, 0x2d, 0x2d]"
definition LABEL_COOKIE :: bytes where "LABEL_COOKIE = [0x63, 0x6f, 0x6f, 0x6b, 0x69, 0x65, 0x2d, 0x2d]"
definition KEY_LEN :: nat where "KEY_LEN = 32"
definition TIMESTAMP_LEN :: nat where "TIMESTAMP_LEN = 12"

definition INITIAL_CHAIN_KEY :: bytes where
  "INITIAL_CHAIN_KEY =
     [96, 226, 109, 174, 243, 39, 239, 192, 46, 195, 53, 226, 160, 37, 210, 208, 22, 235, 66, 6, 248,
      114, 119, 245, 45, 56, 209, 152, 139, 120, 205, 54]"

definition INITIAL_CHAIN_HASH :: bytes where
  "INITIAL_CHAIN_HASH =
     [34, 17, 179, 97, 8, 26, 197, 102, 105, 18, 67, 219, 69, 138, 213, 50, 45, 156, 108, 102, 34,
      147, 232, 183, 14, 225, 156, 101, 186, 7, 158, 243]"

definition b2s_hash :: "crypto \<Rightarrow> bytes \<Rightarrow> bytes \<Rightarrow> bytes" where
  "b2s_hash C data1 data2 = blake2s C (data1 @ data2)"

definition b2s_hmac :: "crypto \<Rightarrow> bytes \<Rightarrow> bytes \<Rightarrow> bytes" where
  "b2s_hmac C key data1 = hmac_blake2s C key data1"

definition b2s_hmac2 :: "crypto \<Rightarrow> bytes \<Rightarrow> bytes \<Rightarrow> bytes \<Rightarrow> bytes" where
  "b2s_hmac2 C key data1 data2 = hmac_blake2s C key (data1 @ data2)"

definition b2s_keyed_mac_16 :: "crypto \<Rightarrow> bytes \<Rightarrow> bytes \<Rightarrow> bytes" where
  "b2s_keyed_mac_16 C key data1 = blake2s_mac C 16 key data1"

definition b2s_keyed_mac_16_2 :: "crypto \<Rightarrow> bytes \<Rightarrow> bytes \<Rightarrow> bytes \<Rightarrow> bytes" where
  "b2s_keyed_mac_16_2 C key data1 data2 = blake2s_mac C 16 key (data1 @ data2)"

definition b2s_mac_24 :: "crypto \<Rightarrow> bytes \<Rightarrow> bytes \<Rightarrow> bytes" where
  "b2s_mac_24 C key data1 = blake2s_mac C 24 key data1"

text \<open>The result fills the ciphertext buffer; a failing cipher is a panic.\<close>

definition aead_chacha20_seal :: "crypto \<Rightarrow> bytes \<Rightarrow> u64 \<Rightarrow> bytes \<Rightarrow> bytes \<Rightarrow> bytes run" where
  "aead_chacha20_seal C key counter data aad =
     (if length key \<noteq> 32 then Panic
      else case aead_seal C key (counter_nonce counter) aad data of
        None \<Rightarrow> Panic | Some (ct, tag) \<Rightarrow> Ret (ct @ tag))"

text \<open>A ciphertext that does not fill the buffer of \<open>buf_len\<close> bytes is a panic of \<^verbatim>\<open>copy_from_slice\<close>.\<close>

definition aead_chacha20_open ::
  "crypto \<Rightarrow> nat \<Rightarrow> bytes \<Rightarrow> u64 \<Rightarrow> bytes \<Rightarrow> bytes \<Rightarrow> (WireGuardError + bytes) run" where
  "aead_chacha20_open C buf_len key counter data aad =
     (if length key \<noteq> 32 then Panic
      else if length data < 16 then Ret (Inl InvalidAeadTag)
      else let ciphertext = take (length data - 16) data; tag = drop (length data - 16) data in
        if length ciphertext \<noteq> buf_len then Panic
        else case aead_open C key (counter_nonce counter) aad ciphertext tag of
          None \<Rightarrow> Ret (Inl InvalidAeadTag) | Some pt \<Rightarrow> Ret (Inr pt))"

text \<open>The key derivations the handshake functions repeat: the new chaining key, the chaining key and
  one key, the chaining key and two keys.\<close>

definition mix1 :: "crypto \<Rightarrow> bytes \<Rightarrow> bytes \<Rightarrow> bytes" where
  "mix1 C chaining_key x = b2s_hmac C (b2s_hmac C chaining_key x) [1]"

definition mix2 :: "crypto \<Rightarrow> bytes \<Rightarrow> bytes \<Rightarrow> bytes \<times> bytes" where
  "mix2 C chaining_key x =
     (let temp = b2s_hmac C chaining_key x; chaining_key' = b2s_hmac C temp [1]
      in (chaining_key', b2s_hmac2 C temp chaining_key' [2]))"

definition mix3 :: "crypto \<Rightarrow> bytes \<Rightarrow> bytes \<Rightarrow> bytes \<times> bytes \<times> bytes" where
  "mix3 C chaining_key x =
     (let temp = b2s_hmac C chaining_key x; chaining_key' = b2s_hmac C temp [1];
          temp2 = b2s_hmac2 C temp chaining_key' [2]
      in (chaining_key', temp2, b2s_hmac2 C temp temp2 [3]))"

definition derive_keys :: "crypto \<Rightarrow> bytes \<Rightarrow> bytes \<times> bytes" where
  "derive_keys C chaining_key =
     (let temp1 = b2s_hmac C chaining_key []; temp2 = b2s_hmac C temp1 [1];
          temp3 = b2s_hmac2 C temp1 temp2 [2] in (temp2, temp3))"

section \<open>State\<close>

record NoiseParams =
  static_public :: bytes
  static_private :: bytes
  peer_static_public :: bytes
  static_shared :: bytes
  sending_mac1_key :: bytes

record HandshakeInitSentState =
  is_local_index :: u32
  is_hash :: bytes
  is_chaining_key :: bytes
  is_ephemeral_private :: bytes
  is_time_sent :: instant

datatype HandshakeState =
    HSNone
  | InitSent HandshakeInitSentState
  | InitReceived bytes bytes bytes u32
  | Expired

record Cookies =
  last_mac1 :: "bytes option"
  ck_index :: u32
  write_cookie :: "bytes option"

record Handshake =
  params :: NoiseParams
  next_local_index :: u32
  previous :: HandshakeState
  hs_state :: HandshakeState
  cookies :: Cookies
  last_handshake_timestamp :: Tai64N
  last_rtt :: "u32 option"

definition noise_params_new :: "crypto \<Rightarrow> bytes \<Rightarrow> bytes \<Rightarrow> bytes \<Rightarrow> NoiseParams" where
  "noise_params_new C priv pub peer_pub =
     \<lparr>static_public = pub, static_private = priv, peer_static_public = peer_pub,
      static_shared = diffie_hellman C priv peer_pub, sending_mac1_key = b2s_hash C LABEL_MAC1 peer_pub\<rparr>"

definition handshake_new :: "crypto \<Rightarrow> bytes \<Rightarrow> bytes \<Rightarrow> bytes \<Rightarrow> u32 \<Rightarrow> Handshake" where
  "handshake_new C priv pub peer_pub peer_index =
     \<lparr>params = noise_params_new C priv pub peer_pub, next_local_index = push_bit 8 peer_index,
      previous = HSNone, hs_state = HSNone,
      cookies = \<lparr>last_mac1 = None, ck_index = 0, write_cookie = None\<rparr>,
      last_handshake_timestamp = tai64n_zero, last_rtt = None\<rparr>"

definition is_in_progress :: "Handshake \<Rightarrow> bool" where
  "is_in_progress h = (case hs_state h of HSNone \<Rightarrow> False | Expired \<Rightarrow> False | _ \<Rightarrow> True)"

definition timer :: "Handshake \<Rightarrow> instant option" where
  "timer h = (case hs_state h of InitSent s \<Rightarrow> Some (is_time_sent s) | _ \<Rightarrow> None)"

definition set_expired :: "Handshake \<Rightarrow> Handshake" where
  "set_expired h = h\<lparr>previous := Expired, hs_state := Expired\<rparr>"

definition is_expired :: "Handshake \<Rightarrow> bool" where
  "is_expired h = (case hs_state h of Expired \<Rightarrow> True | _ \<Rightarrow> False)"

definition has_cookie :: "Handshake \<Rightarrow> bool" where
  "has_cookie h = (write_cookie (cookies h) \<noteq> None)"

definition clear_cookie :: "Handshake \<Rightarrow> Handshake" where
  "clear_cookie h = h\<lparr>cookies := (cookies h)\<lparr>write_cookie := None\<rparr>\<rparr>"

definition allocate_local_index :: "Handshake \<Rightarrow> u32 \<times> Handshake" where
  "allocate_local_index h =
     (let index = next_local_index h; idx8 = (ucast index :: u8)
      in (index, h\<lparr>next_local_index := (index AND NOT 0xff) OR ucast (idx8 + 1)\<rparr>))"

section \<open>Messages\<close>

definition parse_handshake_anon ::
  "crypto \<Rightarrow> bytes \<Rightarrow> bytes \<Rightarrow> HandshakeInit \<Rightarrow> (WireGuardError + bytes) run" where
  "parse_handshake_anon C priv pub packet =
     (let hash0 = b2s_hash C INITIAL_CHAIN_HASH pub;
          peer_ephemeral_public = hi_unencrypted_ephemeral packet;
          hash1 = b2s_hash C hash0 peer_ephemeral_public;
          ck1 = mix1 C INITIAL_CHAIN_KEY peer_ephemeral_public;
          (ck2, key) = mix2 C ck1 (diffie_hellman C priv peer_ephemeral_public)
      in aead_chacha20_open C KEY_LEN key 0 (hi_encrypted_static packet) hash1)"

definition append_mac1_and_mac2 :: "crypto \<Rightarrow> u32 \<Rightarrow> bytes \<Rightarrow> Handshake \<Rightarrow> bytes \<times> Handshake" where
  "append_mac1_and_mac2 C local_index msg h =
     (let msg_mac1 = b2s_keyed_mac_16 C (sending_mac1_key (params h)) msg;
          msg_mac2 = (case write_cookie (cookies h) of
              Some cookie \<Rightarrow> b2s_keyed_mac_16 C cookie (msg @ msg_mac1)
            | None \<Rightarrow> replicate 16 0)
      in (msg @ msg_mac1 @ msg_mac2,
          h\<lparr>cookies := (cookies h)\<lparr>ck_index := local_index, last_mac1 := Some msg_mac1\<rparr>\<rparr>))"

definition format_handshake_initiation ::
  "crypto \<Rightarrow> instant \<Rightarrow> bytes \<Rightarrow> nat \<Rightarrow> TimeStamper \<Rightarrow> Handshake \<Rightarrow> ((WireGuardError + bytes) \<times> Handshake) run" where
  "format_handshake_initiation C now ephemeral_private dst_len stamper h =
     (if dst_len < HANDSHAKE_INIT_SZ then Ret (Inl DestinationBufferTooSmall, h)
      else
        let (local_index, h1) = allocate_local_index h;
            hash0 = b2s_hash C INITIAL_CHAIN_HASH (peer_static_public (params h1));
            unencrypted_ephemeral = public_key C ephemeral_private;
            hash1 = b2s_hash C hash0 unencrypted_ephemeral;
            ck1 = mix1 C INITIAL_CHAIN_KEY unencrypted_ephemeral;
            (ck2, key) = mix2 C ck1 (diffie_hellman C ephemeral_private (peer_static_public (params h1)))
        in run_bind (aead_chacha20_seal C key 0 (static_public (params h1)) hash1) (\<lambda>encrypted_static.
        let hash2 = b2s_hash C hash1 encrypted_static;
            (ck3, key2) = mix2 C ck2 (static_shared (params h1));
            timestamp = stamp now stamper
        in run_bind (aead_chacha20_seal C key2 0 timestamp hash2) (\<lambda>encrypted_timestamp.
        let hash3 = b2s_hash C hash2 encrypted_timestamp;
            h2 = h1\<lparr>previous := hs_state h1,
                    hs_state := InitSent \<lparr>is_local_index = local_index, is_hash = hash3, is_chaining_key = ck3,
                      is_ephemeral_private = ephemeral_private, is_time_sent = now\<rparr>\<rparr>;
            (out, h3) = append_mac1_and_mac2 C local_index
              (to_le_bytes 4 HANDSHAKE_INIT @ to_le_bytes 4 local_index @ unencrypted_ephemeral @
               encrypted_static @ encrypted_timestamp) h2
        in Ret (Inr out, h3))))"

definition format_handshake_response ::
  "crypto \<Rightarrow> bytes \<Rightarrow> nat \<Rightarrow> Handshake \<Rightarrow> ((WireGuardError + (bytes \<times> Session)) \<times> Handshake) run" where
  "format_handshake_response C ephemeral_private dst_len h =
     (if dst_len < HANDSHAKE_RESP_SZ then Ret (Inl DestinationBufferTooSmall, h)
      else case hs_state h of
        InitReceived hash0 ck0 peer_ephemeral_public peer_index \<Rightarrow>
          (let h1 = h\<lparr>hs_state := HSNone\<rparr>;
               (local_index, h2) = allocate_local_index h1;
               unencrypted_ephemeral = public_key C ephemeral_private;
               hash1 = b2s_hash C hash0 unencrypted_ephemeral;
               ck1 = mix1 C ck0 unencrypted_ephemeral;
               ck2 = mix1 C ck1 (diffie_hellman C ephemeral_private peer_ephemeral_public);
               ck3 = mix1 C ck2 (diffie_hellman C ephemeral_private (peer_static_public (params h2)));
               (ck4, temp2, key) = mix3 C ck3 (replicate 32 0);
               hash2 = b2s_hash C hash1 temp2
           in run_bind (aead_chacha20_seal C key 0 [] hash2) (\<lambda>encrypted_nothing.
           let (k2, k3) = derive_keys C ck4;
               (out, h3) = append_mac1_and_mac2 C local_index
                 (to_le_bytes 4 HANDSHAKE_RESP @ to_le_bytes 4 local_index @ to_le_bytes 4 peer_index @
                  unencrypted_ephemeral @ encrypted_nothing) h2
           in Ret (Inr (out, session_new local_index peer_index k2 k3), h3)))
      | _ \<Rightarrow> Panic)"

definition receive_handshake_initialization ::
  "crypto \<Rightarrow> bytes \<Rightarrow> nat \<Rightarrow> HandshakeInit \<Rightarrow> Handshake \<Rightarrow> ((WireGuardError + (bytes \<times> Session)) \<times> Handshake) run" where
  "receive_handshake_initialization C ephemeral_private dst_len packet h =
     (let hash0 = b2s_hash C INITIAL_CHAIN_HASH (static_public (params h));
          peer_index = hi_sender_idx packet;
          peer_ephemeral_public = hi_unencrypted_ephemeral packet;
          hash1 = b2s_hash C hash0 peer_ephemeral_public;
          ck1 = mix1 C INITIAL_CHAIN_KEY peer_ephemeral_public;
          (ck2, key) = mix2 C ck1 (diffie_hellman C (static_private (params h)) peer_ephemeral_public)
      in run_bind (aead_chacha20_open C KEY_LEN key 0 (hi_encrypted_static packet) hash1) (\<lambda>r.
      case r of
        Inl e \<Rightarrow> Ret (Inl e, h)
      | Inr peer_static_public_decrypted \<Rightarrow>
          if peer_static_public (params h) \<noteq> peer_static_public_decrypted then Ret (Inl WrongKey, h)
          else
            let hash2 = b2s_hash C hash1 (hi_encrypted_static packet);
                (ck3, key2) = mix2 C ck2 (static_shared (params h))
            in run_bind (aead_chacha20_open C TIMESTAMP_LEN key2 0 (hi_encrypted_timestamp packet) hash2) (\<lambda>r2.
            case r2 of
              Inl e \<Rightarrow> Ret (Inl e, h)
            | Inr buf \<Rightarrow>
                (case tai64n_parse buf of
                   Inl e \<Rightarrow> Ret (Inl e, h)
                 | Inr timestamp \<Rightarrow>
                     if \<not> tai64n_after timestamp (last_handshake_timestamp h) then Ret (Inl WrongTimestamp, h)
                     else
                       let h1 = h\<lparr>last_handshake_timestamp := timestamp\<rparr>;
                           hash3 = b2s_hash C hash2 (hi_encrypted_timestamp packet);
                           h2 = h1\<lparr>previous := hs_state h1,
                                   hs_state := InitReceived hash3 ck3 peer_ephemeral_public peer_index\<rparr>
                       in format_handshake_response C ephemeral_private dst_len h2))))"

definition expected_state :: "u32 \<Rightarrow> Handshake \<Rightarrow> HandshakeInitSentState option" where
  "expected_state receiver_idx h =
     (case hs_state h of
        InitSent s \<Rightarrow> if is_local_index s = receiver_idx then Some s
          else (case previous h of InitSent s' \<Rightarrow> if is_local_index s' = receiver_idx then Some s' else None | _ \<Rightarrow> None)
      | _ \<Rightarrow> (case previous h of InitSent s' \<Rightarrow> if is_local_index s' = receiver_idx then Some s' else None | _ \<Rightarrow> None))"

definition receive_handshake_response ::
  "crypto \<Rightarrow> instant \<Rightarrow> HandshakeResponse \<Rightarrow> Handshake \<Rightarrow> ((WireGuardError + Session) \<times> Handshake) run" where
  "receive_handshake_response C now packet h =
     (case expected_state (hr_receiver_idx packet) h of
        None \<Rightarrow> Ret (Inl UnexpectedPacket, h)
      | Some state \<Rightarrow>
          (let peer_index = hr_sender_idx packet;
               unencrypted_ephemeral = hr_unencrypted_ephemeral packet;
               hash1 = b2s_hash C (is_hash state) unencrypted_ephemeral;
               ck1 = mix1 C (is_chaining_key state) unencrypted_ephemeral;
               ck2 = mix1 C ck1 (diffie_hellman C (is_ephemeral_private state) unencrypted_ephemeral);
               ck3 = mix1 C ck2 (diffie_hellman C (static_private (params h)) unencrypted_ephemeral);
               (ck4, temp2, key) = mix3 C ck3 (replicate 32 0);
               hash2 = b2s_hash C hash1 temp2
           in run_bind (aead_chacha20_open C 0 key 0 (hr_encrypted_nothing packet) hash2) (\<lambda>r.
           case r of
             Inl e \<Rightarrow> Ret (Inl e, h)
           | Inr _ \<Rightarrow>
               let (k2, k3) = derive_keys C ck4;
                   h1 = h\<lparr>last_rtt := Some (of_nat ((now - is_time_sent state) div MILLISECOND))\<rparr>;
                   is_current = (case hs_state h1 of InitSent s \<Rightarrow> is_local_index s = hr_receiver_idx packet | _ \<Rightarrow> False);
                   h2 = (if is_current then h1\<lparr>hs_state := HSNone\<rparr> else h1\<lparr>previous := HSNone\<rparr>)
               in Ret (Inr (session_new (is_local_index state) peer_index k3 k2), h2))))"

definition receive_cookie_reply ::
  "crypto \<Rightarrow> CookieReply \<Rightarrow> Handshake \<Rightarrow> ((WireGuardError + unit) \<times> Handshake) run" where
  "receive_cookie_reply C packet h =
     (case last_mac1 (cookies h) of
        None \<Rightarrow> Ret (Inl UnexpectedPacket, h)
      | Some mac1 \<Rightarrow>
          if cr_receiver_idx packet \<noteq> ck_index (cookies h) then Ret (Inl WrongIndex, h)
          else
            let key = b2s_hash C LABEL_COOKIE (peer_static_public (params h)) in
            if length (cr_encrypted_cookie packet) < 16 then Ret (Inl InvalidPacket, h)
            else
              let ct_len = length (cr_encrypted_cookie packet) - 16;
                  ciphertext = take ct_len (cr_encrypted_cookie packet);
                  tag = drop ct_len (cr_encrypted_cookie packet)
              in if length ciphertext \<noteq> 16 then Panic
                 else if length key \<noteq> 32 then Panic
                 else case xopen C key (cr_nonce packet) mac1 ciphertext tag of
                   None \<Rightarrow> Ret (Inl InvalidAeadTag, h)
                 | Some cookie \<Rightarrow> Ret (Inr (), h\<lparr>cookies := (cookies h)\<lparr>write_cookie := Some cookie\<rparr>\<rparr>))"

section \<open>Lemmas\<close>

lemma crypto_correctD:
  assumes "crypto_correct C"
  shows "aead_correct C" "length (blake2s C d) = 32" "length (hmac_blake2s C k d) = 32"
    "length (blake2s_mac C n k d) = n" "length (public_key C a) = 32"
    "diffie_hellman C a (public_key C b) = diffie_hellman C b (public_key C a)"
  using assms unfolding crypto_correct_def by blast+

lemma length_mix:
  assumes "crypto_correct C"
  shows "length (b2s_hash C x y) = 32" "length (mix1 C ck x) = 32" "mix2 C ck x = (c, k) \<Longrightarrow> length k = 32"
    "mix3 C ck x = (c, t, k) \<Longrightarrow> length k = 32" "derive_keys C ck = (k, k2) \<Longrightarrow> length k = 32 \<and> length k2 = 32"
    "length (b2s_keyed_mac_16 C kk d) = 16" "length (b2s_keyed_mac_16_2 C kk d e) = 16" "length (b2s_mac_24 C kk d) = 24"
  using crypto_correctD [OF assms]
  by (auto simp: b2s_hash_def mix1_def mix2_def mix3_def derive_keys_def b2s_hmac_def b2s_hmac2_def
      b2s_keyed_mac_16_def b2s_keyed_mac_16_2_def b2s_mac_24_def Let_def)

lemma seal_open:
  assumes "crypto_correct C" "length key = 32" "length data \<le> aead_max_plaintext"
  obtains ct where "aead_chacha20_seal C key n data aad = Ret ct" "length ct = length data + 16"
    "aead_chacha20_open C (length data) key n ct aad = Ret (Inr data)"
proof -
  obtain c tag where s: "aead_seal C key (counter_nonce n) aad data = Some (c, tag)" "length c = length data"
      "length tag = 16" "aead_open C key (counter_nonce n) aad c tag = Some data"
    using crypto_correctD(1) [OF assms(1)] assms(2,3) unfolding aead_correct_def
    by (metis length_counter_nonce)
  then show ?thesis
    using assms(2) by (intro that [of "c @ tag"]) (simp_all add: aead_chacha20_seal_def aead_chacha20_open_def)
qed

text \<open>The two ends of a tunnel hold each other's public key.\<close>

definition noise_pair :: "crypto \<Rightarrow> bytes \<Rightarrow> bytes \<Rightarrow> Handshake \<Rightarrow> Handshake \<Rightarrow> bool" where
  "noise_pair C a b hi hr \<longleftrightarrow>
     params hi = noise_params_new C a (public_key C a) (public_key C b) \<and>
     params hr = noise_params_new C b (public_key C b) (public_key C a)"

text \<open>What both ends compute from the initiation: the hash, and after each key the chaining key.\<close>

definition ik_hash :: "crypto \<Rightarrow> bytes \<Rightarrow> bytes \<Rightarrow> bytes" where
  "ik_hash C responder_public e = b2s_hash C (b2s_hash C INITIAL_CHAIN_HASH responder_public) e"

definition ik_es :: "crypto \<Rightarrow> bytes \<Rightarrow> bytes \<Rightarrow> bytes \<times> bytes" where
  "ik_es C e es = mix2 C (mix1 C INITIAL_CHAIN_KEY e) es"

definition ik_ss :: "crypto \<Rightarrow> bytes \<Rightarrow> bytes \<Rightarrow> bytes \<Rightarrow> bytes \<times> bytes" where
  "ik_ss C e es ss = mix2 C (fst (ik_es C e es)) ss"

text \<open>An initiation that carries a given static key and timestamp for the responder.\<close>

definition carries :: "crypto \<Rightarrow> bytes \<Rightarrow> bytes \<Rightarrow> bytes \<Rightarrow> HandshakeInit \<Rightarrow> bytes \<Rightarrow> bytes \<Rightarrow> bool" where
  "carries C responder_public es ss p s ts \<longleftrightarrow>
     (let e = hi_unencrypted_ephemeral p; h1 = ik_hash C responder_public e in
      aead_chacha20_open C 32 (snd (ik_es C e es)) 0 (hi_encrypted_static p) h1 = Ret (Inr s) \<and>
      aead_chacha20_open C 12 (snd (ik_ss C e es ss)) 0 (hi_encrypted_timestamp p)
        (b2s_hash C h1 (hi_encrypted_static p)) = Ret (Inr ts))"

definition ik_final_hash :: "crypto \<Rightarrow> bytes \<Rightarrow> HandshakeInit \<Rightarrow> bytes" where
  "ik_final_hash C responder_public p =
     b2s_hash C (b2s_hash C (ik_hash C responder_public (hi_unencrypted_ephemeral p)) (hi_encrypted_static p))
       (hi_encrypted_timestamp p)"

lemmas ik_defs = ik_hash_def ik_es_def ik_ss_def

lemma format_initiation_spec:
  fixes eph :: bytes
  assumes C: "crypto_correct C" and dst: "148 \<le> dst_len" and pub: "length (static_public (params h)) = 32"
    and al: "allocate_local_index h = (i, h1)"
  defines "e \<equiv> public_key C eph"
  defines "es \<equiv> diffie_hellman C eph (peer_static_public (params h))"
  obtains p msg m1 m2 where "hi_sender_idx p = i" "hi_unencrypted_ephemeral p = e" "packet_wf (PHandshakeInit p) (m1 @ m2)"
    "length m1 = 16" "length m2 = 16" "packet_layout (PHandshakeInit p) (m1 @ m2) = msg @ m1 @ m2"
    "m1 = b2s_keyed_mac_16 C (sending_mac1_key (params h)) msg"
    "m2 = (case write_cookie (cookies h) of Some c \<Rightarrow> b2s_keyed_mac_16 C c (msg @ m1) | None \<Rightarrow> replicate 16 0)"
    "carries C (peer_static_public (params h)) es (static_shared (params h)) p (static_public (params h)) (stamp now st)"
    "format_handshake_initiation C now eph dst_len st h = Ret (Inr (packet_layout (PHandshakeInit p) (m1 @ m2)),
       h1\<lparr>previous := hs_state h1,
          hs_state := InitSent \<lparr>is_local_index = i, is_hash = ik_final_hash C (peer_static_public (params h)) p,
            is_chaining_key = fst (ik_ss C e es (static_shared (params h))), is_ephemeral_private = eph, is_time_sent = now\<rparr>,
          cookies := (cookies h)\<lparr>ck_index := i, last_mac1 := Some m1\<rparr>\<rparr>)"
proof -
  have ph: "params h1 = params h" "cookies h1 = cookies h" using al by (auto simp: allocate_local_index_def Let_def)
  obtain c1 k1 where m1: "ik_es C e es = (c1, k1)" by fastforce
  obtain c2 k2 where m2: "mix2 C c1 (static_shared (params h)) = (c2, k2)" by fastforce
  have m2': "ik_ss C e es (static_shared (params h)) = (c2, k2)" using m1 m2 by (simp add: ik_ss_def)
  have lk: "length k1 = 32" "length k2 = 32" using m1 m2 length_mix(3) [OF C] by (simp_all add: ik_es_def)
  let ?h1 = "ik_hash C (peer_static_public (params h)) e"
  obtain x where x: "aead_chacha20_seal C k1 0 (static_public (params h)) ?h1 = Ret x" "length x = 48"
      "aead_chacha20_open C 32 k1 0 x ?h1 = Ret (Inr (static_public (params h)))"
    using seal_open [OF C lk(1), of "static_public (params h)" 0 ?h1] pub by (auto simp: aead_max_plaintext_def)
  obtain y where y: "aead_chacha20_seal C k2 0 (stamp now st) (b2s_hash C ?h1 x) = Ret y" "length y = 28"
      "aead_chacha20_open C 12 k2 0 y (b2s_hash C ?h1 x) = Ret (Inr (stamp now st))"
    using seal_open [OF C lk(2), of "stamp now st" 0 "b2s_hash C ?h1 x"] by (auto simp: aead_max_plaintext_def)
  define p where "p = \<lparr>hi_sender_idx = i, hi_unencrypted_ephemeral = e, hi_encrypted_static = x, hi_encrypted_timestamp = y\<rparr>"
  define msg where "msg = to_le_bytes 4 HANDSHAKE_INIT @ to_le_bytes 4 i @ e @ x @ y"
  define m1c where "m1c = b2s_keyed_mac_16 C (sending_mac1_key (params h)) msg"
  define m2c where "m2c = (case write_cookie (cookies h) of Some c \<Rightarrow> b2s_keyed_mac_16 C c (msg @ m1c) | None \<Rightarrow> replicate 16 0)"
  have macs: "length m1c = 16" "length m2c = 16"
    using length_mix(6) [OF C] by (simp_all add: m1c_def m2c_def split: option.splits)
  have "format_handshake_initiation C now eph dst_len st h = Ret (Inr (msg @ m1c @ m2c),
       h1\<lparr>previous := hs_state h1,
          hs_state := InitSent \<lparr>is_local_index = i, is_hash = ik_final_hash C (peer_static_public (params h)) p,
            is_chaining_key = c2, is_ephemeral_private = eph, is_time_sent = now\<rparr>,
          cookies := (cookies h)\<lparr>ck_index := i, last_mac1 := Some m1c\<rparr>\<rparr>)"
    using dst al x(1) y(1) m1 m2 unfolding es_def e_def ik_defs
    by (simp add: format_handshake_initiation_def HANDSHAKE_INIT_SZ_def ph append_mac1_and_mac2_def
        msg_def m1c_def m2c_def ik_final_hash_def ik_hash_def p_def e_def Let_def split: option.split)
  moreover have "msg @ m1c @ m2c = packet_layout (PHandshakeInit p) (m1c @ m2c)" by (simp add: msg_def p_def)
  moreover have "carries C (peer_static_public (params h)) es (static_shared (params h)) p (static_public (params h)) (stamp now st)"
    using x(3) y(3) m1 m2' by (simp add: carries_def p_def Let_def)
  moreover have "packet_wf (PHandshakeInit p) (m1c @ m2c)"
    using x(2) y(2) macs crypto_correctD(5) [OF C] by (simp add: p_def e_def)
  ultimately show ?thesis using m2' macs m1c_def m2c_def by (intro that [of p m1c m2c msg]) (simp_all add: p_def)
qed

lemma receive_initiation_carried:
  assumes "carries C (static_public (params h)) (diffie_hellman C (static_private (params h)) (hi_unencrypted_ephemeral p))
      (static_shared (params h)) p (peer_static_public (params h)) ts"
    and "tai64n_parse ts = Inr t" and "tai64n_after t (last_handshake_timestamp h)"
  shows "receive_handshake_initialization C eph dst_len p h =
    format_handshake_response C eph dst_len (h\<lparr>last_handshake_timestamp := t, previous := hs_state h,
      hs_state := InitReceived (ik_final_hash C (static_public (params h)) p)
        (fst (ik_ss C (hi_unencrypted_ephemeral p)
           (diffie_hellman C (static_private (params h)) (hi_unencrypted_ephemeral p)) (static_shared (params h))))
        (hi_unencrypted_ephemeral p) (hi_sender_idx p)\<rparr>)"
proof -
  let ?es = "diffie_hellman C (static_private (params h)) (hi_unencrypted_ephemeral p)"
  obtain c1 k1 where m1: "ik_es C (hi_unencrypted_ephemeral p) ?es = (c1, k1)" by fastforce
  obtain c2 k2 where m2: "mix2 C c1 (static_shared (params h)) = (c2, k2)" by fastforce
  show ?thesis
    using assms m1 m2
    by (simp add: receive_handshake_initialization_def carries_def KEY_LEN_def TIMESTAMP_LEN_def ik_ss_def
        ik_final_hash_def ik_hash_def ik_es_def Let_def)
qed

definition ik_psk :: "crypto \<Rightarrow> bytes \<Rightarrow> bytes \<Rightarrow> bytes \<Rightarrow> bytes \<Rightarrow> bytes \<times> bytes \<times> bytes" where
  "ik_psk C ck e ee se = mix3 C (mix1 C (mix1 C (mix1 C ck e) ee) se) (replicate 32 0)"

lemma format_response_spec:
  fixes eph :: bytes
  assumes C: "crypto_correct C" and dst: "92 \<le> dst_len" and st: "hs_state h = InitReceived hash ck pe peer_index"
    and al: "allocate_local_index (h\<lparr>hs_state := HSNone\<rparr>) = (i, h1)"
    and psk: "ik_psk C ck (public_key C eph) (diffie_hellman C eph pe) (diffie_hellman C eph (peer_static_public (params h))) = (c4, t2, key)"
    and keys: "derive_keys C c4 = (k2, k3)"
  obtains q macs cks where "hr_sender_idx q = i" "hr_receiver_idx q = peer_index" "hr_unencrypted_ephemeral q = public_key C eph"
    "packet_wf (PHandshakeResponse q) macs"
    "aead_chacha20_open C 0 key 0 (hr_encrypted_nothing q) (b2s_hash C (b2s_hash C hash (public_key C eph)) t2) = Ret (Inr [])"
    "format_handshake_response C eph dst_len h =
       Ret (Inr (packet_layout (PHandshakeResponse q) macs, session_new i peer_index k2 k3), h1\<lparr>cookies := cks\<rparr>)"
proof -
  have ph: "params h1 = params h" using al by (auto simp: allocate_local_index_def Let_def)
  have lk: "length key = 32" using length_mix(4) [OF C] psk by (simp add: ik_psk_def)
  let ?h2 = "b2s_hash C (b2s_hash C hash (public_key C eph)) t2"
  obtain x where x: "aead_chacha20_seal C key 0 [] ?h2 = Ret x" "length x = 16" "aead_chacha20_open C 0 key 0 x ?h2 = Ret (Inr [])"
    using seal_open [OF C lk, of "[]" 0 ?h2] by auto
  define q where "q = \<lparr>hr_sender_idx = i, hr_receiver_idx = peer_index, hr_unencrypted_ephemeral = public_key C eph,
    hr_encrypted_nothing = x\<rparr>"
  define msg where "msg = to_le_bytes 4 HANDSHAKE_RESP @ to_le_bytes 4 i @ to_le_bytes 4 peer_index @ public_key C eph @ x"
  define m1c where "m1c = b2s_keyed_mac_16 C (sending_mac1_key (params h)) msg"
  define m2c where "m2c = (case write_cookie (cookies h1) of Some c \<Rightarrow> b2s_keyed_mac_16 C c (msg @ m1c) | None \<Rightarrow> replicate 16 0)"
  have macs: "length m1c = 16" "length m2c = 16"
    using length_mix(6) [OF C] by (simp_all add: m1c_def m2c_def split: option.splits)
  have "format_handshake_response C eph dst_len h =
      Ret (Inr (msg @ m1c @ m2c, session_new i peer_index k2 k3), h1\<lparr>cookies := (cookies h1)\<lparr>ck_index := i, last_mac1 := Some m1c\<rparr>\<rparr>)"
    using dst st al psk keys x(1)
    by (simp add: format_handshake_response_def HANDSHAKE_RESP_SZ_def ph append_mac1_and_mac2_def msg_def m1c_def m2c_def
        ik_psk_def Let_def split: option.split)
  moreover have "msg @ m1c @ m2c = packet_layout (PHandshakeResponse q) (m1c @ m2c)" by (simp add: msg_def q_def)
  moreover have "packet_wf (PHandshakeResponse q) (m1c @ m2c)"
    using x(2) macs crypto_correctD(5) [OF C] by (simp add: q_def)
  ultimately show ?thesis using x(3) by (intro that [of q "m1c @ m2c"]) (simp_all add: q_def)
qed

lemma receive_response_spec:
  assumes st: "hs_state h = InitSent s" and idx: "hr_receiver_idx q = is_local_index s"
    and psk: "ik_psk C (is_chaining_key s) (hr_unencrypted_ephemeral q)
      (diffie_hellman C (is_ephemeral_private s) (hr_unencrypted_ephemeral q))
      (diffie_hellman C (static_private (params h)) (hr_unencrypted_ephemeral q)) = (c4, t2, key)"
    and keys: "derive_keys C c4 = (k2, k3)"
    and op: "aead_chacha20_open C 0 key 0 (hr_encrypted_nothing q)
      (b2s_hash C (b2s_hash C (is_hash s) (hr_unencrypted_ephemeral q)) t2) = Ret (Inr [])"
  shows "receive_handshake_response C now q h = Ret (Inr (session_new (is_local_index s) (hr_sender_idx q) k3 k2),
    h\<lparr>last_rtt := Some (of_nat ((now - is_time_sent s) div MILLISECOND)), hs_state := HSNone\<rparr>)"
  using assms by (simp add: receive_handshake_response_def expected_state_def ik_psk_def Let_def)

lemma allocate_local_index_fields:
  assumes "allocate_local_index h = (i, h1)"
  shows "i = next_local_index h" "params h1 = params h" "hs_state h1 = hs_state h" "previous h1 = previous h"
    "last_handshake_timestamp h1 = last_handshake_timestamp h" "cookies h1 = cookies h"
  using assms by (auto simp: allocate_local_index_def Let_def)

text \<open>The initiator's message is accepted by the responder, up to the answer.\<close>

lemma pair_shared:
  assumes "crypto_correct C" "noise_pair C a b hi hr"
  shows "static_shared (params hi) = static_shared (params hr)"
    "diffie_hellman C eph (peer_static_public (params hi)) = diffie_hellman C (static_private (params hr)) (public_key C eph)"
    "diffie_hellman C eph (peer_static_public (params hr)) = diffie_hellman C (static_private (params hi)) (public_key C eph)"
    "static_public (params hi) = peer_static_public (params hr)" "static_public (params hr) = peer_static_public (params hi)"
    "length (static_public (params hi)) = 32"
  using assms crypto_correctD(5,6) [OF assms(1)] by (simp_all add: noise_pair_def noise_params_new_def)

lemma format_response_timestamp:
  assumes "format_handshake_response C eph dst_len h = Ret (r, h')"
  shows "last_handshake_timestamp h' = last_handshake_timestamp h"
proof -
  have "last_handshake_timestamp (snd (append_mac1_and_mac2 C i m g)) = last_handshake_timestamp g" for i m g
    by (simp add: append_mac1_and_mac2_def Let_def)
  moreover have "last_handshake_timestamp (snd (allocate_local_index g)) = last_handshake_timestamp g" for g
    by (simp add: allocate_local_index_def Let_def)
  ultimately show ?thesis
    using assms
    by (auto simp: format_handshake_response_def Let_def run_bind_eq_Ret case_prod_beta
        split: if_splits HandshakeState.splits)
qed

lemma receive_initiation_accepted:
  assumes "receive_handshake_initialization C eph dst_len p h = Ret (Inr r, h1)"
  obtains ts t where "carries C (static_public (params h))
      (diffie_hellman C (static_private (params h)) (hi_unencrypted_ephemeral p)) (static_shared (params h)) p
      (peer_static_public (params h)) ts" "tai64n_parse ts = Inr t" "last_handshake_timestamp h1 = t"
    "tai64n_after t (last_handshake_timestamp h)"
proof -
  let ?es = "diffie_hellman C (static_private (params h)) (hi_unencrypted_ephemeral p)"
  obtain c1 k1 where m1: "ik_es C (hi_unencrypted_ephemeral p) ?es = (c1, k1)" by fastforce
  obtain c2 k2 where m2: "mix2 C c1 (static_shared (params h)) = (c2, k2)" by fastforce
  define o1 where "o1 = aead_chacha20_open C 32 k1 0 (hi_encrypted_static p) (ik_hash C (static_public (params h)) (hi_unencrypted_ephemeral p))"
  define o2 where "o2 = aead_chacha20_open C 12 k2 0 (hi_encrypted_timestamp p)
    (b2s_hash C (ik_hash C (static_public (params h)) (hi_unencrypted_ephemeral p)) (hi_encrypted_static p))"
  define g where "g = (\<lambda>t. h\<lparr>last_handshake_timestamp := t, previous := hs_state h,
      hs_state := InitReceived (ik_final_hash C (static_public (params h)) p) c2 (hi_unencrypted_ephemeral p) (hi_sender_idx p)\<rparr>)"
  have "receive_handshake_initialization C eph dst_len p h = run_bind o1 (\<lambda>r. case r of
      Inl e \<Rightarrow> Ret (Inl e, h)
    | Inr s \<Rightarrow> if peer_static_public (params h) \<noteq> s then Ret (Inl WrongKey, h)
        else run_bind o2 (\<lambda>r2. case r2 of
          Inl e \<Rightarrow> Ret (Inl e, h)
        | Inr buf \<Rightarrow> (case tai64n_parse buf of
            Inl e \<Rightarrow> Ret (Inl e, h)
          | Inr t \<Rightarrow> if \<not> tai64n_after t (last_handshake_timestamp h) then Ret (Inl WrongTimestamp, h)
              else format_handshake_response C eph dst_len (g t))))"
    using m1 m2
    by (simp add: receive_handshake_initialization_def o1_def o2_def g_def KEY_LEN_def TIMESTAMP_LEN_def
        ik_hash_def ik_es_def ik_final_hash_def Let_def cong: sum.case_cong if_cong)
  with assms obtain ts t where "o1 = Ret (Inr (peer_static_public (params h)))" "o2 = Ret (Inr ts)"
      "tai64n_parse ts = Inr t" "tai64n_after t (last_handshake_timestamp h)"
      "format_handshake_response C eph dst_len (g t) = Ret (Inr r, h1)"
    by (cases o1; cases o2) (auto split: sum.splits if_splits)
  then have "\<exists>ts t h'. carries C (static_public (params h)) ?es (static_shared (params h)) p (peer_static_public (params h)) ts \<and>
      tai64n_parse ts = Inr t \<and> tai64n_after t (last_handshake_timestamp h) \<and> last_handshake_timestamp h' = t \<and>
      format_handshake_response C eph dst_len h' = Ret (Inr r, h1)"
    using m1 m2 by (intro exI [of _ ts] exI [of _ t] exI [of _ "g t"]) (simp add: carries_def o1_def o2_def g_def ik_ss_def Let_def)
  then obtain ts t h' where *: "carries C (static_public (params h)) ?es (static_shared (params h)) p (peer_static_public (params h)) ts"
      "tai64n_parse ts = Inr t" "tai64n_after t (last_handshake_timestamp h)" "last_handshake_timestamp h' = t"
      "format_handshake_response C eph dst_len h' = Ret (Inr r, h1)"
    by blast
  from that [OF *(1,2) _ *(3)] format_response_timestamp [OF *(5)] *(4) show ?thesis by simp
qed

lemma receive_initiation_stale:
  assumes "carries C (static_public (params h)) (diffie_hellman C (static_private (params h)) (hi_unencrypted_ephemeral p))
      (static_shared (params h)) p (peer_static_public (params h)) ts"
    and "tai64n_parse ts = Inr t" and "\<not> tai64n_after t (last_handshake_timestamp h)"
  shows "receive_handshake_initialization C eph dst_len p h = Ret (Inl WrongTimestamp, h)"
proof -
  let ?es = "diffie_hellman C (static_private (params h)) (hi_unencrypted_ephemeral p)"
  obtain c1 k1 where m1: "ik_es C (hi_unencrypted_ephemeral p) ?es = (c1, k1)" by fastforce
  obtain c2 k2 where m2: "mix2 C c1 (static_shared (params h)) = (c2, k2)" by fastforce
  show ?thesis
    using assms m1 m2
    by (simp add: receive_handshake_initialization_def carries_def KEY_LEN_def TIMESTAMP_LEN_def ik_ss_def
        ik_hash_def ik_es_def Let_def)
qed

lemma fresh_session_keepalive:
  assumes "crypto_correct C" "length k = 32" "32 \<le> length dst" "16 \<le> dst_len"
  shows "\<exists>pkt d si sr. format_packet_data C [] dst (session_new i j rk k) = Ret (si, Some pkt) \<and>
    parse_incoming_packet pkt = Inr (PData d) \<and>
    receive_packet_data C d dst_len (session_new j i k sk) = Some (Ret (Inr [], sr))"
proof -
  let ?s = "session_new i j rk k" and ?r = "session_new j i k sk"
  have p: "padded_len [] = 0" "padded [] = []" by (simp_all add: padded_len_def padded_def)
  have rc: "reserve_counter ?s = Some (0, ?s\<lparr>sending_key_counter := 1\<rparr>)"
    by (simp add: reserve_counter_eq session_new_def REJECT_AFTER_MESSAGES_def)
  obtain ct tag where f: "aead_open C k (counter_nonce 0) [] ct tag = Some []" "ct = []" "length tag = 16"
      "format_packet_data_with_type C DATA [] dst ?s =
        Ret (?s\<lparr>sending_key_counter := 1\<rparr>, Some (to_le_bytes 4 DATA @ to_le_bytes 4 j @ to_le_bytes 8 (0 :: u64) @ ct @ tag))"
    using format_packet_data_spec [OF crypto_correctD(1) [OF assms(1)] _ _ _ rc, of "[]" dst DATA] assms(2,3) p
    by (auto simp: session_new_def)
  define d where "d = \<lparr>d_receiver_idx = j, d_counter = (0 :: u64), d_encrypted_encapsulated_packet = tag\<rparr>"
  have "receive_spec C d ?r (0, {}) = (Inr [], (1, {0}))"
    using f by (simp add: receive_spec_def d_def session_new_def REJECT_AFTER_MESSAGES_def Let_def)
  then have "\<exists>v. receive_packet_data C d dst_len ?r = Some (Ret (Inr [], ?r\<lparr>receiving_key_counter := v\<rparr>))"
    using receive_packet_data_refines_aux [of ?r "(0, {})" d dst_len C] f(3) assms(4) tracks_default
    by (auto simp: d_def session_new_def)
  moreover have "parse_incoming_packet (to_le_bytes 4 DATA @ to_le_bytes 4 j @ to_le_bytes 8 (0 :: u64) @ ct @ tag) = Inr (PData d)"
    using parse_formatted [of DATA tag j 0 ct] f(2,3) by (simp add: d_def)
  ultimately show ?thesis using f(4) unfolding format_packet_data_def by blast
qed

lemma handshake_runs:
  assumes C: "crypto_correct C" and pair: "noise_pair C a b hi hr"
    and dst: "148 \<le> dst_len" "92 \<le> dst_len'"
    and fresh: "tai64n_parse (stamp now st) = Inr t" "tai64n_after t (last_handshake_timestamp hr)"
  shows "\<exists>m1 hi1 p m2 sr hr1 q si hi2.
    format_handshake_initiation C now ei dst_len st hi = Ret (Inr m1, hi1) \<and>
    parse_incoming_packet m1 = Inr (PHandshakeInit p) \<and>
    parse_handshake_anon C b (public_key C b) p = Ret (Inr (public_key C a)) \<and>
    receive_handshake_initialization C er dst_len' p hr = Ret (Inr (m2, sr), hr1) \<and>
    parse_incoming_packet m2 = Inr (PHandshakeResponse q) \<and>
    receive_handshake_response C now' q hi1 = Ret (Inr si, hi2) \<and>
    (\<exists>k2 k3. length k2 = 32 \<and> length k3 = 32 \<and>
      si = session_new (next_local_index hi) (next_local_index hr) k3 k2 \<and>
      sr = session_new (next_local_index hr) (next_local_index hi) k2 k3) \<and>
    last_handshake_timestamp hr1 = t"
proof -
  note ps = pair_shared [OF C pair]
  obtain i hi0 where al: "allocate_local_index hi = (i, hi0)" by fastforce
  obtain p macs cks where p: "hi_sender_idx p = i" "hi_unencrypted_ephemeral p = public_key C ei"
      "packet_wf (PHandshakeInit p) macs"
      "carries C (static_public (params hr)) (diffie_hellman C (static_private (params hr)) (public_key C ei))
         (static_shared (params hr)) p (peer_static_public (params hr)) (stamp now st)"
      "format_handshake_initiation C now ei dst_len st hi = Ret (Inr (packet_layout (PHandshakeInit p) macs),
         hi0\<lparr>previous := hs_state hi0, hs_state := InitSent \<lparr>is_local_index = i,
            is_hash = ik_final_hash C (static_public (params hr)) p,
            is_chaining_key = fst (ik_ss C (public_key C ei) (diffie_hellman C (static_private (params hr)) (public_key C ei))
              (static_shared (params hr))),
            is_ephemeral_private = ei, is_time_sent = now\<rparr>, cookies := cks\<rparr>)"
    by (rule format_initiation_spec [OF C dst(1) ps(6) al, where eph = ei and now = now and st = st, unfolded ps(1,2,4), unfolded ps(5) [symmetric]])
       (use that in blast)
  let ?ck = "fst (ik_ss C (public_key C ei) (diffie_hellman C (static_private (params hr)) (public_key C ei)) (static_shared (params hr)))"
  define h2 where "h2 = hr\<lparr>last_handshake_timestamp := t, previous := hs_state hr,
      hs_state := InitReceived (ik_final_hash C (static_public (params hr)) p) ?ck (public_key C ei) i\<rparr>"
  have rinit: "receive_handshake_initialization C er dst_len' p hr = format_handshake_response C er dst_len' h2"
    using receive_initiation_carried [OF p(4) [folded p(2)] fresh] p(1,2) by (simp add: h2_def)
  have st2: "hs_state h2 = InitReceived (ik_final_hash C (static_public (params hr)) p) ?ck (public_key C ei) i"
    and par2: "params h2 = params hr" by (simp_all add: h2_def)
  obtain j hr0 where al2: "allocate_local_index (h2\<lparr>hs_state := HSNone\<rparr>) = (j, hr0)" by fastforce
  have j: "j = next_local_index hr" using allocate_local_index_fields(1) [OF al2] by (simp add: h2_def)
  obtain c4 t2 key where psk: "ik_psk C ?ck (public_key C er) (diffie_hellman C er (public_key C ei))
      (diffie_hellman C er (peer_static_public (params hr))) = (c4, t2, key)"
    by (metis surj_pair)
  then have psk2: "ik_psk C ?ck (public_key C er) (diffie_hellman C er (public_key C ei))
      (diffie_hellman C er (peer_static_public (params h2))) = (c4, t2, key)"
    using par2 by simp
  obtain k2 k3 where keys: "derive_keys C c4 = (k2, k3)" by fastforce
  obtain q macs' cks' where q: "hr_sender_idx q = j" "hr_receiver_idx q = i" "hr_unencrypted_ephemeral q = public_key C er"
      "packet_wf (PHandshakeResponse q) macs'"
      "aead_chacha20_open C 0 key 0 (hr_encrypted_nothing q)
        (b2s_hash C (b2s_hash C (ik_final_hash C (static_public (params hr)) p) (public_key C er)) t2) = Ret (Inr [])"
      "format_handshake_response C er dst_len' h2 =
         Ret (Inr (packet_layout (PHandshakeResponse q) macs', session_new j i k2 k3), hr0\<lparr>cookies := cks'\<rparr>)"
    by (rule format_response_spec [OF C dst(2) st2 al2 psk2 keys])
  define hi1 where "hi1 = hi0\<lparr>previous := hs_state hi0, hs_state := InitSent \<lparr>is_local_index = i,
            is_hash = ik_final_hash C (static_public (params hr)) p, is_chaining_key = ?ck,
            is_ephemeral_private = ei, is_time_sent = now\<rparr>, cookies := cks\<rparr>"
  have psk': "ik_psk C ?ck (hr_unencrypted_ephemeral q) (diffie_hellman C ei (hr_unencrypted_ephemeral q))
      (diffie_hellman C (static_private (params hi1)) (hr_unencrypted_ephemeral q)) = (c4, t2, key)"
    using psk q(3) crypto_correctD(6) [OF C, of ei er] ps(3) [of er] allocate_local_index_fields(2) [OF al]
    by (simp add: hi1_def)
  have rresp: "receive_handshake_response C now' q hi1 = Ret (Inr (session_new i j k3 k2),
      hi1\<lparr>last_rtt := Some (of_nat ((now' - now) div MILLISECOND)), hs_state := HSNone\<rparr>)"
    using receive_response_spec [of hi1 "\<lparr>is_local_index = i, is_hash = ik_final_hash C (static_public (params hr)) p,
      is_chaining_key = ?ck, is_ephemeral_private = ei, is_time_sent = now\<rparr>" q C c4 t2 key k2 k3 now'] q psk' keys
    by (simp add: hi1_def)
  have anon: "parse_handshake_anon C b (public_key C b) p = Ret (Inr (public_key C a))"
    using p(2,4) pair
    by (simp add: parse_handshake_anon_def carries_def noise_pair_def noise_params_new_def ik_defs KEY_LEN_def Let_def
        case_prod_beta)
  have ts: "last_handshake_timestamp (hr0\<lparr>cookies := cks'\<rparr>) = t"
    using allocate_local_index_fields(5) [OF al2] by (simp add: h2_def)
  note i = allocate_local_index_fields(1) [OF al]
  have ri: "receive_handshake_initialization C er dst_len' p hr = Ret (Inr (packet_layout (PHandshakeResponse q) macs',
      session_new (next_local_index hr) (next_local_index hi) k2 k3), hr0\<lparr>cookies := cks'\<rparr>)"
    using rinit q(6) i j by simp
  have rr: "receive_handshake_response C now' q hi1 = Ret (Inr (session_new (next_local_index hi) (next_local_index hr) k3 k2),
      hi1\<lparr>last_rtt := Some (of_nat ((now' - now) div MILLISECOND)), hs_state := HSNone\<rparr>)"
    using rresp i j by simp
  have lk: "length k2 = 32" "length k3 = 32" using length_mix(5) [OF C keys] by simp_all
  show ?thesis
    using p(5) [folded hi1_def] parse_layout [OF p(3)] anon ri parse_layout [OF q(4)] rr ts lk
    by blast
qed

section \<open>A concrete suite\<close>

definition sample_crypto :: crypto where
  "sample_crypto = aead.extend sample_aead
     \<lparr>blake2s = (\<lambda>d. replicate 32 0), hmac_blake2s = (\<lambda>k d. take 32 (d @ replicate 32 0)),
      blake2s_mac = (\<lambda>n k d. take n (k @ d @ replicate n 0)),
      xseal = (\<lambda>k n ad pt. Some (pt, replicate 16 0)), xopen = (\<lambda>k n ad ct tag. Some ct),
      public_key = (\<lambda>a. take 32 (a @ replicate 32 0)),
      diffie_hellman = (\<lambda>a p. map2 (XOR) (take 32 (a @ replicate 32 0)) p)\<rparr>"

lemma sample_crypto_correct: "crypto_correct sample_crypto"
proof -
  have "aead_correct sample_crypto"
    using sample_aead_correct by (simp add: aead_correct_def sample_crypto_def aead.defs)
  moreover have "map2 (XOR) x y = map2 (XOR) y x" for x y :: bytes
    by (subst zip_commute) (simp add: case_prod_beta comp_def xor.commute)
  ultimately show ?thesis
    unfolding crypto_correct_def by (auto simp: sample_crypto_def aead.defs)
qed

section \<open>Properties\<close>

text \<open>C13. The handshake agrees on keys. Two ends that hold each other's public keys, with an initiation
  stamped after the last one the responder has seen: the initiation, its parsing, the response, its
  parsing and its acceptance all succeed, without a panic; the responder identifies the initiator's
  static key; the two sessions are each other's mirror image (what one sends with, the other receives
  with, and each addresses the other's index), so the initiator's first keepalive is accepted.\<close>

theorem handshake_agreement:
  assumes C: "crypto_correct C" and pair: "noise_pair C a b hi hr"
    and dst: "148 \<le> dst_len" "92 \<le> dst_len'" "32 \<le> length dst3" "16 \<le> dst_len4"
    and fresh: "tai64n_parse (stamp now st) = Inr t" "tai64n_after t (last_handshake_timestamp hr)"
  shows "\<exists>m1 hi1 p m2 sr hr1 q si hi2 m3 si' d sr'.
    format_handshake_initiation C now ei dst_len st hi = Ret (Inr m1, hi1) \<and>
    parse_incoming_packet m1 = Inr (PHandshakeInit p) \<and>
    parse_handshake_anon C b (public_key C b) p = Ret (Inr (public_key C a)) \<and>
    receive_handshake_initialization C er dst_len' p hr = Ret (Inr (m2, sr), hr1) \<and>
    parse_incoming_packet m2 = Inr (PHandshakeResponse q) \<and>
    receive_handshake_response C now' q hi1 = Ret (Inr si, hi2) \<and>
    sender si = receiver sr \<and> receiver si = sender sr \<and>
    receiving_index si = next_local_index hi \<and> sending_index si = next_local_index hr \<and>
    receiving_index sr = next_local_index hr \<and> sending_index sr = next_local_index hi \<and>
    last_handshake_timestamp hr1 = t \<and>
    format_packet_data C [] dst3 si = Ret (si', Some m3) \<and>
    parse_incoming_packet m3 = Inr (PData d) \<and>
    receive_packet_data C d dst_len4 sr = Some (Ret (Inr [], sr'))"
proof -
  obtain m1 hi1 p m2 sr hr1 q si hi2 k2 k3 where *:
    "format_handshake_initiation C now ei dst_len st hi = Ret (Inr m1, hi1)"
    "parse_incoming_packet m1 = Inr (PHandshakeInit p)"
    "parse_handshake_anon C b (public_key C b) p = Ret (Inr (public_key C a))"
    "receive_handshake_initialization C er dst_len' p hr = Ret (Inr (m2, sr), hr1)"
    "parse_incoming_packet m2 = Inr (PHandshakeResponse q)"
    "receive_handshake_response C now' q hi1 = Ret (Inr si, hi2)"
    "last_handshake_timestamp hr1 = t" "length k2 = 32"
    and s: "si = session_new (next_local_index hi) (next_local_index hr) k3 k2"
      "sr = session_new (next_local_index hr) (next_local_index hi) k2 k3"
    using handshake_runs [OF C pair dst(1,2) fresh, of ei er now'] by blast
  obtain si' m3 d sr' where k: "format_packet_data C [] dst3 si = Ret (si', Some m3)"
      "parse_incoming_packet m3 = Inr (PData d)" "receive_packet_data C d dst_len4 sr = Some (Ret (Inr [], sr'))"
    using fresh_session_keepalive [OF C *(8) dst(3,4)] unfolding s by blast
  have "sender si = receiver sr" "receiver si = sender sr" "receiving_index si = next_local_index hi"
      "sending_index si = next_local_index hr" "receiving_index sr = next_local_index hr" "sending_index sr = next_local_index hi"
    by (simp_all add: s session_new_def)
  with * k show ?thesis by blast
qed

definition sample_initiator :: Handshake where
  "sample_initiator = handshake_new sample_crypto [1] (public_key sample_crypto [1]) (public_key sample_crypto [2]) 5"

definition sample_responder :: Handshake where
  "sample_responder = handshake_new sample_crypto [2] (public_key sample_crypto [2]) (public_key sample_crypto [1]) 6"

lemma sample_pair: "noise_pair sample_crypto [1] [2] sample_initiator sample_responder"
  by (simp add: noise_pair_def sample_initiator_def sample_responder_def handshake_new_def)

lemma sample_fresh:
  "\<exists>t. tai64n_parse (stamp 0 (timestamper_new 0 0)) = Inr t \<and> tai64n_after t (last_handshake_timestamp sample_responder)"
  by (simp add: tai64n_parse_stamp tai64n_after_def sample_responder_def handshake_new_def tai64n_zero_def
      timestamper_new_def TAI64_BASE_def)

theorem handshake_agreement_witness:
  "\<exists>m1 hi1 p m2 sr hr1 q si hi2.
    format_handshake_initiation sample_crypto 0 [3] 148 (timestamper_new 0 0) sample_initiator = Ret (Inr m1, hi1) \<and>
    parse_incoming_packet m1 = Inr (PHandshakeInit p) \<and>
    receive_handshake_initialization sample_crypto [4] 92 p sample_responder = Ret (Inr (m2, sr), hr1) \<and>
    parse_incoming_packet m2 = Inr (PHandshakeResponse q) \<and>
    receive_handshake_response sample_crypto 7 q hi1 = Ret (Inr si, hi2) \<and> sender si = receiver sr"
proof -
  obtain t where t: "tai64n_parse (stamp 0 (timestamper_new 0 0)) = Inr t" "tai64n_after t (last_handshake_timestamp sample_responder)"
    using sample_fresh by blast
  have "148 \<le> (148 :: nat)" "92 \<le> (92 :: nat)" "32 \<le> length (replicate 32 (0 :: u8))" "16 \<le> (16 :: nat)" by simp_all
  from handshake_agreement [OF sample_crypto_correct sample_pair this t, of "[3]" "[4]" 7] show ?thesis by blast
qed

text \<open>C14. A replayed initiation is refused. Once an initiation has been accepted, it is answered with
  \<open>WrongTimestamp\<close> in every later state of the handshake, that is, one with a last timestamp that is
  not before the one recorded then; and the handshake state is left as it is.\<close>

theorem initiation_replay_refused:
  assumes "receive_handshake_initialization C er dst_len p h = Ret (Inr r, h1)"
    and "params h2 = params h" and "\<not> tai64n_after (last_handshake_timestamp h1) (last_handshake_timestamp h2)"
  shows "receive_handshake_initialization C er' dst_len' p h2 = Ret (Inl WrongTimestamp, h2)"
proof -
  obtain ts t where *: "carries C (static_public (params h))
      (diffie_hellman C (static_private (params h)) (hi_unencrypted_ephemeral p)) (static_shared (params h)) p
      (peer_static_public (params h)) ts" "tai64n_parse ts = Inr t" "last_handshake_timestamp h1 = t"
    by (rule receive_initiation_accepted [OF assms(1)])
  show ?thesis
    by (rule receive_initiation_stale [OF _ *(2)]) (use * assms(2,3) in simp_all)
qed

theorem initiation_replay_refused_witness:
  "\<exists>p r h1. receive_handshake_initialization sample_crypto [4] 92 p sample_responder = Ret (Inr r, h1) \<and>
     receive_handshake_initialization sample_crypto [9] 92 p
       (sample_responder\<lparr>last_handshake_timestamp := last_handshake_timestamp h1\<rparr>) =
     Ret (Inl WrongTimestamp, sample_responder\<lparr>last_handshake_timestamp := last_handshake_timestamp h1\<rparr>)"
proof -
  obtain t where t: "tai64n_parse (stamp 0 (timestamper_new 0 0)) = Inr t" "tai64n_after t (last_handshake_timestamp sample_responder)"
    using sample_fresh by blast
  obtain p r h1 where p: "receive_handshake_initialization sample_crypto [4] 92 p sample_responder = Ret (Inr r, h1)"
    using handshake_runs [OF sample_crypto_correct sample_pair order.refl order.refl t, of "[3]" "[4]" 7] by blast
  have "receive_handshake_initialization sample_crypto [9] 92 p
       (sample_responder\<lparr>last_handshake_timestamp := last_handshake_timestamp h1\<rparr>) =
     Ret (Inl WrongTimestamp, sample_responder\<lparr>last_handshake_timestamp := last_handshake_timestamp h1\<rparr>)"
    by (rule initiation_replay_refused [OF p]) simp_all
  with p show ?thesis by blast
qed

end
