(* ===== verification/Prefix_Trie.thy ===== *)
theory Prefix_Trie
  imports Prelude "HOL-Library.Sublist"
begin

text \<open>
  The path-compressed prefix trie of \<^verbatim>\<open>allowed_ips.rs\<close>: an arena of nodes linked by
  16-bit indices, for addresses of any width. Operations follow the source: the loops are
  iterations of a step on the arena, and \<open>None\<close> stands for a panic (an index out of
  range, an arithmetic underflow) or a loop that does not return.

  The specification is the finite map from prefixes, as bit strings, to payloads: insertion
  updates it, lookup is longest-prefix match in it, and \<open>trie_wf\<close> is the invariant that
  every operation keeps.
\<close>

section \<open>Prefix words\<close>

datatype AllowedIPsError = InvalidCidr | Full

text \<open>\<^verbatim>\<open>bit_at\<close> counts from the most significant bit; its callers pass indices below the width.\<close>

definition bit_at :: "'w::len word \<Rightarrow> nat \<Rightarrow> bool" where
  "bit_at p index = (drop_bit (LENGTH('w) - 1 - index) p AND 1 = 1)"

definition mask_prefix :: "'w::len word \<Rightarrow> nat \<Rightarrow> 'w word" where
  "mask_prefix p prefix_len =
     (if prefix_len = 0 then 0
      else if prefix_len = LENGTH('w) then p
      else let host_bits = LENGTH('w) - prefix_len; host_mask = push_bit host_bits 1 - 1
           in p AND NOT host_mask)"

definition common_prefix_len :: "'w::len word \<Rightarrow> nat \<Rightarrow> 'w word \<Rightarrow> nat \<Rightarrow> nat" where
  "common_prefix_len a a_len b b_len =
     (let m = min a_len b_len
      in case List.find (\<lambda>i. bit_at a i \<noteq> bit_at b i) [0..<m] of Some i \<Rightarrow> i | None \<Rightarrow> m)"

definition prefixes_overlap :: "'w::len word \<Rightarrow> nat \<Rightarrow> 'w word \<Rightarrow> nat \<Rightarrow> bool" where
  "prefixes_overlap a a_len b b_len \<longleftrightarrow> common_prefix_len a a_len b b_len = min a_len b_len"

section \<open>The arena\<close>

type_synonym NodeIndex = u16

record ('w, 'd) Node =
  n_prefix :: 'w
  n_prefix_len :: nat
  n_child :: "NodeIndex option \<times> NodeIndex option"
  n_data :: "'d option"

definition node_child :: "('w, 'd) Node \<Rightarrow> bool \<Rightarrow> NodeIndex option" where
  "node_child n b = (if b then snd (n_child n) else fst (n_child n))"

definition node_set_child :: "bool \<Rightarrow> NodeIndex \<Rightarrow> ('w, 'd) Node \<Rightarrow> ('w, 'd) Node" where
  "node_set_child b i n =
     n\<lparr>n_child := (if b then (fst (n_child n), Some i) else (Some i, snd (n_child n)))\<rparr>"

definition encode_node_index :: "nat \<Rightarrow> AllowedIPsError + NodeIndex" where
  "encode_node_index index = (if index + 1 < 2 ^ 16 then Inr (of_nat (index + 1)) else Inl Full)"

definition decode_node_index :: "NodeIndex \<Rightarrow> nat" where
  "decode_node_index i = unat (i - 1)"

definition node_new :: "'w \<Rightarrow> nat \<Rightarrow> ('w, 'd) Node" where
  "node_new pfx prefix_len =
     \<lparr>n_prefix = pfx, n_prefix_len = prefix_len, n_child = (None, None), n_data = None\<rparr>"

type_synonym ('w, 'd) arena = "('w, 'd) Node list"

text \<open>The capacity: \<open>None\<close> for the growing vector of the \<^verbatim>\<open>alloc\<close> build, \<open>Some N\<close> for the
  fixed one.\<close>

definition node_push :: "nat option \<Rightarrow> ('w, 'd) Node \<Rightarrow> ('w, 'd) arena \<Rightarrow> ('w, 'd) arena option" where
  "node_push cap n nodes =
     (case cap of None \<Rightarrow> Some (nodes @ [n])
      | Some N \<Rightarrow> if length nodes < N then Some (nodes @ [n]) else None)"

definition trie_new :: "('w::len word, 'd) arena" where
  "trie_new = [node_new 0 0]"

definition trie_clear :: "('w::len word, 'd) arena \<Rightarrow> ('w word, 'd) arena" where
  "trie_clear nodes = [node_new 0 0]"

section \<open>Insertion\<close>

text \<open>Adding a leaf below node \<open>i\<close>, on the branch \<open>b\<close> that has no child.\<close>

definition trie_insert_leaf ::
  "nat option \<Rightarrow> 'w::len word \<Rightarrow> nat \<Rightarrow> 'd \<Rightarrow> nat \<Rightarrow> bool \<Rightarrow> ('w word, 'd) arena \<Rightarrow>
     (AllowedIPsError + 'd option) \<times> ('w word, 'd) arena" where
  "trie_insert_leaf cap pfx prefix_len data i b nodes =
     (case encode_node_index (length nodes) of
        Inl e \<Rightarrow> (Inl e, nodes)
      | Inr new_idx \<Rightarrow>
          (case node_push cap ((node_new pfx prefix_len)\<lparr>n_data := Some data\<rparr>) nodes of
             None \<Rightarrow> (Inl Full, nodes)
           | Some nodes1 \<Rightarrow> (Inr None, nodes1[i := node_set_child b new_idx (nodes1 ! i)])))"

text \<open>Splitting the child of node \<open>i\<close> at the shared prefix of length \<open>common\<close>.\<close>

definition trie_insert_split ::
  "nat option \<Rightarrow> 'w::len word \<Rightarrow> nat \<Rightarrow> 'd \<Rightarrow> nat \<Rightarrow> bool \<Rightarrow> nat \<Rightarrow> nat \<Rightarrow> ('w word, 'd) arena \<Rightarrow>
     (AllowedIPsError + 'd option) \<times> ('w word, 'd) arena" where
  "trie_insert_split cap pfx prefix_len data i b child_idx common nodes =
     (let needed = (if common = prefix_len then 1 else 2) in
      if (case cap of None \<Rightarrow> False | Some N \<Rightarrow> length nodes + needed > N) then (Inl Full, nodes)
      else case encode_node_index (length nodes) of
        Inl e \<Rightarrow> (Inl e, nodes)
      | Inr mid_idx \<Rightarrow>
          (case encode_node_index child_idx of
             Inl e \<Rightarrow> (Inl e, nodes)
           | Inr old_idx \<Rightarrow>
               (let mid = node_set_child (bit_at (n_prefix (nodes ! child_idx)) common) old_idx
                            (node_new (mask_prefix pfx common) common)
                in if common = prefix_len then
                     (case node_push cap (mid\<lparr>n_data := Some data\<rparr>) nodes of
                        None \<Rightarrow> (Inl Full, nodes)
                      | Some nodes1 \<Rightarrow> (Inr None, nodes1[i := node_set_child b mid_idx (nodes1 ! i)]))
                   else
                     (case encode_node_index (length nodes + 1) of
                        Inl e \<Rightarrow> (Inl e, nodes)
                      | Inr leaf_idx \<Rightarrow>
                          (case node_push cap (node_set_child (bit_at pfx common) leaf_idx mid) nodes of
                             None \<Rightarrow> (Inl Full, nodes)
                           | Some nodes1 \<Rightarrow>
                               (case node_push cap ((node_new pfx prefix_len)\<lparr>n_data := Some data\<rparr>) nodes1 of
                                  None \<Rightarrow> (Inl Full, nodes1)
                                | Some nodes2 \<Rightarrow>
                                    (Inr None, nodes2[i := node_set_child b mid_idx (nodes2 ! i)])))))))"

text \<open>One iteration of the loop at node \<open>i\<close>: continue at a child (\<open>Inl\<close>) or return (\<open>Inr\<close>).\<close>

definition trie_insert_step ::
  "nat option \<Rightarrow> 'w::len word \<Rightarrow> nat \<Rightarrow> 'd \<Rightarrow> nat \<Rightarrow> ('w word, 'd) arena \<Rightarrow>
     (nat + (AllowedIPsError + 'd option) \<times> ('w word, 'd) arena) option" where
  "trie_insert_step cap pfx prefix_len data i nodes =
     (if \<not> i < length nodes then None
      else let node = nodes ! i in
        if n_prefix_len node = prefix_len then
          Some (Inr (Inr (n_data node), nodes[i := node\<lparr>n_prefix := pfx, n_data := Some data\<rparr>]))
        else if \<not> n_prefix_len node < LENGTH('w) then None
        else let b = bit_at pfx (n_prefix_len node) in
          case node_child node b of
            None \<Rightarrow> Some (Inr (trie_insert_leaf cap pfx prefix_len data i b nodes))
          | Some ci \<Rightarrow>
              (let child_idx = decode_node_index ci in
               if \<not> child_idx < length nodes then None
               else let child = nodes ! child_idx;
                        common = common_prefix_len pfx prefix_len (n_prefix child) (n_prefix_len child)
                    in if common = n_prefix_len child then Some (Inl child_idx)
                       else Some (Inr (trie_insert_split cap pfx prefix_len data i b child_idx common nodes))))"

partial_function (option) trie_insert_loop ::
  "nat option \<Rightarrow> 'w::len word \<Rightarrow> nat \<Rightarrow> 'd \<Rightarrow> nat \<Rightarrow> ('w word, 'd) arena \<Rightarrow>
     ((AllowedIPsError + 'd option) \<times> ('w word, 'd) arena) option" where
  "trie_insert_loop cap pfx prefix_len data i nodes =
     (case trie_insert_step cap pfx prefix_len data i nodes of
        None \<Rightarrow> None
      | Some (Inr r) \<Rightarrow> Some r
      | Some (Inl j) \<Rightarrow> trie_insert_loop cap pfx prefix_len data j nodes)"

definition trie_insert ::
  "nat option \<Rightarrow> 'w::len word \<Rightarrow> nat \<Rightarrow> 'd \<Rightarrow> ('w word, 'd) arena \<Rightarrow>
     ((AllowedIPsError + 'd option) \<times> ('w word, 'd) arena) option" where
  "trie_insert cap pfx prefix_len data nodes =
     trie_insert_loop cap (mask_prefix pfx prefix_len) prefix_len data 0 nodes"

section \<open>Lookup, removal, overlap, iteration\<close>

definition trie_find_step ::
  "'w::len word \<Rightarrow> nat \<Rightarrow> 'd option \<Rightarrow> ('w word, 'd) arena \<Rightarrow> (nat \<times> 'd option + 'd option) option" where
  "trie_find_step key i best nodes =
     (if \<not> i < length nodes then None
      else let node = nodes ! i in
        if n_prefix_len node = LENGTH('w) then Some (Inr best)
        else case node_child node (bit_at key (n_prefix_len node)) of
          None \<Rightarrow> Some (Inr best)
        | Some ci \<Rightarrow>
            (let child_idx = decode_node_index ci in
             if \<not> child_idx < length nodes then None
             else let child = nodes ! child_idx in
               if mask_prefix key (n_prefix_len child) \<noteq> n_prefix child then Some (Inr best)
               else Some (Inl (child_idx, case n_data child of Some d \<Rightarrow> Some d | None \<Rightarrow> best))))"

partial_function (option) trie_find_loop ::
  "'w::len word \<Rightarrow> nat \<Rightarrow> 'd option \<Rightarrow> ('w word, 'd) arena \<Rightarrow> 'd option option" where
  "trie_find_loop key i best nodes =
     (case trie_find_step key i best nodes of
        None \<Rightarrow> None
      | Some (Inr r) \<Rightarrow> Some r
      | Some (Inl (j, best')) \<Rightarrow> trie_find_loop key j best' nodes)"

definition trie_find :: "'w::len word \<Rightarrow> ('w word, 'd) arena \<Rightarrow> 'd option option" where
  "trie_find key nodes =
     (if nodes = [] then None else trie_find_loop key 0 (n_data (nodes ! 0)) nodes)"

definition trie_remove :: "('d \<Rightarrow> bool) \<Rightarrow> ('w::len word, 'd) arena \<Rightarrow> ('w word, 'd) arena" where
  "trie_remove predicate nodes =
     map (\<lambda>n. case n_data n of
                Some d \<Rightarrow> if predicate d then n\<lparr>n_data := None\<rparr> else n
              | None \<Rightarrow> n) nodes"

definition trie_iter :: "('w::len word, 'd) arena \<Rightarrow> ('d \<times> 'w word \<times> nat) list" where
  "trie_iter nodes =
     concat (map (\<lambda>n. case n_data n of
                        Some d \<Rightarrow> [(d, n_prefix n, n_prefix_len n)] | None \<Rightarrow> []) nodes)"

definition trie_overlaps :: "'w::len word \<Rightarrow> nat \<Rightarrow> ('w word, 'd) arena \<Rightarrow> bool" where
  "trie_overlaps pfx prefix_len nodes =
     list_ex (\<lambda>(_, p, l). prefixes_overlap (mask_prefix pfx prefix_len) prefix_len p l) (trie_iter nodes)"

declare trie_insert_loop.simps [code] trie_find_loop.simps [code]

section \<open>Prefixes as bit strings\<close>

definition bits :: "'w::len word \<Rightarrow> nat \<Rightarrow> bool list" where
  "bits w l = map (bit_at w) [0..<l]"

lemma length_bits [simp]: "length (bits w l) = l"
  by (simp add: bits_def)

lemma nth_bits [simp]: "i < l \<Longrightarrow> bits w l ! i = bit_at w i"
  by (simp add: bits_def)

lemma take_bits [simp]: "take k (bits w l) = bits w (min k l)"
  by (simp add: bits_def take_map min_def)

lemma bits_0 [simp]: "bits w 0 = []"
  by (simp add: bits_def)

lemma bit_at_bit: "bit_at (p :: 'w::len word) i \<longleftrightarrow> bit p (LENGTH('w) - 1 - i)"
  by (simp add: bit_at_def bit_iff_odd_drop_bit and_one_eq odd_iff_mod_2_eq_one)

lemma bit_mask_prefix:
  assumes "l \<le> LENGTH('w)"
  shows "bit (mask_prefix (p :: 'w::len word) l) n \<longleftrightarrow> bit p n \<and> LENGTH('w) - l \<le> n"
proof -
  have "push_bit k (1::'w word) - 1 = mask k" for k
    by (simp add: mask_eq_exp_minus_1)
  then show ?thesis
    using assms bit_imp_le_length [of p n]
    by (auto simp: mask_prefix_def Let_def bit_and_iff bit_not_iff bit_mask_iff)
qed

lemma bits_mask_prefix [simp]:
  assumes "k \<le> l" and "l \<le> LENGTH('w)"
  shows "bits (mask_prefix (p :: 'w::len word) l) k = bits p k"
  using assms by (auto simp: bits_def bit_at_bit bit_mask_prefix)

lemma mask_prefix_eq_iff:
  assumes "l \<le> LENGTH('w)"
  shows "mask_prefix (p :: 'w::len word) l = mask_prefix q l \<longleftrightarrow> bits p l = bits q l"
proof
  assume "mask_prefix p l = mask_prefix q l"
  then show "bits p l = bits q l" using bits_mask_prefix [of l l] assms by (metis le_refl)
next
  assume b: "bits p l = bits q l"
  have "bit (mask_prefix p l) n \<longleftrightarrow> bit (mask_prefix q l) n" if n: "n < LENGTH('w)" for n
  proof (cases "LENGTH('w) - l \<le> n")
    case True
    then have "LENGTH('w) - 1 - n < l" using n by linarith
    then have "bit_at p (LENGTH('w) - 1 - n) = bit_at q (LENGTH('w) - 1 - n)"
      using b by (metis nth_bits)
    moreover have "LENGTH('w) - 1 - (LENGTH('w) - 1 - n) = n" using n by simp
    ultimately show ?thesis using assms by (simp add: bit_mask_prefix bit_at_bit)
  next
    case False
    then show ?thesis using assms by (simp add: bit_mask_prefix)
  qed
  then show "mask_prefix p l = mask_prefix q l" by (rule bit_word_eqI)
qed

lemma mask_mask_prefix [simp]:
  "l \<le> LENGTH('w) \<Longrightarrow> mask_prefix (mask_prefix (p :: 'w::len word) l) l = mask_prefix p l"
  by (simp add: mask_prefix_eq_iff)

lemma common_prefix_len_props:
  fixes a b :: "'w::len word" and la lb :: nat
  defines "c \<equiv> common_prefix_len a la b lb"
  shows "c \<le> la" "c \<le> lb" "bits a c = bits b c"
    "c < la \<Longrightarrow> c < lb \<Longrightarrow> bit_at a c \<noteq> bit_at b c"
proof -
  consider (diff) i where "List.find (\<lambda>i. bit_at a i \<noteq> bit_at b i) [0..<min la lb] = Some i"
    | (same) "List.find (\<lambda>i. bit_at a i \<noteq> bit_at b i) [0..<min la lb] = None" by fastforce
  then have "c \<le> la \<and> c \<le> lb \<and> bits a c = bits b c \<and> (c < la \<longrightarrow> c < lb \<longrightarrow> bit_at a c \<noteq> bit_at b c)"
  proof cases
    case diff
    then have "c = i" by (simp only: c_def common_prefix_len_def Let_def option.case)
    with diff show ?thesis by (auto simp: bits_def find_Some_iff)
  next
    case same
    then have "c = min la lb" by (simp only: c_def common_prefix_len_def Let_def option.case)
    with same show ?thesis by (auto simp: bits_def find_None_iff)
  qed
  then show "c \<le> la" "c \<le> lb" "bits a c = bits b c"
      "c < la \<Longrightarrow> c < lb \<Longrightarrow> bit_at a c \<noteq> bit_at b c" by auto
qed

lemma prefix_bits_iff: "prefix (bits a k) (bits b l) \<longleftrightarrow> k \<le> l \<and> bits a k = bits b k"
  by (metis length_bits min.absorb1 prefix_length_le take_bits take_is_prefix prefix_def append_eq_conv_conj)

section \<open>The invariant\<close>

definition node_key :: "('w::len word, 'd) Node \<Rightarrow> bool list" where
  "node_key n = bits (n_prefix n) (n_prefix_len n)"

text \<open>The child of node \<open>i\<close> on branch \<open>b\<close>, as an arena index.\<close>

definition child_of :: "('w::len word, 'd) arena \<Rightarrow> nat \<Rightarrow> bool \<Rightarrow> nat option" where
  "child_of nodes i b = map_option decode_node_index (node_child (nodes ! i) b)"

text \<open>The links of \<open>N\<close> nodes with keys \<open>key\<close>: keys are distinct, a child extends its parent's
  key on its branch, and whenever a node is strictly above another one, its child on that
  branch exists and is still above the other.\<close>

definition links_ok :: "nat \<Rightarrow> (nat \<Rightarrow> bool list) \<Rightarrow> (nat \<Rightarrow> bool \<Rightarrow> nat option) \<Rightarrow> bool" where
  "links_ok N key ch \<longleftrightarrow>
     inj_on key {..<N} \<and>
     (\<forall>i < N. \<forall>b c. ch i b = Some c \<longrightarrow> c < N \<and> prefix (key i @ [b]) (key c)) \<and>
     (\<forall>i < N. \<forall>j < N. strict_prefix (key i) (key j) \<longrightarrow>
        (\<exists>c. ch i (key j ! length (key i)) = Some c \<and> prefix (key c) (key j)))"

definition trie_wf :: "('w::len word, 'd) arena \<Rightarrow> bool" where
  "trie_wf nodes \<longleftrightarrow>
     0 < length nodes \<and> length nodes < 2 ^ 16 \<and> node_key (nodes ! 0) = [] \<and>
     (\<forall>n\<in>set nodes. n_prefix_len n \<le> LENGTH('w) \<and> mask_prefix (n_prefix n) (n_prefix_len n) = n_prefix n) \<and>
     links_ok (length nodes) (\<lambda>i. node_key (nodes ! i)) (child_of nodes)"

text \<open>The abstraction: the map from bit strings to payloads.\<close>

definition trie_map :: "('w::len word, 'd) arena \<Rightarrow> bool list \<Rightarrow> 'd option" where
  "trie_map nodes k = Option.bind (map_of (map (\<lambda>n. (node_key n, n_data n)) nodes) k) (\<lambda>d. d)"

text \<open>Longest-prefix match.\<close>

function lpm :: "(bool list \<Rightarrow> 'd option) \<Rightarrow> bool list \<Rightarrow> 'd option" where
  "lpm m k = (case m k of Some d \<Rightarrow> Some d | None \<Rightarrow> if k = [] then None else lpm m (butlast k))"
  by pat_completeness auto
termination by (relation "measure (\<lambda>(m, k). length k)") auto

declare lpm.simps [simp del]

lemma links_okD:
  assumes "links_ok N key ch" and "i < N"
  shows "j < N \<Longrightarrow> key i = key j \<Longrightarrow> i = j"
    "ch i b = Some c \<Longrightarrow> c < N \<and> prefix (key i @ [b]) (key c)"
    "j < N \<Longrightarrow> strict_prefix (key i) (key j) \<Longrightarrow>
       \<exists>c. ch i (key j ! length (key i)) = Some c \<and> prefix (key c) (key j)"
  using assms unfolding links_ok_def inj_on_def by blast+

lemma trie_wfD:
  assumes "trie_wf (nodes :: ('w::len word, 'd) arena)"
  shows "0 < length nodes" "length nodes < 2 ^ 16" "node_key (nodes ! 0) = []"
    "i < length nodes \<Longrightarrow> n_prefix_len (nodes ! i) \<le> LENGTH('w)"
    "i < length nodes \<Longrightarrow> mask_prefix (n_prefix (nodes ! i)) (n_prefix_len (nodes ! i)) = n_prefix (nodes ! i)"
    "distinct (map node_key nodes)"
    "i < length nodes \<Longrightarrow> child_of nodes i b = Some c \<Longrightarrow>
       c < length nodes \<and> prefix (node_key (nodes ! i) @ [b]) (node_key (nodes ! c))"
    "i < length nodes \<Longrightarrow> j < length nodes \<Longrightarrow> strict_prefix (node_key (nodes ! i)) (node_key (nodes ! j)) \<Longrightarrow>
       \<exists>c. child_of nodes i (node_key (nodes ! j) ! length (node_key (nodes ! i))) = Some c \<and>
            prefix (node_key (nodes ! c)) (node_key (nodes ! j))"
proof -
  have l: "links_ok (length nodes) (\<lambda>i. node_key (nodes ! i)) (child_of nodes)"
    using assms by (simp add: trie_wf_def)
  show "i < length nodes \<Longrightarrow> child_of nodes i b = Some c \<Longrightarrow>
       c < length nodes \<and> prefix (node_key (nodes ! i) @ [b]) (node_key (nodes ! c))"
    using links_okD(2) [OF l] by blast
  show "i < length nodes \<Longrightarrow> j < length nodes \<Longrightarrow> strict_prefix (node_key (nodes ! i)) (node_key (nodes ! j)) \<Longrightarrow>
       \<exists>c. child_of nodes i (node_key (nodes ! j) ! length (node_key (nodes ! i))) = Some c \<and>
            prefix (node_key (nodes ! c)) (node_key (nodes ! j))"
    using links_okD(3) [OF l] by blast
  show "distinct (map node_key nodes)"
    using l by (simp add: links_ok_def inj_on_def distinct_conv_nth) blast
qed (use assms in \<open>simp_all add: trie_wf_def\<close>)

lemma length_node_key [simp]: "length (node_key n) = n_prefix_len n"
  by (simp add: node_key_def)

lemma trie_wf_keys_inj:
  assumes "trie_wf nodes" "i < length nodes" "j < length nodes" "node_key (nodes ! i) = node_key (nodes ! j)"
  shows "i = j"
  using trie_wfD(6) [OF assms(1)] assms(2-4) by (metis length_map nth_eq_iff_index_eq nth_map)

lemma trie_map_nth:
  assumes "trie_wf nodes" "i < length nodes"
  shows "trie_map nodes (node_key (nodes ! i)) = n_data (nodes ! i)"
proof -
  have "distinct (map fst (map (\<lambda>n. (node_key n, n_data n)) nodes))"
    using trie_wfD(6) [OF assms(1)] by (simp add: comp_def)
  moreover have "(node_key (nodes ! i), n_data (nodes ! i)) \<in> set (map (\<lambda>n. (node_key n, n_data n)) nodes)"
    using assms(2) by auto
  ultimately have "map_of (map (\<lambda>n. (node_key n, n_data n)) nodes) (node_key (nodes ! i)) = Some (n_data (nodes ! i))"
    by (rule map_of_is_SomeI)
  then show ?thesis by (simp add: trie_map_def)
qed

lemma trie_map_none:
  assumes "\<And>i. i < length nodes \<Longrightarrow> node_key (nodes ! i) \<noteq> k"
  shows "trie_map nodes k = None"
proof -
  have "map_of (map (\<lambda>n. (node_key n, n_data n)) nodes) k = None"
    using assms by (fastforce simp: map_of_eq_None_iff in_set_conv_nth)
  then show ?thesis by (simp add: trie_map_def)
qed

lemma trie_map_Some_iff:
  assumes "trie_wf nodes"
  shows "trie_map nodes k = Some d \<longleftrightarrow> (\<exists>i < length nodes. node_key (nodes ! i) = k \<and> n_data (nodes ! i) = Some d)"
  using trie_map_nth [OF assms] trie_map_none [of nodes k] by fastforce

text \<open>Adding nodes keeps the map elsewhere.\<close>

lemma trie_map_append:
  assumes "node_key n \<notin> set (map node_key nodes)"
  shows "trie_map (nodes @ [n]) = (trie_map nodes)(node_key n := n_data n)"
proof (rule ext)
  fix k
  have "map_of (map (\<lambda>n. (node_key n, n_data n)) nodes) (node_key n) = None"
    using assms by (auto simp: map_of_eq_None_iff)
  then show "trie_map (nodes @ [n]) k = ((trie_map nodes)(node_key n := n_data n)) k"
    by (auto simp: trie_map_def map_add_def map_of_append split: option.split)
qed

lemma trie_map_cong:
  assumes "map (\<lambda>n. (node_key n, n_data n)) nodes' = map (\<lambda>n. (node_key n, n_data n)) nodes"
  shows "trie_map nodes' = trie_map nodes"
  using assms by (auto simp: trie_map_def)

lemma trie_wf_child_strict:
  assumes "trie_wf nodes" "i < length nodes" "child_of nodes i b = Some c"
  shows "strict_prefix (node_key (nodes ! i)) (node_key (nodes ! c))"
    "node_key (nodes ! c) ! length (node_key (nodes ! i)) = b"
    "c < length nodes"
  using trie_wfD(7) [OF assms(1,2,3)] by (auto simp: prefix_def strict_prefix_def nth_append)

section \<open>Lookup is longest-prefix match\<close>

lemma lpm_skip:
  assumes "prefix p k" and "\<And>q. strict_prefix p q \<Longrightarrow> prefix q k \<Longrightarrow> m q = None"
  shows "lpm m k = lpm m p"
  using assms
proof (induction k rule: rev_induct)
  case Nil
  then show ?case by simp
next
  case (snoc x xs)
  show ?case
  proof (cases "p = xs @ [x]")
    case False
    then have p: "prefix p xs" using snoc.prems(1) by auto
    have "m (xs @ [x]) = None" using False snoc.prems by (auto simp: strict_prefix_def)
    then have "lpm m (xs @ [x]) = lpm m xs" by (simp add: lpm.simps [of m "xs @ [x]"])
    also have "\<dots> = lpm m p" by (rule snoc.IH [OF p]) (auto intro: snoc.prems(2))
    finally show ?thesis .
  qed simp
qed

lemma lpm_step:
  assumes "strict_prefix p k" and "\<And>q. strict_prefix p q \<Longrightarrow> strict_prefix q k \<Longrightarrow> m q = None"
  shows "lpm m k = (case m k of Some d \<Rightarrow> Some d | None \<Rightarrow> lpm m p)"
proof (cases "m k")
  case None
  have "lpm m k = lpm m p"
    by (rule lpm_skip) (use assms None in \<open>auto simp: strict_prefix_def\<close>)
  with None show ?thesis by simp
next
  case (Some d)
  then show ?thesis by (simp add: lpm.simps [of m k])
qed

text \<open>There is nothing between a node and its child.\<close>

lemma no_node_between:
  assumes "trie_wf nodes" "i < length nodes" "child_of nodes i b = Some c" "j < length nodes"
    and "strict_prefix (node_key (nodes ! i)) (node_key (nodes ! j))"
  shows "\<not> strict_prefix (node_key (nodes ! j)) (node_key (nodes ! c))"
proof
  assume jc: "strict_prefix (node_key (nodes ! j)) (node_key (nodes ! c))"
  have "node_key (nodes ! j) ! length (node_key (nodes ! i)) = b"
    using trie_wf_child_strict(2) [OF assms(1-3)] jc assms(5) prefix_length_less [OF assms(5)]
    by (auto simp: strict_prefix_def prefix_def nth_append)
  with trie_wfD(8) [OF assms(1,2,4,5)] assms(3)
  have "prefix (node_key (nodes ! c)) (node_key (nodes ! j))" by auto
  with jc show False by (meson prefix_order.less_le_not_le)
qed

text \<open>The state of the lookup loop: at a node that covers the key, with the best match so far.\<close>

definition find_inv :: "('w::len word, 'd) arena \<Rightarrow> 'w word \<Rightarrow> nat \<Rightarrow> 'd option \<Rightarrow> bool" where
  "find_inv nodes key i best \<longleftrightarrow>
     i < length nodes \<and> prefix (node_key (nodes ! i)) (bits key LENGTH('w)) \<and>
     best = lpm (trie_map nodes) (node_key (nodes ! i))"

lemma find_inv_done:
  fixes key :: "'w::len word"
  assumes "find_inv nodes key i best"
    and "\<And>j. j < length nodes \<Longrightarrow> strict_prefix (node_key (nodes ! i)) (node_key (nodes ! j)) \<Longrightarrow>
      \<not> prefix (node_key (nodes ! j)) (bits key LENGTH('w))"
  shows "best = lpm (trie_map nodes) (bits key LENGTH('w))"
proof -
  have "trie_map nodes q = None" if "strict_prefix (node_key (nodes ! i)) q" "prefix q (bits key LENGTH('w))" for q
    using assms(2) that by (intro trie_map_none) auto
  then show ?thesis using lpm_skip assms(1) unfolding find_inv_def by metis
qed

text \<open>The branch taken is the one every longer match of the key is on.\<close>

lemma key_branch:
  fixes key :: "'w::len word"
  assumes "strict_prefix (node_key n) (node_key n')" and "prefix (node_key n') (bits key LENGTH('w))"
  shows "node_key n' ! length (node_key n) = bit_at key (n_prefix_len n)"
proof -
  have lt: "n_prefix_len n < n_prefix_len n'" using prefix_length_less [OF assms(1)] by simp
  have "node_key n' ! n_prefix_len n = bits key LENGTH('w) ! n_prefix_len n"
    using assms(2) lt by (auto simp: prefix_def nth_append)
  then show ?thesis using lt prefix_length_le [OF assms(2)] by simp
qed

lemma child_covers_key:
  fixes key :: "'w::len word"
  assumes "trie_wf nodes" "c < length nodes"
  shows "mask_prefix key (n_prefix_len (nodes ! c)) = n_prefix (nodes ! c) \<longleftrightarrow>
    prefix (node_key (nodes ! c)) (bits key LENGTH('w))"
  using mask_prefix_eq_iff [of "n_prefix_len (nodes ! c)" key "n_prefix (nodes ! c)"]
    trie_wfD(4,5) [OF assms] by (auto simp: node_key_def prefix_bits_iff)

lemma find_inv_child:
  assumes "trie_wf nodes" and "find_inv nodes key i best" and "child_of nodes i b = Some c"
    and "prefix (node_key (nodes ! c)) (bits (key :: 'w::len word) LENGTH('w))"
  shows "find_inv nodes key c (case n_data (nodes ! c) of Some d \<Rightarrow> Some d | None \<Rightarrow> best)"
proof -
  have i: "i < length nodes" using assms(2) by (simp add: find_inv_def)
  note cs = trie_wf_child_strict [OF assms(1) i assms(3)]
  have "trie_map nodes q = None"
    if "strict_prefix (node_key (nodes ! i)) q" "strict_prefix q (node_key (nodes ! c))" for q
    using no_node_between [OF assms(1) i assms(3)] that by (intro trie_map_none) auto
  then show ?thesis
    using lpm_step [OF cs(1), of "trie_map nodes"] assms(2,4) cs(3) trie_map_nth [OF assms(1) cs(3)]
    by (auto simp: find_inv_def)
qed

lemma trie_find_step_spec:
  fixes key :: "'w::len word"
  assumes "trie_wf nodes" and "find_inv nodes key i best"
  shows "trie_find_step key i best nodes = Some (Inr (lpm (trie_map nodes) (bits key LENGTH('w)))) \<or>
    (\<exists>c best'. trie_find_step key i best nodes = Some (Inl (c, best')) \<and> find_inv nodes key c best' \<and>
       n_prefix_len (nodes ! i) < n_prefix_len (nodes ! c))"
proof -
  let ?K = "bits key LENGTH('w)" and ?n = "nodes ! i"
  let ?b = "bit_at key (n_prefix_len ?n)"
  have i: "i < length nodes" using assms(2) by (simp add: find_inv_def)
  note w2 = trie_wfD(8) [OF assms(1) i]
  consider (full) "n_prefix_len ?n = LENGTH('w)"
    | (leaf) "n_prefix_len ?n \<noteq> LENGTH('w)" "node_child ?n ?b = None"
    | (child) ci where "n_prefix_len ?n \<noteq> LENGTH('w)" "node_child ?n ?b = Some ci" by fastforce
  then show ?thesis
  proof cases
    case full
    then have "\<not> prefix (node_key (nodes ! j)) ?K" if "strict_prefix (node_key ?n) (node_key (nodes ! j))" for j
      using prefix_length_less [OF that] by (auto dest: prefix_length_le)
    with find_inv_done [OF assms(2)] full i show ?thesis by (simp add: trie_find_step_def)
  next
    case leaf
    then have "\<not> prefix (node_key (nodes ! j)) ?K"
      if "j < length nodes" "strict_prefix (node_key ?n) (node_key (nodes ! j))" for j
      using w2 [OF that] key_branch [OF that(2), of key] by (auto simp: child_of_def)
    with find_inv_done [OF assms(2)] leaf i show ?thesis by (simp add: trie_find_step_def Let_def)
  next
    case child
    define c where "c = decode_node_index ci"
    have ch: "child_of nodes i ?b = Some c" using child by (simp add: child_of_def c_def)
    note cs = trie_wf_child_strict [OF assms(1) i ch]
    note cov = child_covers_key [OF assms(1) cs(3), of key]
    show ?thesis
    proof (cases "prefix (node_key (nodes ! c)) ?K")
      case False
      have "\<not> prefix (node_key (nodes ! j)) ?K"
        if "j < length nodes" "strict_prefix (node_key ?n) (node_key (nodes ! j))" for j
      proof
        assume pj: "prefix (node_key (nodes ! j)) ?K"
        from w2 [OF that] key_branch [OF that(2) pj] ch
        have "prefix (node_key (nodes ! c)) (node_key (nodes ! j))" by simp
        from prefix_order.trans [OF this pj] False show False by simp
      qed
      with find_inv_done [OF assms(2)] False child cs(3) cov i show ?thesis
        by (simp add: trie_find_step_def Let_def c_def)
    next
      case True
      with find_inv_child [OF assms ch True] child cs(3) cov i prefix_length_less [OF cs(1)]
      show ?thesis by (simp add: trie_find_step_def Let_def c_def)
    qed
  qed
qed

lemma trie_find_loop_lpm:
  fixes key :: "'w::len word"
  assumes "trie_wf nodes" and "find_inv nodes key i best"
  shows "trie_find_loop key i best nodes = Some (lpm (trie_map nodes) (bits key LENGTH('w)))"
  using assms(2)
proof (induction "LENGTH('w) - n_prefix_len (nodes ! i)" arbitrary: i best rule: less_induct)
  case less
  from trie_find_step_spec [OF assms(1) less.prems] show ?case
  proof (elim disjE exE conjE)
    assume "trie_find_step key i best nodes = Some (Inr (lpm (trie_map nodes) (bits key LENGTH('w))))"
    then show ?thesis by (subst trie_find_loop.simps) simp
  next
    fix c best' assume st: "trie_find_step key i best nodes = Some (Inl (c, best'))"
      and c: "find_inv nodes key c best'" "n_prefix_len (nodes ! i) < n_prefix_len (nodes ! c)"
    have "n_prefix_len (nodes ! c) \<le> LENGTH('w)"
      using trie_wfD(4) [OF assms(1)] c(1) by (simp add: find_inv_def)
    then have "trie_find_loop key c best' nodes = Some (lpm (trie_map nodes) (bits key LENGTH('w)))"
      using c by (intro less.hyps) simp_all
    with st show ?thesis by (subst trie_find_loop.simps) simp
  qed
qed

lemma trie_find_lpm:
  fixes key :: "'w::len word"
  assumes "trie_wf nodes"
  shows "trie_find key nodes = Some (lpm (trie_map nodes) (bits key LENGTH('w)))"
proof -
  have "n_data (nodes ! 0) = lpm (trie_map nodes) (node_key (nodes ! 0))"
    using trie_map_nth [OF assms, of 0] trie_wfD(1,3) [OF assms]
    by (simp add: lpm.simps [of _ "[]"] split: option.split)
  then have "find_inv nodes key 0 (n_data (nodes ! 0))"
    using trie_wfD(1,3) [OF assms] by (simp add: find_inv_def)
  then show ?thesis
    using trie_find_loop_lpm [OF assms] trie_wfD(1) [OF assms] by (auto simp: trie_find_def)
qed

section \<open>Insertion updates the map\<close>

lemma prefix_nth: "prefix xs ys \<Longrightarrow> i < length xs \<Longrightarrow> ys ! i = xs ! i"
  by (auto simp: prefix_def nth_append)

lemma strict_prefix_bit:
  assumes "strict_prefix xs ys"
  shows "prefix (xs @ [ys ! length xs]) ys"
  using assms by (metis append_one_prefix prefix_length_less strict_prefixE' strict_prefix_def)

lemma prefix_bit_strict: "prefix (xs @ [b]) ys \<Longrightarrow> strict_prefix xs ys \<and> ys ! length xs = b"
  by (auto simp: prefix_def strict_prefix_def nth_append)

text \<open>A node above \<open>P\<close> other than \<open>i\<close>, where \<open>i\<close> is the lowest node above \<open>P\<close>.\<close>

lemma links_ancestor:
  assumes ok: "links_ok N key ch" and i: "i < N" and j: "j < N" "j \<noteq> i"
    and P: "strict_prefix (key i) P" "strict_prefix (key j) P" and "\<not> strict_prefix (key i) (key j)"
  shows "\<exists>c. ch j (P ! length (key j)) = Some c \<and> prefix (key c) P \<and> c < N"
proof -
  have "key j \<noteq> key i" using links_okD(1) [OF ok j(1) i] j(2) by blast
  then have ji: "strict_prefix (key j) (key i)"
    using prefix_same_cases [of "key j" P "key i"] P assms(7) by (auto simp: strict_prefix_def)
  from links_okD(3) [OF ok j(1) i ji]
  obtain c where c: "ch j (key i ! length (key j)) = Some c" "prefix (key c) (key i)" by blast
  moreover have "P ! length (key j) = key i ! length (key j)"
    using prefix_nth [of "key i" P "length (key j)"] P prefix_length_less [OF ji] by (simp add: strict_prefix_def)
  moreover have "c < N" using links_okD(2) [OF ok j(1) c(1)] by simp
  ultimately show ?thesis using P(1) by (auto simp: strict_prefix_def)
qed

lemma links_add_leaf:
  assumes ok: "links_ok N key ch" and i: "i < N"
    and P: "strict_prefix (key i) P" and none: "ch i (P ! length (key i)) = None"
  shows "links_ok (Suc N) (key(N := P))
    (ch(i := (ch i)(P ! length (key i) := Some N), N := (\<lambda>_. None)))"
proof -
  let ?b = "P ! length (key i)"
  let ?key = "key(N := P)" and ?ch = "ch(i := (ch i)(?b := Some N), N := (\<lambda>_. None))"
  have above: "\<not> strict_prefix (key i) (key j)" if "j < N" "prefix (key j) P \<or> prefix P (key j)" for j
  proof
    assume ij: "strict_prefix (key i) (key j)"
    then have "key j ! length (key i) = ?b"
      using that(2) P prefix_length_less by (metis prefix_nth)
    with links_okD(3) [OF ok i that(1) ij] none show False by simp
  qed
  have neq: "key j \<noteq> P" if "j < N" for j using above [OF that] P by auto
  have "\<exists>c. ?ch j (?key k ! length (?key j)) = Some c \<and> prefix (?key c) (?key k)"
    if jk: "j < Suc N" "k < Suc N" "strict_prefix (?key j) (?key k)" for j k
  proof -
    consider (below) "j = N" "k < N" | (old) "j < N" "k < N" | (new) "j < N" "k = N"
      using jk by fastforce
    then show ?thesis
    proof cases
      case below
      then have "strict_prefix P (key k)" using jk(3) by simp
      with above [OF below(2)] P show ?thesis by (meson prefix_order.less_trans prefix_order.less_imp_le)
    next
      case old
      then obtain c where c: "ch j (key k ! length (key j)) = Some c" "prefix (key c) (key k)"
        using links_okD(3) [OF ok old(1,2)] jk(3) by auto
      have "c < N" using links_okD(2) [OF ok old(1) c(1)] by simp
      with c old none show ?thesis by (intro exI [of _ c]) auto
    next
      case new
      then have "strict_prefix (key j) P" "\<not> strict_prefix (key i) (key j)"
        using jk(3) above [of j] by (auto simp: strict_prefix_def)
      with links_ancestor [OF ok i new(1) _ P] new i show ?thesis by (cases "j = i") auto
    qed
  qed
  moreover have "c < Suc N \<and> prefix (?key j @ [b]) (?key c)" if h: "j < Suc N" "?ch j b = Some c" for j b c
  proof (cases "j = i \<and> b = ?b")
    case True
    then show ?thesis using h strict_prefix_bit [OF P] i by simp
  next
    case False
    then have "j < N" "ch j b = Some c" using h by (simp_all split: if_splits)
    then show ?thesis using links_okD(2) [OF ok, of j b c] by auto
  qed
  moreover have "inj_on ?key {..<Suc N}"
    using ok neq by (auto simp: links_ok_def inj_on_def lessThan_Suc)
  ultimately show ?thesis unfolding links_ok_def by blast
qed

lemma links_add_mid:
  assumes ok: "links_ok N key ch" and i: "i < N" and c: "ch i b = Some c"
    and M: "prefix (key i @ [b]) M" "strict_prefix M (key c)"
  shows "links_ok (Suc N) (key(N := M))
    (ch(i := (ch i)(b := Some N), N := (\<lambda>_. None)(key c ! length M := Some c)))"
proof -
  let ?key = "key(N := M)"
  let ?ch = "ch(i := (ch i)(b := Some N), N := (\<lambda>_. None)(key c ! length M := Some c))"
  note cN = links_okD(2) [OF ok i c]
  have iM: "strict_prefix (key i) M" "M ! length (key i) = b" using prefix_bit_strict [OF M(1)] by auto
  have under: "prefix (key c) (key j)" if "j < N" "prefix (key i @ [b]) (key j)" for j
    using links_okD(3) [OF ok i that(1)] prefix_bit_strict [OF that(2)] c by auto
  have above: "\<not> strict_prefix (key i) (key j)" if "j < N" "prefix (key j) M" for j
  proof
    assume ij: "strict_prefix (key i) (key j)"
    then have "key j ! length (key i) = b"
      using that(2) iM prefix_length_less by (metis prefix_nth)
    then have "prefix (key c) (key j)" using under [OF that(1)] strict_prefix_bit [OF ij] by simp
    with that(2) M(2) show False by (meson prefix_order.leD prefix_order.trans)
  qed
  have neq: "key j \<noteq> M" if "j < N" for j using above [OF that] iM by auto
  have "\<exists>k'. ?ch j (?key k ! length (?key j)) = Some k' \<and> prefix (?key k') (?key k)"
    if jk: "j < Suc N" "k < Suc N" "strict_prefix (?key j) (?key k)" for j k
  proof -
    consider (below) "j = N" "k < N" | (old) "j < N" "k < N" | (new) "j < N" "k = N"
      using jk by fastforce
    then show ?thesis
    proof cases
      case below
      then have "strict_prefix M (key k)" using jk(3) by simp
      then have ck: "prefix (key c) (key k)"
        using under [OF below(2)] M(1) by (meson prefix_order.less_imp_le prefix_order.trans)
      then have "key k ! length M = key c ! length M" using prefix_nth prefix_length_less [OF M(2)] by blast
      with ck below cN show ?thesis by auto
    next
      case old
      then obtain k' where k': "ch j (key k ! length (key j)) = Some k'" "prefix (key k') (key k)"
        using links_okD(3) [OF ok old(1,2)] jk(3) by auto
      have "k' < N" using links_okD(2) [OF ok old(1) k'(1)] by simp
      moreover have "prefix M (key k)" if "j = i" "key k ! length (key j) = b"
        using that k' c M(2) by (auto simp: strict_prefix_def)
      ultimately show ?thesis using k' old by auto
    next
      case new
      then have "strict_prefix (key j) M" "\<not> strict_prefix (key i) (key j)"
        using jk(3) above [of j] by (auto simp: strict_prefix_def)
      with links_ancestor [OF ok i new(1) _ iM(1)] new i iM(2) show ?thesis by (cases "j = i") auto
    qed
  qed
  moreover have "k < Suc N \<and> prefix (?key j @ [b']) (?key k)" if h: "j < Suc N" "?ch j b' = Some k" for j b' k
  proof (cases "j = N")
    case True
    then have "b' = key c ! length M" "k = c" using h by (simp_all split: if_splits)
    then show ?thesis using True cN strict_prefix_bit [OF M(2)] by simp
  next
    case False
    then have "j < N" "(j = i \<and> b' = b \<and> k = N) \<or> ch j b' = Some k" using h by (simp_all split: if_splits)
    then show ?thesis using i M(1) links_okD(2) [OF ok, of j b' k] by auto
  qed
  moreover have "inj_on ?key {..<Suc N}"
    using ok neq by (auto simp: links_ok_def inj_on_def lessThan_Suc)
  ultimately show ?thesis unfolding links_ok_def by blast
qed

subsection \<open>Appending a node and linking it\<close>

definition append_link ::
  "nat \<Rightarrow> bool \<Rightarrow> NodeIndex \<Rightarrow> ('w::len word, 'd) Node \<Rightarrow> ('w word, 'd) arena \<Rightarrow> ('w word, 'd) arena" where
  "append_link i b k n nodes = (nodes @ [n])[i := node_set_child b k ((nodes @ [n]) ! i)]"

lemma node_child_set [simp]:
  "node_child (node_set_child b k n) b' = (if b' = b then Some k else node_child n b')"
  by (simp add: node_child_def node_set_child_def)

lemma node_set_child_frame [simp]:
  "node_key (node_set_child b k n) = node_key n"
  "n_prefix (node_set_child b k n) = n_prefix n" "n_prefix_len (node_set_child b k n) = n_prefix_len n"
  "n_data (node_set_child b k n) = n_data n"
  by (simp_all add: node_set_child_def node_key_def)

lemma node_child_data [simp]: "node_child (n\<lparr>n_data := d\<rparr>) b = node_child n b"
  by (simp add: node_child_def)

lemma node_key_data [simp]: "node_key (n\<lparr>n_data := d\<rparr>) = node_key n"
  by (simp add: node_key_def)

lemma node_new_simps [simp]:
  "node_child (node_new p l) b = None" "n_prefix (node_new p l) = p" "n_prefix_len (node_new p l) = l"
  "n_data (node_new p l) = None" "node_key (node_new p l) = bits p l"
  by (simp_all add: node_new_def node_child_def node_key_def)

lemma decode_encode: "encode_node_index j = Inr k \<Longrightarrow> decode_node_index k = j"
  by (auto simp: encode_node_index_def decode_node_index_def unat_of_nat_small split: if_splits)

lemma links_ok_cong:
  assumes "links_ok N key ch" and "\<And>i. i < N \<Longrightarrow> key' i = key i" and "\<And>i. i < N \<Longrightarrow> ch' i = ch i"
  shows "links_ok N key' ch'"
proof -
  have "inj_on key' {..<N}" using assms(1,2) by (auto simp: links_ok_def inj_on_def)
  moreover have "c < N \<and> prefix (key' i @ [b]) (key' c)" if "i < N" "ch' i b = Some c" for i b c
    using links_okD(2) [OF assms(1) that(1), of b c] that assms(2,3) by simp
  moreover have "\<exists>c. ch' i (key' j ! length (key' i)) = Some c \<and> prefix (key' c) (key' j)"
    if ij: "i < N" "j < N" "strict_prefix (key' i) (key' j)" for i j
  proof -
    from links_okD(3) [OF assms(1) ij(1,2)] ij assms(2)
    obtain c where c: "ch i (key j ! length (key i)) = Some c" "prefix (key c) (key j)" by auto
    then have "c < N" using links_okD(2) [OF assms(1) ij(1)] by blast
    with c ij assms(2,3) show ?thesis by auto
  qed
  ultimately show ?thesis unfolding links_ok_def by blast
qed

lemma append_link_nth:
  assumes "i < length nodes" and "j \<le> length nodes"
  shows "node_key (append_link i b k n nodes ! j) = (if j = length nodes then node_key n else node_key (nodes ! j))"
    and "child_of (append_link i b k n nodes) j b' =
      (if j = i \<and> b' = b then Some (decode_node_index k)
       else if j = length nodes then map_option decode_node_index (node_child n b') else child_of nodes j b')"
    and "n_data (append_link i b k n nodes ! j) = (if j = length nodes then n_data n else n_data (nodes ! j))"
  using assms by (auto simp: append_link_def child_of_def nth_list_update nth_append)

lemma append_link_map:
  assumes "i < length nodes" and "node_key n \<notin> set (map node_key nodes)"
  shows "trie_map (append_link i b k n nodes) = (trie_map nodes)(node_key n := n_data n)"
proof -
  have "map (\<lambda>n. (node_key n, n_data n)) (append_link i b k n nodes) = map (\<lambda>n. (node_key n, n_data n)) (nodes @ [n])"
    using assms(1) by (intro nth_equalityI)
      (auto simp: append_link_nth append_link_def nth_list_update nth_append)
  from trie_map_cong [OF this] show ?thesis by (simp only: trie_map_append [OF assms(2)])
qed

text \<open>If the links are right after the append, so is the arena, and the map has the new node's entry.\<close>

lemma append_link_wf:
  fixes nodes :: "('w::len word, 'd) arena"
  assumes wf: "trie_wf nodes" and i: "i < length nodes" and k: "decode_node_index k = length nodes"
    and len: "length nodes + 1 < 2 ^ 16"
    and n: "n_prefix_len n \<le> LENGTH('w)" "mask_prefix (n_prefix n) (n_prefix_len n) = n_prefix n"
    and links: "links_ok (Suc (length nodes)) ((\<lambda>i. node_key (nodes ! i))(length nodes := node_key n))
      ((child_of nodes)(i := (child_of nodes i)(b := Some (length nodes)),
         length nodes := (\<lambda>b. map_option decode_node_index (node_child n b))))"
  shows "trie_wf (append_link i b k n nodes)"
    and "trie_map (append_link i b k n nodes) = (trie_map nodes)(node_key n := n_data n)"
    and "trie_map nodes (node_key n) = None"
proof -
  let ?a = "append_link i b k n nodes" and ?N = "length nodes"
  have l: "length ?a = Suc ?N" by (simp add: append_link_def)
  have "links_ok (length ?a) (\<lambda>i. node_key (?a ! i)) (child_of ?a)"
    unfolding l by (rule links_ok_cong [OF links])
      (use i k in \<open>auto simp: append_link_nth fun_eq_iff\<close>)
  moreover have "node_key (?a ! 0) = []" using append_link_nth(1) [OF i, of 0] trie_wfD(1,3) [OF wf] by simp
  moreover have "n_prefix_len m \<le> LENGTH('w) \<and> mask_prefix (n_prefix m) (n_prefix_len m) = n_prefix m"
    if "m \<in> set ?a" for m
  proof -
    have "(m \<in> set nodes \<or> m = n) \<or> m = node_set_child b k (nodes ! i)"
      using that i set_update_subset_insert [of "nodes @ [n]" i] by (auto simp: append_link_def nth_append)
    then show ?thesis using wf n i by (auto simp: trie_wf_def)
  qed
  ultimately show "trie_wf ?a" using l len by (simp add: trie_wf_def)
  have new: "node_key (nodes ! j) \<noteq> node_key n" if "j < ?N" for j
    using links_okD(1) [OF links, of j ?N] that by auto
  then have "node_key n \<notin> set (map node_key nodes)" by (fastforce simp: in_set_conv_nth)
  then show "trie_map ?a = (trie_map nodes)(node_key n := n_data n)" by (rule append_link_map [OF i])
  show "trie_map nodes (node_key n) = None" using new by (rule trie_map_none)
qed

subsection \<open>The two ways a node is added\<close>

lemma add_leaf_wf:
  fixes nodes :: "('w::len word, 'd) arena" and d :: "'d option"
  assumes wf: "trie_wf nodes" and i: "i < length nodes" and k: "decode_node_index k = length nodes"
    and len: "length nodes + 1 < 2 ^ 16"
    and p: "l \<le> LENGTH('w)" "mask_prefix p l = p"
    and above: "strict_prefix (node_key (nodes ! i)) (bits p l)"
    and none: "node_child (nodes ! i) (bit_at p (n_prefix_len (nodes ! i))) = None"
  defines "nodes' \<equiv> append_link i (bit_at p (n_prefix_len (nodes ! i))) k ((node_new p l)\<lparr>n_data := d\<rparr>) nodes"
  shows "trie_wf nodes'" "trie_map nodes' = (trie_map nodes)(bits p l := d)"
    "trie_map nodes (bits p l) = None"
proof -
  have "n_prefix_len (nodes ! i) < l" using prefix_length_less [OF above] by simp
  then have b: "bits p l ! length (node_key (nodes ! i)) = bit_at p (n_prefix_len (nodes ! i))" by simp
  have "links_ok (Suc (length nodes)) ((\<lambda>i. node_key (nodes ! i))(length nodes := bits p l))
      ((child_of nodes)(i := (child_of nodes i)(bit_at p (n_prefix_len (nodes ! i)) := Some (length nodes)),
         length nodes := (\<lambda>_. None)))"
    using links_add_leaf [of "length nodes" "\<lambda>i. node_key (nodes ! i)" "child_of nodes" i "bits p l"]
      wf i above none unfolding b by (simp add: trie_wf_def child_of_def)
  then show "trie_wf nodes'" "trie_map nodes' = (trie_map nodes)(bits p l := d)"
      "trie_map nodes (bits p l) = None"
    using append_link_wf [OF wf i k len, of "(node_new p l)\<lparr>n_data := d\<rparr>"] p by (simp_all add: nodes'_def)
qed

lemma add_mid_wf:
  fixes nodes :: "('w::len word, 'd) arena" and d :: "'d option"
  assumes wf: "trie_wf nodes" and i: "i < length nodes" and k: "decode_node_index k = length nodes"
    and len: "length nodes + 1 < 2 ^ 16"
    and p: "l \<le> LENGTH('w)" "mask_prefix p l = p"
    and ch: "child_of nodes i b = Some c" and kc: "decode_node_index kc = c"
    and between: "prefix (node_key (nodes ! i) @ [b]) (bits p l)" "strict_prefix (bits p l) (node_key (nodes ! c))"
  defines "nodes' \<equiv> append_link i b k
    ((node_set_child (bit_at (n_prefix (nodes ! c)) l) kc (node_new p l))\<lparr>n_data := d\<rparr>) nodes"
  shows "trie_wf nodes'" "trie_map nodes' = (trie_map nodes)(bits p l := d)"
    "trie_map nodes (bits p l) = None"
proof -
  let ?n = "(node_set_child (bit_at (n_prefix (nodes ! c)) l) kc (node_new p l))\<lparr>n_data := d\<rparr>"
  have "l < n_prefix_len (nodes ! c)" using prefix_length_less [OF between(2)] by simp
  then have b: "node_key (nodes ! c) ! length (bits p l) = bit_at (n_prefix (nodes ! c)) l"
    by (simp add: node_key_def)
  have "links_ok (Suc (length nodes)) ((\<lambda>i. node_key (nodes ! i))(length nodes := bits p l))
      ((child_of nodes)(i := (child_of nodes i)(b := Some (length nodes)),
         length nodes := (\<lambda>_. None)(bit_at (n_prefix (nodes ! c)) l := Some c)))"
    using links_add_mid [of "length nodes" "\<lambda>i. node_key (nodes ! i)" "child_of nodes" i b c "bits p l"]
      wf i ch between unfolding b by (simp add: trie_wf_def)
  moreover have "(\<lambda>b. map_option decode_node_index (node_child ?n b)) =
      (\<lambda>_. None)(bit_at (n_prefix (nodes ! c)) l := Some c)"
    using kc by (auto simp: fun_eq_iff)
  ultimately show "trie_wf nodes'" "trie_map nodes' = (trie_map nodes)(bits p l := d)"
      "trie_map nodes (bits p l) = None"
    using append_link_wf [OF wf i k len, of ?n] p by (simp_all add: nodes'_def)
qed

subsection \<open>The contract of insertion\<close>

text \<open>The number of nodes the arena can hold: the links are 16 bit wide.\<close>

definition arena_room :: "nat option \<Rightarrow> nat" where
  "arena_room cap = (case cap of None \<Rightarrow> 2 ^ 16 - 1 | Some N \<Rightarrow> min N (2 ^ 16 - 1))"

definition insert_post ::
  "nat option \<Rightarrow> ('w::len word, 'd) arena \<Rightarrow> bool list \<Rightarrow> 'd \<Rightarrow>
     (AllowedIPsError + 'd option) \<times> ('w word, 'd) arena \<Rightarrow> bool" where
  "insert_post cap nodes P d r =
     (case r of
        (Inr old, nodes') \<Rightarrow>
          old = trie_map nodes P \<and> trie_map nodes' = (trie_map nodes)(P \<mapsto> d) \<and> trie_wf nodes' \<and>
          length nodes' \<le> length nodes + 2
      | (Inl e, nodes') \<Rightarrow> e = Full \<and> nodes' = nodes \<and> arena_room cap < length nodes + 2)"

text \<open>Replacing a payload in place.\<close>

lemma replace_data_wf:
  fixes nodes :: "('w::len word, 'd) arena" and d :: 'd
  assumes wf: "trie_wf nodes" and i: "i < length nodes"
  defines "nodes' \<equiv> nodes[i := (nodes ! i)\<lparr>n_prefix := n_prefix (nodes ! i), n_data := Some d\<rparr>]"
  shows "trie_wf nodes'" "trie_map nodes' = (trie_map nodes)(node_key (nodes ! i) \<mapsto> d)"
proof -
  have k: "node_key (nodes' ! j) = node_key (nodes ! j)" "child_of nodes' j = child_of nodes j" if "j < length nodes" for j
    using that by (cases "j = i"; simp add: nodes'_def child_of_def node_key_def node_child_def fun_eq_iff)+
  have l: "length nodes' = length nodes" by (simp add: nodes'_def)
  have "links_ok (length nodes) (\<lambda>i. node_key (nodes ! i)) (child_of nodes)" using wf by (simp add: trie_wf_def)
  then have "links_ok (length nodes') (\<lambda>i. node_key (nodes' ! i)) (child_of nodes')"
    unfolding l by (rule links_ok_cong) (simp_all add: k)
  moreover have "n_prefix_len m \<le> LENGTH('w) \<and> mask_prefix (n_prefix m) (n_prefix_len m) = n_prefix m"
    if "m \<in> set nodes'" for m
    using that set_update_subset_insert [of nodes i] wf i by (fastforce simp: nodes'_def trie_wf_def)
  ultimately show w: "trie_wf nodes'" using wf k l trie_wfD(1) [OF wf] by (auto simp: trie_wf_def)
  show "trie_map nodes' = (trie_map nodes)(node_key (nodes ! i) \<mapsto> d)"
  proof
    fix q
    show "trie_map nodes' q = ((trie_map nodes)(node_key (nodes ! i) \<mapsto> d)) q"
    proof (cases "\<exists>j < length nodes. node_key (nodes ! j) = q")
      case True
      then obtain j where j: "j < length nodes" "node_key (nodes ! j) = q" by blast
      have "trie_map nodes' q = n_data (nodes' ! j)" "trie_map nodes q = n_data (nodes ! j)"
        using trie_map_nth [OF w, of j] trie_map_nth [OF wf, of j] j k l by auto
      moreover have "n_data (nodes' ! j) = (if j = i then Some d else n_data (nodes ! j))"
        using j(1) by (simp add: nodes'_def)
      moreover have "node_key (nodes ! i) = q \<longleftrightarrow> j = i"
        using trie_wf_keys_inj [OF wf i j(1)] j(2) by auto
      ultimately show ?thesis by (cases "j = i") simp_all
    next
      case False
      then show ?thesis using trie_map_none [of nodes q] trie_map_none [of nodes' q] k l i by auto
    qed
  qed
qed

lemma node_push_cases:
  "node_push cap n nodes = Some nodes' \<Longrightarrow> nodes' = nodes @ [n]"
  "node_push cap n nodes = None \<Longrightarrow> arena_room cap < length nodes + 1"
  by (auto simp: node_push_def arena_room_def split: option.splits if_splits)

lemma encode_fails: "encode_node_index j = Inl e \<Longrightarrow> e = Full \<and> arena_room cap < j + 1"
  by (auto simp: encode_node_index_def arena_room_def split: option.splits if_splits)

lemma encode_fits: "encode_node_index j = Inr k \<Longrightarrow> j + 1 < 2 ^ 16"
  by (auto simp: encode_node_index_def split: if_splits)

lemma trie_insert_leaf_post:
  fixes nodes :: "('w::len word, 'd) arena"
  assumes wf: "trie_wf nodes" and i: "i < length nodes"
    and p: "l \<le> LENGTH('w)" "mask_prefix p l = p"
    and above: "strict_prefix (node_key (nodes ! i)) (bits p l)"
    and none: "node_child (nodes ! i) (bit_at p (n_prefix_len (nodes ! i))) = None"
  shows "insert_post cap nodes (bits p l) d
    (trie_insert_leaf cap p l d i (bit_at p (n_prefix_len (nodes ! i))) nodes)"
proof (cases "encode_node_index (length nodes)")
  case (Inl e)
  then show ?thesis
    using encode_fails [OF Inl, of cap] by (simp add: trie_insert_leaf_def insert_post_def)
next
  case (Inr k)
  let ?n = "(node_new p l)\<lparr>n_data := Some d\<rparr>"
  show ?thesis
  proof (cases "node_push cap ?n nodes")
    case None
    then show ?thesis
      using Inr node_push_cases(2) [OF None] by (simp add: trie_insert_leaf_def insert_post_def)
  next
    case (Some nodes1)
    note r = add_leaf_wf(1,2) [OF wf i decode_encode [OF Inr] encode_fits [OF Inr] p above none, where d = "Some d"]
      add_leaf_wf(3) [OF wf i decode_encode [OF Inr] encode_fits [OF Inr] p above none]
    show ?thesis
      using Inr Some r node_push_cases(1) [OF Some]
      by (simp add: trie_insert_leaf_def insert_post_def append_link_def)
  qed
qed

text \<open>A split that also needs a leaf is a split followed by adding a leaf to the new node.\<close>

lemma split_then_leaf:
  assumes "i < length nodes"
  shows "(nodes @ [node_set_child nb kl mid] @ [leaf])[i := node_set_child b km (nodes ! i)] =
    append_link (length nodes) nb kl leaf (append_link i b km mid nodes)"
  using assms by (simp add: append_link_def list_update_append nth_append)

lemma split_point:
  fixes nodes :: "('w::len word, 'd) arena"
  assumes wf: "trie_wf nodes" and i: "i < length nodes"
    and ch: "child_of nodes i b = Some c"
    and above: "prefix (node_key (nodes ! i) @ [b]) (bits p l)"
    and common: "common = common_prefix_len p l (n_prefix (nodes ! c)) (n_prefix_len (nodes ! c))"
    and split: "common \<noteq> n_prefix_len (nodes ! c)"
  shows "common \<le> l" "prefix (node_key (nodes ! i) @ [b]) (bits p common)"
    "strict_prefix (bits p common) (node_key (nodes ! c))"
    "common < l \<Longrightarrow> bit_at p common \<noteq> bit_at (n_prefix (nodes ! c)) common"
proof -
  let ?C = "nodes ! c" and ?k = "node_key (nodes ! i) @ [b]"
  note cp = common_prefix_len_props [of p l "n_prefix ?C" "n_prefix_len ?C", folded common]
  have lt: "common < n_prefix_len ?C" using cp(2) split by simp
  have kc: "prefix ?k (node_key ?C)" using trie_wfD(7) [OF wf i ch] by simp
  have nth: "bit_at p j = bit_at (n_prefix ?C) j" if "j < length ?k" for j
    using prefix_nth [OF above that] prefix_nth [OF kc that] prefix_length_le [OF above] prefix_length_le [OF kc] that
    by (simp add: node_key_def)
  have "length ?k \<le> common"
  proof (rule ccontr)
    assume "\<not> length ?k \<le> common"
    then have "common < length ?k" "common < l" using prefix_length_le [OF above] by simp_all
    with nth [of common] cp(4) lt show False by blast
  qed
  then show "prefix ?k (bits p common)"
    by (intro prefix_length_prefix [OF above]) (use cp(1) in \<open>simp_all add: prefix_bits_iff\<close>)
  have "bits p common = take common (node_key ?C)"
    using cp(3) lt by (simp add: node_key_def min_def)
  then show "strict_prefix (bits p common) (node_key ?C)"
    using lt by (metis length_bits length_node_key less_irrefl strict_prefix_def take_is_prefix)
  show "common \<le> l" by (rule cp(1))
  show "common < l \<Longrightarrow> bit_at p common \<noteq> bit_at (n_prefix ?C) common" using cp(4) lt by blast
qed

text \<open>The arena after a split with a leaf.\<close>

lemma split_leaf_wf:
  fixes nodes :: "('w::len word, 'd) arena" and d :: 'd
  assumes wf: "trie_wf nodes" and i: "i < length nodes"
    and p: "l \<le> LENGTH('w)" "mask_prefix p l = p" and m: "common < l"
    and km: "decode_node_index km = length nodes" and kl: "decode_node_index kl = length nodes + 1"
    and kc: "decode_node_index kc = c" and len: "length nodes + 2 < 2 ^ 16"
    and ch: "child_of nodes i b = Some c"
    and between: "prefix (node_key (nodes ! i) @ [b]) (bits p common)"
      "strict_prefix (bits p common) (node_key (nodes ! c))"
    and diff: "bit_at p common \<noteq> bit_at (n_prefix (nodes ! c)) common"
    and mid: "mid = node_set_child (bit_at (n_prefix (nodes ! c)) common) kc (node_new (mask_prefix p common) common)"
  defines "nodes' \<equiv> append_link (length nodes) (bit_at p common) kl ((node_new p l)\<lparr>n_data := Some d\<rparr>)
    (append_link i b km mid nodes)"
  shows "trie_wf nodes'" "trie_map nodes' = (trie_map nodes)(bits p l \<mapsto> d)" "trie_map nodes (bits p l) = None"
proof -
  let ?n1 = "append_link i b km mid nodes" and ?N = "length nodes"
  have midk: "mid\<lparr>n_data := None\<rparr> = mid" by (simp add: mid node_set_child_def node_new_def)
  have "common \<le> LENGTH('w)" "bits (mask_prefix p common) common = bits p common" using m p(1) by simp_all
  then have 1: "trie_wf ?n1" "trie_map ?n1 = (trie_map nodes)(bits p common := None)" "trie_map nodes (bits p common) = None"
    using add_mid_wf(1,2) [OF wf i km _ _ _ ch kc, where p = "mask_prefix p common" and l = common and d = None]
      add_mid_wf(3) [OF wf i km _ _ _ ch kc, where p = "mask_prefix p common" and l = common]
      between len midk [unfolded mid] by (simp_all add: mid)
  have l1: "length ?n1 = Suc ?N" by (simp add: append_link_def)
  have n1: "?n1 ! ?N = mid" using i by (simp add: append_link_def)
  have k1: "node_key mid = bits p common" "n_prefix_len mid = common"
    using m p(1) by (simp_all add: mid)
  have "strict_prefix (bits p common) (bits p l)"
    using m by (auto simp: strict_prefix_def prefix_bits_iff dest: arg_cong [where f = length])
  then have "strict_prefix (node_key (?n1 ! ?N)) (bits p l)" by (simp add: n1 k1)
  moreover have "node_child (?n1 ! ?N) (bit_at p (n_prefix_len (?n1 ! ?N))) = None"
    using diff by (simp add: n1 k1) (simp add: mid)
  ultimately have 2: "trie_wf nodes'" "trie_map nodes' = (trie_map ?n1)(bits p l \<mapsto> d)" "trie_map ?n1 (bits p l) = None"
    using add_leaf_wf(1,2) [OF 1(1) _ _ _ p, where i = ?N and k = kl and d = "Some d"]
      add_leaf_wf(3) [OF 1(1) _ _ _ p, where i = ?N and k = kl] l1 kl len
    by (simp_all add: nodes'_def n1 k1)
  show "trie_wf nodes'" by (rule 2(1))
  show "trie_map nodes' = (trie_map nodes)(bits p l \<mapsto> d)" "trie_map nodes (bits p l) = None"
    using 1(2,3) 2(2,3) by (auto simp: fun_eq_iff split: if_splits)
qed

lemma trie_insert_split_post:
  fixes nodes :: "('w::len word, 'd) arena"
  assumes wf: "trie_wf nodes" and i: "i < length nodes"
    and p: "l \<le> LENGTH('w)" "mask_prefix p l = p"
    and ch: "child_of nodes i b = Some c"
    and above: "prefix (node_key (nodes ! i) @ [b]) (bits p l)"
    and common: "common = common_prefix_len p l (n_prefix (nodes ! c)) (n_prefix_len (nodes ! c))"
    and split: "common \<noteq> n_prefix_len (nodes ! c)"
  shows "insert_post cap nodes (bits p l) d (trie_insert_split cap p l d i b c common nodes)"
proof -
  note sp = split_point [OF wf i ch above common split]
  let ?needed = "if common = l then 1 else 2 :: nat"
  consider (full) "case cap of None \<Rightarrow> False | Some N \<Rightarrow> length nodes + ?needed > N"
    | (nokm) e where "encode_node_index (length nodes) = Inl e"
    | (ok) km where "\<not> (case cap of None \<Rightarrow> False | Some N \<Rightarrow> length nodes + ?needed > N)"
        "encode_node_index (length nodes) = Inr km" by (cases "encode_node_index (length nodes)") auto
  then show ?thesis
  proof cases
    case full
    then show ?thesis
      by (auto simp: trie_insert_split_def insert_post_def arena_room_def split: option.splits if_splits)
  next
    case nokm
    then show ?thesis using encode_fails [OF nokm, of cap]
      by (auto simp: trie_insert_split_def insert_post_def arena_room_def Let_def split: option.splits)
  next
    case ok
    have "c < length nodes" by (rule trie_wf_child_strict(3) [OF wf i ch])
    then obtain kc where kc: "encode_node_index c = Inr kc"
      using trie_wfD(2) [OF wf] by (simp add: encode_node_index_def)
    have fits: "length nodes + 1 < 2 ^ 16" by (rule encode_fits [OF ok(2)])
    define mid :: "('w word, 'd) Node" where "mid = node_set_child (bit_at (n_prefix (nodes ! c)) common) kc
      (node_new (mask_prefix p common) common)"
    have push: "node_push cap n ns = Some (ns @ [n])"
      if "length ns < length nodes + ?needed" for n :: "('w word, 'd) Node" and ns
      using ok(1) that by (auto simp: node_push_def split: option.splits)
    show ?thesis
    proof (cases "common = l")
      case True
      have "trie_insert_split cap p l d i b c common nodes = (Inr None, append_link i b km (mid\<lparr>n_data := Some d\<rparr>) nodes)"
        using ok True kc push [of nodes]
        by (simp add: trie_insert_split_def Let_def mid_def append_link_def nth_append i split: option.splits)
      then show ?thesis
        using add_mid_wf(1,2) [OF wf i decode_encode [OF ok(2)] fits p ch decode_encode [OF kc], where d = "Some d"]
          add_mid_wf(3) [OF wf i decode_encode [OF ok(2)] fits p ch decode_encode [OF kc]] sp True p(2) by (simp add: insert_post_def mid_def append_link_def)
    next
      case False
      then have lt: "common < l" using sp(1) by simp
      show ?thesis
      proof (cases "encode_node_index (length nodes + 1)")
        case (Inl e)
        then have "trie_insert_split cap p l d i b c common nodes = (Inl e, nodes)"
          using ok False kc by (simp add: trie_insert_split_def Let_def split: option.splits)
        then show ?thesis using encode_fails [OF Inl, of cap] by (simp add: insert_post_def)
      next
        case (Inr kl)
        have "trie_insert_split cap p l d i b c common nodes = (Inr None,
            append_link (length nodes) (bit_at p common) kl ((node_new p l)\<lparr>n_data := Some d\<rparr>)
              (append_link i b km mid nodes))"
          using ok False kc Inr push split_then_leaf [OF i]
          by (simp add: trie_insert_split_def Let_def mid_def nth_append i split: option.splits)
        then show ?thesis
          using split_leaf_wf [OF wf i p lt decode_encode [OF ok(2)] decode_encode [OF Inr] decode_encode [OF kc]
              _ ch sp(2,3) sp(4) [OF lt] mid_def] encode_fits [OF Inr]
          by (simp add: insert_post_def) (simp add: append_link_def)
      qed
    qed
  qed
qed

lemma trie_insert_step_spec:
  fixes nodes :: "('w::len word, 'd) arena"
  assumes wf: "trie_wf nodes" and i: "i < length nodes"
    and p: "l \<le> LENGTH('w)" "mask_prefix p l = p"
    and above: "prefix (node_key (nodes ! i)) (bits p l)"
  shows "(\<exists>r. trie_insert_step cap p l d i nodes = Some (Inr r) \<and> insert_post cap nodes (bits p l) d r) \<or>
    (\<exists>c. trie_insert_step cap p l d i nodes = Some (Inl c) \<and> c < length nodes \<and>
       prefix (node_key (nodes ! c)) (bits p l) \<and> n_prefix_len (nodes ! i) < n_prefix_len (nodes ! c))"
proof (cases "n_prefix_len (nodes ! i) = l")
  case True
  then have k: "node_key (nodes ! i) = bits p l" using above by (simp add: node_key_def prefix_bits_iff)
  then have "n_prefix (nodes ! i) = p"
    using mask_prefix_eq_iff [OF p(1), of "n_prefix (nodes ! i)" p] p(2) trie_wfD(5) [OF wf i] True
    by (simp add: node_key_def)
  then show ?thesis using True replace_data_wf [OF wf i, of d] i k trie_map_nth [OF wf i]
    by (simp add: trie_insert_step_def insert_post_def Let_def)
next
  case False
  let ?b = "bit_at p (n_prefix_len (nodes ! i))"
  have lt: "n_prefix_len (nodes ! i) < l" using prefix_length_le [OF above] False by simp
  have strict: "strict_prefix (node_key (nodes ! i)) (bits p l)"
    using above False by (auto simp: strict_prefix_def dest: arg_cong [where f = length])
  show ?thesis
  proof (cases "node_child (nodes ! i) ?b")
    case None
    then show ?thesis
      using trie_insert_leaf_post [OF wf i p strict None] False lt p(1) i by (simp add: trie_insert_step_def Let_def)
  next
    case (Some ci)
    define c where "c = decode_node_index ci"
    have ch: "child_of nodes i ?b = Some c" using Some by (simp add: child_of_def c_def)
    note cs = trie_wf_child_strict [OF wf i ch]
    let ?m = "common_prefix_len p l (n_prefix (nodes ! c)) (n_prefix_len (nodes ! c))"
    show ?thesis
    proof (cases "?m = n_prefix_len (nodes ! c)")
      case True
      then have "prefix (node_key (nodes ! c)) (bits p l)"
        using common_prefix_len_props(1,3) [of p l "n_prefix (nodes ! c)" "n_prefix_len (nodes ! c)"]
        by (simp add: node_key_def prefix_bits_iff)
      then show ?thesis
        using Some False True lt p(1) i cs prefix_length_less [OF cs(1)]
        by (simp add: trie_insert_step_def Let_def c_def)
    next
      case split: False
      have "prefix (node_key (nodes ! i) @ [?b]) (bits p l)"
        using strict_prefix_bit [OF strict] lt by simp
      then show ?thesis
        using trie_insert_split_post [OF wf i p ch _ refl split] Some False split lt p(1) i cs(3)
        by (simp add: trie_insert_step_def Let_def c_def)
    qed
  qed
qed

lemma trie_insert_loop_spec:
  fixes nodes :: "('w::len word, 'd) arena"
  assumes wf: "trie_wf nodes" and p: "l \<le> LENGTH('w)" "mask_prefix p l = p"
    and "i < length nodes" and "prefix (node_key (nodes ! i)) (bits p l)"
  shows "\<exists>r. trie_insert_loop cap p l d i nodes = Some r \<and> insert_post cap nodes (bits p l) d r"
  using assms(4,5)
proof (induction "l - n_prefix_len (nodes ! i)" arbitrary: i rule: less_induct)
  case less
  from trie_insert_step_spec [OF wf less.prems(1) p less.prems(2), of cap d] show ?case
  proof (elim disjE exE conjE)
    fix r assume "trie_insert_step cap p l d i nodes = Some (Inr r)" "insert_post cap nodes (bits p l) d r"
    then show ?thesis by (subst trie_insert_loop.simps) simp
  next
    fix c assume st: "trie_insert_step cap p l d i nodes = Some (Inl c)"
      and c: "c < length nodes" "prefix (node_key (nodes ! c)) (bits p l)"
        "n_prefix_len (nodes ! i) < n_prefix_len (nodes ! c)"
    have "l - n_prefix_len (nodes ! c) < l - n_prefix_len (nodes ! i)"
      using c(3) prefix_length_le [OF c(2)] by simp
    from less.hyps [OF this c(1,2)] st show ?thesis by (subst trie_insert_loop.simps) simp
  qed
qed

lemma trie_insert_spec:
  fixes nodes :: "('w::len word, 'd) arena"
  assumes "trie_wf nodes" and "l \<le> LENGTH('w)"
  shows "\<exists>r. trie_insert cap p l d nodes = Some r \<and> insert_post cap nodes (bits p l) d r"
  using trie_insert_loop_spec [OF assms, of "mask_prefix p l" 0 cap d] assms trie_wfD(1,3) [OF assms(1)]
  by (simp add: trie_insert_def)

section \<open>The other operations\<close>

lemma trie_new_wf: "trie_wf (trie_new :: ('w::len word, 'd) arena)"
  by (auto simp: trie_wf_def trie_new_def links_ok_def child_of_def mask_prefix_def lessThan_Suc)

lemma trie_new_map: "trie_map trie_new = Map.empty"
  by (auto simp: trie_map_def trie_new_def)

lemma trie_map_remove:
  "trie_map (trie_remove f nodes) k =
     (case trie_map nodes k of Some d \<Rightarrow> if f d then None else Some d | None \<Rightarrow> None)"
proof -
  let ?g = "\<lambda>d. case d of Some d' \<Rightarrow> if f d' then None else Some d' | None \<Rightarrow> None"
  have "map (\<lambda>n. (node_key n, n_data n)) (trie_remove f nodes) =
      map (\<lambda>(k, d). (k, ?g d)) (map (\<lambda>n. (node_key n, n_data n)) nodes)"
    by (auto simp: trie_remove_def split: option.split)
  then have "map_of (map (\<lambda>n. (node_key n, n_data n)) (trie_remove f nodes)) k =
      map_option ?g (map_of (map (\<lambda>n. (node_key n, n_data n)) nodes) k)"
    by (simp only: map_of_map comp_apply)
  then show ?thesis
    by (cases "map_of (map (\<lambda>n. (node_key n, n_data n)) nodes) k") (simp_all add: trie_map_def split: option.split)
qed

lemma trie_remove_wf:
  fixes nodes :: "('w::len word, 'd) arena"
  assumes "trie_wf nodes"
  shows "trie_wf (trie_remove f nodes)"
proof -
  let ?n = "trie_remove f nodes"
  have nth: "node_key (?n ! i) = node_key (nodes ! i)" "child_of ?n i = child_of nodes i"
    if "i < length nodes" for i
    using that by (auto simp: trie_remove_def child_of_def fun_eq_iff split: option.split)
  have l: "length ?n = length nodes" by (simp add: trie_remove_def)
  have "links_ok (length nodes) (\<lambda>i. node_key (nodes ! i)) (child_of nodes)" using assms by (simp add: trie_wf_def)
  then have "links_ok (length ?n) (\<lambda>i. node_key (?n ! i)) (child_of ?n)"
    unfolding l by (rule links_ok_cong) (simp_all add: nth)
  moreover have "\<forall>n\<in>set ?n. n_prefix_len n \<le> LENGTH('w) \<and> mask_prefix (n_prefix n) (n_prefix_len n) = n_prefix n"
    using assms by (auto simp: trie_wf_def trie_remove_def split: option.split)
  ultimately show ?thesis using assms l nth trie_wfD(1) [OF assms] by (simp add: trie_wf_def)
qed

text \<open>The iterator lists the entries of the map, each once.\<close>

lemma set_trie_iter:
  assumes "trie_wf nodes"
  shows "(d, p, l) \<in> set (trie_iter nodes) \<longleftrightarrow>
    (\<exists>i < length nodes. n_data (nodes ! i) = Some d \<and> n_prefix (nodes ! i) = p \<and> n_prefix_len (nodes ! i) = l)"
proof -
  have "(d, p, l) \<in> set (trie_iter nodes) \<longleftrightarrow>
      (\<exists>n\<in>set nodes. n_data n = Some d \<and> n_prefix n = p \<and> n_prefix_len n = l)"
    by (auto simp: trie_iter_def split: option.splits intro!: bexI)
  then show ?thesis by (metis in_set_conv_nth)
qed

lemma prefixes_overlap_bits:
  "prefixes_overlap a la b lb \<longleftrightarrow> prefix (bits a la) (bits b lb) \<or> prefix (bits b lb) (bits a la)"
proof -
  note cp = common_prefix_len_props [of a la b lb]
  show ?thesis
  proof (cases "la \<le> lb")
    case True
    have "common_prefix_len a la b lb = la \<longleftrightarrow> bits a la = bits b la"
      using cp True by (metis nat_less_le nth_bits order_less_le_trans)
    with True show ?thesis by (auto simp: prefixes_overlap_def prefix_bits_iff min_def)
  next
    case False
    have "common_prefix_len a la b lb = lb \<longleftrightarrow> bits a lb = bits b lb"
      using cp False by (metis nat_le_linear nat_less_le nth_bits order_less_le_trans)
    with False show ?thesis by (auto simp: prefixes_overlap_def prefix_bits_iff min_def)
  qed
qed

text \<open>Two prefixes share an address exactly when one covers the other.\<close>

lemma share_address_iff:
  fixes a b :: "'w::len word"
  assumes "la \<le> LENGTH('w)" "lb \<le> LENGTH('w)"
  shows "(\<exists>x :: 'w word. bits x la = bits a la \<and> bits x lb = bits b lb) \<longleftrightarrow>
    prefix (bits a la) (bits b lb) \<or> prefix (bits b lb) (bits a la)"
proof
  assume "\<exists>x :: 'w word. bits x la = bits a la \<and> bits x lb = bits b lb"
  then obtain x :: "'w word" where x: "bits x la = bits a la" "bits x lb = bits b lb" by blast
  then show "prefix (bits a la) (bits b lb) \<or> prefix (bits b lb) (bits a la)"
    by (metis nat_le_linear prefix_bits_iff)
next
  assume "prefix (bits a la) (bits b lb) \<or> prefix (bits b lb) (bits a la)"
  then show "\<exists>x :: 'w word. bits x la = bits a la \<and> bits x lb = bits b lb"
    by (metis prefix_bits_iff)
qed

lemma trie_overlaps_spec:
  fixes nodes :: "('w::len word, 'd) arena" and p :: "'w word"
  assumes "trie_wf nodes" and "l \<le> LENGTH('w)"
  shows "trie_overlaps p l nodes \<longleftrightarrow>
    (\<exists>k d (x :: 'w word). trie_map nodes k = Some d \<and> prefix k (bits x LENGTH('w)) \<and> bits x l = bits p l)"
proof -
  have "trie_overlaps p l nodes \<longleftrightarrow> (\<exists>i d. i < length nodes \<and> n_data (nodes ! i) = Some d \<and>
      prefixes_overlap (mask_prefix p l) l (n_prefix (nodes ! i)) (n_prefix_len (nodes ! i)))"
    using set_trie_iter [OF assms(1)] by (auto simp: trie_overlaps_def list_ex_iff) blast+
  also have "\<dots> \<longleftrightarrow> (\<exists>i d. i < length nodes \<and> n_data (nodes ! i) = Some d \<and>
      (\<exists>x :: 'w word. bits x (n_prefix_len (nodes ! i)) = node_key (nodes ! i) \<and> bits x l = bits p l))"
  proof -
    have "prefixes_overlap (mask_prefix p l) l (n_prefix (nodes ! i)) (n_prefix_len (nodes ! i)) \<longleftrightarrow>
        (\<exists>x :: 'w word. bits x (n_prefix_len (nodes ! i)) = node_key (nodes ! i) \<and> bits x l = bits p l)"
      if "i < length nodes" for i
      using share_address_iff [OF trie_wfD(4) [OF assms(1) that] assms(2), of "n_prefix (nodes ! i)" p] assms(2)
      by (simp add: prefixes_overlap_bits node_key_def disj_commute)
    then show ?thesis by blast
  qed
  also have "\<dots> \<longleftrightarrow> (\<exists>k d (x :: 'w word). trie_map nodes k = Some d \<and> prefix k (bits x LENGTH('w)) \<and> bits x l = bits p l)"
  proof -
    have "bits x (n_prefix_len (nodes ! i)) = node_key (nodes ! i) \<longleftrightarrow> prefix (node_key (nodes ! i)) (bits x LENGTH('w))"
      if "i < length nodes" for i and x :: "'w word"
      using trie_wfD(4) [OF assms(1) that] by (auto simp: node_key_def prefix_bits_iff)
    then show ?thesis unfolding trie_map_Some_iff [OF assms(1)] by blast
  qed
  finally show ?thesis .
qed

end
