(* ===== verification/Ipnet.thy ===== *)
theory Ipnet
  imports Prefix_Trie
begin

text \<open>
  IP networks (\<^verbatim>\<open>ipnet.rs\<close>): construction with its length check, the network
  address, and the binary serialization. Addresses are the integers the standard library
  converts them to. The human-readable form, which goes through the standard library's address
  parser and printer, is in \<^verbatim>\<open>Net_Text\<close>.
\<close>

section \<open>Networks\<close>

datatype IpAddr = AddrV4 u32 | AddrV6 u128

text \<open>Equality of socket addresses compares the flow and scope of an IPv6 address too.\<close>

datatype SocketAddr = SocketV4 u32 u16 | SocketV6 u128 u16 u32 u32

datatype PrefixLenError = PrefixLenError

definition v4_netmask :: "u8 \<Rightarrow> u32" where
  "v4_netmask prefix_len = (if prefix_len = 0 then 0 else push_bit (32 - unat prefix_len) (- 1))"

definition v6_netmask :: "u8 \<Rightarrow> u128" where
  "v6_netmask prefix_len = (if prefix_len = 0 then 0 else push_bit (128 - unat prefix_len) (- 1))"

record Ipv4Net =
  v4_addr :: u32
  v4_prefix_len :: u8

record Ipv6Net =
  v6_addr :: u128
  v6_prefix_len :: u8

definition ipv4net_new :: "u32 \<Rightarrow> u8 \<Rightarrow> PrefixLenError + Ipv4Net" where
  "ipv4net_new a prefix_len =
     (if prefix_len > 32 then Inl PrefixLenError
      else Inr \<lparr>v4_addr = a, v4_prefix_len = prefix_len\<rparr>)"

definition ipv6net_new :: "u128 \<Rightarrow> u8 \<Rightarrow> PrefixLenError + Ipv6Net" where
  "ipv6net_new a prefix_len =
     (if prefix_len > 128 then Inl PrefixLenError
      else Inr \<lparr>v6_addr = a, v6_prefix_len = prefix_len\<rparr>)"

definition ipv4net_network :: "Ipv4Net \<Rightarrow> u32" where
  "ipv4net_network n = v4_addr n AND v4_netmask (v4_prefix_len n)"

definition ipv6net_network :: "Ipv6Net \<Rightarrow> u128" where
  "ipv6net_network n = v6_addr n AND v6_netmask (v6_prefix_len n)"

datatype IpNet = NetV4 Ipv4Net | NetV6 Ipv6Net

definition ipnet_new :: "IpAddr \<Rightarrow> u8 \<Rightarrow> PrefixLenError + IpNet" where
  "ipnet_new a prefix_len =
     (case a of
        AddrV4 x \<Rightarrow> map_sum (\<lambda>e. e) NetV4 (ipv4net_new x prefix_len)
      | AddrV6 x \<Rightarrow> map_sum (\<lambda>e. e) NetV6 (ipv6net_new x prefix_len))"

fun ipnet_addr :: "IpNet \<Rightarrow> IpAddr" where
  "ipnet_addr (NetV4 n) = AddrV4 (v4_addr n)"
| "ipnet_addr (NetV6 n) = AddrV6 (v6_addr n)"

fun ipnet_prefix_len :: "IpNet \<Rightarrow> u8" where
  "ipnet_prefix_len (NetV4 n) = v4_prefix_len n"
| "ipnet_prefix_len (NetV6 n) = v6_prefix_len n"

fun ipnet_network :: "IpNet \<Rightarrow> IpAddr" where
  "ipnet_network (NetV4 n) = AddrV4 (ipv4net_network n)"
| "ipnet_network (NetV6 n) = AddrV6 (ipv6net_network n)"

fun is_ipv4 :: "IpNet \<Rightarrow> bool" where
  "is_ipv4 (NetV4 _) = True" | "is_ipv4 (NetV6 _) = False"

fun is_ipv6 :: "IpNet \<Rightarrow> bool" where
  "is_ipv6 (NetV4 _) = False" | "is_ipv6 (NetV6 _) = True"

section \<open>Binary serialization\<close>

text \<open>The elements a non-human-readable serializer is given, and what the deserializer makes
  of an array of that length.\<close>

definition ipv4net_serialize :: "Ipv4Net \<Rightarrow> bytes" where
  "ipv4net_serialize n = to_be_bytes 4 (v4_addr n) @ [v4_prefix_len n]"

definition ipv4net_deserialize :: "bytes \<Rightarrow> (PrefixLenError + Ipv4Net) option" where
  "ipv4net_deserialize b =
     (if length b = 5 then Some (ipv4net_new (from_be_bytes (slice 0 4 b)) (b ! 4)) else None)"

definition ipv6net_serialize :: "Ipv6Net \<Rightarrow> bytes" where
  "ipv6net_serialize n = to_be_bytes 16 (v6_addr n) @ [v6_prefix_len n]"

definition ipv6net_deserialize :: "bytes \<Rightarrow> (PrefixLenError + Ipv6Net) option" where
  "ipv6net_deserialize b =
     (if length b = 17 then Some (ipv6net_new (from_be_bytes (slice 0 16 b)) (b ! 16)) else None)"

section \<open>Well-formed networks\<close>

text \<open>What the constructors guarantee; the fields are private.\<close>

fun ipnet_wf :: "IpNet \<Rightarrow> bool" where
  "ipnet_wf (NetV4 n) \<longleftrightarrow> v4_prefix_len n \<le> 32"
| "ipnet_wf (NetV6 n) \<longleftrightarrow> v6_prefix_len n \<le> 128"

lemma ipnet_new_wf: "ipnet_new a l = Inr n \<Longrightarrow> ipnet_wf n \<and> ipnet_addr n = a \<and> ipnet_prefix_len n = l"
  by (auto simp: ipnet_new_def ipv4net_new_def ipv6net_new_def split: IpAddr.splits if_splits)

lemma ipnet_new_complete: "ipnet_wf n \<Longrightarrow> ipnet_new (ipnet_addr n) (ipnet_prefix_len n) = Inr n"
  by (cases n) (auto simp: ipnet_new_def ipv4net_new_def ipv6net_new_def)

text \<open>The network address is the address masked to the prefix.\<close>

lemma netmask_mask_prefix:
  fixes a :: "'w::len word"
  assumes "l \<le> LENGTH('w)"
  shows "a AND NOT (mask (LENGTH('w) - l)) = mask_prefix a l"
  using assms
  by (auto intro!: bit_word_eqI simp: bit_mask_prefix bit_and_iff bit_not_iff bit_mask_iff)

lemma ipv4net_network_mask:
  assumes "v4_prefix_len n \<le> 32"
  shows "ipv4net_network n = mask_prefix (v4_addr n) (unat (v4_prefix_len n))"
proof (cases "v4_prefix_len n = 0")
  case False
  then show ?thesis
    using netmask_mask_prefix [where 'w = 32, of "unat (v4_prefix_len n)" "v4_addr n"] assms
    by (simp add: ipv4net_network_def v4_netmask_def word_le_nat_alt)
qed (simp add: ipv4net_network_def v4_netmask_def mask_prefix_def)

lemma ipv6net_network_mask:
  assumes "v6_prefix_len n \<le> 128"
  shows "ipv6net_network n = mask_prefix (v6_addr n) (unat (v6_prefix_len n))"
proof (cases "v6_prefix_len n = 0")
  case False
  then show ?thesis
    using netmask_mask_prefix [where 'w = 128, of "unat (v6_prefix_len n)" "v6_addr n"] assms
    by (simp add: ipv6net_network_def v6_netmask_def word_le_nat_alt)
qed (simp add: ipv6net_network_def v6_netmask_def mask_prefix_def)

text \<open>The addresses of a network.\<close>

fun ipnet_contains :: "IpNet \<Rightarrow> IpAddr \<Rightarrow> bool" where
  "ipnet_contains (NetV4 n) (AddrV4 a) \<longleftrightarrow>
     bits a (unat (v4_prefix_len n)) = bits (v4_addr n) (unat (v4_prefix_len n))"
| "ipnet_contains (NetV6 n) (AddrV6 a) \<longleftrightarrow>
     bits a (unat (v6_prefix_len n)) = bits (v6_addr n) (unat (v6_prefix_len n))"
| "ipnet_contains _ _ \<longleftrightarrow> False"

lemma ipnet_serialize_roundtrip:
  "v4_prefix_len n \<le> 32 \<Longrightarrow> ipv4net_deserialize (ipv4net_serialize n) = Some (Inr n)"
  "v6_prefix_len m \<le> 128 \<Longrightarrow> ipv6net_deserialize (ipv6net_serialize m) = Some (Inr m)"
  by (auto simp: ipv4net_deserialize_def ipv4net_serialize_def ipv4net_new_def
      ipv6net_deserialize_def ipv6net_serialize_def ipv6net_new_def nth_append slice_simps)

end
