(* ===== verification/Ip_Packet.thy ===== *)
theory Ip_Packet
  imports Ipnet
begin

text \<open>
  Reading IP packets (\<^verbatim>\<open>ip_packet.rs\<close>), and the result type and the validation of a
  decapsulated packet of \<^verbatim>\<open>noise/mod.rs\<close> as far as it looks at the packet alone.
\<close>

section \<open>Source and destination\<close>

definition IPV4_MIN_HEADER_SIZE :: nat where "IPV4_MIN_HEADER_SIZE = 20"
definition IPV4_SRC_IP_OFF :: nat where "IPV4_SRC_IP_OFF = 12"
definition IPV4_DST_IP_OFF :: nat where "IPV4_DST_IP_OFF = 16"
definition IPV4_IP_SZ :: nat where "IPV4_IP_SZ = 4"
definition IPV4_IHL_MASK :: u8 where "IPV4_IHL_MASK = 0x0f"
definition IPV6_MIN_HEADER_SIZE :: nat where "IPV6_MIN_HEADER_SIZE = 40"
definition IPV6_SRC_IP_OFF :: nat where "IPV6_SRC_IP_OFF = 8"
definition IPV6_DST_IP_OFF :: nat where "IPV6_DST_IP_OFF = 24"
definition IPV6_IP_SZ :: nat where "IPV6_IP_SZ = 16"
definition IPV4_LEN_OFF :: nat where "IPV4_LEN_OFF = 2"
definition IPV6_LEN_OFF :: nat where "IPV6_LEN_OFF = 4"
definition IP_LEN_SZ :: nat where "IP_LEN_SZ = 2"

lemmas ip_consts =
  IPV4_MIN_HEADER_SIZE_def IPV4_SRC_IP_OFF_def IPV4_DST_IP_OFF_def IPV4_IP_SZ_def IPV4_IHL_MASK_def
  IPV6_MIN_HEADER_SIZE_def IPV6_SRC_IP_OFF_def IPV6_DST_IP_OFF_def IPV6_IP_SZ_def
  IPV4_LEN_OFF_def IPV6_LEN_OFF_def IP_LEN_SZ_def

definition valid_ipv4_header_len :: "bytes \<Rightarrow> nat option" where
  "valid_ipv4_header_len packet =
     (if length packet < IPV4_MIN_HEADER_SIZE then None
      else let header_len = unat (packet ! 0 AND IPV4_IHL_MASK) * 4 in
        if header_len < IPV4_MIN_HEADER_SIZE \<or> length packet < header_len then None else Some header_len)"

definition src_address :: "bytes \<Rightarrow> IpAddr option" where
  "src_address packet =
     (if packet = [] then None
      else if drop_bit 4 (packet ! 0) = 4 \<and> valid_ipv4_header_len packet \<noteq> None then
        Some (AddrV4 (from_be_bytes (slice IPV4_SRC_IP_OFF (IPV4_SRC_IP_OFF + IPV4_IP_SZ) packet)))
      else if drop_bit 4 (packet ! 0) = 6 \<and> length packet \<ge> IPV6_MIN_HEADER_SIZE then
        Some (AddrV6 (from_be_bytes (slice IPV6_SRC_IP_OFF (IPV6_SRC_IP_OFF + IPV6_IP_SZ) packet)))
      else None)"

definition dst_address :: "bytes \<Rightarrow> IpAddr option" where
  "dst_address packet =
     (if packet = [] then None
      else if drop_bit 4 (packet ! 0) = 4 \<and> valid_ipv4_header_len packet \<noteq> None then
        Some (AddrV4 (from_be_bytes (slice IPV4_DST_IP_OFF (IPV4_DST_IP_OFF + IPV4_IP_SZ) packet)))
      else if drop_bit 4 (packet ! 0) = 6 \<and> length packet \<ge> IPV6_MIN_HEADER_SIZE then
        Some (AddrV6 (from_be_bytes (slice IPV6_DST_IP_OFF (IPV6_DST_IP_OFF + IPV6_IP_SZ) packet)))
      else None)"

section \<open>Results of tunnel operations\<close>

datatype TunnResult =
    Done
  | Err WireGuardError
  | WriteToNetwork bytes
  | WriteToInterfaceV4 bytes u32
  | WriteToInterfaceV6 bytes u128

section \<open>Validation\<close>

text \<open>The length the header declares; \<open>None\<close> where the source returns \<^verbatim>\<open>InvalidPacket\<close>.\<close>

definition computed_len :: "bytes \<Rightarrow> nat option" where
  "computed_len packet =
     (if drop_bit 4 (packet ! 0) = 4 then
        if length packet < IPV4_MIN_HEADER_SIZE then None
        else let header_len = unat (packet ! 0 AND IPV4_IHL_MASK) * 4 in
          if header_len < IPV4_MIN_HEADER_SIZE \<or> length packet < header_len then None
          else let total_len = unat (from_be_bytes (slice IPV4_LEN_OFF (IPV4_LEN_OFF + IP_LEN_SZ) packet) :: u16) in
            if total_len < header_len then None else Some total_len
      else if drop_bit 4 (packet ! 0) = 6 then
        if length packet < IPV6_MIN_HEADER_SIZE then None
        else Some (unat (from_be_bytes (slice IPV6_LEN_OFF (IPV6_LEN_OFF + IP_LEN_SZ) packet) :: u16) + IPV6_MIN_HEADER_SIZE)
      else None)"

definition validate_ip_packet :: "bytes \<Rightarrow> TunnResult" where
  "validate_ip_packet packet =
     (if packet = [] then Done
      else case src_address packet of
        None \<Rightarrow> Err InvalidPacket
      | Some src \<Rightarrow>
          (case computed_len packet of
             None \<Rightarrow> Err InvalidPacket
           | Some len \<Rightarrow>
               if len > length packet then Err InvalidPacket
               else case src of
                 AddrV4 a \<Rightarrow> WriteToInterfaceV4 (take len packet) a
               | AddrV6 a \<Rightarrow> WriteToInterfaceV6 (take len packet) a))"

section \<open>Lemmas\<close>

text \<open>The format an IP packet must have to be handed to the interface.\<close>

definition ipv4_format :: "bytes \<Rightarrow> bool" where
  "ipv4_format p \<longleftrightarrow> 20 \<le> length p \<and> drop_bit 4 (p ! 0) = 4 \<and>
     (let ihl = unat (p ! 0 AND 0x0f) * 4 in 20 \<le> ihl \<and> ihl \<le> length p) \<and>
     unat (from_be_bytes (slice 2 4 p) :: u16) = length p"

definition ipv6_format :: "bytes \<Rightarrow> bool" where
  "ipv6_format p \<longleftrightarrow> 40 \<le> length p \<and> drop_bit 4 (p ! 0) = 6 \<and>
     unat (from_be_bytes (slice 4 6 p) :: u16) + 40 = length p"

lemma slice_take: "b \<le> n \<Longrightarrow> slice a b (take n xs) = slice a b xs"
  by (simp add: slice_def drop_take min_def)

lemma drop_bit_4_not_6: "drop_bit 4 (b :: u8) = 4 \<Longrightarrow> drop_bit 4 b \<noteq> 6"
  by simp

lemma computed_len_min:
  "src_address p = Some (AddrV4 a) \<Longrightarrow> computed_len p = Some n \<Longrightarrow> 20 \<le> n"
  "src_address p = Some (AddrV6 b) \<Longrightarrow> computed_len p = Some n \<Longrightarrow> 40 \<le> n"
  by (auto simp: src_address_def computed_len_def ip_consts Let_def split: if_splits)

lemma validate_v4_iff:
  "validate_ip_packet packet = WriteToInterfaceV4 out a \<longleftrightarrow>
     (\<exists>rest. packet = out @ rest) \<and> ipv4_format out \<and> a = from_be_bytes (slice 12 16 out)"
proof
  assume v: "validate_ip_packet packet = WriteToInterfaceV4 out a"
  then obtain n where n: "src_address packet = Some (AddrV4 a)" "computed_len packet = Some n" "n \<le> length packet"
      "out = take n packet"
    by (auto simp: validate_ip_packet_def split: if_splits option.splits IpAddr.splits)
  have "20 \<le> n" by (rule computed_len_min(1) [OF n(1,2)])
  then have o: "out ! 0 = packet ! 0" "slice 2 4 out = slice 2 4 packet" "slice 12 16 out = slice 12 16 packet"
    "length out = n"
    using n(3,4) by (simp_all add: slice_take)
  have "a = from_be_bytes (slice 12 16 packet)" "drop_bit 4 (packet ! 0) = 4"
    using n(1) by (auto simp: src_address_def ip_consts split: if_splits)
  moreover have "ipv4_format out"
    unfolding ipv4_format_def o using n(2) \<open>20 \<le> n\<close> calculation(2)
    by (auto simp: computed_len_def ip_consts Let_def split: if_splits)
  moreover have "packet = out @ drop n packet" using n(4) by simp
  ultimately show "(\<exists>rest. packet = out @ rest) \<and> ipv4_format out \<and> a = from_be_bytes (slice 12 16 out)"
    unfolding o(3) by blast
next
  assume r: "(\<exists>rest. packet = out @ rest) \<and> ipv4_format out \<and> a = from_be_bytes (slice 12 16 out)"
  then obtain rest where p: "packet = out @ rest" by blast
  have len: "20 \<le> length out" using r by (simp add: ipv4_format_def)
  then have o: "packet ! 0 = out ! 0" "slice 2 4 packet = slice 2 4 out" "slice 12 16 packet = slice 12 16 out"
    "packet \<noteq> []" "take (length out) packet = out" "20 \<le> length packet" "length out \<le> length packet"
    by (auto simp: p nth_append slice_append_left)
  have "computed_len packet = Some (length out)"
    using r len o(6,7) unfolding computed_len_def o ipv4_format_def by (auto simp: ip_consts o Let_def)
  moreover have "src_address packet = Some (AddrV4 a)"
    using r len o(6,7) unfolding src_address_def o ipv4_format_def valid_ipv4_header_len_def by (auto simp: ip_consts o Let_def)
  ultimately show "validate_ip_packet packet = WriteToInterfaceV4 out a"
    using o by (simp add: validate_ip_packet_def p)
qed

lemma validate_v6_iff:
  "validate_ip_packet packet = WriteToInterfaceV6 out a \<longleftrightarrow>
     (\<exists>rest. packet = out @ rest) \<and> ipv6_format out \<and> a = from_be_bytes (slice 8 24 out)"
proof
  assume v: "validate_ip_packet packet = WriteToInterfaceV6 out a"
  then obtain n where n: "src_address packet = Some (AddrV6 a)" "computed_len packet = Some n" "n \<le> length packet"
      "out = take n packet"
    by (auto simp: validate_ip_packet_def split: if_splits option.splits IpAddr.splits)
  have "40 \<le> n" by (rule computed_len_min(2) [OF n(1,2)])
  then have o: "out ! 0 = packet ! 0" "slice 4 6 out = slice 4 6 packet" "slice 8 24 out = slice 8 24 packet"
    "length out = n"
    using n(3,4) by (simp_all add: slice_take)
  have "a = from_be_bytes (slice 8 24 packet)" "drop_bit 4 (packet ! 0) = 6"
    using n(1) by (auto simp: src_address_def ip_consts split: if_splits)
  moreover have "ipv6_format out"
    unfolding ipv6_format_def o using n(2) \<open>40 \<le> n\<close> calculation(2)
    by (auto simp: computed_len_def ip_consts Let_def split: if_splits)
  moreover have "packet = out @ drop n packet" using n(4) by simp
  ultimately show "(\<exists>rest. packet = out @ rest) \<and> ipv6_format out \<and> a = from_be_bytes (slice 8 24 out)"
    unfolding o(3) by blast
next
  assume r: "(\<exists>rest. packet = out @ rest) \<and> ipv6_format out \<and> a = from_be_bytes (slice 8 24 out)"
  then obtain rest where p: "packet = out @ rest" by blast
  have len: "40 \<le> length out" using r by (simp add: ipv6_format_def)
  then have o: "packet ! 0 = out ! 0" "slice 4 6 packet = slice 4 6 out" "slice 8 24 packet = slice 8 24 out"
    "packet \<noteq> []" "take (length out) packet = out" "40 \<le> length packet" "length out \<le> length packet"
    by (auto simp: p nth_append slice_append_left)
  have "computed_len packet = Some (length out)"
    using r len o(6,7) unfolding computed_len_def o ipv6_format_def by (auto simp: ip_consts o Let_def)
  moreover have "src_address packet = Some (AddrV6 a)"
    using r len o(6,7) unfolding src_address_def o ipv6_format_def by (auto simp: ip_consts o Let_def)
  ultimately show "validate_ip_packet packet = WriteToInterfaceV6 out a"
    using o by (simp add: validate_ip_packet_def p)
qed

section \<open>Properties\<close>

text \<open>What reaches the interface is exactly what the IP formats allow: the validation returns an IPv4
  (IPv6) packet if and only if the plaintext starts with a packet whose version, header length and
  declared length agree with it, with the source address taken from that packet; whatever padding
  follows is cut off. Only an empty plaintext is a keepalive, and everything else is
  \<open>InvalidPacket\<close>.\<close>

theorem validate_ip_packet_exact:
  "(validate_ip_packet packet = WriteToInterfaceV4 out a4 \<longleftrightarrow>
      (\<exists>rest. packet = out @ rest) \<and> ipv4_format out \<and> a4 = from_be_bytes (slice 12 16 out)) \<and>
   (validate_ip_packet packet = WriteToInterfaceV6 out a6 \<longleftrightarrow>
      (\<exists>rest. packet = out @ rest) \<and> ipv6_format out \<and> a6 = from_be_bytes (slice 8 24 out)) \<and>
   (validate_ip_packet packet = Done \<longleftrightarrow> packet = []) \<and>
   validate_ip_packet packet \<noteq> WriteToNetwork b \<and>
   (validate_ip_packet packet = Err e \<longleftrightarrow> e = InvalidPacket \<and> packet \<noteq> [] \<and>
      (\<nexists>out rest. packet = out @ rest \<and> (ipv4_format out \<or> ipv6_format out)))"
proof (intro conjI)
  let ?v = "validate_ip_packet packet"
  have cases: "?v = Done \<and> packet = [] \<or> packet \<noteq> [] \<and> (?v = Err InvalidPacket \<or> (\<exists>out a. ?v = WriteToInterfaceV4 out a) \<or>
      (\<exists>out a. ?v = WriteToInterfaceV6 out a))"
    by (auto simp: validate_ip_packet_def split: option.splits IpAddr.splits)
  show "?v = Done \<longleftrightarrow> packet = []" "?v \<noteq> WriteToNetwork b" using cases by auto
  have "(\<exists>out rest. packet = out @ rest \<and> (ipv4_format out \<or> ipv6_format out)) \<longleftrightarrow>
      (\<exists>out a. ?v = WriteToInterfaceV4 out a) \<or> (\<exists>out a. ?v = WriteToInterfaceV6 out a)"
    unfolding validate_v4_iff validate_v6_iff by blast
  with cases show "?v = Err e \<longleftrightarrow> e = InvalidPacket \<and> packet \<noteq> [] \<and>
      (\<nexists>out rest. packet = out @ rest \<and> (ipv4_format out \<or> ipv6_format out))"
    by auto
qed (rule validate_v4_iff validate_v6_iff)+

end
