(* ===== verification/Rate_Limiter.thy ===== *)
theory Rate_Limiter
  imports Handshake Ip_Packet
begin

text \<open>
  The handshake rate limiter of \<^verbatim>\<open>noise/rate_limiter.rs\<close>: the first check of every datagram,
  which verifies the MACs of handshake messages and, under load, demands the cookie of the sender's
  address. The atomics are fields of a state that every operation returns updated.
\<close>

section \<open>State and operations\<close>

definition COOKIE_REFRESH :: nat where "COOKIE_REFRESH = 120"
definition COOKIE_SIZE :: nat where "COOKIE_SIZE = 16"
definition COOKIE_NONCE_SIZE :: nat where "COOKIE_NONCE_SIZE = 24"
definition RESET_PERIOD :: nat where "RESET_PERIOD = 1"

record RateLimiter =
  rl_nonce_key :: bytes
  rl_secret_key :: bytes
  rl_start_time :: instant
  rl_nonce_ctr :: u64
  rl_mac1_key :: bytes
  rl_cookie_key :: bytes
  rl_limit :: u64
  rl_count :: u64
  rl_last_reset :: instant

text \<open>\<open>secret\<close> and \<open>nonce_key\<close> are the bytes drawn from the random number generator.\<close>

definition rate_limiter_new :: "crypto \<Rightarrow> instant \<Rightarrow> bytes \<Rightarrow> u64 \<Rightarrow> bytes \<Rightarrow> bytes \<Rightarrow> RateLimiter" where
  "rate_limiter_new C now public limit secret nonce_key =
     \<lparr>rl_nonce_key = nonce_key, rl_secret_key = secret, rl_start_time = now, rl_nonce_ctr = 0,
      rl_mac1_key = b2s_hash C LABEL_MAC1 public, rl_cookie_key = b2s_hash C LABEL_COOKIE public,
      rl_limit = limit, rl_count = 0, rl_last_reset = now\<rparr>"

definition reset_count :: "instant \<Rightarrow> RateLimiter \<Rightarrow> RateLimiter" where
  "reset_count current_time rl =
     (if (current_time - rl_last_reset rl) div SECOND \<ge> RESET_PERIOD
      then rl\<lparr>rl_count := 0, rl_last_reset := current_time\<rparr> else rl)"

fun addr_bytes :: "IpAddr \<Rightarrow> bytes" where
  "addr_bytes (AddrV4 a) = copy_into 0 (to_be_bytes 4 a) (replicate 16 0)"
| "addr_bytes (AddrV6 a) = to_be_bytes 16 a"

definition current_cookie :: "crypto \<Rightarrow> instant \<Rightarrow> IpAddr \<Rightarrow> RateLimiter \<Rightarrow> bytes" where
  "current_cookie C now addr rl =
     (let cur_counter = (of_nat ((now - rl_start_time rl) div SECOND div COOKIE_REFRESH) :: u64)
      in b2s_keyed_mac_16_2 C (rl_secret_key rl) (to_le_bytes 8 cur_counter) (addr_bytes addr))"

definition rl_nonce :: "crypto \<Rightarrow> RateLimiter \<Rightarrow> bytes \<times> RateLimiter" where
  "rl_nonce C rl =
     (let ctr = rl_nonce_ctr rl
      in (b2s_mac_24 C (rl_nonce_key rl) (to_le_bytes 8 ctr), rl\<lparr>rl_nonce_ctr := ctr + 1\<rparr>))"

definition is_under_load :: "RateLimiter \<Rightarrow> bool \<times> RateLimiter" where
  "is_under_load rl = (rl_count rl \<ge> rl_limit rl, rl\<lparr>rl_count := rl_count rl + 1\<rparr>)"

definition format_cookie_reply ::
  "crypto \<Rightarrow> u32 \<Rightarrow> bytes \<Rightarrow> bytes \<Rightarrow> nat \<Rightarrow> RateLimiter \<Rightarrow> (WireGuardError + bytes) \<times> RateLimiter" where
  "format_cookie_reply C idx cookie mac1 dst_len rl =
     (if dst_len < COOKIE_REPLY_SZ then (Inl DestinationBufferTooSmall, rl)
      else let (nonce, rl1) = rl_nonce C rl in
        case xseal C (rl_cookie_key rl1) nonce mac1 cookie of
          None \<Rightarrow> (Inl DestinationBufferTooSmall, rl1)
        | Some (ct, tag) \<Rightarrow> (Inr (to_le_bytes 4 COOKIE_REPLY @ to_le_bytes 4 idx @ nonce @ ct @ tag), rl1))"

definition handshake_sender :: "Packet \<Rightarrow> u32 option" where
  "handshake_sender p = (case p of
     PHandshakeInit q \<Rightarrow> Some (hi_sender_idx q) | PHandshakeResponse q \<Rightarrow> Some (hr_sender_idx q) | _ \<Rightarrow> None)"

text \<open>The checks of a handshake message: \<open>None\<close> lets it through.\<close>

definition verify_macs ::
  "crypto \<Rightarrow> instant \<Rightarrow> IpAddr option \<Rightarrow> bytes \<Rightarrow> nat \<Rightarrow> u32 \<Rightarrow> RateLimiter \<Rightarrow> TunnResult option \<times> RateLimiter" where
  "verify_macs C now src_addr src dst_len sender_idx rl =
     (let msg = take (length src - 32) src; macs = drop (length src - 32) src;
          mac1 = take 16 macs; mac2 = drop 16 macs
      in if b2s_keyed_mac_16 C (rl_mac1_key rl) msg \<noteq> mac1 then (Some (Err InvalidMac), rl)
         else case is_under_load rl of
           (False, rl1) \<Rightarrow> (None, rl1)
         | (True, rl1) \<Rightarrow>
             (case src_addr of
                None \<Rightarrow> (Some (Err UnderLoad), rl1)
              | Some addr \<Rightarrow>
                  (let cookie = current_cookie C now addr rl1 in
                   if b2s_keyed_mac_16_2 C cookie msg mac1 \<noteq> mac2 then
                     (case format_cookie_reply C sender_idx cookie mac1 dst_len rl1 of
                        (Inl e, rl2) \<Rightarrow> (Some (Err e), rl2)
                      | (Inr reply, rl2) \<Rightarrow> (Some (WriteToNetwork reply), rl2))
                   else (None, rl1))))"

definition verify_packet ::
  "crypto \<Rightarrow> instant \<Rightarrow> IpAddr option \<Rightarrow> bytes \<Rightarrow> nat \<Rightarrow> RateLimiter \<Rightarrow> (TunnResult + Packet) \<times> RateLimiter" where
  "verify_packet C now src_addr src dst_len rl =
     (case parse_incoming_packet src of
        Inl e \<Rightarrow> (Inl (Err e), rl)
      | Inr packet \<Rightarrow>
          (case handshake_sender packet of
             None \<Rightarrow> (Inr packet, rl)
           | Some sender_idx \<Rightarrow>
               (case verify_macs C now src_addr src dst_len sender_idx rl of
                  (Some r, rl1) \<Rightarrow> (Inl r, rl1)
                | (None, rl1) \<Rightarrow> (Inr packet, rl1))))"

section \<open>Lemmas\<close>

text \<open>A handshake message as the sender builds it.\<close>

lemma verify_macs_split:
  assumes "length m1 = 16" "length m2 = 16"
  shows "verify_macs C now addr (msg @ m1 @ m2) dst_len idx rl =
    (if b2s_keyed_mac_16 C (rl_mac1_key rl) msg \<noteq> m1 then (Some (Err InvalidMac), rl)
     else let rl1 = rl\<lparr>rl_count := rl_count rl + 1\<rparr> in
       if rl_count rl < rl_limit rl then (None, rl1)
       else case addr of
         None \<Rightarrow> (Some (Err UnderLoad), rl1)
       | Some a \<Rightarrow>
           (if b2s_keyed_mac_16_2 C (current_cookie C now a rl) msg m1 \<noteq> m2 then
              (case format_cookie_reply C idx (current_cookie C now a rl) m1 dst_len rl1 of
                 (Inl e, rl2) \<Rightarrow> (Some (Err e), rl2)
               | (Inr reply, rl2) \<Rightarrow> (Some (WriteToNetwork reply), rl2))
            else (None, rl1)))"
proof -
  have "current_cookie C now a (rl\<lparr>rl_count := c\<rparr>) = current_cookie C now a rl" for a c
    by (simp add: current_cookie_def Let_def)
  moreover have "rl_limit rl \<le> rl_count rl \<longleftrightarrow> \<not> rl_count rl < rl_limit rl" by (simp add: not_less)
  ultimately show ?thesis
    using assms by (simp add: verify_macs_def is_under_load_def Let_def del: not_less split: bool.splits option.splits)
qed

lemma append_macs_eq:
  "append_mac1_and_mac2 C i msg h =
     (msg @ b2s_keyed_mac_16 C (sending_mac1_key (params h)) msg @
        (case write_cookie (cookies h) of
           Some c \<Rightarrow> b2s_keyed_mac_16_2 C c msg (b2s_keyed_mac_16 C (sending_mac1_key (params h)) msg)
         | None \<Rightarrow> replicate 16 0),
      h\<lparr>cookies := (cookies h)\<lparr>ck_index := i, last_mac1 := Some (b2s_keyed_mac_16 C (sending_mac1_key (params h)) msg)\<rparr>\<rparr>)"
  by (simp add: append_mac1_and_mac2_def b2s_keyed_mac_16_def b2s_keyed_mac_16_2_def Let_def split: option.split)

text \<open>The reply to a message with MAC \<open>m1\<close> gives the sender the cookie.\<close>

lemma cookie_reply_received:
  assumes C: "crypto_correct C" and dst: "64 \<le> dst_len" and ck: "length cookie = 16"
    and key: "rl_cookie_key rl = b2s_hash C LABEL_COOKIE (peer_static_public (params h))"
    and h: "last_mac1 (cookies h) = Some m1" "ck_index (cookies h) = idx"
  obtains reply c where "format_cookie_reply C idx cookie m1 dst_len rl = (Inr reply, snd (rl_nonce C rl))"
    "parse_incoming_packet reply = Inr (PCookieReply c)"
    "receive_cookie_reply C c h = Ret (Inr (), h\<lparr>cookies := (cookies h)\<lparr>write_cookie := Some cookie\<rparr>\<rparr>)"
proof -
  obtain nonce rl1 where n: "rl_nonce C rl = (nonce, rl1)" by fastforce
  then have ln: "length nonce = 24" and rl1: "rl_cookie_key rl1 = rl_cookie_key rl"
    using length_mix(8) [OF C] by (auto simp: rl_nonce_def Let_def)
  have lk: "length (rl_cookie_key rl) = 32" using key length_mix(1) [OF C] by simp
  obtain ct tag where x: "xseal C (rl_cookie_key rl) nonce m1 cookie = Some (ct, tag)" "length ct = 16" "length tag = 16"
      "xopen C (rl_cookie_key rl) nonce m1 ct tag = Some cookie"
  proof -
    have "length cookie \<le> aead_max_plaintext" using ck by (simp add: aead_max_plaintext_def)
    with C lk ln obtain ct tag where "xseal C (rl_cookie_key rl) nonce m1 cookie = Some (ct, tag)" "length ct = length cookie"
        "length tag = 16" "xopen C (rl_cookie_key rl) nonce m1 ct tag = Some cookie"
      unfolding crypto_correct_def by blast
    then show ?thesis using ck that by simp
  qed
  define c where "c = \<lparr>cr_receiver_idx = idx, cr_nonce = nonce, cr_encrypted_cookie = ct @ tag\<rparr>"
  show ?thesis
  proof (rule that [of "to_le_bytes 4 COOKIE_REPLY @ to_le_bytes 4 idx @ nonce @ ct @ tag" c])
    show "format_cookie_reply C idx cookie m1 dst_len rl =
        (Inr (to_le_bytes 4 COOKIE_REPLY @ to_le_bytes 4 idx @ nonce @ ct @ tag), snd (rl_nonce C rl))"
      using dst n rl1 x(1) by (simp add: format_cookie_reply_def COOKIE_REPLY_SZ_def)
    show "parse_incoming_packet (to_le_bytes 4 COOKIE_REPLY @ to_le_bytes 4 idx @ nonce @ ct @ tag) = Inr (PCookieReply c)"
      using parse_layout [of "PCookieReply c" "[]"] ln x(2,3) by (simp add: c_def)
    show "receive_cookie_reply C c h = Ret (Inr (), h\<lparr>cookies := (cookies h)\<lparr>write_cookie := Some cookie\<rparr>\<rparr>)"
      using h key lk x by (simp add: receive_cookie_reply_def c_def Let_def)
  qed
qed

lemma initiation_macs:
  assumes C: "crypto_correct C" and f: "format_handshake_initiation C now e dst_len st h = Ret (Inr m, h')"
    and pub: "length (static_public (params h)) = 32"
  obtains p msg m1 m2 where "m = msg @ m1 @ m2" "length m1 = 16" "length m2 = 16"
    "m1 = b2s_keyed_mac_16 C (sending_mac1_key (params h)) msg"
    "m2 = (case write_cookie (cookies h) of Some c \<Rightarrow> b2s_keyed_mac_16_2 C c msg m1 | None \<Rightarrow> replicate 16 0)"
    "parse_incoming_packet m = Inr (PHandshakeInit p)" "last_mac1 (cookies h') = Some m1"
    "ck_index (cookies h') = hi_sender_idx p" "params h' = params h"
proof -
  have dst: "148 \<le> dst_len" using f by (simp add: format_handshake_initiation_def HANDSHAKE_INIT_SZ_def split: if_splits)
  obtain i h1 where al: "allocate_local_index h = (i, h1)" by fastforce
  note hf = allocate_local_index_fields [OF al]
  have mac: "b2s_keyed_mac_16 C c (msg @ m1) = b2s_keyed_mac_16_2 C c msg m1" for c msg m1
    by (simp add: b2s_keyed_mac_16_def b2s_keyed_mac_16_2_def)
  show ?thesis
  proof (rule format_initiation_spec [OF C dst pub al, where eph = e and now = now and st = st])
    fix p msg m1 m2
    assume p: "hi_sender_idx p = i" "packet_wf (PHandshakeInit p) (m1 @ m2)" "length m1 = 16" "length m2 = 16"
      and lay: "packet_layout (PHandshakeInit p) (m1 @ m2) = msg @ m1 @ m2"
      and m: "m1 = b2s_keyed_mac_16 C (sending_mac1_key (params h)) msg"
        "m2 = (case write_cookie (cookies h) of Some c \<Rightarrow> b2s_keyed_mac_16 C c (msg @ m1) | None \<Rightarrow> replicate 16 0)"
      and f': "format_handshake_initiation C now e dst_len st h = Ret (Inr (packet_layout (PHandshakeInit p) (m1 @ m2)),
         h1\<lparr>previous := hs_state h1,
            hs_state := InitSent \<lparr>is_local_index = i, is_hash = ik_final_hash C (peer_static_public (params h)) p,
              is_chaining_key = fst (ik_ss C (public_key C e) (diffie_hellman C e (peer_static_public (params h)))
                (static_shared (params h))), is_ephemeral_private = e, is_time_sent = now\<rparr>,
            cookies := (cookies h)\<lparr>ck_index := i, last_mac1 := Some m1\<rparr>\<rparr>)"
    have eq: "m = msg @ m1 @ m2" "last_mac1 (cookies h') = Some m1" "ck_index (cookies h') = hi_sender_idx p"
        "params h' = params h"
      using f f' lay hf(2) p(1) by auto
    show thesis
      by (rule that [OF eq(1) p(3,4) m(1) m(2) [unfolded mac] _ eq(2-4)]) (use parse_layout [OF p(2)] in \<open>simp only: lay eq(1)\<close>)
  qed
qed

text \<open>The limiter of a device, and a peer that knows the device's public key.\<close>

definition limiter_of :: "crypto \<Rightarrow> bytes \<Rightarrow> RateLimiter \<Rightarrow> bool" where
  "limiter_of C public rl \<longleftrightarrow> rl_mac1_key rl = b2s_hash C LABEL_MAC1 public \<and> rl_cookie_key rl = b2s_hash C LABEL_COOKIE public"

definition knows_key :: "crypto \<Rightarrow> bytes \<Rightarrow> Handshake \<Rightarrow> bool" where
  "knows_key C public h \<longleftrightarrow> peer_static_public (params h) = public \<and>
     sending_mac1_key (params h) = b2s_hash C LABEL_MAC1 public \<and> length (static_public (params h)) = 32"

lemma verify_packet_initiation:
  assumes "parse_incoming_packet (msg @ m1 @ m2) = Inr (PHandshakeInit p)"
  shows "verify_packet C now addr (msg @ m1 @ m2) dst_len rl =
    (case verify_macs C now addr (msg @ m1 @ m2) dst_len (hi_sender_idx p) rl of
       (Some r, rl1) \<Rightarrow> (Inl r, rl1) | (None, rl1) \<Rightarrow> (Inr (PHandshakeInit p), rl1))"
  by (simp add: verify_packet_def handshake_sender_def assms)

text \<open>A datagram whose second MAC is made with the cookie of the address it comes from.\<close>

type_synonym verify_request = "instant \<times> IpAddr option \<times> bytes \<times> nat"

definition has_valid_cookie :: "crypto \<Rightarrow> RateLimiter \<Rightarrow> verify_request \<Rightarrow> bool" where
  "has_valid_cookie C rl req = (case req of (now, addr, src, dst_len) \<Rightarrow>
     (case addr of None \<Rightarrow> False
      | Some a \<Rightarrow> (let msg = take (length src - 32) src; macs = drop (length src - 32) src in
          b2s_keyed_mac_16_2 C (current_cookie C now a rl) msg (take 16 macs) = drop 16 macs)))"

lemma valid_cookie_split:
  assumes "length m1 = 16" "length m2 = 16"
  shows "has_valid_cookie C rl (now, Some a, msg @ m1 @ m2, n) \<longleftrightarrow> b2s_keyed_mac_16_2 C (current_cookie C now a rl) msg m1 = m2"
  using assms by (simp add: has_valid_cookie_def Let_def)

section \<open>Properties\<close>

text \<open>C25. The cookie mechanism lets an honest initiator through. An initiation from an address passes the limiter
  while the load is below the limit or when it carries the cookie of the address; otherwise the limiter
  answers with a cookie reply, which the initiator accepts, and the next initiation it sends passes the
  limiter, whatever its load then, as long as it comes from the same address and within the same
  cookie period.\<close>

theorem cookie_exchange:
  assumes C: "crypto_correct C" and rl: "limiter_of C public rl" and h: "knows_key C public h"
    and init: "format_handshake_initiation C now e dst_len st h = Ret (Inr m, h1)" and dst: "COOKIE_REPLY_SZ \<le> dst_len1"
  shows "\<exists>p. parse_incoming_packet m = Inr (PHandshakeInit p) \<and>
    (if rl_count rl < rl_limit rl \<or> has_valid_cookie C rl (now1, Some addr, m, dst_len1)
     then verify_packet C now1 (Some addr) m dst_len1 rl = (Inr (PHandshakeInit p), rl\<lparr>rl_count := rl_count rl + 1\<rparr>)
     else \<exists>r rl1 c h2. verify_packet C now1 (Some addr) m dst_len1 rl = (Inl (WriteToNetwork r), rl1) \<and>
       parse_incoming_packet r = Inr (PCookieReply c) \<and> receive_cookie_reply C c h1 = Ret (Inr (), h2) \<and>
       (\<forall>now2 e2 dst_len2 st2 m2 h3 now3 dst_len3 rl2.
          format_handshake_initiation C now2 e2 dst_len2 st2 h2 = Ret (Inr m2, h3) \<longrightarrow>
          limiter_of C public rl2 \<longrightarrow> current_cookie C now3 addr rl2 = current_cookie C now1 addr rl \<longrightarrow>
          (\<exists>q. parse_incoming_packet m2 = Inr (PHandshakeInit q) \<and>
             verify_packet C now3 (Some addr) m2 dst_len3 rl2 = (Inr (PHandshakeInit q), rl2\<lparr>rl_count := rl_count rl2 + 1\<rparr>))))"
proof -
  note hk = h [unfolded knows_key_def]
  obtain p msg m1 m2 where m: "m = msg @ m1 @ m2" "length m1 = 16" "length m2 = 16"
      "m1 = b2s_keyed_mac_16 C (sending_mac1_key (params h)) msg"
      "parse_incoming_packet m = Inr (PHandshakeInit p)" "last_mac1 (cookies h1) = Some m1"
      "ck_index (cookies h1) = hi_sender_idx p" "params h1 = params h"
    by (rule initiation_macs [OF C init]) (use hk in auto)
  let ?ck = "current_cookie C now1 addr rl" and ?rl = "rl\<lparr>rl_count := rl_count rl + 1\<rparr>"
  have mac1: "b2s_keyed_mac_16 C (rl_mac1_key rl) msg = m1" using m(4) hk rl by (simp add: limiter_of_def)
  note verify = verify_packet_initiation [OF m(5) [unfolded m(1)]] verify_macs_split [OF m(2,3)]
  show ?thesis
  proof (cases "rl_count rl < rl_limit rl \<or> has_valid_cookie C rl (now1, Some addr, m, dst_len1)")
    case True
    then show ?thesis using m(5) unfolding m(1) valid_cookie_split [OF m(2,3)] by (auto simp: verify mac1 Let_def)
  next
    case False
    have "64 \<le> dst_len1" using dst by (simp add: COOKIE_REPLY_SZ_def)
    moreover have "length ?ck = 16" using length_mix(7) [OF C] by (simp add: current_cookie_def Let_def)
    moreover have "rl_cookie_key ?rl = b2s_hash C LABEL_COOKIE (peer_static_public (params h1))"
      using rl hk m(8) by (simp add: limiter_of_def)
    ultimately obtain r c where c: "format_cookie_reply C (hi_sender_idx p) ?ck m1 dst_len1 ?rl = (Inr r, snd (rl_nonce C ?rl))"
        "parse_incoming_packet r = Inr (PCookieReply c)"
        "receive_cookie_reply C c h1 = Ret (Inr (), h1\<lparr>cookies := (cookies h1)\<lparr>write_cookie := Some ?ck\<rparr>\<rparr>)"
      by (rule cookie_reply_received [OF C _ _ _ m(6,7)])
    have reply: "verify_packet C now1 (Some addr) m dst_len1 rl = (Inl (WriteToNetwork r), snd (rl_nonce C ?rl))"
      using False c(1) unfolding m(1) valid_cookie_split [OF m(2,3)] by (simp add: verify mac1 Let_def)
    let ?h2 = "h1\<lparr>cookies := (cookies h1)\<lparr>write_cookie := Some ?ck\<rparr>\<rparr>"
    have "\<exists>q. parse_incoming_packet m' = Inr (PHandshakeInit q) \<and>
        verify_packet C now3 (Some addr) m' dst_len3 rl2 = (Inr (PHandshakeInit q), rl2\<lparr>rl_count := rl_count rl2 + 1\<rparr>)"
      if init2: "format_handshake_initiation C now2 e2 dst_len2 st2 ?h2 = Ret (Inr m', h3)"
        and rl2: "limiter_of C public rl2" "current_cookie C now3 addr rl2 = ?ck"
      for now2 e2 dst_len2 st2 m' h3 now3 dst_len3 rl2
    proof -
      obtain q msg' n1 n2 where n: "m' = msg' @ n1 @ n2" "length n1 = 16" "length n2 = 16"
          "n1 = b2s_keyed_mac_16 C (sending_mac1_key (params h)) msg'" "n2 = b2s_keyed_mac_16_2 C ?ck msg' n1"
          "parse_incoming_packet m' = Inr (PHandshakeInit q)"
        by (rule initiation_macs [OF C init2]) (use hk m(8) in auto)
      have "b2s_keyed_mac_16 C (rl_mac1_key rl2) msg' = n1" using n(4) hk rl2(1) by (simp add: limiter_of_def)
      then have "verify_macs C now3 (Some addr) (msg' @ n1 @ n2) dst_len3 (hi_sender_idx q) rl2 =
          (None, rl2\<lparr>rl_count := rl_count rl2 + 1\<rparr>)"
        unfolding verify_macs_split [OF n(2,3)] using n(5) rl2(2) by (simp add: Let_def)
      then show ?thesis
        using n(6) unfolding n(1) by (simp add: verify_packet_initiation)
    qed
    with c(2,3) reply have "\<exists>r rl1 c h2. verify_packet C now1 (Some addr) m dst_len1 rl = (Inl (WriteToNetwork r), rl1) \<and>
       parse_incoming_packet r = Inr (PCookieReply c) \<and> receive_cookie_reply C c h1 = Ret (Inr (), h2) \<and>
       (\<forall>now2 e2 dst_len2 st2 m2 h3 now3 dst_len3 rl2.
          format_handshake_initiation C now2 e2 dst_len2 st2 h2 = Ret (Inr m2, h3) \<longrightarrow>
          limiter_of C public rl2 \<longrightarrow> current_cookie C now3 addr rl2 = ?ck \<longrightarrow>
          (\<exists>q. parse_incoming_packet m2 = Inr (PHandshakeInit q) \<and>
             verify_packet C now3 (Some addr) m2 dst_len3 rl2 = (Inr (PHandshakeInit q), rl2\<lparr>rl_count := rl_count rl2 + 1\<rparr>)))" by blast
    with False m(5) show ?thesis by simp
  qed
qed

text \<open>A limiter that lets nothing pass without a cookie.\<close>

lemma sample_initiation:
  obtains m h1 where "format_handshake_initiation sample_crypto 0 [3] 148 (timestamper_new 0 0) sample_initiator = Ret (Inr m, h1)"
proof -
  obtain t where "tai64n_parse (stamp 0 (timestamper_new 0 0)) = Inr t" "tai64n_after t (last_handshake_timestamp sample_responder)"
    using sample_fresh by blast
  then show ?thesis using handshake_runs [OF sample_crypto_correct sample_pair order.refl order.refl, of 0 "timestamper_new 0 0" t "[3]" "[4]" 7] that by blast
qed

definition sample_limiter :: "u64 \<Rightarrow> RateLimiter" where
  "sample_limiter limit = rate_limiter_new sample_crypto 0 (public_key sample_crypto [2]) limit [5] [6]"

lemma sample_limiter_keys: "limiter_of sample_crypto (public_key sample_crypto [2]) (sample_limiter n)"
    "knows_key sample_crypto (public_key sample_crypto [2]) sample_initiator"
  by (simp_all add: limiter_of_def sample_limiter_def rate_limiter_new_def knows_key_def sample_initiator_def handshake_new_def noise_params_new_def
        crypto_correctD(5) [OF sample_crypto_correct])

lemma sample_no_cookie:
  assumes "format_handshake_initiation sample_crypto 0 [3] 148 (timestamper_new 0 0) sample_initiator = Ret (Inr m, h1)"
  shows "\<not> has_valid_cookie sample_crypto (sample_limiter n) (0, Some (AddrV4 7), m, k)"
proof -
  obtain p msg m1 m2 where m: "m = msg @ m1 @ m2" "length m1 = 16" "length m2 = 16"
      "m2 = (case write_cookie (cookies sample_initiator) of Some c \<Rightarrow> b2s_keyed_mac_16_2 sample_crypto c msg m1 | None \<Rightarrow> replicate 16 0)"
    by (rule initiation_macs [OF sample_crypto_correct assms]) (use sample_limiter_keys(2) in \<open>auto simp: knows_key_def\<close>)
  have "m2 = replicate 16 0" using m(4) by (simp add: sample_initiator_def handshake_new_def)
  moreover have "x # xs \<noteq> replicate j 0" if "x \<noteq> 0" for x :: u8 and xs j using that by (cases j) auto
  ultimately have "b2s_keyed_mac_16_2 sample_crypto (current_cookie sample_crypto 0 (AddrV4 7) (sample_limiter n)) msg m1 \<noteq> m2"
    by (simp add: b2s_keyed_mac_16_2_def current_cookie_def sample_crypto_def aead.defs sample_limiter_def rate_limiter_new_def)
  then show ?thesis unfolding m(1) valid_cookie_split [OF m(2,3)] by simp
qed

theorem cookie_exchange_witness:
  "\<exists>m h1 r rl1 c h2.
     format_handshake_initiation sample_crypto 0 [3] 148 (timestamper_new 0 0) sample_initiator = Ret (Inr m, h1) \<and>
     verify_packet sample_crypto 0 (Some (AddrV4 7)) m 64 (sample_limiter 0) = (Inl (WriteToNetwork r), rl1) \<and>
     parse_incoming_packet r = Inr (PCookieReply c) \<and> receive_cookie_reply sample_crypto c h1 = Ret (Inr (), h2)"
proof -
  obtain m h1 where init: "format_handshake_initiation sample_crypto 0 [3] 148 (timestamper_new 0 0) sample_initiator = Ret (Inr m, h1)"
    by (rule sample_initiation)
  have "\<not> (rl_count (sample_limiter 0) < rl_limit (sample_limiter 0) \<or> has_valid_cookie sample_crypto (sample_limiter 0) (0, Some (AddrV4 7), m, 64))"
    using sample_no_cookie [OF init] by (simp add: sample_limiter_def rate_limiter_new_def)
  moreover have "COOKIE_REPLY_SZ \<le> 64" by (simp add: COOKIE_REPLY_SZ_def)
  ultimately show ?thesis using cookie_exchange [OF sample_crypto_correct sample_limiter_keys init, of 64 0 0 "AddrV4 7"] init by auto
qed

text \<open>The requests of one reset period, and the handshake messages among them that got through without
  the cookie of their address.\<close>

fun verify_all :: "crypto \<Rightarrow> verify_request list \<Rightarrow> RateLimiter \<Rightarrow> (TunnResult + Packet) list \<times> RateLimiter" where
  "verify_all C [] rl = ([], rl)"
| "verify_all C ((now, addr, src, dst_len) # reqs) rl =
     (let (r, rl1) = verify_packet C now addr src dst_len rl; (rs, rl2) = verify_all C reqs rl1 in (r # rs, rl2))"

definition passes_freely :: "crypto \<Rightarrow> RateLimiter \<Rightarrow> verify_request \<times> (TunnResult + Packet) \<Rightarrow> bool" where
  "passes_freely C rl = (\<lambda>(req, r). (\<exists>p. r = Inr p \<and> handshake_sender p \<noteq> None) \<and> \<not> has_valid_cookie C rl req)"

lemma verify_packet_keys:
  assumes "verify_packet C now addr src dst_len rl = (r, rl1)"
  shows "rl_limit rl1 = rl_limit rl" "has_valid_cookie C rl1 = has_valid_cookie C rl"
    "rl_count rl1 = rl_count rl \<or> rl_count rl1 = rl_count rl + 1"
proof -
  have vc: "has_valid_cookie C (rl\<lparr>rl_count := c, rl_nonce_ctr := n\<rparr>) = has_valid_cookie C rl" for c n
    by (simp add: has_valid_cookie_def current_cookie_def fun_eq_iff Let_def split: option.split)
  have "rl1 = rl \<or> rl1 = rl\<lparr>rl_count := rl_count rl + 1\<rparr> \<or> (\<exists>n. rl1 = rl\<lparr>rl_count := rl_count rl + 1, rl_nonce_ctr := n\<rparr>)"
    using assms
    by (auto simp: verify_packet_def verify_macs_def is_under_load_def format_cookie_reply_def rl_nonce_def Let_def
        split: sum.splits option.splits if_splits prod.splits bool.splits)
  moreover have "has_valid_cookie C (rl\<lparr>rl_count := c\<rparr>) = has_valid_cookie C rl" for c
    using vc [where c = c and n = "rl_nonce_ctr rl"] by simp
  ultimately show "rl_limit rl1 = rl_limit rl" "has_valid_cookie C rl1 = has_valid_cookie C rl"
      "rl_count rl1 = rl_count rl \<or> rl_count rl1 = rl_count rl + 1"
    using vc by auto
qed

lemma verify_packet_free:
  assumes "verify_packet C now addr src dst_len rl = (r, rl1)" "passes_freely C rl ((now, addr, src, dst_len), r)"
  shows "rl_count rl < rl_limit rl \<and> rl_count rl1 = rl_count rl + 1"
proof -
  have cc: "current_cookie C now a (rl\<lparr>rl_count := c\<rparr>) = current_cookie C now a rl" for a c
    by (simp add: current_cookie_def Let_def)
  show ?thesis
    using assms
    by (auto simp: verify_packet_def verify_macs_def is_under_load_def passes_freely_def has_valid_cookie_def Let_def cc not_le
        split: sum.splits option.splits if_splits prod.splits bool.splits)
qed

lemma verify_all_bound:
  assumes "unat (rl_count rl) + length reqs < 2 ^ 64" "verify_all C reqs rl = (rs, rl1)"
  shows "length (filter (passes_freely C rl) (zip reqs rs)) \<le> unat (rl_limit rl) - unat (rl_count rl)"
  using assms
proof (induction reqs arbitrary: rl rs)
  case (Cons req reqs)
  obtain now addr src dst_len where req: "req = (now, addr, src, dst_len)" by (cases req) auto
  obtain r rlv where v: "verify_packet C now addr src dst_len rl = (r, rlv)" by fastforce
  obtain rs' where rs: "rs = r # rs'" "verify_all C reqs rlv = (rs', rl1)"
    using Cons.prems(2) v by (auto simp: req Let_def split: prod.splits)
  note k = verify_packet_keys [OF v]
  have inc: "unat (rl_count rl + 1) = unat (rl_count rl) + 1" using Cons.prems(1) by (subst unat_plus_nowrap) simp_all
  have pf: "passes_freely C rlv = passes_freely C rl" using k(2) by (simp add: passes_freely_def)
  have "length (filter (passes_freely C rl) (zip reqs rs')) \<le> unat (rl_limit rl) - unat (rl_count rlv)"
    using Cons.IH [of rlv rs'] Cons.prems(1) k rs(2) inc by (auto simp: pf)
  moreover have "unat (rl_count rl) < unat (rl_limit rl) \<and> unat (rl_count rlv) = unat (rl_count rl) + 1"
    if "passes_freely C rl (req, r)"
    using verify_packet_free [OF v that [unfolded req]] inc by (simp add: word_less_nat_alt)
  moreover have "unat (rl_count rl) \<le> unat (rl_count rlv)" using k(3) inc by auto
  ultimately show ?case by (auto simp: rs(1))
qed simp

text \<open>C26. The limit holds: of any sequence of datagrams within a reset period (fewer than \<open>2^64\<close> of them),
  from any addresses, at most \<open>limit\<close> handshake messages get past the limiter without a valid
  cookie.\<close>

theorem rate_limit_bound:
  assumes "rl_count rl = 0" and "length reqs < 2 ^ 64" and "verify_all C reqs rl = (rs, rl1)"
  shows "length (filter (passes_freely C rl) (zip reqs rs)) \<le> unat (rl_limit rl)"
  using verify_all_bound [of rl reqs C rs rl1] assms by simp

text \<open>Two initiations without a cookie and a limit of one: the bound is met by the first.\<close>

theorem rate_limit_bound_witness:
  "\<exists>m rs. rs = fst (verify_all sample_crypto [(0, Some (AddrV4 7), m, 64), (0, Some (AddrV4 7), m, 64)] (sample_limiter 1)) \<and>
     passes_freely sample_crypto (sample_limiter 1) ((0, Some (AddrV4 7), m, 64), hd rs) \<and>
     length (filter (passes_freely sample_crypto (sample_limiter 1)) (zip [(0, Some (AddrV4 7), m, 64), (0, Some (AddrV4 7), m, 64)] rs)) \<le> 1"
proof -
  obtain m h1 where init: "format_handshake_initiation sample_crypto 0 [3] 148 (timestamper_new 0 0) sample_initiator = Ret (Inr m, h1)"
    by (rule sample_initiation)
  let ?reqs = "[(0, Some (AddrV4 7), m, 64), (0, Some (AddrV4 7), m, 64)] :: verify_request list"
  obtain rs rl1 where rs: "verify_all sample_crypto ?reqs (sample_limiter 1) = (rs, rl1)" by fastforce
  obtain p msg m1 m2 where m: "m = msg @ m1 @ m2" "length m1 = 16" "length m2 = 16"
      "m1 = b2s_keyed_mac_16 sample_crypto (sending_mac1_key (params sample_initiator)) msg" "parse_incoming_packet m = Inr (PHandshakeInit p)"
    by (rule initiation_macs [OF sample_crypto_correct init]) (use sample_limiter_keys(2) in \<open>auto simp: knows_key_def\<close>)
  have "b2s_keyed_mac_16 sample_crypto (rl_mac1_key (sample_limiter 1)) msg = m1"
    using m(4) sample_limiter_keys by (simp add: limiter_of_def knows_key_def)
  moreover have "rl_count (sample_limiter 1) < rl_limit (sample_limiter 1)" by (simp add: sample_limiter_def rate_limiter_new_def)
  ultimately have "fst (verify_packet sample_crypto 0 (Some (AddrV4 7)) m 64 (sample_limiter 1)) = Inr (PHandshakeInit p)"
    by (simp add: m(1) verify_packet_initiation [OF m(5) [unfolded m(1)]] verify_macs_split [OF m(2,3)] Let_def)
  then have "hd rs = Inr (PHandshakeInit p)" using rs by (auto simp: Let_def split: prod.splits)
  then have "passes_freely sample_crypto (sample_limiter 1) ((0, Some (AddrV4 7), m, 64), hd rs)"
    using sample_no_cookie [OF init] by (simp add: passes_freely_def handshake_sender_def)
  moreover have "length (filter (passes_freely sample_crypto (sample_limiter 1)) (zip ?reqs rs)) \<le> unat (rl_limit (sample_limiter 1))"
    by (rule rate_limit_bound [OF _ _ rs]) (simp_all add: sample_limiter_def rate_limiter_new_def)
  moreover have "unat (rl_limit (sample_limiter 1)) = 1" by (simp add: sample_limiter_def rate_limiter_new_def)
  ultimately show ?thesis using rs by (intro exI [of _ m] exI [of _ rs]) simp
qed

end
