(* ===== verification/Packet_Pool.thy ===== *)
theory Packet_Pool
  imports Prelude "HOL-Library.Monad_Syntax"
begin

text \<open>
  The packet pool shared by all tunnels (\<^verbatim>\<open>packet_pool.rs\<close>), in both builds: the
  growing slot table of the \<^verbatim>\<open>alloc\<close> feature and the fixed slots over a byte arena
  without it. The clients see a pool through the record of operations \<open>pool_ops\<close>; the locale
  \<open>packet_store\<close> is the contract they rely on, and both builds are interpretations.
  \<open>None\<close> as the result of an operation is a panic.
\<close>

section \<open>Descriptors and limits\<close>

definition MIN_PACKET_POOL_PACKETS :: nat where "MIN_PACKET_POOL_PACKETS = 32"
definition PACKET_POOL_BYTES_PER_DESCRIPTOR :: nat where "PACKET_POOL_BYTES_PER_DESCRIPTOR = 32"
definition MAX_DERIVED_PACKET_POOL_PACKETS :: nat where "MAX_DERIVED_PACKET_POOL_PACKETS = 512"

definition packet_pool_packets_for_bytes :: "nat \<Rightarrow> nat" where
  "packet_pool_packets_for_bytes bytes =
     (let packets = bytes div PACKET_POOL_BYTES_PER_DESCRIPTOR;
          packets = (if packets < MIN_PACKET_POOL_PACKETS then MIN_PACKET_POOL_PACKETS else packets)
      in if packets > MAX_DERIVED_PACKET_POOL_PACKETS then MAX_DERIVED_PACKET_POOL_PACKETS else packets)"

type_synonym handle = nat

text \<open>A queued packet, as the clients see it.\<close>

record queued =
  q_type :: u32
  q_data :: bytes
  q_at :: instant
  q_next :: "handle option"

record 'p pool_ops =
  po_alloc :: "u32 \<Rightarrow> bytes \<Rightarrow> instant \<Rightarrow> 'p \<Rightarrow> (handle option \<times> 'p) option"
  po_queued_at :: "handle \<Rightarrow> 'p \<Rightarrow> instant option"
  po_get :: "handle \<Rightarrow> 'p \<Rightarrow> (u32 \<times> bytes) option"
  po_free :: "handle \<Rightarrow> 'p \<Rightarrow> 'p option"
  po_set_next :: "handle \<Rightarrow> handle option \<Rightarrow> 'p \<Rightarrow> 'p option"
  po_next :: "handle \<Rightarrow> 'p \<Rightarrow> handle option option"
  po_take_next :: "handle \<Rightarrow> 'p \<Rightarrow> (handle option \<times> 'p) option"

section \<open>The pool with allocation\<close>

record heap_slot =
  hs_next :: "handle option"
  hs_queued_at :: instant
  hs_packet_type :: u32
  hs_data :: bytes

record heap_pool =
  hp_slots :: "heap_slot option list"
  hp_free :: "nat list"
  hp_used_bytes :: nat

definition heap_new :: heap_pool where
  "heap_new = \<lparr>hp_slots = [], hp_free = [], hp_used_bytes = 0\<rparr>"

text \<open>The free list is a stack: \<^verbatim>\<open>push\<close> and \<^verbatim>\<open>pop\<close> work at its end.\<close>

definition heap_free_slot :: "nat \<Rightarrow> heap_pool \<Rightarrow> handle option \<times> heap_pool" where
  "heap_free_slot N p =
     (if hp_free p \<noteq> [] then (Some (last (hp_free p)), p\<lparr>hp_free := butlast (hp_free p)\<rparr>)
      else if length (hp_slots p) < N then (Some (length (hp_slots p)), p)
      else (None, p))"

definition heap_alloc ::
  "nat \<Rightarrow> nat \<Rightarrow> u32 \<Rightarrow> bytes \<Rightarrow> instant \<Rightarrow> heap_pool \<Rightarrow> (handle option \<times> heap_pool) option" where
  "heap_alloc N BYTES packet_type packet queued_at p =
     (if length packet > MAX_PACKET_SIZE \<or> hp_used_bytes p + length packet > BYTES then Some (None, p)
      else case heap_free_slot N p of
        (None, p1) \<Rightarrow> Some (None, p1)
      | (Some h, p1) \<Rightarrow>
          (let slot = \<lparr>hs_next = None, hs_queued_at = queued_at, hs_packet_type = packet_type, hs_data = packet\<rparr>
           in if h = length (hp_slots p1) then
                Some (Some h, p1\<lparr>hp_slots := hp_slots p1 @ [Some slot], hp_used_bytes := hp_used_bytes p1 + length packet\<rparr>)
              else if h < length (hp_slots p1) then
                Some (Some h, p1\<lparr>hp_slots := (hp_slots p1)[h := Some slot], hp_used_bytes := hp_used_bytes p1 + length packet\<rparr>)
              else None))"

definition heap_slot_at :: "handle \<Rightarrow> heap_pool \<Rightarrow> heap_slot option" where
  "heap_slot_at h p = (if h < length (hp_slots p) then hp_slots p ! h else None)"

definition heap_queued_at :: "handle \<Rightarrow> heap_pool \<Rightarrow> instant option" where
  "heap_queued_at h p = map_option hs_queued_at (heap_slot_at h p)"

definition heap_get :: "handle \<Rightarrow> heap_pool \<Rightarrow> (u32 \<times> bytes) option" where
  "heap_get h p = map_option (\<lambda>s. (hs_packet_type s, hs_data s)) (heap_slot_at h p)"

definition heap_free :: "handle \<Rightarrow> heap_pool \<Rightarrow> heap_pool option" where
  "heap_free h p = do {
     slot \<leftarrow> heap_slot_at h p;
     if hp_used_bytes p < length (hs_data slot) then None
     else Some (p\<lparr>hp_slots := (hp_slots p)[h := None],
                 hp_used_bytes := hp_used_bytes p - length (hs_data slot),
                 hp_free := hp_free p @ [h]\<rparr>) }"

definition heap_set_next :: "handle \<Rightarrow> handle option \<Rightarrow> heap_pool \<Rightarrow> heap_pool option" where
  "heap_set_next h nx p = do {
     slot \<leftarrow> heap_slot_at h p;
     Some (p\<lparr>hp_slots := (hp_slots p)[h := Some (slot\<lparr>hs_next := nx\<rparr>)]\<rparr>) }"

definition heap_next :: "handle \<Rightarrow> heap_pool \<Rightarrow> handle option option" where
  "heap_next h p = map_option hs_next (heap_slot_at h p)"

definition heap_take_next :: "handle \<Rightarrow> heap_pool \<Rightarrow> (handle option \<times> heap_pool) option" where
  "heap_take_next h p = do {
     slot \<leftarrow> heap_slot_at h p;
     Some (hs_next slot, p\<lparr>hp_slots := (hp_slots p)[h := Some (slot\<lparr>hs_next := None\<rparr>)]\<rparr>) }"

definition heap_ops :: "nat \<Rightarrow> nat \<Rightarrow> heap_pool pool_ops" where
  "heap_ops N BYTES =
     \<lparr>po_alloc = heap_alloc N BYTES, po_queued_at = heap_queued_at, po_get = heap_get, po_free = heap_free,
      po_set_next = heap_set_next, po_next = heap_next, po_take_next = heap_take_next\<rparr>"

section \<open>The pool over a byte arena\<close>

record arena_slot =
  as_next :: "handle option"
  as_offset :: nat
  as_len :: nat
  as_queued_at :: instant
  as_packet_type :: u32
  as_used :: bool

definition arena_slot_new :: arena_slot where
  "arena_slot_new = \<lparr>as_next = None, as_offset = 0, as_len = 0, as_queued_at = 0, as_packet_type = 0, as_used = False\<rparr>"

record arena_pool =
  ap_slots :: "arena_slot list"
  ap_arena :: bytes

definition arena_new :: "nat \<Rightarrow> nat \<Rightarrow> arena_pool" where
  "arena_new N BYTES = \<lparr>ap_slots = replicate N arena_slot_new, ap_arena = replicate BYTES 0\<rparr>"

definition arena_free_slot :: "arena_pool \<Rightarrow> handle option" where
  "arena_free_slot p = List.find (\<lambda>h. \<not> as_used (ap_slots p ! h)) [0..<length (ap_slots p)]"

definition slot_overlaps :: "nat \<Rightarrow> nat \<Rightarrow> arena_slot \<Rightarrow> bool" where
  "slot_overlaps start end' s \<longleftrightarrow> start < as_offset s + as_len s \<and> end' > as_offset s"

function find_gap_from :: "nat \<Rightarrow> nat \<Rightarrow> nat \<Rightarrow> arena_slot list \<Rightarrow> nat option" where
  "find_gap_from start len BYTES slots =
     (let end' = start + len in
      if end' > BYTES then None
      else case List.find (slot_overlaps start end') (filter as_used slots) of
             Some slot \<Rightarrow> find_gap_from (as_offset slot + as_len slot) len BYTES slots
           | None \<Rightarrow> Some start)"
  by pat_completeness auto
termination
  by (relation "measure (\<lambda>(start, len, BYTES, slots). Suc BYTES - start)")
    (auto simp: find_Some_iff slot_overlaps_def)

declare find_gap_from.simps [simp del]

definition find_gap :: "nat \<Rightarrow> arena_pool \<Rightarrow> nat option" where
  "find_gap len p = find_gap_from 0 len (length (ap_arena p)) (ap_slots p)"

definition arena_alloc :: "u32 \<Rightarrow> bytes \<Rightarrow> instant \<Rightarrow> arena_pool \<Rightarrow> (handle option \<times> arena_pool) option" where
  "arena_alloc packet_type packet queued_at p =
     (if length packet > MAX_PACKET_SIZE \<or> length packet > length (ap_arena p) then Some (None, p)
      else case arena_free_slot p of
        None \<Rightarrow> Some (None, p)
      | Some h \<Rightarrow>
          (case find_gap (length packet) p of
             None \<Rightarrow> Some (None, p)
           | Some offset \<Rightarrow>
               Some (Some h,
                 p\<lparr>ap_arena := copy_into offset packet (ap_arena p),
                   ap_slots := (ap_slots p)[h := \<lparr>as_next = None, as_offset = offset, as_len = length packet,
                     as_queued_at = queued_at, as_packet_type = packet_type, as_used = True\<rparr>]\<rparr>)))"

definition arena_slot_at :: "handle \<Rightarrow> arena_pool \<Rightarrow> arena_slot option" where
  "arena_slot_at h p = (if h < length (ap_slots p) then Some (ap_slots p ! h) else None)"

definition arena_queued_at :: "handle \<Rightarrow> arena_pool \<Rightarrow> instant option" where
  "arena_queued_at h p = map_option as_queued_at (arena_slot_at h p)"

definition arena_get :: "handle \<Rightarrow> arena_pool \<Rightarrow> (u32 \<times> bytes) option" where
  "arena_get h p = do {
     s \<leftarrow> arena_slot_at h p;
     if as_offset s + as_len s > length (ap_arena p) then None
     else Some (as_packet_type s, slice (as_offset s) (as_offset s + as_len s) (ap_arena p)) }"

definition arena_free :: "handle \<Rightarrow> arena_pool \<Rightarrow> arena_pool option" where
  "arena_free h p = do {
     s \<leftarrow> arena_slot_at h p;
     Some (p\<lparr>ap_slots := (ap_slots p)[h := s\<lparr>as_next := None, as_offset := 0, as_len := 0, as_used := False\<rparr>]\<rparr>) }"

definition arena_set_next :: "handle \<Rightarrow> handle option \<Rightarrow> arena_pool \<Rightarrow> arena_pool option" where
  "arena_set_next h nx p = do {
     s \<leftarrow> arena_slot_at h p;
     Some (p\<lparr>ap_slots := (ap_slots p)[h := s\<lparr>as_next := nx\<rparr>]\<rparr>) }"

definition arena_next :: "handle \<Rightarrow> arena_pool \<Rightarrow> handle option option" where
  "arena_next h p = map_option as_next (arena_slot_at h p)"

definition arena_take_next :: "handle \<Rightarrow> arena_pool \<Rightarrow> (handle option \<times> arena_pool) option" where
  "arena_take_next h p = do {
     s \<leftarrow> arena_slot_at h p;
     Some (as_next s, p\<lparr>ap_slots := (ap_slots p)[h := s\<lparr>as_next := None\<rparr>]\<rparr>) }"

definition arena_ops :: "arena_pool pool_ops" where
  "arena_ops =
     \<lparr>po_alloc = arena_alloc, po_queued_at = arena_queued_at, po_get = arena_get, po_free = arena_free,
      po_set_next = arena_set_next, po_next = arena_next, po_take_next = arena_take_next\<rparr>"

section \<open>Freeing a chain\<close>

text \<open>The same loop in both builds. \<open>None\<close>: a panic, or a cyclic chain.\<close>

partial_function (option) free_chain :: "'p pool_ops \<Rightarrow> handle option \<Rightarrow> 'p \<Rightarrow> 'p option" where
  "free_chain P head p =
     (case head of
        None \<Rightarrow> Some p
      | Some h \<Rightarrow>
          Option.bind (po_take_next P h p) (\<lambda>(nx, p1).
          Option.bind (po_free P h p1) (\<lambda>p2.
          free_chain P nx p2)))"

section \<open>The contract\<close>

text \<open>\<open>view\<close> is the live packets by handle. An allocation succeeds exactly when there is \<open>room\<close> for the bytes and
  returns a handle that was not live; every operation on a live handle succeeds and changes that handle only.\<close>

locale packet_store =
  fixes P :: "'p pool_ops" and pinv :: "'p \<Rightarrow> bool" and view :: "'p \<Rightarrow> handle \<Rightarrow> queued option" and room :: "nat \<Rightarrow> 'p \<Rightarrow> bool"
  assumes alloc_law: "pinv p \<Longrightarrow> \<exists>r p'. po_alloc P ty d now p = Some (r, p') \<and> pinv p' \<and>
      (case r of
         None \<Rightarrow> \<not> room (length d) p \<and> p' = p
       | Some h \<Rightarrow> room (length d) p \<and> view p h = None \<and>
           view p' = (view p)(h \<mapsto> \<lparr>q_type = ty, q_data = d, q_at = now, q_next = None\<rparr>))"
    and queued_at_law: "pinv p \<Longrightarrow> view p h = Some q \<Longrightarrow> po_queued_at P h p = Some (q_at q)"
    and get_law: "pinv p \<Longrightarrow> view p h = Some q \<Longrightarrow> po_get P h p = Some (q_type q, q_data q)"
    and free_law: "pinv p \<Longrightarrow> view p h = Some q \<Longrightarrow>
      \<exists>p'. po_free P h p = Some p' \<and> pinv p' \<and> view p' = (view p)(h := None)"
    and set_next_law: "pinv p \<Longrightarrow> view p h = Some q \<Longrightarrow>
      \<exists>p'. po_set_next P h nx p = Some p' \<and> pinv p' \<and> view p' = (view p)(h \<mapsto> q\<lparr>q_next := nx\<rparr>)"
    and next_law: "pinv p \<Longrightarrow> view p h = Some q \<Longrightarrow> po_next P h p = Some (q_next q)"
    and take_next_law: "pinv p \<Longrightarrow> view p h = Some q \<Longrightarrow>
      \<exists>p'. po_take_next P h p = Some (q_next q, p') \<and> pinv p' \<and> view p' = (view p)(h \<mapsto> q\<lparr>q_next := None\<rparr>)"

section \<open>The pool with allocation meets the contract\<close>

definition slot_bytes :: "heap_slot option \<Rightarrow> nat" where
  "slot_bytes s = (case s of None \<Rightarrow> 0 | Some s \<Rightarrow> length (hs_data s))"

definition heap_inv :: "nat \<Rightarrow> nat \<Rightarrow> heap_pool \<Rightarrow> bool" where
  "heap_inv N BYTES p \<longleftrightarrow>
     length (hp_slots p) \<le> N \<and> hp_used_bytes p \<le> BYTES \<and>
     hp_used_bytes p = sum_list (map slot_bytes (hp_slots p)) \<and>
     distinct (hp_free p) \<and> set (hp_free p) = {h. h < length (hp_slots p) \<and> hp_slots p ! h = None}"

definition heap_view :: "heap_pool \<Rightarrow> handle \<Rightarrow> queued option" where
  "heap_view p h = map_option (\<lambda>s. \<lparr>q_type = hs_packet_type s, q_data = hs_data s, q_at = hs_queued_at s, q_next = hs_next s\<rparr>)
     (heap_slot_at h p)"

lemma heap_inv_new: "heap_inv N BYTES heap_new"
  by (simp add: heap_inv_def heap_new_def)

lemma heap_view_live:
  assumes "heap_view p h = Some q"
  obtains s where "h < length (hp_slots p)" "hp_slots p ! h = Some s" "heap_slot_at h p = Some s"
    "q = \<lparr>q_type = hs_packet_type s, q_data = hs_data s, q_at = hs_queued_at s, q_next = hs_next s\<rparr>"
  using assms by (auto simp: heap_view_def heap_slot_at_def split: if_splits)

lemma heap_view_update:
  assumes "h < length (hp_slots p)"
  shows "heap_view (p\<lparr>hp_slots := (hp_slots p)[h := s]\<rparr>) = (heap_view p)(h :=
    map_option (\<lambda>s. \<lparr>q_type = hs_packet_type s, q_data = hs_data s, q_at = hs_queued_at s, q_next = hs_next s\<rparr>) s)"
  using assms by (auto simp: fun_eq_iff heap_view_def heap_slot_at_def nth_list_update)

lemma heap_view_frame [simp]:
  "heap_view (p\<lparr>hp_used_bytes := u\<rparr>) = heap_view p" "heap_view (p\<lparr>hp_free := f\<rparr>) = heap_view p"
  by (simp_all add: fun_eq_iff heap_view_def heap_slot_at_def)

lemma sum_slot_bytes_update:
  assumes "h < length xs"
  shows "sum_list (map slot_bytes (xs[h := s])) + slot_bytes (xs ! h) = sum_list (map slot_bytes xs) + slot_bytes s"
  using assms
proof (induction xs arbitrary: h)
  case (Cons x xs)
  then show ?case by (cases h) auto
qed simp

text \<open>There is room for a packet as long as a handle and enough bytes are left.\<close>

definition heap_room :: "nat \<Rightarrow> nat \<Rightarrow> nat \<Rightarrow> (handle \<Rightarrow> queued option) \<Rightarrow> bool" where
  "heap_room N BYTES n v \<longleftrightarrow> n \<le> MAX_PACKET_SIZE \<and> card (dom v) < N \<and> (\<Sum>h \<in> dom v. length (q_data (the (v h)))) + n \<le> BYTES"

lemma heap_view_dom: "dom (heap_view p) = {h. h < length (hp_slots p) \<and> hp_slots p ! h \<noteq> None}"
  by (auto simp: heap_view_def heap_slot_at_def split: if_splits)

lemma heap_bytes:
  assumes "heap_inv N BYTES p"
  shows "(\<Sum>h \<in> dom (heap_view p). length (q_data (the (heap_view p h)))) = hp_used_bytes p"
proof -
  have "hp_used_bytes p = (\<Sum>h < length (hp_slots p). slot_bytes (hp_slots p ! h))"
    using assms by (simp add: heap_inv_def sum_list_sum_nth atLeast0LessThan)
  also have "\<dots> = (\<Sum>h \<in> dom (heap_view p). slot_bytes (hp_slots p ! h))"
    by (rule sum.mono_neutral_right) (auto simp: heap_view_dom slot_bytes_def)
  also have "\<dots> = (\<Sum>h \<in> dom (heap_view p). length (q_data (the (heap_view p h))))"
    by (rule sum.cong) (auto simp: heap_view_def heap_slot_at_def slot_bytes_def split: option.split if_splits)
  finally show ?thesis by simp
qed

lemma heap_slots:
  assumes "heap_inv N BYTES p"
  shows "card (dom (heap_view p)) < N \<longleftrightarrow> hp_free p \<noteq> [] \<or> length (hp_slots p) < N"
proof -
  have f: "set (hp_free p) = {h. h < length (hp_slots p) \<and> hp_slots p ! h = None}" and
    free: "distinct (hp_free p)" "length (hp_slots p) \<le> N" using assms by (simp_all add: heap_inv_def)
  have un: "set (hp_free p) \<union> dom (heap_view p) = {..<length (hp_slots p)}" "set (hp_free p) \<inter> dom (heap_view p) = {}"
    unfolding f heap_view_dom by auto
  have "finite (set (hp_free p) \<union> dom (heap_view p))" unfolding un(1) by simp
  then have "finite (dom (heap_view p))" by simp
  from card_Un_disjoint [OF _ this un(2)] have "length (hp_free p) + card (dom (heap_view p)) = length (hp_slots p)"
    unfolding un(1) by (simp add: distinct_card [OF free(1)])
  then show ?thesis using free(2) by (cases "hp_free p") auto
qed

lemma heap_room_iff:
  assumes "heap_inv N BYTES p"
  shows "heap_room N BYTES n (heap_view p) \<longleftrightarrow> \<not> (n > MAX_PACKET_SIZE \<or> hp_used_bytes p + n > BYTES \<or> (hp_free p = [] \<and> \<not> length (hp_slots p) < N))"
  unfolding heap_room_def heap_bytes [OF assms] heap_slots [OF assms] by auto

lemma heap_alloc_law:
  assumes "heap_inv N BYTES p"
  shows "\<exists>r p'. heap_alloc N BYTES ty d now p = Some (r, p') \<and> heap_inv N BYTES p' \<and>
    (case r of
       None \<Rightarrow> \<not> heap_room N BYTES (length d) (heap_view p) \<and> p' = p
     | Some h \<Rightarrow> heap_room N BYTES (length d) (heap_view p) \<and> heap_view p h = None \<and>
         heap_view p' = (heap_view p)(h \<mapsto> \<lparr>q_type = ty, q_data = d, q_at = now, q_next = None\<rparr>))"
proof -
  note room = heap_room_iff [OF assms, of "length d"]
  let ?s = "\<lparr>hs_next = None, hs_queued_at = now, hs_packet_type = ty, hs_data = d\<rparr>"
  consider (refused) "length d > MAX_PACKET_SIZE \<or> hp_used_bytes p + length d > BYTES \<or>
      (hp_free p = [] \<and> \<not> length (hp_slots p) < N)"
    | (grow) "\<not> (length d > MAX_PACKET_SIZE \<or> hp_used_bytes p + length d > BYTES)" "hp_free p = []" "length (hp_slots p) < N"
    | (reuse) h fs where "\<not> (length d > MAX_PACKET_SIZE \<or> hp_used_bytes p + length d > BYTES)" "hp_free p = fs @ [h]"
    by (metis rev_exhaust)
  then show ?thesis
  proof cases
    case refused
    then show ?thesis using assms by (auto simp: heap_alloc_def heap_free_slot_def room)
  next
    case grow
    let ?p = "p\<lparr>hp_slots := hp_slots p @ [Some ?s], hp_used_bytes := hp_used_bytes p + length d\<rparr>"
    have "heap_inv N BYTES ?p"
      using assms grow by (auto simp: heap_inv_def slot_bytes_def nth_append less_Suc_eq)
    moreover have "heap_view p (length (hp_slots p)) = None" by (simp add: heap_view_def heap_slot_at_def)
    moreover have "heap_view ?p = (heap_view p)(length (hp_slots p) \<mapsto> \<lparr>q_type = ty, q_data = d, q_at = now, q_next = None\<rparr>)"
      by (auto simp: fun_eq_iff heap_view_def heap_slot_at_def nth_append)
    ultimately show ?thesis using grow by (simp add: heap_alloc_def heap_free_slot_def room)
  next
    case reuse
    have h: "h < length (hp_slots p)" "hp_slots p ! h = None" "distinct (fs @ [h])"
        "set (fs @ [h]) = {h. h < length (hp_slots p) \<and> hp_slots p ! h = None}"
      using assms reuse by (auto simp: heap_inv_def)
    let ?p = "p\<lparr>hp_free := fs, hp_slots := (hp_slots p)[h := Some ?s], hp_used_bytes := hp_used_bytes p + length d\<rparr>"
    have "sum_list (map slot_bytes ((hp_slots p)[h := Some ?s])) = sum_list (map slot_bytes (hp_slots p)) + length d"
      using sum_slot_bytes_update [OF h(1), of "Some ?s"] h(2) by (simp add: slot_bytes_def)
    moreover have "set fs = {k. k < length (hp_slots p) \<and> (hp_slots p)[h := Some ?s] ! k = None}"
    proof -
      have "set fs = set (fs @ [h]) - {h}" using h(3) by auto
      then show ?thesis unfolding h(4) using h(1) by (auto simp: nth_list_update)
    qed
    ultimately have "heap_inv N BYTES ?p" using assms reuse(1) h(3) by (simp add: heap_inv_def)
    moreover have "heap_view p h = None" using h by (simp add: heap_view_def heap_slot_at_def)
    moreover have "heap_view ?p = (heap_view p)(h \<mapsto> \<lparr>q_type = ty, q_data = d, q_at = now, q_next = None\<rparr>)"
      using h(1) by (auto simp: fun_eq_iff heap_view_def heap_slot_at_def nth_list_update)
    ultimately show ?thesis using reuse h(1) by (simp add: heap_alloc_def heap_free_slot_def room)
  qed
qed

lemma heap_inv_relink:
  assumes "heap_inv N BYTES p" "h < length (hp_slots p)" "hp_slots p ! h = Some s"
  shows "heap_inv N BYTES (p\<lparr>hp_slots := (hp_slots p)[h := Some (s\<lparr>hs_next := nx\<rparr>)]\<rparr>)"
proof -
  have "{k. k < length (hp_slots p) \<and> (hp_slots p)[h := Some (s\<lparr>hs_next := nx\<rparr>)] ! k = None} =
      {k. k < length (hp_slots p) \<and> hp_slots p ! k = None}"
    using assms(2,3) by (auto simp: nth_list_update split: if_splits)
  then show ?thesis
    using assms(1,3) sum_slot_bytes_update [OF assms(2), of "Some (s\<lparr>hs_next := nx\<rparr>)"]
    by (simp add: heap_inv_def slot_bytes_def)
qed

lemma heap_free_law:
  assumes "heap_inv N BYTES p" "heap_view p h = Some q"
  shows "\<exists>p'. heap_free h p = Some p' \<and> heap_inv N BYTES p' \<and> heap_view p' = (heap_view p)(h := None)"
proof -
  from assms(2) obtain s where s: "h < length (hp_slots p)" "hp_slots p ! h = Some s" "heap_slot_at h p = Some s"
    by (rule heap_view_live)
  have sum: "sum_list (map slot_bytes ((hp_slots p)[h := None])) + length (hs_data s) = hp_used_bytes p"
    using sum_slot_bytes_update [OF s(1), of None] s(2) assms(1) by (simp add: slot_bytes_def heap_inv_def)
  let ?p = "p\<lparr>hp_slots := (hp_slots p)[h := None], hp_used_bytes := hp_used_bytes p - length (hs_data s), hp_free := hp_free p @ [h]\<rparr>"
  have "heap_free h p = Some ?p" using s(3) sum by (simp add: heap_free_def)
  moreover have "heap_inv N BYTES ?p"
  proof -
    have f: "set (hp_free p) = {k. k < length (hp_slots p) \<and> hp_slots p ! k = None}" "distinct (hp_free p)"
      using assms(1) by (simp_all add: heap_inv_def)
    have "insert h (set (hp_free p)) = {k. k < length (hp_slots p) \<and> (hp_slots p)[h := None] ! k = None}"
      unfolding f using s(1) by (auto simp: nth_list_update)
    moreover have "h \<notin> set (hp_free p)" unfolding f using s(2) by simp
    moreover have "sum_list (map slot_bytes ((hp_slots p)[h := None])) = hp_used_bytes p - length (hs_data s)"
      using sum by simp
    moreover have "hp_used_bytes p - length (hs_data s) \<le> BYTES"
      using assms(1) by (simp add: heap_inv_def le_diff_conv trans_le_add1)
    ultimately show ?thesis using assms(1) f(2) by (simp add: heap_inv_def)
  qed
  moreover have "heap_view ?p = (heap_view p)(h := None)"
    using s(1) by (auto simp: fun_eq_iff heap_view_def heap_slot_at_def nth_list_update)
  ultimately show ?thesis by blast
qed

interpretation heap: packet_store "heap_ops N BYTES" "heap_inv N BYTES" heap_view "\<lambda>n p. heap_room N BYTES n (heap_view p)"
proof
  fix p h q nx assume a: "heap_inv N BYTES p" "heap_view p h = Some q"
  from a(2) obtain s where s: "h < length (hp_slots p)" "hp_slots p ! h = Some s" "heap_slot_at h p = Some s"
    "q = \<lparr>q_type = hs_packet_type s, q_data = hs_data s, q_at = hs_queued_at s, q_next = hs_next s\<rparr>"
    by (rule heap_view_live)
  show "\<exists>p'. po_set_next (heap_ops N BYTES) h nx p = Some p' \<and> heap_inv N BYTES p' \<and> heap_view p' = (heap_view p)(h \<mapsto> q\<lparr>q_next := nx\<rparr>)"
    using s heap_inv_relink [OF a(1) s(1,2)] by (simp add: heap_ops_def heap_set_next_def heap_view_update)
  show "\<exists>p'. po_take_next (heap_ops N BYTES) h p = Some (q_next q, p') \<and> heap_inv N BYTES p' \<and> heap_view p' = (heap_view p)(h \<mapsto> q\<lparr>q_next := None\<rparr>)"
    using s heap_inv_relink [OF a(1) s(1,2)] by (simp add: heap_ops_def heap_take_next_def heap_view_update)
qed (auto simp: heap_ops_def heap_alloc_law heap_free_law heap_queued_at_def heap_get_def heap_next_def elim!: heap_view_live)

section \<open>First fit\<close>

definition fits :: "nat \<Rightarrow> nat \<Rightarrow> nat \<Rightarrow> arena_slot list \<Rightarrow> bool" where
  "fits start len BYTES slots \<longleftrightarrow>
     start + len \<le> BYTES \<and> (\<forall>s\<in>set slots. as_used s \<longrightarrow> \<not> slot_overlaps start (start + len) s)"

lemma find_gap_from_first_fit:
  assumes "\<And>k. k < start \<Longrightarrow> \<not> fits k len BYTES slots"
  shows "find_gap_from start len BYTES slots = Some r \<longleftrightarrow>
    fits r len BYTES slots \<and> (\<forall>k < r. \<not> fits k len BYTES slots)"
  using assms
proof (induction start len BYTES slots rule: find_gap_from.induct)
  case (1 start len BYTES slots)
  let ?find = "List.find (slot_overlaps start (start + len)) (filter as_used slots)"
  consider (past) "start + len > BYTES" | (gap) "start + len \<le> BYTES" "?find = None"
    | (skip) s where "start + len \<le> BYTES" "?find = Some s" by fastforce
  then show ?case
  proof cases
    case past
    then have "\<not> fits k len BYTES slots" for k
      using "1.prems" [of k] by (cases "k < start") (auto simp: fits_def)
    then show ?thesis using past by (simp add: find_gap_from.simps [of start])
  next
    case gap
    then have "fits start len BYTES slots" by (auto simp: fits_def find_None_iff)
    then show ?thesis
      using gap "1.prems" by (auto simp: find_gap_from.simps [of start]) (metis linorder_neqE_nat)+
  next
    case skip
    then have s: "s \<in> set slots" "as_used s" "slot_overlaps start (start + len) s"
      by (auto simp: find_Some_iff dest: nth_mem)
    have "\<not> fits k len BYTES slots" if "k < as_offset s + as_len s" for k
    proof (cases "k < start")
      case False
      then have "slot_overlaps k (k + len) s" using s(3) that by (auto simp: slot_overlaps_def)
      then show ?thesis using s by (auto simp: fits_def)
    qed (use "1.prems" in simp)
    then show ?thesis
      using "1.IH" [OF refl _ skip(2)] skip by (simp add: find_gap_from.simps [of start])
  qed
qed

lemma find_gap_first_fit:
  "find_gap len p = Some r \<longleftrightarrow>
     fits r len (length (ap_arena p)) (ap_slots p) \<and>
     (\<forall>k < r. \<not> fits k len (length (ap_arena p)) (ap_slots p))"
  unfolding find_gap_def by (rule find_gap_from_first_fit) simp

text \<open>The gap search of the fixed arena is first fit and complete: it returns the lowest offset at which
  the packet overlaps no live packet, and reports failure only when there is none.\<close>

theorem find_gap_exact:
  "find_gap len p = (if \<exists>r. fits r len (length (ap_arena p)) (ap_slots p)
     then Some (LEAST r. fits r len (length (ap_arena p)) (ap_slots p)) else None)"
proof (cases "\<exists>r. fits r len (length (ap_arena p)) (ap_slots p)")
  case True
  let ?l = "LEAST r. fits r len (length (ap_arena p)) (ap_slots p)"
  have "fits ?l len (length (ap_arena p)) (ap_slots p)" using True by (rule LeastI_ex)
  then have "find_gap len p = Some ?l" using not_less_Least by (auto simp: find_gap_first_fit)
  with True show ?thesis by simp
next
  case False
  then have "find_gap len p \<noteq> Some r" for r by (simp add: find_gap_first_fit)
  then have "find_gap len p = None" by (metis option.exhaust)
  with False show ?thesis by simp
qed

section \<open>The pool over a byte arena meets the contract\<close>

definition slot_range :: "arena_slot \<Rightarrow> nat set" where
  "slot_range s = {as_offset s ..< as_offset s + as_len s}"

text \<open>Live slots lie in the arena and do not share bytes.\<close>

definition arena_inv :: "arena_pool \<Rightarrow> bool" where
  "arena_inv p \<longleftrightarrow>
     (\<forall>h < length (ap_slots p). as_used (ap_slots p ! h) \<longrightarrow>
        as_offset (ap_slots p ! h) + as_len (ap_slots p ! h) \<le> length (ap_arena p)) \<and>
     (\<forall>h < length (ap_slots p). \<forall>k < length (ap_slots p). h \<noteq> k \<longrightarrow>
        as_used (ap_slots p ! h) \<longrightarrow> as_used (ap_slots p ! k) \<longrightarrow>
        slot_range (ap_slots p ! h) \<inter> slot_range (ap_slots p ! k) = {})"

definition slot_view :: "bytes \<Rightarrow> arena_slot \<Rightarrow> queued option" where
  "slot_view a s =
     (if as_used s
      then Some \<lparr>q_type = as_packet_type s, q_data = slice (as_offset s) (as_offset s + as_len s) a,
                 q_at = as_queued_at s, q_next = as_next s\<rparr>
      else None)"

definition arena_view :: "arena_pool \<Rightarrow> handle \<Rightarrow> queued option" where
  "arena_view p h = (if h < length (ap_slots p) then slot_view (ap_arena p) (ap_slots p ! h) else None)"

lemma arena_inv_new: "arena_inv (arena_new N BYTES)"
  by (simp add: arena_inv_def arena_new_def arena_slot_new_def)

lemma arena_view_live:
  assumes "arena_view p h = Some q"
  shows "h < length (ap_slots p)" "as_used (ap_slots p ! h)" "arena_slot_at h p = Some (ap_slots p ! h)"
    "slot_view (ap_arena p) (ap_slots p ! h) = Some q"
  using assms by (auto simp: arena_view_def slot_view_def arena_slot_at_def split: if_splits)

lemma arena_view_update:
  assumes "h < length (ap_slots p)"
  shows "arena_view (p\<lparr>ap_slots := (ap_slots p)[h := s]\<rparr>) = (arena_view p)(h := slot_view (ap_arena p) s)"
  using assms by (auto simp: fun_eq_iff arena_view_def nth_list_update)

lemma arena_inv_update:
  assumes "arena_inv p" "h < length (ap_slots p)"
    and "as_used s \<longrightarrow> as_used (ap_slots p ! h) \<and> as_offset s = as_offset (ap_slots p ! h) \<and> as_len s = as_len (ap_slots p ! h)"
  shows "arena_inv (p\<lparr>ap_slots := (ap_slots p)[h := s]\<rparr>)"
  using assms unfolding arena_inv_def by (auto simp: nth_list_update slot_range_def)

lemma not_overlaps_disjoint:
  assumes "\<not> slot_overlaps r (r + len) s"
  shows "{r ..< r + len} \<inter> slot_range s = {}"
  using assms by (auto simp: slot_overlaps_def slot_range_def)

text \<open>Writing a packet into a gap leaves every live packet as it was.\<close>

lemma slot_view_copy:
  assumes "r + length d \<le> length a" and "as_used s \<longrightarrow> as_offset s + as_len s \<le> length a"
    and "as_used s \<longrightarrow> \<not> slot_overlaps r (r + length d) s"
  shows "slot_view (copy_into r d a) s = slot_view a s"
proof (cases "as_used s \<and> as_len s \<noteq> 0 \<and> d \<noteq> []")
  case True
  then have "as_offset s + as_len s \<le> r \<or> r + length d \<le> as_offset s"
    using assms(3) by (auto simp: slot_overlaps_def)
  then show ?thesis
    using True assms slice_copy_into_other [of r d a "as_offset s + as_len s" "as_offset s"] by (simp add: slot_view_def)
next
  case False
  then consider "\<not> as_used s" | "as_len s = 0" | "d = []" by blast
  then show ?thesis by cases (auto simp: slot_view_def slice_def copy_into_def)
qed

lemma arena_inv_alloc:
  assumes inv: "arena_inv p" and h: "h < length (ap_slots p)" and r: "r + length d \<le> length (ap_arena p)"
    "\<And>k. k < length (ap_slots p) \<Longrightarrow> as_used (ap_slots p ! k) \<Longrightarrow> \<not> slot_overlaps r (r + length d) (ap_slots p ! k)"
  shows "arena_inv (p\<lparr>ap_arena := copy_into r d (ap_arena p), ap_slots := (ap_slots p)[h :=
    \<lparr>as_next = None, as_offset = r, as_len = length d, as_queued_at = now, as_packet_type = ty, as_used = True\<rparr>]\<rparr>)"
    (is "arena_inv ?p")
proof -
  let ?s = "\<lparr>as_next = None, as_offset = r, as_len = length d, as_queued_at = now, as_packet_type = ty, as_used = True\<rparr>"
  have nth: "ap_slots ?p ! k = (if k = h then ?s else ap_slots p ! k)" if "k < length (ap_slots p)" for k
    using that by simp
  have new: "slot_range ?s \<inter> slot_range (ap_slots p ! k) = {}" if "k < length (ap_slots p)" "as_used (ap_slots p ! k)" for k
    using not_overlaps_disjoint [OF r(2) [OF that]] by (simp add: slot_range_def)
  show ?thesis
    unfolding arena_inv_def
  proof (intro conjI allI impI)
    fix k assume "k < length (ap_slots ?p)" "as_used (ap_slots ?p ! k)"
    then show "as_offset (ap_slots ?p ! k) + as_len (ap_slots ?p ! k) \<le> length (ap_arena ?p)"
      using inv r(1) nth [of k] by (cases "k = h") (simp_all add: arena_inv_def)
  next
    fix j k assume jk: "j < length (ap_slots ?p)" "k < length (ap_slots ?p)" "j \<noteq> k"
      "as_used (ap_slots ?p ! j)" "as_used (ap_slots ?p ! k)"
    then have l: "j < length (ap_slots p)" "k < length (ap_slots p)" by simp_all
    note n = nth [OF l(1)] nth [OF l(2)]
    consider "j = h" | "k = h" "j \<noteq> h" | "j \<noteq> h" "k \<noteq> h" by blast
    then show "slot_range (ap_slots ?p ! j) \<inter> slot_range (ap_slots ?p ! k) = {}"
    proof cases
      case 1
      then show ?thesis using new [OF l(2)] jk(3,5) unfolding n by simp
    next
      case 2
      then show ?thesis using new [OF l(1)] jk(4) unfolding n by (simp add: Int_commute)
    next
      case 3
      then show ?thesis using inv l jk(3-5) unfolding n by (simp add: arena_inv_def)
    qed
  qed
qed

text \<open>There is room for a packet as long as a slot is free and the bytes fit between the live packets.\<close>

definition arena_room_for :: "nat \<Rightarrow> arena_pool \<Rightarrow> bool" where
  "arena_room_for n p \<longleftrightarrow> n \<le> MAX_PACKET_SIZE \<and> (\<exists>s \<in> set (ap_slots p). \<not> as_used s) \<and> (\<exists>r. fits r n (length (ap_arena p)) (ap_slots p))"

lemma arena_room_iff:
  "arena_room_for n p \<longleftrightarrow> \<not> (n > MAX_PACKET_SIZE \<or> n > length (ap_arena p)) \<and> arena_free_slot p \<noteq> None \<and> find_gap n p \<noteq> None"
proof -
  have "arena_free_slot p \<noteq> None \<longleftrightarrow> (\<exists>s \<in> set (ap_slots p). \<not> as_used s)"
    by (auto simp: arena_free_slot_def find_None_iff in_set_conv_nth Bex_def)
  moreover have "find_gap n p \<noteq> None \<longleftrightarrow> (\<exists>r. fits r n (length (ap_arena p)) (ap_slots p))" by (simp add: find_gap_exact)
  moreover have "fits r n (length (ap_arena p)) (ap_slots p) \<Longrightarrow> n \<le> length (ap_arena p)" for r by (simp add: fits_def)
  ultimately show ?thesis unfolding arena_room_for_def by (meson not_le)
qed

lemma arena_alloc_law:
  assumes "arena_inv p"
  shows "\<exists>r p'. arena_alloc ty d now p = Some (r, p') \<and> arena_inv p' \<and>
    (case r of
       None \<Rightarrow> \<not> arena_room_for (length d) p \<and> p' = p
     | Some h \<Rightarrow> arena_room_for (length d) p \<and> arena_view p h = None \<and>
         arena_view p' = (arena_view p)(h \<mapsto> \<lparr>q_type = ty, q_data = d, q_at = now, q_next = None\<rparr>))"
proof -
  have "\<not> arena_room_for (length d) p \<and> arena_alloc ty d now p = Some (None, p) \<or>
      (\<exists>h r. arena_room_for (length d) p \<and> arena_free_slot p = Some h \<and> find_gap (length d) p = Some r \<and>
      arena_alloc ty d now p = Some (Some h, p\<lparr>ap_arena := copy_into r d (ap_arena p),
         ap_slots := (ap_slots p)[h := \<lparr>as_next = None, as_offset = r, as_len = length d,
           as_queued_at = now, as_packet_type = ty, as_used = True\<rparr>]\<rparr>))"
    unfolding arena_room_iff by (cases "length d > MAX_PACKET_SIZE \<or> length d > length (ap_arena p)";
        cases "arena_free_slot p"; cases "find_gap (length d) p") (simp_all add: arena_alloc_def)
  then consider (refused) "\<not> arena_room_for (length d) p" "arena_alloc ty d now p = Some (None, p)"
    | (ok) h r where "arena_room_for (length d) p" "arena_free_slot p = Some h" "find_gap (length d) p = Some r"
        "arena_alloc ty d now p = Some (Some h, p\<lparr>ap_arena := copy_into r d (ap_arena p),
           ap_slots := (ap_slots p)[h := \<lparr>as_next = None, as_offset = r, as_len = length d,
             as_queued_at = now, as_packet_type = ty, as_used = True\<rparr>]\<rparr>)"
    by blast
  then show ?thesis
  proof cases
    case refused
    then show ?thesis using assms by simp
  next
    case ok
    let ?s = "\<lparr>as_next = None, as_offset = r, as_len = length d, as_queued_at = now, as_packet_type = ty, as_used = True\<rparr>"
    let ?p = "p\<lparr>ap_arena := copy_into r d (ap_arena p), ap_slots := (ap_slots p)[h := ?s]\<rparr>"
    have h: "h < length (ap_slots p)" "\<not> as_used (ap_slots p ! h)"
      using ok(2) by (auto simp: arena_free_slot_def find_Some_iff)
    have r: "r + length d \<le> length (ap_arena p)"
      "\<And>k. k < length (ap_slots p) \<Longrightarrow> as_used (ap_slots p ! k) \<Longrightarrow> \<not> slot_overlaps r (r + length d) (ap_slots p ! k)"
      using ok(3) by (auto simp: find_gap_first_fit fits_def)
    have "arena_inv ?p" using arena_inv_alloc [OF assms h(1) r] .
    moreover have "arena_view p h = None" using h by (simp add: arena_view_def slot_view_def)
    moreover have "arena_view ?p k = ((arena_view p)(h \<mapsto> \<lparr>q_type = ty, q_data = d, q_at = now, q_next = None\<rparr>)) k" for k
    proof (cases "k = h")
      case True
      then show ?thesis using h(1) r(1) slice_copy_into_same [OF r(1)] by (simp add: arena_view_def slot_view_def)
    next
      case False
      then show ?thesis
        using slot_view_copy [OF r(1), of "ap_slots p ! k"] r(2) assms by (auto simp: arena_view_def arena_inv_def)
    qed
    ultimately show ?thesis using ok(1,4) by auto
  qed
qed

interpretation arena: packet_store arena_ops arena_inv arena_view arena_room_for
proof
  fix p h q nx assume a: "arena_inv p" "arena_view p h = Some q"
  note s = arena_view_live [OF a(2)]
  have le: "as_offset (ap_slots p ! h) + as_len (ap_slots p ! h) \<le> length (ap_arena p)"
    using a(1) s by (simp add: arena_inv_def)
  show "\<exists>p'. po_set_next arena_ops h nx p = Some p' \<and> arena_inv p' \<and> arena_view p' = (arena_view p)(h \<mapsto> q\<lparr>q_next := nx\<rparr>)"
    using s a(1) by (auto simp: arena_ops_def arena_set_next_def arena_view_update slot_view_def intro!: arena_inv_update)
  show "\<exists>p'. po_take_next arena_ops h p = Some (q_next q, p') \<and> arena_inv p' \<and> arena_view p' = (arena_view p)(h \<mapsto> q\<lparr>q_next := None\<rparr>)"
    using s a(1) by (auto simp: arena_ops_def arena_take_next_def arena_view_update slot_view_def intro!: arena_inv_update)
  show "\<exists>p'. po_free arena_ops h p = Some p' \<and> arena_inv p' \<and> arena_view p' = (arena_view p)(h := None)"
    using s a(1) by (auto simp: arena_ops_def arena_free_def arena_view_update slot_view_def intro!: arena_inv_update)
  show "po_get arena_ops h p = Some (q_type q, q_data q)"
    using s le by (auto simp: arena_ops_def arena_get_def slot_view_def)
  show "po_next arena_ops h p = Some (q_next q)" "po_queued_at arena_ops h p = Some (q_at q)"
    using s by (auto simp: arena_ops_def arena_next_def arena_queued_at_def slot_view_def)
qed (simp add: arena_ops_def arena_alloc_law)

end
