(* ===== verification/Tunnel_Queue.thy ===== *)
theory Tunnel_Queue
  imports Packet_Pool
begin

text \<open>
  The pending-packet queue of a tunnel (\<^verbatim>\<open>queue_packet\<close>, \<^verbatim>\<open>drop_expired_queued_packets\<close>,
  \<^verbatim>\<open>requeue_packet\<close>, \<^verbatim>\<open>dequeue_packet\<close>, \<^verbatim>\<open>clear_packet_queue\<close> of
  \<^verbatim>\<open>noise/mod.rs\<close>): a singly linked chain of descriptors of the shared pool. Everything
  is proved once for the contract of the pool: the queue is a FIFO list of at most eight
  packets, and no operation on one queue touches a packet outside it.
  \<open>None\<close> is a panic or a loop that does not return.
\<close>

section \<open>The operations\<close>

definition MAX_PENDING_PACKETS :: nat where "MAX_PENDING_PACKETS = 8"
definition PENDING_PACKET_TTL :: duration where "PENDING_PACKET_TTL = 30 * SECOND"

record packet_queue =
  packet_queue_head :: "handle option"
  packet_queue_tail :: "handle option"
  packet_queue_len :: nat

definition queue_new :: packet_queue where
  "queue_new = \<lparr>packet_queue_head = None, packet_queue_tail = None, packet_queue_len = 0\<rparr>"

text \<open>The body of the expiry loop for an expired packet \<open>h\<close>; \<open>None\<close> also if the length underflows.\<close>

definition drop_one ::
  "'p pool_ops \<Rightarrow> handle option \<Rightarrow> handle option \<Rightarrow> handle \<Rightarrow> 'q packet_queue_scheme \<Rightarrow> 'p \<Rightarrow>
     ('q packet_queue_scheme \<times> 'p) option" where
  "drop_one P prev nx h q p = do {
     (q1, p1) \<leftarrow> (case prev of
         Some pr \<Rightarrow> map_option (Pair q) (po_set_next P pr nx p)
       | None \<Rightarrow> Some (q\<lparr>packet_queue_head := nx\<rparr>, p));
     let q2 = (if packet_queue_tail q1 = Some h then q1\<lparr>packet_queue_tail := prev\<rparr> else q1);
     p2 \<leftarrow> po_set_next P h None p1;
     p3 \<leftarrow> po_free P h p2;
     if packet_queue_len q2 = 0 then None
     else Some (q2\<lparr>packet_queue_len := packet_queue_len q2 - 1\<rparr>, p3) }"

partial_function (option) drop_expired_loop ::
  "'p pool_ops \<Rightarrow> instant \<Rightarrow> handle option \<Rightarrow> handle option \<Rightarrow> nat \<Rightarrow> 'q packet_queue_scheme \<Rightarrow> 'p \<Rightarrow>
     (nat \<times> 'q packet_queue_scheme \<times> 'p) option" where
  "drop_expired_loop P now prev current dropped q p =
     (case current of
        None \<Rightarrow> Some (dropped, q, p)
      | Some h \<Rightarrow>
          Option.bind (po_next P h p) (\<lambda>nx.
          Option.bind (po_queued_at P h p) (\<lambda>queued_at.
          if now - queued_at \<ge> PENDING_PACKET_TTL then
            Option.bind (drop_one P prev nx h q p) (\<lambda>(q', p').
            drop_expired_loop P now prev nx (dropped + 1) q' p')
          else drop_expired_loop P now (Some h) nx dropped q p)))"

definition drop_expired_queued_packets ::
  "'p pool_ops \<Rightarrow> instant \<Rightarrow> 'q packet_queue_scheme \<Rightarrow> 'p \<Rightarrow> (nat \<times> 'q packet_queue_scheme \<times> 'p) option" where
  "drop_expired_queued_packets P now q p = drop_expired_loop P now None (packet_queue_head q) 0 q p"

definition queue_packet ::
  "'p pool_ops \<Rightarrow> instant \<Rightarrow> u32 \<Rightarrow> bytes \<Rightarrow> 'q packet_queue_scheme \<Rightarrow> 'p \<Rightarrow> ('q packet_queue_scheme \<times> 'p) option" where
  "queue_packet P now packet_type packet q p =
     (if length packet > MAX_PACKET_SIZE then Some (q, p)
      else do {
        (dropped, q1, p1) \<leftarrow> drop_expired_queued_packets P now q p;
        if packet_queue_len q1 \<ge> MAX_PENDING_PACKETS then Some (q1, p1)
        else do {
          (r, p2) \<leftarrow> po_alloc P packet_type packet now p1;
          case r of
            None \<Rightarrow> Some (q1, p2)
          | Some h \<Rightarrow> do {
              (q2, p3) \<leftarrow> (case packet_queue_tail q1 of
                  Some tail \<Rightarrow> map_option (Pair q1) (po_set_next P tail (Some h) p2)
                | None \<Rightarrow> Some (q1\<lparr>packet_queue_head := Some h\<rparr>, p2));
              Some (q2\<lparr>packet_queue_tail := Some h, packet_queue_len := packet_queue_len q2 + 1\<rparr>, p3) } } })"

definition requeue_packet ::
  "'p pool_ops \<Rightarrow> handle \<Rightarrow> 'q packet_queue_scheme \<Rightarrow> 'p \<Rightarrow> ('q packet_queue_scheme \<times> 'p) option" where
  "requeue_packet P h q p =
     (if packet_queue_len q \<ge> MAX_PENDING_PACKETS then map_option (Pair q) (po_free P h p)
      else do {
        p1 \<leftarrow> po_set_next P h (packet_queue_head q) p;
        let q1 = q\<lparr>packet_queue_head := Some h\<rparr>;
        let q2 = (if packet_queue_tail q1 = None then q1\<lparr>packet_queue_tail := Some h\<rparr> else q1);
        Some (q2\<lparr>packet_queue_len := packet_queue_len q2 + 1\<rparr>, p1) })"

definition dequeue_packet ::
  "'p pool_ops \<Rightarrow> 'q packet_queue_scheme \<Rightarrow> 'p \<Rightarrow> (handle option \<times> 'q packet_queue_scheme \<times> 'p) option" where
  "dequeue_packet P q p =
     (case packet_queue_head q of
        None \<Rightarrow> Some (None, q, p)
      | Some h \<Rightarrow> do {
          (nx, p1) \<leftarrow> po_take_next P h p;
          let q1 = q\<lparr>packet_queue_head := nx\<rparr>;
          let q2 = (if nx = None then q1\<lparr>packet_queue_tail := None\<rparr> else q1);
          if packet_queue_len q2 = 0 then None
          else Some (Some h, q2\<lparr>packet_queue_len := packet_queue_len q2 - 1\<rparr>, p1) })"

definition clear_packet_queue ::
  "'p pool_ops \<Rightarrow> 'q packet_queue_scheme \<Rightarrow> 'p \<Rightarrow> ('q packet_queue_scheme \<times> 'p) option" where
  "clear_packet_queue P q p = do {
     p1 \<leftarrow> free_chain P (packet_queue_head q) p;
     Some (q\<lparr>packet_queue_head := None, packet_queue_tail := None, packet_queue_len := 0\<rparr>, p1) }"

section \<open>Chains in the pool\<close>

text \<open>\<open>seg v a hs b\<close>: following \<open>next\<close> from \<open>a\<close> visits the live handles \<open>hs\<close> and arrives at \<open>b\<close>.\<close>

fun seg :: "(handle \<Rightarrow> queued option) \<Rightarrow> handle option \<Rightarrow> handle list \<Rightarrow> handle option \<Rightarrow> bool" where
  "seg v a [] b \<longleftrightarrow> a = b"
| "seg v a (h # hs) b \<longleftrightarrow> a = Some h \<and> (\<exists>q. v h = Some q \<and> seg v (q_next q) hs b)"

definition last_opt :: "'a list \<Rightarrow> 'a option" where
  "last_opt xs = (if xs = [] then None else Some (last xs))"

definition hd_opt :: "'a list \<Rightarrow> 'a option" where
  "hd_opt xs = (if xs = [] then None else Some (hd xs))"

lemma last_opt_simps [simp]: "last_opt [] = None" "last_opt (xs @ [x]) = Some x"
  by (simp_all add: last_opt_def)

lemma seg_append: "seg v a (xs @ ys) b \<longleftrightarrow> (\<exists>m. seg v a xs m \<and> seg v m ys b)"
  by (induction xs arbitrary: a) auto

lemma seg_frame:
  assumes "seg v a hs b" and "\<And>h. h \<in> set hs \<Longrightarrow> v' h = v h"
  shows "seg v' a hs b"
  using assms by (induction hs arbitrary: a) auto

lemma seg_live: "seg v a hs b \<Longrightarrow> h \<in> set hs \<Longrightarrow> \<exists>q. v h = Some q"
  by (induction hs arbitrary: a) auto

lemma seg_head: "seg v a hs b \<Longrightarrow> a = (if hs = [] then b else Some (hd hs))"
  by (cases hs) auto

lemma seg_relink_last:
  assumes "seg v a (xs @ [x]) b" and "x \<notin> set xs" and "v x = Some q"
  shows "seg (v(x \<mapsto> q\<lparr>q_next := c\<rparr>)) a (xs @ [x]) c"
proof -
  have "seg v a xs (Some x)" using assms(1) by (auto simp: seg_append)
  then have "seg (v(x \<mapsto> q\<lparr>q_next := c\<rparr>)) a xs (Some x)"
    by (rule seg_frame) (use assms(2) in auto)
  then show ?thesis by (simp add: seg_append)
qed

text \<open>The queue holds the handles \<open>hs\<close>, oldest first.\<close>

definition holds :: "(handle \<Rightarrow> queued option) \<Rightarrow> 'q packet_queue_scheme \<Rightarrow> handle list \<Rightarrow> bool" where
  "holds v q hs \<longleftrightarrow>
     seg v (packet_queue_head q) hs None \<and> distinct hs \<and> packet_queue_tail q = last_opt hs \<and>
     packet_queue_len q = length hs"

text \<open>What is queued, without the links.\<close>

definition content :: "(handle \<Rightarrow> queued option) \<Rightarrow> handle \<Rightarrow> (u32 \<times> bytes \<times> instant) option" where
  "content v h = map_option (\<lambda>q. (q_type q, q_data q, q_at q)) (v h)"

lemma content_upd [simp]:
  "content (v(h := x)) k = (if k = h then map_option (\<lambda>q. (q_type q, q_data q, q_at q)) x else content v k)"
  by (simp add: content_def)

lemma content_None [simp]: "content v h = None \<longleftrightarrow> v h = None"
  by (simp add: content_def)

text \<open>Updating links keeps the content.\<close>

lemma content_relink: "v h = Some q \<Longrightarrow> content (v(h \<mapsto> q\<lparr>q_next := n\<rparr>)) = content v"
  by (auto simp: fun_eq_iff content_def)

lemma holds_new: "holds v queue_new []"
  by (simp add: holds_def queue_new_def)

text \<open>A packet past its time to live.\<close>

definition expired :: "instant \<Rightarrow> (handle \<Rightarrow> queued option) \<Rightarrow> handle \<Rightarrow> bool" where
  "expired now v h \<longleftrightarrow> (case v h of Some q \<Rightarrow> now - q_at q \<ge> PENDING_PACKET_TTL | None \<Rightarrow> False)"

lemma expired_content: "content v h = content v' h \<Longrightarrow> expired now v h = expired now v' h"
  by (auto simp: expired_def content_def split: option.splits)

section \<open>The operations on the contract\<close>

context packet_store
begin

lemma dequeue_law:
  assumes "pinv p" and "holds (view p) q (h # hs)"
  shows "\<exists>q' p'. dequeue_packet P q p = Some (Some h, q', p') \<and> pinv p' \<and> holds (view p') q' hs \<and>
    content (view p') = content (view p) \<and> (\<forall>k. k \<noteq> h \<longrightarrow> view p' k = view p k)"
proof -
  obtain x where x: "view p h = Some x" "seg (view p) (q_next x) hs None" "packet_queue_head q = Some h"
    using assms(2) by (auto simp: holds_def)
  from take_next_law [OF assms(1) x(1)] obtain p' where p': "po_take_next P h p = Some (q_next x, p')" "pinv p'"
      "view p' = (view p)(h \<mapsto> x\<lparr>q_next := None\<rparr>)" by blast
  have h: "h \<notin> set hs" "distinct hs" using assms(2) by (auto simp: holds_def)
  have seg: "seg (view p') (q_next x) hs None" by (rule seg_frame [OF x(2)]) (use h p'(3) in auto)
  have nx: "q_next x = None \<longleftrightarrow> hs = []" using seg_head [OF x(2)] by (cases hs) auto
  show ?thesis
    using x p' h seg nx assms(2) content_relink [of "view p" h x None]
    by (auto simp: dequeue_packet_def holds_def Let_def last_opt_def)
qed

lemma dequeue_empty:
  assumes "holds (view p) q []"
  shows "dequeue_packet P q p = Some (None, q, p)"
  using assms by (simp add: dequeue_packet_def holds_def)

lemma requeue_law:
  assumes "pinv p" and "holds (view p) q hs" and "view p h = Some x" and "h \<notin> set hs" and "length hs < MAX_PENDING_PACKETS"
  shows "\<exists>q' p'. requeue_packet P h q p = Some (q', p') \<and> pinv p' \<and> holds (view p') q' (h # hs) \<and>
    content (view p') = content (view p) \<and> (\<forall>k. k \<noteq> h \<longrightarrow> view p' k = view p k)"
proof -
  from set_next_law [OF assms(1,3), of "packet_queue_head q"] obtain p' where
    p': "po_set_next P h (packet_queue_head q) p = Some p'" "pinv p'"
      "view p' = (view p)(h \<mapsto> x\<lparr>q_next := packet_queue_head q\<rparr>)" by blast
  have "seg (view p') (packet_queue_head q) hs None"
    by (rule seg_frame [of "view p"]) (use assms(2,4) p'(3) in \<open>auto simp: holds_def\<close>)
  then show ?thesis
    using p' assms content_relink [of "view p" h x "packet_queue_head q"]
    by (auto simp: requeue_packet_def holds_def Let_def last_opt_def)
qed

lemma requeue_full:
  assumes "pinv p" and "holds (view p) q hs" and "view p h = Some x" and "h \<notin> set hs" and "MAX_PENDING_PACKETS \<le> length hs"
  shows "\<exists>p'. requeue_packet P h q p = Some (q, p') \<and> pinv p' \<and> holds (view p') q hs \<and> view p' = (view p)(h := None)"
proof -
  from free_law [OF assms(1,3)] obtain p' where p': "po_free P h p = Some p'" "pinv p'" "view p' = (view p)(h := None)"
    by blast
  have "seg (view p') (packet_queue_head q) hs None"
    by (rule seg_frame [of "view p"]) (use assms(2,4) p'(3) in \<open>auto simp: holds_def\<close>)
  then show ?thesis using p' assms by (auto simp: requeue_packet_def holds_def)
qed

text \<open>The expiry loop. \<open>pre\<close> are the handles kept so far, \<open>rest\<close> those still to visit.\<close>

lemma drop_one_law:
  assumes inv: "pinv p" and hs: "holds (view p) q (pre @ h # rest)" and x: "view p h = Some x"
  shows "\<exists>q' p'. drop_one P (last_opt pre) (q_next x) h q p = Some (q', p') \<and> pinv p' \<and>
    holds (view p') q' (pre @ rest) \<and> view p' h = None \<and>
    (\<forall>k. k \<noteq> h \<longrightarrow> content (view p') k = content (view p) k) \<and>
    (\<forall>k. k \<noteq> h \<longrightarrow> k \<notin> set pre \<longrightarrow> view p' k = view p k)"
proof -
  have d: "distinct (pre @ h # rest)" using hs by (simp add: holds_def)
  have seg: "seg (view p) (packet_queue_head q) pre (Some h)" "seg (view p) (q_next x) rest None"
    using hs x by (auto simp: holds_def seg_append)
  define q1 where "q1 = (if pre = [] then q\<lparr>packet_queue_head := q_next x\<rparr> else q)"
  obtain p1 where p1: "(case last_opt pre of Some pr \<Rightarrow> map_option (Pair q) (po_set_next P pr (q_next x) p)
        | None \<Rightarrow> Some (q\<lparr>packet_queue_head := q_next x\<rparr>, p)) = Some (q1, p1)"
      "pinv p1" "seg (view p1) (packet_queue_head q1) pre (q_next x)" "content (view p1) = content (view p)"
      "\<And>k. k \<notin> set pre \<Longrightarrow> view p1 k = view p k"
  proof (cases pre rule: rev_cases)
    case Nil
    then show ?thesis using that [of p] inv by (simp add: q1_def)
  next
    case (snoc ys y)
    obtain z where z: "view p y = Some z" using seg_live [OF seg(1)] snoc by auto
    from set_next_law [OF inv z, of "q_next x"] obtain p1 where p1: "po_set_next P y (q_next x) p = Some p1" "pinv p1"
      "view p1 = (view p)(y \<mapsto> z\<lparr>q_next := q_next x\<rparr>)" by blast
    have "seg (view p1) (packet_queue_head q) (ys @ [y]) (q_next x)"
      unfolding p1(3) by (rule seg_relink_last) (use seg(1) snoc d z in auto)
    moreover have "content (view p1) = content (view p)" unfolding p1(3) by (rule content_relink) (rule z)
    moreover have "view p1 k = view p k" if "k \<notin> set pre" for k using that snoc by (simp add: p1(3))
    ultimately show ?thesis using that [of p1] p1(1,2) snoc by (simp add: q1_def)
  qed
  have x1: "view p1 h = Some x" using p1(5) [of h] d x by simp
  from set_next_law [OF p1(2) x1, of None] obtain p2 where p2: "po_set_next P h None p1 = Some p2" "pinv p2"
    "view p2 = (view p1)(h \<mapsto> x\<lparr>q_next := None\<rparr>)" by blast
  then have "view p2 h = Some (x\<lparr>q_next := None\<rparr>)" by simp
  from free_law [OF p2(2) this] obtain p3 where p3: "po_free P h p2 = Some p3" "pinv p3"
    "view p3 = (view p1)(h := None)" using p2(3) by auto
  define q2 where "q2 = (if packet_queue_tail q1 = Some h then q1\<lparr>packet_queue_tail := last_opt pre\<rparr> else q1)"
  have len: "packet_queue_len q2 = Suc (length pre + length rest)"
    using hs by (simp add: q2_def q1_def holds_def)
  have "seg (view p3) (packet_queue_head q1) pre (q_next x)"
    by (rule seg_frame [OF p1(3)]) (use d p3(3) in auto)
  moreover have "seg (view p3) (q_next x) rest None"
    by (rule seg_frame [OF seg(2)]) (use d p3(3) p1(5) in auto)
  ultimately have "seg (view p3) (packet_queue_head q2) (pre @ rest) None"
    by (auto simp: seg_append q2_def)
  moreover have "packet_queue_tail q2 = last_opt (pre @ rest)"
    using hs d by (auto simp: q2_def q1_def holds_def last_opt_def)
  ultimately have "holds (view p3) (q2\<lparr>packet_queue_len := packet_queue_len q2 - 1\<rparr>) (pre @ rest)"
    using d len by (simp add: holds_def)
  moreover have "drop_one P (last_opt pre) (q_next x) h q p =
      Some (q2\<lparr>packet_queue_len := packet_queue_len q2 - 1\<rparr>, p3)"
    unfolding drop_one_def p1(1) using p2(1) p3(1) len by (simp add: q2_def [symmetric] Let_def)
  moreover have "content (view p3) k = content (view p) k" if "k \<noteq> h" for k
    using that p1(4) by (simp add: p3(3))
  moreover have "view p3 k = view p k" if "k \<noteq> h" "k \<notin> set pre" for k using that p1(5) by (simp add: p3(3))
  ultimately show ?thesis using p3(2,3) by (intro exI [of _ p3] exI conjI allI impI) auto
qed

lemma drop_expired_loop_law:
  assumes "pinv p" and "holds (view p) q (pre @ rest)"
  shows "\<exists>q' p'. drop_expired_loop P now (last_opt pre) (hd_opt rest) n q p =
      Some (n + length (filter (expired now (view p)) rest), q', p') \<and> pinv p' \<and>
    holds (view p') q' (pre @ filter (\<lambda>h. \<not> expired now (view p) h) rest) \<and>
    (\<forall>h\<in>set rest. expired now (view p) h \<longrightarrow> view p' h = None) \<and>
    (\<forall>h. \<not> (h \<in> set rest \<and> expired now (view p) h) \<longrightarrow> content (view p') h = content (view p) h) \<and>
    (\<forall>h. h \<notin> set (pre @ rest) \<longrightarrow> view p' h = view p h)"
  using assms
proof (induction rest arbitrary: pre q p n)
  case Nil
  then show ?case by (subst drop_expired_loop.simps) (auto simp: hd_opt_def)
next
  case (Cons h rest)
  have d: "distinct (pre @ h # rest)" using Cons.prems(2) by (simp add: holds_def)
  obtain x where x: "view p h = Some x" "seg (view p) (q_next x) rest None"
    using Cons.prems(2) by (auto simp: holds_def seg_append)
  have nx: "q_next x = hd_opt rest" using seg_head [OF x(2)] by (simp add: hd_opt_def)
  note laws = next_law [OF Cons.prems(1) x(1)] queued_at_law [OF Cons.prems(1) x(1)]
  show ?case
  proof (cases "expired now (view p) h")
    case False
    have "holds (view p) q ((pre @ [h]) @ rest)" using Cons.prems(2) by simp
    from Cons.IH [OF Cons.prems(1) this, of n] obtain q' p' where
      r: "drop_expired_loop P now (Some h) (hd_opt rest) n q p =
          Some (n + length (filter (expired now (view p)) rest), q', p')" "pinv p'"
        "holds (view p') q' (pre @ h # filter (\<lambda>h. \<not> expired now (view p) h) rest)"
        "\<forall>h\<in>set rest. expired now (view p) h \<longrightarrow> view p' h = None"
        "\<forall>h. \<not> (h \<in> set rest \<and> expired now (view p) h) \<longrightarrow> content (view p') h = content (view p) h"
        "\<forall>k. k \<notin> set (pre @ h # rest) \<longrightarrow> view p' k = view p k" by auto
    have "drop_expired_loop P now (last_opt pre) (hd_opt (h # rest)) n q p =
        drop_expired_loop P now (Some h) (hd_opt rest) n q p"
      using False x laws by (subst drop_expired_loop.simps) (simp add: hd_opt_def [of "h # rest"] expired_def nx)
    with r False show ?thesis by (intro exI [of _ q'] exI [of _ p']) auto
  next
    case True
    from drop_one_law [OF Cons.prems x(1)] obtain q1 p1 where
      1: "drop_one P (last_opt pre) (q_next x) h q p = Some (q1, p1)" "pinv p1" "holds (view p1) q1 (pre @ rest)"
        "view p1 h = None" "\<And>k. k \<noteq> h \<Longrightarrow> content (view p1) k = content (view p) k"
        "\<And>k. k \<noteq> h \<Longrightarrow> k \<notin> set pre \<Longrightarrow> view p1 k = view p k" by blast
    have ex: "expired now (view p1) k = expired now (view p) k" if "k \<in> set rest" for k
    proof -
      have "k \<noteq> h" using d that by auto
      then show ?thesis by (intro expired_content 1(5))
    qed
    then have fl: "filter (expired now (view p1)) rest = filter (expired now (view p)) rest"
      "filter (\<lambda>h. \<not> expired now (view p1) h) rest = filter (\<lambda>h. \<not> expired now (view p) h) rest"
      by (auto intro: filter_cong)
    from Cons.IH [OF 1(2,3), of "n + 1"] obtain q' p' where
      r: "drop_expired_loop P now (last_opt pre) (hd_opt rest) (n + 1) q1 p1 =
          Some (n + 1 + length (filter (expired now (view p)) rest), q', p')" "pinv p'"
        "holds (view p') q' (pre @ filter (\<lambda>h. \<not> expired now (view p) h) rest)"
        "\<forall>h\<in>set rest. expired now (view p1) h \<longrightarrow> view p' h = None"
        "\<forall>h. \<not> (h \<in> set rest \<and> expired now (view p1) h) \<longrightarrow> content (view p') h = content (view p1) h"
        "\<forall>k. k \<notin> set (pre @ rest) \<longrightarrow> view p' k = view p1 k" unfolding fl by blast
    have "drop_expired_loop P now (last_opt pre) (hd_opt (h # rest)) n q p =
        drop_expired_loop P now (last_opt pre) (hd_opt rest) (n + 1) q1 p1"
      using True x laws 1(1) by (subst drop_expired_loop.simps) (simp add: hd_opt_def [of "h # rest"] expired_def nx)
    moreover have "view p' h = None" using r(6) d 1(4) by simp
    moreover have "content (view p') k = content (view p) k" if "\<not> (k \<in> set (h # rest) \<and> expired now (view p) k)" for k
    proof -
      have "k \<noteq> h" using that True by auto
      then show ?thesis using r(5) ex 1(5) [of k] that by auto
    qed
    moreover have "view p' k = view p k" if "k \<notin> set (pre @ h # rest)" for k
      using r(6) 1(6) [of k] that by auto
    ultimately show ?thesis using r(1-4) ex True by (intro exI [of _ q'] exI [of _ p']) auto
  qed
qed

lemma drop_expired_law:
  assumes "pinv p" and "holds (view p) q hs"
  shows "\<exists>q' p'. drop_expired_queued_packets P now q p =
      Some (length (filter (expired now (view p)) hs), q', p') \<and> pinv p' \<and>
    holds (view p') q' (filter (\<lambda>h. \<not> expired now (view p) h) hs) \<and>
    (\<forall>h\<in>set hs. expired now (view p) h \<longrightarrow> view p' h = None) \<and>
    (\<forall>h. \<not> (h \<in> set hs \<and> expired now (view p) h) \<longrightarrow> content (view p') h = content (view p) h) \<and>
    (\<forall>h. h \<notin> set hs \<longrightarrow> view p' h = view p h)"
proof -
  have "packet_queue_head q = hd_opt hs"
    using assms(2) seg_head [of "view p" "packet_queue_head q" hs None] by (simp add: holds_def hd_opt_def)
  with drop_expired_loop_law [of p q "[]" hs now 0] assms show ?thesis
    by (simp add: drop_expired_queued_packets_def)
qed

lemma queue_packet_exact:
  fixes now :: instant
  assumes "pinv p" and "holds (view p) q hs" and "length d \<le> MAX_PACKET_SIZE"
  defines "kept \<equiv> filter (\<lambda>h. \<not> expired now (view p) h) hs"
  shows "\<exists>q' p' new. queue_packet P now ty d q p = Some (q', p') \<and> pinv p' \<and> holds (view p') q' (kept @ new) \<and>
    (\<exists>p1. pinv p1 \<and> content (view p1) = (\<lambda>h. if h \<in> set hs \<and> expired now (view p) h then None else content (view p) h) \<and>
       (new = [] \<longleftrightarrow> MAX_PENDING_PACKETS \<le> length kept \<or> \<not> room (length d) p1)) \<and>
    (new = [] \<or> (\<exists>h. new = [h] \<and> h \<notin> set kept \<and> content (view p') h = Some (ty, d, now) \<and>
       length kept < MAX_PENDING_PACKETS \<and> (h \<notin> set hs \<longrightarrow> view p h = None))) \<and>
    (\<forall>h\<in>set kept. content (view p') h = content (view p) h) \<and>
    (\<forall>h. h \<notin> set hs \<longrightarrow> h \<notin> set new \<longrightarrow> view p' h = view p h)"
proof -
  let ?full = "\<lambda>p1 new. pinv p1 \<and> content (view p1) = (\<lambda>h. if h \<in> set hs \<and> expired now (view p) h then None else content (view p) h) \<and>
    (new = [] \<longleftrightarrow> MAX_PENDING_PACKETS \<le> length kept \<or> \<not> room (length d) p1)"
  from drop_expired_law [OF assms(1,2), of now] obtain k q1 p1 where
    1: "drop_expired_queued_packets P now q p = Some (k, q1, p1)" "pinv p1" "holds (view p1) q1 kept"
      "\<forall>h. \<not> (h \<in> set hs \<and> expired now (view p) h) \<longrightarrow> content (view p1) h = content (view p) h"
      "\<forall>h. h \<notin> set hs \<longrightarrow> view p1 h = view p h" "\<forall>h\<in>set hs. expired now (view p) h \<longrightarrow> view p1 h = None" unfolding kept_def by blast
  then have c1: "content (view p1) = (\<lambda>h. if h \<in> set hs \<and> expired now (view p) h then None else content (view p) h)" by (auto simp: fun_eq_iff)
  have kc: "content (view p1) h = content (view p) h" if "h \<in> set kept" for h using 1(4) that by (auto simp: kept_def)
  have len: "packet_queue_len q1 = length kept" using 1(3) by (simp add: holds_def)
  from alloc_law [OF 1(2), of ty d now] obtain r p2 where
    2: "po_alloc P ty d now p1 = Some (r, p2)" "pinv p2" "case r of None \<Rightarrow> \<not> room (length d) p1 \<and> p2 = p1
       | Some h \<Rightarrow> room (length d) p1 \<and> view p1 h = None \<and> view p2 = (view p1)(h \<mapsto> \<lparr>q_type = ty, q_data = d, q_at = now, q_next = None\<rparr>)"
    by blast
  show ?thesis
  proof (cases "MAX_PENDING_PACKETS \<le> length kept \<or> r = None")
    case True
    then have "queue_packet P now ty d q p = Some (q1, p1)"
      using 1(1) 2 len assms(3) by (auto simp: queue_packet_def)
    moreover have "MAX_PENDING_PACKETS \<le> length kept \<or> \<not> room (length d) p1" using True 2(3) by auto
    then have "?full p1 []" using 1(2) c1 by simp
    ultimately show ?thesis using 1(2,3,5) kc by (intro exI [of _ q1] exI [of _ p1] exI [of _ "[]"] conjI exI [of _ p1]) simp_all
  next
    case False
    then obtain h where r: "r = Some h" "length kept < MAX_PENDING_PACKETS" by auto
    let ?new = "\<lparr>q_type = ty, q_data = d, q_at = now, q_next = None\<rparr>"
    have v2: "view p1 h = None" "view p2 = (view p1)(h \<mapsto> ?new)" and ok: "room (length d) p1" using 2(3) r by simp_all
    have s1: "seg (view p1) (packet_queue_head q1) kept None" "distinct kept" using 1(3) by (simp_all add: holds_def)
    then have hk: "h \<notin> set kept" using seg_live [OF s1(1)] v2(1) by fastforce
    have s2: "seg (view p2) (packet_queue_head q1) kept None"
      by (rule seg_frame [OF s1(1)]) (use hk v2(2) in auto)
    define q2 where "q2 = (if kept = [] then q1\<lparr>packet_queue_head := Some h\<rparr> else q1)"
    obtain p3 where 3: "(case packet_queue_tail q1 of
          Some tail \<Rightarrow> map_option (Pair q1) (po_set_next P tail (Some h) p2)
        | None \<Rightarrow> Some (q1\<lparr>packet_queue_head := Some h\<rparr>, p2)) = Some (q2, p3)" "pinv p3"
        "seg (view p3) (packet_queue_head q2) kept (Some h)" "view p3 h = Some ?new"
        "content (view p3) = content (view p2)" "\<And>k. k \<notin> set kept \<Longrightarrow> view p3 k = view p2 k"
    proof (cases kept rule: rev_cases)
      case Nil
      then show ?thesis using that [of p2] 2(2) 1(3) v2(2) by (simp add: q2_def holds_def)
    next
      case (snoc ys y)
      obtain z where z: "view p2 y = Some z" using seg_live [OF s2] snoc by auto
      from set_next_law [OF 2(2) z, of "Some h"] obtain p3 where p3: "po_set_next P y (Some h) p2 = Some p3" "pinv p3"
        "view p3 = (view p2)(y \<mapsto> z\<lparr>q_next := Some h\<rparr>)" by blast
      have "seg (view p3) (packet_queue_head q1) (ys @ [y]) (Some h)"
        unfolding p3(3) by (rule seg_relink_last) (use s2 snoc s1(2) z in auto)
      moreover have "content (view p3) = content (view p2)" unfolding p3(3) by (rule content_relink) (rule z)
      moreover have "view p3 k = view p2 k" if "k \<notin> set kept" for k using that snoc by (simp add: p3(3))
      moreover have "view p3 h = Some ?new" using hk snoc by (simp add: p3(3) v2(2))
      ultimately show ?thesis using that [of p3] p3(1,2) snoc 1(3) by (simp add: q2_def holds_def)
    qed
    let ?q = "q2\<lparr>packet_queue_tail := Some h, packet_queue_len := packet_queue_len q2 + 1\<rparr>"
    have "queue_packet P now ty d q p = Some (?q, p3)"
      using 1(1) 2(1) 3(1) r len assms(3) by (simp add: queue_packet_def)
    moreover have "holds (view p3) ?q (kept @ [h])"
      using 3(3,4) s1(2) hk len by (auto simp: holds_def seg_append q2_def)
    moreover have "content (view p3) h = Some (ty, d, now)" using 3(4) by (simp add: content_def)
    moreover have "content (view p3) k = content (view p) k" if "k \<in> set kept" for k
      using kc [OF that] that hk 3(5) v2(2) by auto
    moreover have "view p3 k = view p k" if "k \<notin> set hs" "k \<noteq> h" for k
      using 3(6) [of k] v2(2) 1(5) that by (auto simp: kept_def)
    moreover have "h \<notin> set hs \<longrightarrow> view p h = None" using v2(1) 1(5) by auto
    moreover have "?full p1 [h]" using ok r(2) 1(2) c1 by simp
    then have full: "\<exists>p1. ?full p1 [h]" by (rule exI)
    ultimately show ?thesis
      using 3(2) r(2) hk full by (intro exI [of _ ?q] exI [of _ p3] exI [of _ "[h]"]) simp
  qed
qed

lemma queue_packet_law:
  fixes now :: instant
  assumes "pinv p" and "holds (view p) q hs" and "length d \<le> MAX_PACKET_SIZE"
  defines "kept \<equiv> filter (\<lambda>h. \<not> expired now (view p) h) hs"
  shows "\<exists>q' p' new. queue_packet P now ty d q p = Some (q', p') \<and> pinv p' \<and> holds (view p') q' (kept @ new) \<and>
    (new = [] \<or> (\<exists>h. new = [h] \<and> h \<notin> set kept \<and> content (view p') h = Some (ty, d, now) \<and>
       length kept < MAX_PENDING_PACKETS \<and> (h \<notin> set hs \<longrightarrow> view p h = None))) \<and>
    (\<forall>h\<in>set kept. content (view p') h = content (view p) h) \<and>
    (\<forall>h. h \<notin> set hs \<longrightarrow> h \<notin> set new \<longrightarrow> view p' h = view p h)"
  using queue_packet_exact [OF assms(1-3), of now ty] unfolding kept_def by blast

lemma free_chain_law:
  assumes "pinv p" and "seg (view p) a hs None" and "distinct hs"
  shows "\<exists>p'. free_chain P a p = Some p' \<and> pinv p' \<and> view p' = (\<lambda>h. if h \<in> set hs then None else view p h)"
  using assms
proof (induction hs arbitrary: a p)
  case Nil
  then show ?case by (subst free_chain.simps) simp
next
  case (Cons h hs)
  then obtain x where x: "view p h = Some x" "a = Some h" "seg (view p) (q_next x) hs None" by auto
  from take_next_law [OF Cons.prems(1) x(1)] obtain p1 where
    1: "po_take_next P h p = Some (q_next x, p1)" "pinv p1" "view p1 = (view p)(h \<mapsto> x\<lparr>q_next := None\<rparr>)" by blast
  then have "view p1 h = Some (x\<lparr>q_next := None\<rparr>)" by simp
  from free_law [OF 1(2) this] obtain p2 where 2: "po_free P h p1 = Some p2" "pinv p2" "view p2 = (view p)(h := None)"
    using 1(3) by auto
  have "seg (view p2) (q_next x) hs None"
    by (rule seg_frame [OF x(3)]) (use Cons.prems(3) 2(3) in auto)
  from Cons.IH [OF 2(2) this] Cons.prems(3) obtain p3 where
    3: "free_chain P (q_next x) p2 = Some p3" "pinv p3" "view p3 = (\<lambda>h. if h \<in> set hs then None else view p2 h)" by auto
  have "free_chain P a p = Some p3" using x(2) 1(1) 2(1) 3(1) by (subst free_chain.simps) simp
  then show ?case using 3 2(3) by auto
qed

lemma clear_law:
  assumes "pinv p" and "holds (view p) q hs"
  shows "\<exists>q' p'. clear_packet_queue P q p = Some (q', p') \<and> pinv p' \<and> holds (view p') q' [] \<and>
    view p' = (\<lambda>h. if h \<in> set hs then None else view p h)"
  using free_chain_law [OF assms(1), of "packet_queue_head q" hs] assms(2)
  by (auto simp: clear_packet_queue_def holds_def)

text \<open>Two tunnels share the pool; their chains are disjoint.\<close>

lemma queue_isolation:
  assumes "pinv p" and "holds (view p) q hs" and "holds (view p) q2 hs2" and "set hs \<inter> set hs2 = {}"
    and "length d \<le> MAX_PACKET_SIZE" and "length hs \<le> MAX_PENDING_PACKETS"
  shows "\<exists>q' p' hs'. queue_packet P now ty d q p = Some (q', p') \<and> pinv p' \<and>
    holds (view p') q' hs' \<and> length hs' \<le> MAX_PENDING_PACKETS \<and>
    holds (view p') q2 hs2 \<and> set hs' \<inter> set hs2 = {} \<and> (\<forall>h\<in>set hs2. view p' h = view p h)"
proof -
  let ?kept = "filter (\<lambda>h. \<not> expired now (view p) h) hs"
  from queue_packet_law [OF assms(1,2,5), of now ty] obtain q' p' new where
    r: "queue_packet P now ty d q p = Some (q', p')" "pinv p'" "holds (view p') q' (?kept @ new)"
      "new = [] \<or> (\<exists>h. new = [h] \<and> length ?kept < MAX_PENDING_PACKETS \<and> (h \<notin> set hs \<longrightarrow> view p h = None))"
      "\<forall>h. h \<notin> set hs \<longrightarrow> h \<notin> set new \<longrightarrow> view p' h = view p h" by blast
  have s2: "seg (view p) (packet_queue_head q2) hs2 None" using assms(3) by (simp add: holds_def)
  have new: "h \<notin> set new" if "h \<in> set hs2" for h
    using that r(4) seg_live [OF s2 that] assms(4) by (metis disjoint_iff empty_iff empty_set option.distinct(1) set_ConsD)
  have same: "view p' h = view p h" if "h \<in> set hs2" for h using r(5) new that assms(4) by blast
  have "holds (view p') q2 hs2"
    using assms(3) seg_frame [OF s2, of "view p'"] same by (simp add: holds_def)
  moreover have "length (?kept @ new) \<le> MAX_PENDING_PACKETS"
    using r(4) assms(6) le_trans [OF length_filter_le] by auto
  moreover have "set (?kept @ new) \<inter> set hs2 = {}" using new assms(4) by auto
  ultimately show ?thesis using r(1-3) same by blast
qed

end

section \<open>What the queue does\<close>

text \<open>The packets of a queue that are still fresh, and the pool once the others are dropped.\<close>

definition fresh_packets :: "instant \<Rightarrow> (handle \<Rightarrow> queued option) \<Rightarrow> handle list \<Rightarrow> handle list" where
  "fresh_packets now v hs = filter (\<lambda>h. \<not> expired now v h) hs"

definition without_expired :: "instant \<Rightarrow> (handle \<Rightarrow> queued option) \<Rightarrow> handle list \<Rightarrow> handle \<Rightarrow> queued option" where
  "without_expired now v hs h = (if h \<in> set hs \<and> expired now v h then None else v h)"

lemma heap_room_content:
  assumes "content v = content w"
  shows "heap_room N BYTES n v = heap_room N BYTES n w"
proof -
  have "v h = None \<longleftrightarrow> w h = None" for h using fun_cong [OF assms, of h] content_None by metis
  then have "dom v = dom w" by (simp add: dom_def)
  moreover have "length (q_data (the (v h))) = length (q_data (the (w h)))" if "h \<in> dom v" for h
  proof -
    from that calculation obtain x y where "v h = Some x" "w h = Some y" by blast
    then show ?thesis using fun_cong [OF assms, of h] by (simp add: content_def)
  qed
  ultimately show ?thesis by (simp add: heap_room_def cong: sum.cong)
qed

text \<open>C23. Queueing a packet, in the build with allocation: the call returns; the queue afterwards is the
  packets that were queued and have not expired, in their order, followed by the new packet exactly when fewer
  than eight of them remain and the pool, without the expired ones, has a handle and the bytes
  for it; the packets kept have their content, and nothing outside the queue changes.\<close>

theorem queue_packet_fifo:
  assumes "heap_inv N BYTES p" and "holds (heap_view p) q hs" and "length d \<le> MAX_PACKET_SIZE"
  shows "\<exists>q' p' new. queue_packet (heap_ops N BYTES) now ty d q p = Some (q', p') \<and> heap_inv N BYTES p' \<and>
    holds (heap_view p') q' (fresh_packets now (heap_view p) hs @ new) \<and>
    (if length (fresh_packets now (heap_view p) hs) < MAX_PENDING_PACKETS \<and>
        heap_room N BYTES (length d) (without_expired now (heap_view p) hs)
     then \<exists>h. new = [h] \<and> h \<notin> set (fresh_packets now (heap_view p) hs) \<and> content (heap_view p') h = Some (ty, d, now) \<and>
       (h \<notin> set hs \<longrightarrow> heap_view p h = None)
     else new = []) \<and>
    (\<forall>h\<in>set (fresh_packets now (heap_view p) hs). content (heap_view p') h = content (heap_view p) h) \<and>
    (\<forall>h. h \<notin> set hs \<longrightarrow> h \<notin> set new \<longrightarrow> heap_view p' h = heap_view p h)"
proof -
  have "content (without_expired now (heap_view p) hs) = (\<lambda>h. if h \<in> set hs \<and> expired now (heap_view p) h then None else content (heap_view p) h)"
    by (auto simp: fun_eq_iff content_def without_expired_def)
  then have room: "content v = (\<lambda>h. if h \<in> set hs \<and> expired now (heap_view p) h then None else content (heap_view p) h) \<Longrightarrow>
      heap_room N BYTES (length d) v = heap_room N BYTES (length d) (without_expired now (heap_view p) hs)" for v
    by (intro heap_room_content) simp
  from heap.queue_packet_exact [OF assms, of now ty] obtain q' p' new p1 where
    r: "queue_packet (heap_ops N BYTES) now ty d q p = Some (q', p')" "heap_inv N BYTES p'"
      "holds (heap_view p') q' (fresh_packets now (heap_view p) hs @ new)"
      "content (heap_view p1) = (\<lambda>h. if h \<in> set hs \<and> expired now (heap_view p) h then None else content (heap_view p) h)"
      "new = [] \<longleftrightarrow> MAX_PENDING_PACKETS \<le> length (fresh_packets now (heap_view p) hs) \<or> \<not> heap_room N BYTES (length d) (heap_view p1)"
      "new = [] \<or> (\<exists>h. new = [h] \<and> h \<notin> set (fresh_packets now (heap_view p) hs) \<and> content (heap_view p') h = Some (ty, d, now) \<and>
         length (fresh_packets now (heap_view p) hs) < MAX_PENDING_PACKETS \<and> (h \<notin> set hs \<longrightarrow> heap_view p h = None))"
      "\<forall>h\<in>set (fresh_packets now (heap_view p) hs). content (heap_view p') h = content (heap_view p) h"
      "\<forall>h. h \<notin> set hs \<longrightarrow> h \<notin> set new \<longrightarrow> heap_view p' h = heap_view p h"
    unfolding fresh_packets_def [symmetric] by blast
  with room [OF r(4)] show ?thesis by (intro exI [of _ q'] exI [of _ p'] exI [of _ new]) auto
qed

theorem queue_packet_fifo_witness:
  "\<exists>q' p' h. queue_packet (heap_ops 4 100) 5 4 [1, 2] queue_new heap_new = Some (q', p') \<and> heap_inv 4 100 p' \<and>
    holds (heap_view p') q' [h] \<and> content (heap_view p') h = Some (4, [1, 2], 5)"
proof -
  have "heap_view heap_new = Map.empty" by (simp add: fun_eq_iff heap_view_def heap_slot_at_def heap_new_def)
  then have "heap_room 4 100 (length [1, 2 :: u8]) (without_expired 5 (heap_view heap_new) [])"
    by (simp add: heap_room_def without_expired_def MAX_PACKET_SIZE_def MTU_def dom_def)
  then show ?thesis
    using queue_packet_fifo [OF heap_inv_new [of 4 100] holds_new, of "[1, 2]" 5 4]
    by (auto simp: MAX_PACKET_SIZE_def MTU_def MAX_PENDING_PACKETS_def fresh_packets_def)
qed

text \<open>Tunnels sharing a pool are isolated, in the build over a byte arena: queueing on one tunnel (which also
  drops its expired packets) keeps its queue within eight packets, and leaves the other tunnel's
  queue, its packets and their bytes untouched.\<close>

theorem queue_packet_isolated:
  assumes "arena_inv p" and "holds (arena_view p) q hs" and "holds (arena_view p) q2 hs2" and "set hs \<inter> set hs2 = {}"
    and "length d \<le> MAX_PACKET_SIZE" and "length hs \<le> MAX_PENDING_PACKETS"
  shows "\<exists>q' p' hs'. queue_packet arena_ops now ty d q p = Some (q', p') \<and> arena_inv p' \<and>
    holds (arena_view p') q' hs' \<and> length hs' \<le> MAX_PENDING_PACKETS \<and>
    holds (arena_view p') q2 hs2 \<and> set hs' \<inter> set hs2 = {} \<and> (\<forall>h\<in>set hs2. arena_view p' h = arena_view p h)"
  using arena.queue_isolation [OF assms] .

theorem queue_packet_isolated_witness:
  "\<exists>q' p' hs'. queue_packet arena_ops 5 4 [1, 2] queue_new (arena_new 3 50) = Some (q', p') \<and> arena_inv p' \<and>
    holds (arena_view p') q' hs' \<and> length hs' \<le> MAX_PENDING_PACKETS \<and>
    holds (arena_view p') queue_new [] \<and> set hs' \<inter> set [] = {} \<and>
    (\<forall>h\<in>set []. arena_view p' h = arena_view (arena_new 3 50) h)"
  by (rule queue_packet_isolated [OF arena_inv_new holds_new holds_new])
    (simp_all add: MAX_PACKET_SIZE_def MTU_def)

text \<open>Dequeueing takes the oldest packet, keeps its content for the caller, and leaves the others; requeueing
  that handle puts it back at the front, so a failed flush does not reorder packets.\<close>

theorem dequeue_requeue_front:
  assumes "heap_inv N BYTES p" and "holds (heap_view p) q (h # hs)" and "length hs < MAX_PENDING_PACKETS"
  shows "\<exists>q1 p1 q2 p2. dequeue_packet (heap_ops N BYTES) q p = Some (Some h, q1, p1) \<and> holds (heap_view p1) q1 hs \<and>
    requeue_packet (heap_ops N BYTES) h q1 p1 = Some (q2, p2) \<and> holds (heap_view p2) q2 (h # hs) \<and>
    heap_inv N BYTES p2 \<and> content (heap_view p2) = content (heap_view p)"
proof -
  from heap.dequeue_law [OF assms(1,2)] obtain q1 p1 where
    1: "dequeue_packet (heap_ops N BYTES) q p = Some (Some h, q1, p1)" "heap_inv N BYTES p1" "holds (heap_view p1) q1 hs"
      "content (heap_view p1) = content (heap_view p)" by blast
  have "heap_view p h \<noteq> None" "h \<notin> set hs" using assms(2) by (auto simp: holds_def)
  then obtain x where "heap_view p1 h = Some x" using 1(4) by (metis content_None option.exhaust)
  from heap.requeue_law [OF 1(2,3) this \<open>h \<notin> set hs\<close> assms(3)] 1 show ?thesis by metis
qed

text \<open>Clearing a tunnel's queue frees every packet of it and nothing else.\<close>

theorem clear_packet_queue_frees:
  assumes "heap_inv N BYTES p" and "holds (heap_view p) q hs"
  shows "\<exists>q' p'. clear_packet_queue (heap_ops N BYTES) q p = Some (q', p') \<and> heap_inv N BYTES p' \<and>
    holds (heap_view p') q' [] \<and> heap_view p' = (\<lambda>h. if h \<in> set hs then None else heap_view p h)"
  using heap.clear_law [OF assms] .

text \<open>A pool with one queued packet, for the witnesses.\<close>

lemma sample_queue:
  "\<exists>p (q :: packet_queue) h. heap_inv 4 100 p \<and> holds (heap_view p) q [h]"
proof -
  obtain p where p: "heap_alloc 4 100 4 [1, 2] 5 heap_new = Some (Some 0, p)"
    by (simp add: heap_alloc_def heap_new_def heap_free_slot_def MAX_PACKET_SIZE_def MTU_def)
  from heap_alloc_law [OF heap_inv_new, of 4 100 4 "[1, 2]" 5] p
  have "heap_inv 4 100 p" "heap_view p 0 = Some \<lparr>q_type = 4, q_data = [1, 2], q_at = 5, q_next = None\<rparr>" by auto
  then have "heap_inv 4 100 p \<and>
      holds (heap_view p) \<lparr>packet_queue_head = Some 0, packet_queue_tail = Some 0, packet_queue_len = 1\<rparr> [0]"
    by (simp add: holds_def last_opt_def)
  then show ?thesis by blast
qed

theorem dequeue_requeue_front_witness:
  "\<exists>p (q :: packet_queue) h q1 p1 q2 p2. dequeue_packet (heap_ops 4 100) q p = Some (Some h, q1, p1) \<and> holds (heap_view p1) q1 [] \<and>
    requeue_packet (heap_ops 4 100) h q1 p1 = Some (q2, p2) \<and> holds (heap_view p2) q2 [h]"
proof -
  obtain p and q :: packet_queue and h where "heap_inv 4 100 p" "holds (heap_view p) q [h]" using sample_queue by blast
  from dequeue_requeue_front [OF this] show ?thesis by (simp add: MAX_PENDING_PACKETS_def) blast
qed

theorem clear_packet_queue_frees_witness:
  "\<exists>p (q :: packet_queue) h q' p'. holds (heap_view p) q [h] \<and> clear_packet_queue (heap_ops 4 100) q p = Some (q', p') \<and>
    holds (heap_view p') q' [] \<and> heap_view p' h = None"
proof -
  obtain p and q :: packet_queue and h where pq: "heap_inv 4 100 p" "holds (heap_view p) q [h]" using sample_queue by blast
  from clear_packet_queue_frees [OF pq] obtain q' p' where "clear_packet_queue (heap_ops 4 100) q p = Some (q', p')"
    "holds (heap_view p') q' []" "heap_view p' = (\<lambda>k. if k \<in> set [h] then None else heap_view p k)" by blast
  moreover from this have "heap_view p' h = None" by simp
  ultimately show ?thesis using pq(2) by blast
qed

end
