(* ===== verification/Relay_Envelope.thy ===== *)
theory Relay_Envelope
  imports Packets
begin

text \<open>
  The relay envelope of \<^verbatim>\<open>noise/relay.rs\<close>: the 36-byte header a device puts before a
  WireGuard packet it hands to a relay, the hop limit that stops forwarding loops, and the check
  a relay makes of the inner packet. A public key is its 32 bytes.
\<close>

section \<open>Layout\<close>

definition ENVELOPE_VERSION :: u8 where "ENVELOPE_VERSION = 0x01"
definition DEFAULT_HOP_LIMIT :: u8 where "DEFAULT_HOP_LIMIT = 8"
definition ENVELOPE_VERSION_OFFSET :: nat where "ENVELOPE_VERSION_OFFSET = 0"
definition ENVELOPE_HOP_LIMIT_OFFSET :: nat where "ENVELOPE_HOP_LIMIT_OFFSET = 1"
definition ENVELOPE_INNER_LEN_OFFSET :: nat where "ENVELOPE_INNER_LEN_OFFSET = 2"
definition ENVELOPE_INNER_LEN_SIZE :: nat where "ENVELOPE_INNER_LEN_SIZE = 2"
definition ENVELOPE_DESTINATION_OFFSET :: nat where "ENVELOPE_DESTINATION_OFFSET = 4"
definition ENVELOPE_DESTINATION_SIZE :: nat where "ENVELOPE_DESTINATION_SIZE = 32"

lemmas envelope_consts =
  ENVELOPE_VERSION_def DEFAULT_HOP_LIMIT_def ENVELOPE_HEADER_SIZE_def ENVELOPE_VERSION_OFFSET_def
  ENVELOPE_HOP_LIMIT_OFFSET_def ENVELOPE_INNER_LEN_OFFSET_def ENVELOPE_INNER_LEN_SIZE_def
  ENVELOPE_DESTINATION_OFFSET_def ENVELOPE_DESTINATION_SIZE_def

datatype RelayError =
    BufferTooSmall
  | TooShort
  | UnsupportedVersion u8
  | HopLimitExhausted
  | InnerPacketTooLarge
  | TooShortForType
  | InvalidMessageType u32

record Envelope =
  env_bytes :: bytes
  env_inner_len :: nat

section \<open>Operations\<close>

definition envelope_parse :: "bytes \<Rightarrow> RelayError + Envelope" where
  "envelope_parse b =
     (if length b < ENVELOPE_HEADER_SIZE then Inl TooShort
      else let version = b ! ENVELOPE_VERSION_OFFSET in
        if version \<noteq> ENVELOPE_VERSION then Inl (UnsupportedVersion version)
        else if b ! ENVELOPE_HOP_LIMIT_OFFSET = 0 then Inl HopLimitExhausted
        else let inner_len = unat (from_le_bytes
                   (slice ENVELOPE_INNER_LEN_OFFSET (ENVELOPE_INNER_LEN_OFFSET + ENVELOPE_INNER_LEN_SIZE) b) :: u16) in
          if ENVELOPE_HEADER_SIZE + inner_len > length b then Inl TooShort
          else Inr \<lparr>env_bytes = b, env_inner_len = inner_len\<rparr>)"

definition envelope_destination :: "Envelope \<Rightarrow> bytes" where
  "envelope_destination e = slice ENVELOPE_DESTINATION_OFFSET ENVELOPE_HEADER_SIZE (env_bytes e)"

definition envelope_inner_packet :: "Envelope \<Rightarrow> bytes" where
  "envelope_inner_packet e = slice ENVELOPE_HEADER_SIZE (ENVELOPE_HEADER_SIZE + env_inner_len e) (env_bytes e)"

definition envelope_inner_packet_len :: "Envelope \<Rightarrow> nat" where
  "envelope_inner_packet_len e = env_inner_len e"

definition decrement_hop_limit :: "Envelope \<Rightarrow> RelayError + Envelope" where
  "decrement_hop_limit e =
     (if env_bytes e ! ENVELOPE_HOP_LIMIT_OFFSET \<le> 1 then Inl HopLimitExhausted
      else Inr (e\<lparr>env_bytes := (env_bytes e)[ENVELOPE_HOP_LIMIT_OFFSET := env_bytes e ! ENVELOPE_HOP_LIMIT_OFFSET - 1]\<rparr>))"

text \<open>The result is the written prefix of the buffer.\<close>

definition build_envelope :: "bytes \<Rightarrow> bytes \<Rightarrow> bytes \<Rightarrow> RelayError + bytes" where
  "build_envelope dst destination inner_packet =
     (if length inner_packet > 0xffff then Inl InnerPacketTooLarge
      else let envelope_len = ENVELOPE_HEADER_SIZE + length inner_packet in
        if length dst < envelope_len then Inl BufferTooSmall
        else
          let dst1 = copy_into 0 (replicate ENVELOPE_HEADER_SIZE 0) dst;
              dst2 = dst1[ENVELOPE_VERSION_OFFSET := ENVELOPE_VERSION];
              dst3 = dst2[ENVELOPE_HOP_LIMIT_OFFSET := DEFAULT_HOP_LIMIT];
              dst4 = copy_into ENVELOPE_INNER_LEN_OFFSET (to_le_bytes 2 (of_nat (length inner_packet) :: u16)) dst3;
              dst5 = copy_into ENVELOPE_DESTINATION_OFFSET destination dst4;
              dst6 = copy_into ENVELOPE_HEADER_SIZE inner_packet dst5
          in Inr (take envelope_len dst6))"

definition validate_inner_packet :: "bytes \<Rightarrow> RelayError + unit" where
  "validate_inner_packet inner =
     (if length inner < 4 then Inl TooShortForType
      else let message_type = from_le_bytes (slice 0 4 inner) in
        if message_type = HANDSHAKE_INIT \<and> length inner = HANDSHAKE_INIT_SZ then Inr ()
        else if message_type = HANDSHAKE_RESP \<and> length inner = HANDSHAKE_RESP_SZ then Inr ()
        else if message_type = COOKIE_REPLY \<and> length inner = COOKIE_REPLY_SZ then Inr ()
        else if message_type = DATA \<and> length inner \<ge> DATA_OVERHEAD_SZ then Inr ()
        else if message_type \<in> {HANDSHAKE_INIT, HANDSHAKE_RESP, COOKIE_REPLY, DATA} then Inl TooShortForType
        else Inl (InvalidMessageType message_type))"

section \<open>Lemmas\<close>

lemma build_envelope_eq:
  assumes "length destination = 32"
  shows "build_envelope dst destination inner =
    (if length inner > 0xffff then Inl InnerPacketTooLarge
     else if length dst < 36 + length inner then Inl BufferTooSmall
     else Inr ([1, 8] @ to_le_bytes 2 (of_nat (length inner) :: u16) @ destination @ inner))"
proof (cases "length inner > 0xffff \<or> length dst < 36 + length inner")
  case False
  define lenb where "lenb = to_le_bytes 2 (of_nat (length inner) :: u16)"
  have lenb: "length lenb = 2" by (simp add: lenb_def)
  have r: "replicate 36 0 = [0, 0] @ replicate 2 0 @ replicate 32 (0 :: u8)"
    by (simp add: numeral_eq_Suc)
  have "copy_into 0 (replicate 36 0) dst = [0, 0] @ replicate 2 0 @ replicate 32 0 @ drop 36 dst"
    unfolding copy_into_def r by simp
  then have "build_envelope dst destination inner = Inr (take (36 + length inner)
      (copy_into 36 inner (copy_into 4 destination (copy_into 2 lenb
        (([0, 0] @ replicate 2 0 @ replicate 32 0 @ drop 36 dst)[0 := 1, 1 := 8])))))"
    using False by (simp add: build_envelope_def envelope_consts Let_def lenb_def [symmetric])
  also have "\<dots> = Inr ([1, 8] @ lenb @ destination @ inner)"
  proof -
    have "length ([1, 8] @ lenb @ destination @ inner) = 36 + length inner" using lenb assms by simp
    then have "take (36 + length inner) (([1, 8] @ lenb @ destination @ inner) @ zs) = [1, 8] @ lenb @ destination @ inner" for zs
      by (subst take_append) simp
    then show ?thesis using lenb assms by (simp add: copy_into_def)
  qed
  finally show ?thesis using False by (simp add: lenb_def)
qed (auto simp: build_envelope_def envelope_consts Let_def)

lemma unat_le2_length:
  assumes "n \<le> 0xffff"
  shows "unat (from_le_bytes (to_le_bytes 2 (of_nat n :: u16)) :: u16) = n"
  using assms by (simp add: unat_of_nat_small)

lemma envelope_parse_layout:
  assumes "length destination = 32" "length inner \<le> 0xffff" "h \<noteq> 0"
  shows "envelope_parse ([1, h] @ to_le_bytes 2 (of_nat (length inner) :: u16) @ destination @ inner @ pad) =
    Inr \<lparr>env_bytes = [1, h] @ to_le_bytes 2 (of_nat (length inner) :: u16) @ destination @ inner @ pad,
         env_inner_len = length inner\<rparr>"
proof -
  have "slice 2 4 ([1, h] @ to_le_bytes 2 (of_nat (length inner) :: u16) @ destination @ inner @ pad) =
      to_le_bytes 2 (of_nat (length inner) :: u16)"
    by (simp add: slice_def)
  then show ?thesis
    using assms unat_le2_length [OF assms(2)] by (simp add: envelope_parse_def envelope_consts Let_def)
qed

lemma envelope_fields_layout:
  assumes "length destination = 32" "length lenb = 2"
  shows "envelope_destination \<lparr>env_bytes = [v, h] @ lenb @ destination @ inner @ pad, env_inner_len = length inner\<rparr> = destination"
    and "envelope_inner_packet \<lparr>env_bytes = [v, h] @ lenb @ destination @ inner @ pad, env_inner_len = length inner\<rparr> = inner"
  using assms by (simp_all add: envelope_destination_def envelope_inner_packet_def envelope_consts slice_def)

section \<open>Forwarding\<close>

text \<open>What each relay on the way does to the plaintext it decrypted: parse it, take one from the hop
  limit, and send the bytes on.\<close>

definition relay_hop :: "bytes \<Rightarrow> RelayError + bytes" where
  "relay_hop b = (case envelope_parse b of
     Inl e \<Rightarrow> Inl e
   | Inr env \<Rightarrow> (case decrement_hop_limit env of Inl e \<Rightarrow> Inl e | Inr env' \<Rightarrow> Inr (env_bytes env')))"

fun relay_hops :: "nat \<Rightarrow> bytes \<Rightarrow> RelayError + bytes" where
  "relay_hops 0 b = Inr b"
| "relay_hops (Suc n) b = (case relay_hop b of Inl e \<Rightarrow> Inl e | Inr b' \<Rightarrow> relay_hops n b')"

lemma relay_hop_layout:
  assumes "length destination = 32" "length inner \<le> 0xffff" "h \<noteq> 0"
  shows "relay_hop ([1, h] @ to_le_bytes 2 (of_nat (length inner) :: u16) @ destination @ inner @ pad) =
    (if h \<le> 1 then Inl HopLimitExhausted
     else Inr ([1, h - 1] @ to_le_bytes 2 (of_nat (length inner) :: u16) @ destination @ inner @ pad))"
  unfolding relay_hop_def envelope_parse_layout [OF assms]
  by (simp add: decrement_hop_limit_def envelope_consts)

lemma relay_hops_layout:
  assumes "length destination = 32" "length inner \<le> 0xffff" "h \<noteq> 0"
  shows "relay_hops n ([1, h] @ to_le_bytes 2 (of_nat (length inner) :: u16) @ destination @ inner @ pad) =
    (if n < unat h then Inr ([1, h - of_nat n] @ to_le_bytes 2 (of_nat (length inner) :: u16) @ destination @ inner @ pad)
     else Inl HopLimitExhausted)"
  using assms(3)
proof (induction n arbitrary: h)
  case 0
  then show ?case by (simp add: unat_gt_0)
next
  case (Suc n)
  show ?case
  proof (cases "h \<le> 1")
    case True
    then have "unat h \<le> 1" by (simp add: word_le_nat_alt)
    with True relay_hop_layout [OF assms(1,2) Suc.prems, of pad] show ?thesis by simp
  next
    case False
    then have h: "1 < unat h" by (simp add: word_le_nat_alt)
    then have u: "unat (h - 1) = unat h - 1" by (subst unat_minus_le) (simp_all add: word_le_nat_alt)
    with h have "h - 1 \<noteq> 0" by (metis diff_is_0_eq leD unat_0)
    from Suc.IH [OF this] relay_hop_layout [OF assms(1,2) Suc.prems, of pad] False u h
    show ?thesis by (auto simp: algebra_simps)
  qed
qed

section \<open>Properties\<close>

text \<open>Building an envelope reports an oversized inner packet or a short buffer, in that order, and
  otherwise gives an envelope that survives up to seven relays and the zero padding of the
  transport: after \<open>n < 8\<close> hops the receiver parses it and reads the destination and the inner
  packet that were put in; an eighth relay refuses it.\<close>

theorem relay_envelope_delivery:
  assumes dest: "length destination = 32"
  shows "case build_envelope dst destination inner of
      Inl e \<Rightarrow> (e = InnerPacketTooLarge \<and> length inner > 0xffff) \<or>
               (e = BufferTooSmall \<and> length inner \<le> 0xffff \<and> length dst < ENVELOPE_HEADER_SIZE + length inner)
    | Inr out \<Rightarrow> (case relay_hops n (out @ pad) of
        Inl e \<Rightarrow> e = HopLimitExhausted \<and> 8 \<le> n
      | Inr b \<Rightarrow> n < 8 \<and> (\<exists>env. envelope_parse b = Inr env \<and> envelope_destination env = destination \<and>
          envelope_inner_packet env = inner \<and> envelope_inner_packet_len env = length inner))"
proof (cases "length inner > 0xffff \<or> length dst < 36 + length inner")
  case True
  then show ?thesis by (auto simp: build_envelope_eq [OF dest] ENVELOPE_HEADER_SIZE_def)
next
  case False
  let ?l = "to_le_bytes 2 (of_nat (length inner) :: u16)"
  have len: "length inner \<le> 0xffff" using False by simp
  have build: "build_envelope dst destination inner = Inr ([1, 8] @ ?l @ destination @ inner)"
    using False by (simp add: build_envelope_eq [OF dest])
  have hops: "relay_hops n (([1, 8] @ ?l @ destination @ inner) @ pad) =
      (if n < 8 then Inr ([1, 8 - of_nat n] @ ?l @ destination @ inner @ pad) else Inl HopLimitExhausted)"
    using relay_hops_layout [OF dest len, of 8 n pad] by simp
  show ?thesis
  proof (cases "n < 8")
    case True
    then have "(8 :: u8) - of_nat n \<noteq> 0"
      using unat_of_nat_small [where 'a = 8, of n] by (auto simp: eq_iff_diff_eq_0 [symmetric])
    from envelope_parse_layout [OF dest len this, of pad] envelope_fields_layout [OF dest, of ?l] True
    show ?thesis unfolding build sum.case hops by (simp add: envelope_inner_packet_len_def)
  next
    case False
    then show ?thesis unfolding build sum.case hops by simp
  qed
qed

theorem relay_envelope_delivery_witness:
  "case build_envelope (replicate 40 0) (replicate 32 7) [1, 2, 3] of
     Inl _ \<Rightarrow> False
   | Inr b \<Rightarrow> (\<exists>env. envelope_parse (b @ [0]) = Inr env \<and> envelope_destination env = replicate 32 7 \<and>
       envelope_inner_packet env = [1, 2, 3])"
  using relay_envelope_delivery [where destination = "replicate 32 7" and dst = "replicate 40 0"
      and inner = "[1, 2, 3]" and n = 0 and pad = "[0]"]
  by (auto simp: ENVELOPE_HEADER_SIZE_def split: sum.splits)

text \<open>A relay forwards exactly the inner packets that the receiver's parser accepts as one of the four
  WireGuard messages; a nested relay packet and an unknown type are refused with their type.\<close>

theorem validate_inner_packet_exact:
  "(validate_inner_packet inner = Inr () \<longleftrightarrow>
      (\<exists>p. parse_incoming_packet inner = Inr p \<and> (\<nexists>d. p = PRelayData d))) \<and>
   (validate_inner_packet inner = Inl (InvalidMessageType t) \<longleftrightarrow>
      4 \<le> length inner \<and> t = from_le_bytes (slice 0 4 inner) \<and> t \<notin> {HANDSHAKE_INIT, HANDSHAKE_RESP, COOKIE_REPLY, DATA})"
  by (auto simp: validate_inner_packet_def parse_incoming_packet_def message_consts Let_def)

end
