(* ===== verification/Tunnel.thy ===== *)
theory Tunnel
  imports Rate_Limiter Tunnel_Queue Relay_Envelope
begin

text \<open>
  The tunnel to one peer (\<^verbatim>\<open>noise/mod.rs\<close>, \<^verbatim>\<open>noise/timers.rs\<close>): its ring of sessions, its
  handshake, its pending packets and its timers, and every handler of \<^verbatim>\<open>Tunn\<close>. The clock, the
  ephemeral secrets and the packet pool are arguments. A handler returns its result, the tunnel and,
  where it uses it, the pool; \<open>Panic\<close> is a panic of the source, of a \<^verbatim>\<open>Duration\<close> that would be
  negative among others.
\<close>

section \<open>Timers\<close>

definition N_SESSIONS :: nat where "N_SESSIONS = 3"
definition REKEY_AFTER_TIME :: duration where "REKEY_AFTER_TIME = 120 * SECOND"
definition REJECT_AFTER_TIME :: duration where "REJECT_AFTER_TIME = 180 * SECOND"
definition REKEY_ATTEMPT_TIME :: duration where "REKEY_ATTEMPT_TIME = 90 * SECOND"
definition REKEY_TIMEOUT :: duration where "REKEY_TIMEOUT = 5 * SECOND"
definition KEEPALIVE_TIMEOUT :: duration where "KEEPALIVE_TIMEOUT = 10 * SECOND"
definition COOKIE_EXPIRATION_TIME :: duration where "COOKIE_EXPIRATION_TIME = 120 * SECOND"

datatype TimerName =
    TimeCurrent
  | TimeSessionEstablished
  | TimeLastHandshakeStarted
  | TimeLastPacketReceived
  | TimeLastPacketSent
  | TimeLastDataPacketReceived
  | TimeLastDataPacketSent
  | TimeCookieReceived
  | TimePersistentKeepalive

record Timers =
  is_initiator :: bool
  time_started :: instant
  timer_values :: "TimerName \<Rightarrow> duration"
  session_timers :: "duration list"
  want_keepalive :: bool
  want_handshake :: bool
  send_initial_keepalive :: bool
  keepalive_secs :: nat

definition timers_new :: "instant \<Rightarrow> u16 option \<Rightarrow> Timers" where
  "timers_new now persistent_keepalive =
     (let secs = (case persistent_keepalive of None \<Rightarrow> 0 | Some k \<Rightarrow> unat k) in
      \<lparr>is_initiator = False, time_started = now, timer_values = (\<lambda>_. 0),
       session_timers = replicate N_SESSIONS 0, want_keepalive = False, want_handshake = False,
       send_initial_keepalive = secs > 0, keepalive_secs = secs\<rparr>)"

definition timers_clear :: "instant \<Rightarrow> Timers \<Rightarrow> Timers" where
  "timers_clear now t =
     t\<lparr>timer_values := (\<lambda>_. now - time_started t), want_handshake := False, want_keepalive := False,
       send_initial_keepalive := keepalive_secs t > 0\<rparr>"

definition tick_timers :: "TimerName \<Rightarrow> Timers \<Rightarrow> Timers" where
  "tick_timers name t =
     (let t1 = (case name of
            TimeLastPacketReceived \<Rightarrow> t\<lparr>want_keepalive := True, want_handshake := False\<rparr>
          | TimeLastPacketSent \<Rightarrow> t\<lparr>want_handshake := True, want_keepalive := False\<rparr>
          | _ \<Rightarrow> t)
      in t1\<lparr>timer_values := (timer_values t1)(name := timer_values t1 TimeCurrent)\<rparr>)"

text \<open>Subtraction of durations panics below zero.\<close>

definition dur_sub :: "duration \<Rightarrow> duration \<Rightarrow> duration run" where
  "dur_sub a b = (if b \<le> a then Ret (a - b) else Panic)"

section \<open>The tunnel\<close>

record Tunn = packet_queue +
  tn_stamper :: TimeStamper
  tn_handshake :: Handshake
  tn_sessions :: "Session option list"
  tn_current :: nat
  tn_timers :: Timers
  tn_tx_bytes :: nat
  tn_rx_bytes :: nat
  tn_tx_packets :: nat
  tn_rx_packets :: nat

definition tunn_new :: "crypto \<Rightarrow> instant \<Rightarrow> bytes \<Rightarrow> bytes \<Rightarrow> u16 option \<Rightarrow> u32 \<Rightarrow> TimeStamper \<Rightarrow> Tunn" where
  "tunn_new C now priv peer_pub persistent_keepalive index stamper =
     \<lparr>packet_queue_head = None, packet_queue_tail = None, packet_queue_len = 0,
      tn_stamper = stamper, tn_handshake = handshake_new C priv (public_key C priv) peer_pub index,
      tn_sessions = replicate N_SESSIONS None, tn_current = 0, tn_timers = timers_new now persistent_keepalive,
      tn_tx_bytes = 0, tn_rx_bytes = 0, tn_tx_packets = 0, tn_rx_packets = 0\<rparr>"

definition tunn_is_expired :: "Tunn \<Rightarrow> bool" where
  "tunn_is_expired t = is_expired (tn_handshake t)"

definition timer_tick :: "TimerName \<Rightarrow> Tunn \<Rightarrow> Tunn" where
  "timer_tick name t = t\<lparr>tn_timers := tick_timers name (tn_timers t)\<rparr>"

definition timer_tick_session_established :: "bool \<Rightarrow> nat \<Rightarrow> Tunn \<Rightarrow> Tunn" where
  "timer_tick_session_established initiator session_idx t =
     (let t1 = timer_tick TimeSessionEstablished t; ts = tn_timers t1
      in t1\<lparr>tn_timers := ts\<lparr>session_timers := (session_timers ts)[session_idx mod N_SESSIONS := timer_values ts TimeCurrent],
            is_initiator := initiator\<rparr>\<rparr>)"

definition set_current_session :: "nat \<Rightarrow> Tunn \<Rightarrow> Tunn" where
  "set_current_session new_idx t =
     (let cur_idx = tn_current t in
      if cur_idx = new_idx then t
      else if tn_sessions t ! (cur_idx mod N_SESSIONS) = None \<or>
        session_timers (tn_timers t) ! (new_idx mod N_SESSIONS) \<ge> session_timers (tn_timers t) ! (cur_idx mod N_SESSIONS)
      then t\<lparr>tn_current := new_idx\<rparr> else t)"

subsection \<open>Handshakes\<close>

definition tunn_format_handshake_initiation ::
  "crypto \<Rightarrow> instant \<Rightarrow> bytes \<Rightarrow> nat \<Rightarrow> bool \<Rightarrow> Tunn \<Rightarrow> (TunnResult \<times> Tunn) run" where
  "tunn_format_handshake_initiation C now eph dst_len force_resend t =
     (if is_in_progress (tn_handshake t) \<and> \<not> force_resend then Ret (Done, t)
      else
        let t1 = (if is_expired (tn_handshake t) then t\<lparr>tn_timers := timers_clear now (tn_timers t)\<rparr> else t);
            starting_new_handshake = (\<not> is_in_progress (tn_handshake t1))
        in run_bind (format_handshake_initiation C now eph dst_len (tn_stamper t1) (tn_handshake t1)) (\<lambda>(r, h).
        let t2 = t1\<lparr>tn_handshake := h\<rparr> in
        case r of
          Inl e \<Rightarrow> Ret (Err e, t2)
        | Inr packet \<Rightarrow>
            let t3 = (if starting_new_handshake then timer_tick TimeLastHandshakeStarted t2 else t2);
                t4 = timer_tick TimeLastPacketSent t3
            in Ret (WriteToNetwork packet, t4\<lparr>tn_tx_packets := tn_tx_packets t4 + 1\<rparr>)))"

definition handle_handshake_init ::
  "crypto \<Rightarrow> bytes \<Rightarrow> nat \<Rightarrow> HandshakeInit \<Rightarrow> Tunn \<Rightarrow> ((WireGuardError + TunnResult) \<times> Tunn) run" where
  "handle_handshake_init C eph dst_len p t =
     run_bind (receive_handshake_initialization C eph dst_len p (tn_handshake t)) (\<lambda>(r, h).
     let t1 = t\<lparr>tn_handshake := h\<rparr> in
     case r of
       Inl e \<Rightarrow> Ret (Inl e, t1)
     | Inr (packet, session) \<Rightarrow>
         let index = unat (receiving_index session);
             t2 = t1\<lparr>tn_sessions := (tn_sessions t1)[index mod N_SESSIONS := Some session]\<rparr>;
             t3 = timer_tick TimeLastPacketSent (timer_tick TimeLastPacketReceived t2);
             t4 = t3\<lparr>tn_rx_packets := tn_rx_packets t3 + 1, tn_tx_packets := tn_tx_packets t3 + 1\<rparr>;
             t5 = timer_tick_session_established False index t4;
             t6 = set_current_session index t5
         in Ret (Inr (WriteToNetwork packet), t6))"

definition handle_handshake_response ::
  "crypto \<Rightarrow> instant \<Rightarrow> bytes \<Rightarrow> HandshakeResponse \<Rightarrow> Tunn \<Rightarrow> ((WireGuardError + TunnResult) \<times> Tunn) run" where
  "handle_handshake_response C now dst p t =
     run_bind (receive_handshake_response C now p (tn_handshake t)) (\<lambda>(r, h).
     let t1 = t\<lparr>tn_handshake := h\<rparr> in
     case r of
       Inl e \<Rightarrow> Ret (Inl e, t1)
     | Inr session \<Rightarrow>
         run_bind (format_packet_data C [] dst session) (\<lambda>(session', out).
         case out of
           None \<Rightarrow> Panic
         | Some keepalive \<Rightarrow>
             let l_idx = unat (receiving_index session');
                 index = l_idx mod N_SESSIONS;
                 t2 = t1\<lparr>tn_sessions := (tn_sessions t1)[index := Some session']\<rparr>;
                 t3 = timer_tick TimeLastPacketReceived t2;
                 t4 = t3\<lparr>tn_rx_packets := tn_rx_packets t3 + 1, tn_tx_packets := tn_tx_packets t3 + 1\<rparr>;
                 t5 = timer_tick_session_established True index t4;
                 t6 = set_current_session l_idx t5
             in Ret (Inr (WriteToNetwork keepalive), t6)))"

definition handle_cookie_reply :: "crypto \<Rightarrow> CookieReply \<Rightarrow> Tunn \<Rightarrow> ((WireGuardError + TunnResult) \<times> Tunn) run" where
  "handle_cookie_reply C p t =
     run_bind (receive_cookie_reply C p (tn_handshake t)) (\<lambda>(r, h).
     let t1 = t\<lparr>tn_handshake := h\<rparr> in
     case r of
       Inl e \<Rightarrow> Ret (Inl e, t1)
     | Inr _ \<Rightarrow>
         let t2 = timer_tick TimeLastPacketReceived t1;
             t3 = t2\<lparr>tn_rx_packets := tn_rx_packets t2 + 1\<rparr>
         in Ret (Inr Done, timer_tick TimeCookieReceived t3))"

subsection \<open>Data\<close>

text \<open>Encryption under the current session: the datagram, or \<open>None\<close> when there is no session or its
  counter is used up.\<close>

definition encrypt_current :: "crypto \<Rightarrow> u32 \<Rightarrow> bytes \<Rightarrow> bytes \<Rightarrow> Tunn \<Rightarrow> (bytes option \<times> Tunn) run" where
  "encrypt_current C packet_type src dst t =
     (case tn_sessions t ! (tn_current t mod N_SESSIONS) of
        None \<Rightarrow> Ret (None, t)
      | Some session \<Rightarrow>
          run_bind (format_packet_data_with_type C packet_type src dst session) (\<lambda>(session', out).
          Ret (out, t\<lparr>tn_sessions := (tn_sessions t)[tn_current t mod N_SESSIONS := Some session']\<rparr>)))"

definition after_sending :: "bytes \<Rightarrow> Tunn \<Rightarrow> Tunn" where
  "after_sending src t =
     (let t1 = timer_tick TimeLastPacketSent t;
          t2 = (if src \<noteq> [] then timer_tick TimeLastDataPacketSent t1 else t1)
      in t2\<lparr>tn_tx_bytes := tn_tx_bytes t2 + length src, tn_tx_packets := tn_tx_packets t2 + 1\<rparr>)"

definition from_option :: "'a option \<Rightarrow> 'a run" where
  "from_option r = (case r of None \<Rightarrow> Panic | Some x \<Rightarrow> Ret x)"

definition encapsulate_with_type ::
  "crypto \<Rightarrow> 'p pool_ops \<Rightarrow> instant \<Rightarrow> bytes \<Rightarrow> u32 \<Rightarrow> bytes \<Rightarrow> bytes \<Rightarrow> Tunn \<Rightarrow> 'p \<Rightarrow> (TunnResult \<times> Tunn \<times> 'p) run" where
  "encapsulate_with_type C P now eph packet_type src dst t pool =
     run_bind (encrypt_current C packet_type src dst t) (\<lambda>(written, t1).
     case written of
       Some packet \<Rightarrow> Ret (WriteToNetwork packet, after_sending src t1, pool)
     | None \<Rightarrow>
         run_bind (from_option (queue_packet P now packet_type src t1 pool)) (\<lambda>(t2, pool2).
         run_bind (tunn_format_handshake_initiation C now eph (length dst) False t2) (\<lambda>(r, t3).
         Ret (r, t3, pool2))))"

definition encapsulate ::
  "crypto \<Rightarrow> 'p pool_ops \<Rightarrow> instant \<Rightarrow> bytes \<Rightarrow> bytes \<Rightarrow> bytes \<Rightarrow> Tunn \<Rightarrow> 'p \<Rightarrow> (TunnResult \<times> Tunn \<times> 'p) run" where
  "encapsulate C P now eph src dst t pool = encapsulate_with_type C P now eph DATA src dst t pool"

definition encapsulate_relay ::
  "crypto \<Rightarrow> 'p pool_ops \<Rightarrow> instant \<Rightarrow> bytes \<Rightarrow> bytes \<Rightarrow> bytes \<Rightarrow> Tunn \<Rightarrow> 'p \<Rightarrow> (TunnResult \<times> Tunn \<times> 'p) run" where
  "encapsulate_relay C P now eph src dst t pool = encapsulate_with_type C P now eph RELAY_DATA src dst t pool"

definition flush_queued_packet ::
  "crypto \<Rightarrow> 'p pool_ops \<Rightarrow> bytes \<Rightarrow> Tunn \<Rightarrow> 'p \<Rightarrow> (TunnResult \<times> Tunn \<times> 'p) run" where
  "flush_queued_packet C P dst t pool =
     run_bind (from_option (dequeue_packet P t pool)) (\<lambda>(r, t1, pool1).
     case r of
       None \<Rightarrow> Ret (Done, t1, pool1)
     | Some h \<Rightarrow>
         run_bind (from_option (po_get P h pool1)) (\<lambda>(packet_type, data).
         run_bind (encrypt_current C packet_type data dst t1) (\<lambda>(written, t2).
         case written of
           Some packet \<Rightarrow>
             run_bind (from_option (po_free P h pool1)) (\<lambda>pool2.
             Ret (WriteToNetwork packet, after_sending data t2, pool2))
         | None \<Rightarrow>
             run_bind (from_option (requeue_packet P h t2 pool1)) (\<lambda>(t3, pool3).
             Ret (Done, t3, pool3)))))"

definition decrypt_raw_data ::
  "crypto \<Rightarrow> nat \<Rightarrow> Data \<Rightarrow> Tunn \<Rightarrow> ((WireGuardError + bytes) \<times> Tunn) run" where
  "decrypt_raw_data C dst_len packet t =
     (let r_idx = unat (d_receiver_idx packet); idx = r_idx mod N_SESSIONS in
      case tn_sessions t ! idx of
        None \<Rightarrow> Ret (Inl NoCurrentSession, t)
      | Some session \<Rightarrow>
          run_bind (case receive_packet_data C packet dst_len session of None \<Rightarrow> Panic | Some r \<Rightarrow> r) (\<lambda>(r, session').
          let t1 = t\<lparr>tn_sessions := (tn_sessions t)[idx := Some session']\<rparr> in
          case r of
            Inl e \<Rightarrow> Ret (Inl e, t1)
          | Inr plaintext \<Rightarrow>
              let t2 = timer_tick TimeLastPacketReceived (set_current_session r_idx t1)
              in Ret (Inr plaintext, t2\<lparr>tn_rx_packets := tn_rx_packets t2 + 1\<rparr>)))"

definition validate_decapsulated_packet :: "bytes \<Rightarrow> Tunn \<Rightarrow> TunnResult \<times> Tunn" where
  "validate_decapsulated_packet packet t =
     (case validate_ip_packet packet of
        WriteToInterfaceV4 p a \<Rightarrow>
          (let t1 = timer_tick TimeLastDataPacketReceived t
           in (WriteToInterfaceV4 p a, t1\<lparr>tn_rx_bytes := tn_rx_bytes t1 + length p\<rparr>))
      | WriteToInterfaceV6 p a \<Rightarrow>
          (let t1 = timer_tick TimeLastDataPacketReceived t
           in (WriteToInterfaceV6 p a, t1\<lparr>tn_rx_bytes := tn_rx_bytes t1 + length p\<rparr>))
      | r \<Rightarrow> (r, t))"

definition handle_data :: "crypto \<Rightarrow> nat \<Rightarrow> Data \<Rightarrow> Tunn \<Rightarrow> ((WireGuardError + TunnResult) \<times> Tunn) run" where
  "handle_data C dst_len packet t =
     run_bind (decrypt_raw_data C dst_len packet t) (\<lambda>(r, t1).
     case r of
       Inl e \<Rightarrow> Ret (Inl e, t1)
     | Inr plaintext \<Rightarrow> (case validate_decapsulated_packet plaintext t1 of (res, t2) \<Rightarrow> Ret (Inr res, t2)))"

definition handle_verified_packet ::
  "crypto \<Rightarrow> instant \<Rightarrow> bytes \<Rightarrow> bytes \<Rightarrow> Packet \<Rightarrow> Tunn \<Rightarrow> (TunnResult \<times> Tunn) run" where
  "handle_verified_packet C now eph dst packet t =
     run_bind (case packet of
         PHandshakeInit p \<Rightarrow> handle_handshake_init C eph (length dst) p t
       | PHandshakeResponse p \<Rightarrow> handle_handshake_response C now dst p t
       | PCookieReply p \<Rightarrow> handle_cookie_reply C p t
       | PData p \<Rightarrow> handle_data C (length dst) p t
       | PRelayData _ \<Rightarrow> Ret (Inl InvalidPacket, t))
     (\<lambda>(r, t1). Ret (case r of Inl e \<Rightarrow> Err e | Inr res \<Rightarrow> res, t1))"

definition handle_verified_relay_packet ::
  "crypto \<Rightarrow> nat \<Rightarrow> Packet \<Rightarrow> Tunn \<Rightarrow> ((WireGuardError + bytes) \<times> Tunn) run" where
  "handle_verified_relay_packet C dst_len packet t =
     (case packet of
        PRelayData p \<Rightarrow> decrypt_raw_data C dst_len p t
      | _ \<Rightarrow> Ret (Inl InvalidPacket, t))"

subsection \<open>Timers of the tunnel\<close>

definition clear_all :: "'p pool_ops \<Rightarrow> instant \<Rightarrow> Tunn \<Rightarrow> 'p \<Rightarrow> (Tunn \<times> 'p) run" where
  "clear_all P now t pool =
     run_bind (from_option (clear_packet_queue P t pool)) (\<lambda>(t1, pool1).
     Ret (t1\<lparr>tn_timers := timers_clear now (tn_timers t1)\<rparr>, pool1))"

definition update_session_timer :: "duration \<Rightarrow> nat \<Rightarrow> Tunn \<Rightarrow> Tunn run" where
  "update_session_timer time_now i t =
     run_bind (dur_sub time_now (session_timers (tn_timers t) ! i)) (\<lambda>age.
     Ret (if age > REJECT_AFTER_TIME
          then t\<lparr>tn_sessions := (tn_sessions t)[i := None],
                 tn_timers := (tn_timers t)\<lparr>session_timers := (session_timers (tn_timers t))[i := time_now]\<rparr>\<rparr>
          else t))"

primrec update_session_timers_upto :: "duration \<Rightarrow> nat \<Rightarrow> Tunn \<Rightarrow> Tunn run" where
  "update_session_timers_upto time_now 0 t = Ret t"
| "update_session_timers_upto time_now (Suc n) t =
     run_bind (update_session_timers_upto time_now n t) (update_session_timer time_now n)"

definition update_session_timers :: "duration \<Rightarrow> Tunn \<Rightarrow> Tunn run" where
  "update_session_timers time_now t = update_session_timers_upto time_now N_SESSIONS t"

text \<open>The part of \<^verbatim>\<open>update_timers\<close> for a tunnel with no initiation under way: whether to start a
  handshake, whether to send a keepalive, and the timers.\<close>

definition idle_timers ::
  "duration \<Rightarrow> (TimerName \<Rightarrow> duration) \<Rightarrow> Timers \<Rightarrow> (bool \<times> bool \<times> Timers) run" where
  "idle_timers now v t =
     run_bind (if is_initiator t \<and> v TimeSessionEstablished < v TimeLastDataPacketSent then
         run_bind (dur_sub now (v TimeSessionEstablished)) (\<lambda>d. Ret (d \<ge> REKEY_AFTER_TIME)) else Ret False) (\<lambda>rekey_sent.
     run_bind (if is_initiator t \<and> v TimeSessionEstablished < v TimeLastDataPacketReceived then
         run_bind (dur_sub now (v TimeSessionEstablished)) (\<lambda>d.
           Ret (d \<ge> REJECT_AFTER_TIME - KEEPALIVE_TIMEOUT - REKEY_TIMEOUT)) else Ret False) (\<lambda>rekey_received.
     run_bind (if v TimeLastDataPacketSent > v TimeLastPacketReceived then
         run_bind (dur_sub now (v TimeLastPacketReceived)) (\<lambda>d. Ret (d \<ge> KEEPALIVE_TIMEOUT + REKEY_TIMEOUT)) else Ret False) (\<lambda>silent.
     let no_answer = (silent \<and> want_handshake t);
         t1 = (if silent then t\<lparr>want_handshake := False\<rparr> else t);
         handshake_initiation_required = (rekey_sent \<or> rekey_received \<or> no_answer)
     in if handshake_initiation_required then Ret (True, False, t1)
        else
          run_bind (if v TimeLastDataPacketReceived > v TimeLastPacketSent then
              run_bind (dur_sub now (v TimeLastPacketSent)) (\<lambda>d. Ret (d \<ge> KEEPALIVE_TIMEOUT)) else Ret False) (\<lambda>idle.
          let passive = (idle \<and> want_keepalive t1);
              t2 = (if idle then t1\<lparr>want_keepalive := False\<rparr> else t1)
          in if keepalive_secs t2 > 0 then
               run_bind (if send_initial_keepalive t2 then Ret True
                   else run_bind (dur_sub now (timer_values t2 TimePersistentKeepalive)) (\<lambda>d. Ret (d \<ge> keepalive_secs t2 * SECOND))) (\<lambda>due.
               let t3 = t2\<lparr>send_initial_keepalive := False\<rparr>
               in if due then Ret (False, True, tick_timers TimePersistentKeepalive t3) else Ret (False, passive, t3))
             else Ret (False, passive, t2)))))"

definition update_timers ::
  "crypto \<Rightarrow> 'p pool_ops \<Rightarrow> instant \<Rightarrow> bytes \<Rightarrow> bytes \<Rightarrow> Tunn \<Rightarrow> 'p \<Rightarrow> (TunnResult \<times> Tunn \<times> 'p) run" where
  "update_timers C P time eph dst t pool =
     (let now = time - time_started (tn_timers t);
          t1 = t\<lparr>tn_timers := (tn_timers t)\<lparr>timer_values := (timer_values (tn_timers t))(TimeCurrent := now)\<rparr>\<rparr>
      in run_bind (update_session_timers now t1) (\<lambda>t2.
      let v = timer_values (tn_timers t2) in
      if is_expired (tn_handshake t2) then Ret (Err ConnectionExpired, t2, pool)
      else
        run_bind (if has_cookie (tn_handshake t2) then
            run_bind (dur_sub now (v TimeCookieReceived)) (\<lambda>d.
            Ret (if d \<ge> COOKIE_EXPIRATION_TIME then t2\<lparr>tn_handshake := clear_cookie (tn_handshake t2)\<rparr> else t2)) else Ret t2) (\<lambda>t3.
        run_bind (dur_sub now (v TimeSessionEstablished)) (\<lambda>age.
        if age \<ge> REJECT_AFTER_TIME * 3 then
          run_bind (clear_all P time (t3\<lparr>tn_handshake := set_expired (tn_handshake t3)\<rparr>) pool) (\<lambda>(t4, pool4).
          Ret (Err ConnectionExpired, t4, pool4))
        else case timer (tn_handshake t3) of
          Some time_init_sent \<Rightarrow>
            run_bind (dur_sub now (v TimeLastHandshakeStarted)) (\<lambda>attempt.
            if attempt \<ge> REKEY_ATTEMPT_TIME then
              run_bind (clear_all P time (t3\<lparr>tn_handshake := set_expired (tn_handshake t3)\<rparr>) pool) (\<lambda>(t4, pool4).
              Ret (Err ConnectionExpired, t4, pool4))
            else if time - time_init_sent \<ge> REKEY_TIMEOUT then
              run_bind (tunn_format_handshake_initiation C time eph (length dst) True t3) (\<lambda>(r, t4). Ret (r, t4, pool))
            else Ret (Done, t3, pool))
        | None \<Rightarrow>
            run_bind (idle_timers now v (tn_timers t3)) (\<lambda>(initiate, keepalive, ts).
            let t4 = t3\<lparr>tn_timers := ts\<rparr> in
            if initiate then
              run_bind (tunn_format_handshake_initiation C time eph (length dst) True t4) (\<lambda>(r, t5). Ret (r, t5, pool))
            else if keepalive then encapsulate C P time eph [] dst t4 pool
            else Ret (Done, t4, pool))))))"

definition time_since_last_handshake :: "instant \<Rightarrow> Tunn \<Rightarrow> duration option run" where
  "time_since_last_handshake now t =
     (if tn_sessions t ! (tn_current t mod N_SESSIONS) \<noteq> None
      then run_bind (dur_sub (now - time_started (tn_timers t)) (timer_values (tn_timers t) TimeSessionEstablished)) (\<lambda>d. Ret (Some d))
      else Ret None)"

definition persistent_keepalive :: "Tunn \<Rightarrow> u16 option" where
  "persistent_keepalive t =
     (let keepalive = keepalive_secs (tn_timers t) in if keepalive > 0 then Some (of_nat keepalive) else None)"

definition set_persistent_keepalive :: "u16 option \<Rightarrow> Tunn \<Rightarrow> Tunn" where
  "set_persistent_keepalive k t =
     (let secs = (case k of None \<Rightarrow> 0 | Some x \<Rightarrow> unat x)
      in t\<lparr>tn_timers := (tn_timers t)\<lparr>keepalive_secs := secs, send_initial_keepalive := secs > 0\<rparr>\<rparr>)"

section \<open>Frames\<close>

lemma timer_tick_simps [simp]:
  "tn_sessions (timer_tick n t) = tn_sessions t" "tn_handshake (timer_tick n t) = tn_handshake t"
  "tn_current (timer_tick n t) = tn_current t" "tn_stamper (timer_tick n t) = tn_stamper t"
  "packet_queue_head (timer_tick n t) = packet_queue_head t" "packet_queue_tail (timer_tick n t) = packet_queue_tail t"
  "packet_queue_len (timer_tick n t) = packet_queue_len t" "tn_timers (timer_tick n t) = tick_timers n (tn_timers t)"
  by (simp_all add: timer_tick_def)

lemma tick_timers_simps [simp]:
  "session_timers (tick_timers n t) = session_timers t" "time_started (tick_timers n t) = time_started t"
  "timer_values (tick_timers n t) = (timer_values t)(n := timer_values t TimeCurrent)"
  "keepalive_secs (tick_timers n t) = keepalive_secs t"
  by (simp_all add: tick_timers_def Let_def split: TimerName.splits)

lemma set_current_session_simps [simp]:
  "tn_sessions (set_current_session i t) = tn_sessions t" "tn_handshake (set_current_session i t) = tn_handshake t"
  "tn_timers (set_current_session i t) = tn_timers t"
  by (simp_all add: set_current_session_def Let_def)

lemma after_sending_simps [simp]:
  "tn_sessions (after_sending d t) = tn_sessions t" "tn_handshake (after_sending d t) = tn_handshake t"
  "packet_queue_head (after_sending d t) = packet_queue_head t" "packet_queue_tail (after_sending d t) = packet_queue_tail t"
  "packet_queue_len (after_sending d t) = packet_queue_len t" "tn_current (after_sending d t) = tn_current t"
  by (simp_all add: after_sending_def Let_def)

lemma holds_cong:
  assumes "packet_queue_head q' = packet_queue_head q" "packet_queue_tail q' = packet_queue_tail q"
    "packet_queue_len q' = packet_queue_len q"
  shows "holds v q' hs \<longleftrightarrow> holds v q hs"
  using assms by (simp add: holds_def)

text \<open>The queue operations leave the rest of the tunnel alone.\<close>

lemma drop_expired_more:
  fixes q :: "'q packet_queue_scheme" and p :: 'p
  assumes "drop_expired_loop P now prev cur dr q p = Some r"
  shows "packet_queue.more (fst (snd r)) = packet_queue.more q"
proof -
  let ?Q = "\<lambda>(a, p) r. packet_queue.more (fst (snd r)) = packet_queue.more (snd a)"
  have "?Q ((((((P, now), prev), cur), dr), q), p) r"
  proof (rule drop_expired_loop.raw_induct [of ?Q, OF _ assms])
    fix f P now prev and cur :: "handle option" and dropped and q :: "'q packet_queue_scheme" and p :: 'p and r
    assume IH: "\<And>P now prev cur dr q p y. f P now prev cur dr q p = Some y \<Longrightarrow> ?Q ((((((P, now), prev), cur), dr), q), p) y"
      and eq: "(case cur of None \<Rightarrow> Some (dropped, q, p)
        | Some h \<Rightarrow> Option.bind (po_next P h p) (\<lambda>nx. Option.bind (po_queued_at P h p) (\<lambda>queued_at.
            if now - queued_at \<ge> PENDING_PACKET_TTL then
              Option.bind (drop_one P prev nx h q p) (\<lambda>(q', p'). f P now prev nx (dropped + 1) q' p')
            else f P now (Some h) nx dropped q p))) = Some r"
    have one: "packet_queue.more q' = packet_queue.more q" if "drop_one P prev nx h q p = Some (q', p')" for nx h q' p'
      using that by (auto simp: drop_one_def Let_def split: option.splits if_splits bind_splits)
    show "?Q ((((((P, now), prev), cur), dropped), q), p) r"
      using eq one by (auto split: option.splits if_splits bind_splits dest!: IH)
  qed
  then show ?thesis by simp
qed

lemma queue_packet_more:
  assumes "queue_packet P now ty d q p = Some (q', p')"
  shows "packet_queue.more q' = packet_queue.more q"
  using assms drop_expired_more [of P now None "packet_queue_head q" 0 q p]
  by (auto simp: queue_packet_def drop_expired_queued_packets_def Let_def split: option.splits if_splits bind_splits)

lemma dequeue_packet_more:
  "dequeue_packet P q p = Some (r, q', p') \<Longrightarrow> packet_queue.more q' = packet_queue.more q"
  by (auto simp: dequeue_packet_def Let_def split: option.splits if_splits bind_splits)

lemma clear_packet_queue_more:
  "clear_packet_queue P q p = Some (q', p') \<Longrightarrow> packet_queue.more q' = packet_queue.more q"
  by (auto simp: clear_packet_queue_def split: bind_splits)

lemma tunn_more:
  fixes t t' :: Tunn
  assumes "packet_queue.more t' = packet_queue.more t"
  shows "tn_stamper t' = tn_stamper t" "tn_handshake t' = tn_handshake t" "tn_sessions t' = tn_sessions t"
    "tn_current t' = tn_current t" "tn_timers t' = tn_timers t"
  using assms by (cases t; cases t'; simp)+

section \<open>End to end\<close>

text \<open>The receiving tunnel has the session that mirrors the sender's.\<close>

definition mirrors :: "Session \<Rightarrow> Tunn \<Rightarrow> nat \<Rightarrow> nat set \<Rightarrow> bool" where
  "mirrors s u n S \<longleftrightarrow> length (tn_sessions u) = N_SESSIONS \<and>
     (\<exists>r. tn_sessions u ! (unat (sending_index s) mod N_SESSIONS) = Some r \<and> receiver r = sender s \<and>
        receiving_index r = sending_index s \<and> tracks (receiving_key_counter r) (n, S))"

lemma sent_is_decrypted:
  assumes C: "crypto_correct C" and ty: "ty = DATA \<or> ty = RELAY_DATA"
    and s: "length (sender s) = 32" "sending_key_counter s < REJECT_AFTER_MESSAGES"
    and u: "mirrors s u n S" "n \<le> unat (sending_key_counter s) + 256" "unat (sending_key_counter s) \<notin> S"
    and len: "padded_len src \<le> aead_max_plaintext" "32 + padded_len src \<le> length dst" "16 + padded_len src \<le> dst_len"
  obtains pkt d u' where
    "format_packet_data_with_type C ty src dst s = Ret (s\<lparr>sending_key_counter := sending_key_counter s + 1\<rparr>, Some pkt)"
    "parse_incoming_packet pkt = Inr ((if ty = DATA then PData else PRelayData) d)"
    "decrypt_raw_data C dst_len d u = Ret (Inr (padded src), u')" "d_receiver_idx d = sending_index s"
proof -
  let ?c = "sending_key_counter s"
  obtain r where r: "tn_sessions u ! (unat (sending_index s) mod N_SESSIONS) = Some r" "receiver r = sender s"
      "receiving_index r = sending_index s" "tracks (receiving_key_counter r) (n, S)"
    using u(1) by (auto simp: mirrors_def)
  have rc: "reserve_counter s = Some (?c, s\<lparr>sending_key_counter := ?c + 1\<rparr>)" using s(2) by (simp add: reserve_counter_eq)
  obtain ct tag where op: "aead_open C (sender s) (counter_nonce ?c) [] ct tag = Some (padded src)"
      and l: "length ct = padded_len src" "length tag = 16"
      and f: "format_packet_data_with_type C ty src dst s = Ret (s\<lparr>sending_key_counter := ?c + 1\<rparr>,
        Some (to_le_bytes 4 ty @ to_le_bytes 4 (sending_index s) @ to_le_bytes 8 ?c @ ct @ tag))"
    using format_packet_data_spec [OF crypto_correctD(1) [OF C] s(1) len(1,2) rc] by blast
  define d where "d = \<lparr>d_receiver_idx = sending_index s, d_counter = ?c, d_encrypted_encapsulated_packet = ct @ tag\<rparr>"
  have "receive_spec C d r (n, S) = (Inr (padded src), (max n (Suc (unat ?c)), insert (unat ?c) S))"
    using r u(2,3) s(2) op l by (simp add: receive_spec_def d_def word_less_nat_alt Let_def)
  then obtain v where v: "receive_packet_data C d dst_len r = Some (Ret (Inr (padded src), r\<lparr>receiving_key_counter := v\<rparr>))"
    using receive_packet_data_refines_aux [OF r(4), of d dst_len C] len(3) l by (auto simp: d_def)
  show ?thesis
  proof (rule that [OF f])
    show "parse_incoming_packet (to_le_bytes 4 ty @ to_le_bytes 4 (sending_index s) @ to_le_bytes 8 ?c @ ct @ tag) =
        Inr ((if ty = DATA then PData else PRelayData) d)"
      using parse_formatted [OF ty l(2)] by (simp add: d_def)
    have idx: "tn_sessions u ! (unat (d_receiver_idx d) mod N_SESSIONS) = Some r" using r(1) by (simp add: d_def)
    show "decrypt_raw_data C dst_len d u = Ret (Inr (padded src),
        let t2 = timer_tick TimeLastPacketReceived (set_current_session (unat (d_receiver_idx d))
          (u\<lparr>tn_sessions := (tn_sessions u)[unat (d_receiver_idx d) mod N_SESSIONS := Some (r\<lparr>receiving_key_counter := v\<rparr>)]\<rparr>))
        in t2\<lparr>tn_rx_packets := tn_rx_packets t2 + 1\<rparr>)"
      by (simp add: decrypt_raw_data_def idx v Let_def)
  qed (simp add: d_def)
qed

lemma validate_padded:
  assumes "ipv4_format src \<or> ipv6_format src"
  shows "validate_ip_packet (padded src) = (if ipv4_format src then WriteToInterfaceV4 src (from_be_bytes (slice 12 16 src))
    else WriteToInterfaceV6 src (from_be_bytes (slice 8 24 src)))"
  using assms unfolding padded_def
  by (auto simp: validate_v4_iff validate_v6_iff)

lemma tunnel_delivery:
  assumes C: "crypto_correct C" and cur: "tn_sessions t ! (tn_current t mod N_SESSIONS) = Some s"
    and s: "length (sender s) = 32" "sending_key_counter s < REJECT_AFTER_MESSAGES"
    and u: "mirrors s u n S" "n \<le> unat (sending_key_counter s) + 256" "unat (sending_key_counter s) \<notin> S"
    and len: "length src \<le> MTU" "MTU + 32 \<le> length dst" "MTU + 32 \<le> length dst'"
    and ip: "ipv4_format src \<or> ipv6_format src"
  shows "\<exists>pkt t' d u'. encapsulate C P now eph src dst t pool = Ret (WriteToNetwork pkt, t', pool) \<and>
    parse_incoming_packet pkt = Inr (PData d) \<and> d_receiver_idx d = sending_index s \<and>
    handle_verified_packet C now' eph' dst' (PData d) u =
      Ret (if ipv4_format src then WriteToInterfaceV4 src (from_be_bytes (slice 12 16 src))
           else WriteToInterfaceV6 src (from_be_bytes (slice 8 24 src)), u')"
proof -
  have pl: "padded_len src \<le> MTU" using padded_len_bounds(3) [of src] len(1) by simp
  then have "padded_len src \<le> aead_max_plaintext" "32 + padded_len src \<le> length dst" "16 + padded_len src \<le> length dst'"
    using len(2,3) by (simp_all add: MTU_def aead_max_plaintext_def)
  then obtain pkt d u1 where f: "format_packet_data_with_type C DATA src dst s =
        Ret (s\<lparr>sending_key_counter := sending_key_counter s + 1\<rparr>, Some pkt)"
      "parse_incoming_packet pkt = Inr (PData d)" "decrypt_raw_data C (length dst') d u = Ret (Inr (padded src), u1)" "d_receiver_idx d = sending_index s"
    using sent_is_decrypted [OF C _ s u, of DATA src dst "length dst'"] by auto
  have "encapsulate C P now eph src dst t pool = Ret (WriteToNetwork pkt,
      after_sending src (t\<lparr>tn_sessions := (tn_sessions t)[tn_current t mod N_SESSIONS :=
        Some (s\<lparr>sending_key_counter := sending_key_counter s + 1\<rparr>)]\<rparr>), pool)"
    by (simp add: encapsulate_def encapsulate_with_type_def encrypt_current_def cur f(1))
  moreover obtain u2 where "validate_decapsulated_packet (padded src) u1 =
      (if ipv4_format src then WriteToInterfaceV4 src (from_be_bytes (slice 12 16 src))
       else WriteToInterfaceV6 src (from_be_bytes (slice 8 24 src)), u2)"
    by (simp add: validate_decapsulated_packet_def validate_padded [OF ip] Let_def)
  then have "handle_verified_packet C now' eph' dst' (PData d) u =
      Ret (if ipv4_format src then WriteToInterfaceV4 src (from_be_bytes (slice 12 16 src))
           else WriteToInterfaceV6 src (from_be_bytes (slice 8 24 src)), u2)"
    by (simp add: handle_verified_packet_def handle_data_def f(3))
  ultimately show ?thesis using f(2,4) by blast
qed

lemma successive_indices:
  assumes "allocate_local_index h = (i, h1)" and "allocate_local_index h1 = (j, h2)"
  shows "\<exists>q. unat i = 256 * q + unat (ucast i :: u8) \<and> unat j = 256 * q + unat ((ucast i :: u8) + 1)"
proof -
  define k where "k = (i AND NOT 0xff :: u32)"
  define b where "b = (ucast i :: u8)"
  have j: "j = k OR ucast (b + 1)" using assms by (auto simp: allocate_local_index_def k_def b_def Let_def)
  have kdef: "k = i AND NOT (mask 8)" by (simp add: k_def mask_eq_exp_minus_1)
  have low: "\<not> bit k n" if "n < 8" for n
    using that by (simp add: kdef bit_and_iff bit_not_iff bit_mask_iff)
  have or_plus: "k OR ucast c = k + ucast c" for c :: u8
    by (rule disjunctive_add [symmetric]) (use low in \<open>auto simp: bit_ucast_iff dest: bit_imp_le_length\<close>)
  have "i = k OR ucast b"
    by (rule bit_word_eqI)
      (auto simp: kdef b_def bit_or_iff bit_and_iff bit_not_iff bit_mask_iff bit_ucast_iff dest: bit_imp_le_length)
  then have i: "i = k + ucast b" by (simp add: or_plus)
  have j': "j = k + ucast (b + 1)" using j by (simp add: or_plus)
  have k: "256 dvd unat k"
  proof -
    have "take_bit 8 k = 0" by (rule bit_word_eqI) (use low in \<open>auto simp: bit_take_bit_iff\<close>)
    then have "take_bit 8 (unat k) = 0" by (metis unsigned_0 unsigned_take_bit_eq)
    then show ?thesis by (simp add: take_bit_eq_mod mod_eq_0_iff_dvd)
  qed
  have nowrap: "unat (k + ucast c) = unat k + unat c" for c :: u8
  proof -
    have c: "unat c < 256" using unsigned_less [of c, where 'a = nat] by simp
    then have uc: "unat (ucast c :: u32) = unat c"
      by (simp add: unsigned_ucast_eq take_bit_nat_eq_self_iff)
    have "unat k < 2 ^ 32" using unsigned_less [of k, where 'a = nat] by simp
    with k c have "unat k + unat c < 2 ^ 32" by (auto elim!: dvdE)
    then show ?thesis by (subst unat_plus_nowrap) (simp_all add: uc)
  qed
  obtain q where "unat k = 256 * q" using k by (auto elim: dvdE)
  then have "unat i = 256 * q + unat b \<and> unat j = 256 * q + unat (b + 1)" using i j' nowrap by simp
  then show ?thesis unfolding b_def ..
qed

section \<open>Properties\<close>

text \<open>End to end through a tunnel: an IP packet given to \<open>encapsulate\<close> by a tunnel with a usable session
  leaves as one datagram, and the peer's tunnel, holding the mirrored session, hands exactly that
  packet, without the padding and with its source address, to the interface.\<close>

theorem tunnel_delivers_packet:
  assumes C: "crypto_correct C" and cur: "tn_sessions t ! (tn_current t mod N_SESSIONS) = Some s"
    and s: "length (sender s) = 32" "sending_key_counter s < REJECT_AFTER_MESSAGES"
    and u: "mirrors s u n S" "n \<le> unat (sending_key_counter s) + 256" "unat (sending_key_counter s) \<notin> S"
    and len: "length src \<le> MTU" "MTU + 32 \<le> length dst" "MTU + 32 \<le> length dst'"
    and ip: "ipv4_format src \<or> ipv6_format src"
  shows "\<exists>pkt t' d u'. encapsulate C P now eph src dst t pool = Ret (WriteToNetwork pkt, t', pool) \<and>
    parse_incoming_packet pkt = Inr (PData d) \<and>
    handle_verified_packet C now' eph' dst' (PData d) u =
      Ret (if ipv4_format src then WriteToInterfaceV4 src (from_be_bytes (slice 12 16 src))
           else WriteToInterfaceV6 src (from_be_bytes (slice 8 24 src)), u')"
  using tunnel_delivery [OF assms, of P now eph pool now' eph'] by blast

definition sample_ip :: bytes where
  "sample_ip = [0x45, 0, 0, 20] @ replicate 8 0 @ [10, 0, 0, 1] @ replicate 4 0"

definition sample_session :: Session where
  "sample_session = session_new 9 12 (replicate 32 1) (replicate 32 2)"

definition sample_tunn :: "Session \<Rightarrow> Tunn" where
  "sample_tunn s = (tunn_new sample_crypto 0 [1] [2] None 7 (timestamper_new 0 0))\<lparr>tn_sessions := [Some s, None, None]\<rparr>"

lemma sample_ip_format: "ipv4_format sample_ip"
proof -
  have "slice 2 4 sample_ip = [0, 20]" by (simp add: sample_ip_def slice_def)
  moreover have "length sample_ip = 20" "sample_ip ! 0 = 0x45" by (simp_all add: sample_ip_def)
  ultimately show ?thesis by (simp add: ipv4_format_def from_be_bytes_def Let_def)
qed

theorem tunnel_delivers_packet_witness:
  "\<exists>pkt t' d u'. encapsulate sample_crypto (heap_ops 4 100) 0 [] sample_ip (replicate 1400 0) (sample_tunn sample_session) heap_new =
      Ret (WriteToNetwork pkt, t', heap_new) \<and>
    parse_incoming_packet pkt = Inr (PData d) \<and>
    handle_verified_packet sample_crypto 0 [] (replicate 1400 0) (PData d)
      (sample_tunn (session_new 12 9 (replicate 32 2) (replicate 32 1))) =
      Ret (WriteToInterfaceV4 sample_ip (from_be_bytes (slice 12 16 sample_ip)), u')"
proof -
  let ?r = "session_new 12 9 (replicate 32 2) (replicate 32 1)"
  have m: "mirrors sample_session (sample_tunn ?r) 0 {}"
    by (simp add: mirrors_def sample_tunn_def sample_session_def session_new_def N_SESSIONS_def tracks_default)
  let ?t = "sample_tunn sample_session"
  have cur: "tn_sessions ?t ! (tn_current ?t mod N_SESSIONS) = Some sample_session"
    by (simp add: sample_tunn_def tunn_new_def N_SESSIONS_def)
  have s: "length (sender sample_session) = 32" "sending_key_counter sample_session < REJECT_AFTER_MESSAGES"
      "0 \<le> unat (sending_key_counter sample_session) + 256" "unat (sending_key_counter sample_session) \<notin> {}"
    by (simp_all add: sample_session_def session_new_def word_less_nat_alt unat_REJECT)
  have len: "length sample_ip \<le> MTU" "MTU + 32 \<le> length (replicate 1400 (0 :: u8))" by (simp_all add: sample_ip_def MTU_def)
  have ip: "ipv4_format sample_ip \<or> ipv6_format sample_ip" using sample_ip_format by simp
  from tunnel_delivers_packet [OF sample_crypto_correct cur s(1,2) m s(3,4) len len(2) ip, of "heap_ops 4 100" 0 "[]" heap_new 0 "[]"]
  show ?thesis by (simp only: sample_ip_format if_True)
qed

text \<open>C33. The ring keeps the three most recent sessions except across the wrap of the 8-bit session index: the
  local indices of two successive handshakes share a slot, so that the later session overwrites the
  one before it at once, exactly when the earlier index ends in 255.\<close>

theorem session_ring_collision:
  assumes "allocate_local_index h = (i, h1)" and "allocate_local_index h1 = (j, h2)"
  shows "unat i mod N_SESSIONS = unat j mod N_SESSIONS \<longleftrightarrow> (ucast i :: u8) = 255"
proof -
  define b where "b = (ucast i :: u8)"
  obtain q where q: "unat i = 256 * q + unat b" "unat j = 256 * q + unat (b + 1)"
    using successive_indices [OF assms] by (auto simp: b_def)
  have b: "unat (b + 1) = (if b = 255 then 0 else unat b + 1)"
  proof (cases "b = 255")
    case False
    then have "unat b \<noteq> 255" by (simp add: word_unat_eq_iff)
    moreover have "unat b < 256" using unsigned_less [of b, where 'a = nat] by simp
    ultimately show ?thesis using False by (subst unat_plus_nowrap) simp_all
  qed simp
  have red: "(256 * q + x) mod 3 = (q + x) mod 3" for x
  proof -
    have "256 * q + x = (q + x) + 85 * q * 3" by simp
    then show ?thesis by (metis mod_mult_self1)
  qed
  have "y mod 3 \<noteq> (y + 1) mod 3" for y :: nat by presburger
  then have "(256 * q + x) mod 3 \<noteq> (256 * q + (x + 1)) mod 3" for x using red [of x] red [of "x + 1"] by (metis add.assoc)
  moreover have "(256 * q + 255) mod 3 = (256 * q + 0) mod 3" unfolding red by presburger
  moreover have "b = 255 \<longrightarrow> unat b = 255" by simp
  ultimately have "(256 * q + unat b) mod 3 = (256 * q + (if b = 255 then 0 else unat b + 1)) mod 3 \<longleftrightarrow> b = 255"
    by (cases "b = 255") simp_all
  with q b show ?thesis by (simp add: N_SESSIONS_def b_def [symmetric])
qed

theorem session_ring_collision_witness:
  "let h = sample_initiator\<lparr>next_local_index := 0x5ff\<rparr>;
       (i, h1) = allocate_local_index h; (j, h2) = allocate_local_index h1
   in unat i mod N_SESSIONS = unat j mod N_SESSIONS"
proof -
  obtain i h1 where 1: "allocate_local_index (sample_initiator\<lparr>next_local_index := 0x5ff\<rparr>) = (i, h1)" by fastforce
  obtain j h2 where 2: "allocate_local_index h1 = (j, h2)" by fastforce
  have "i = 0x5ff" using allocate_local_index_fields(1) [OF 1] by simp
  then have "(ucast i :: u8) = 255" by simp
  with session_ring_collision [OF 1 2] 1 2 show ?thesis by simp
qed

end
