(* ===== verification/Tunnel_Timers.thy ===== *)
theory Tunnel_Timers
  imports Tunnel
begin

text \<open>
  The periodic work of a tunnel: \<^verbatim>\<open>update_timers\<close> returns without a panic of the duration
  arithmetic as long as the clock does not run backwards, keeps the shape of the tunnel and of its
  queue, and leaves no session beyond its lifetime.
\<close>

section \<open>Invariants\<close>

definition tunn_wf :: "Tunn \<Rightarrow> bool" where
  "tunn_wf t \<longleftrightarrow> length (tn_sessions t) = N_SESSIONS \<and> length (session_timers (tn_timers t)) = N_SESSIONS \<and>
     (\<forall>s. Some s \<in> set (tn_sessions t) \<longrightarrow> length (sender s) = 32) \<and>
     length (static_public (params (tn_handshake t))) = 32"

text \<open>No timer is ahead of the clock.\<close>

definition timers_behind :: "instant \<Rightarrow> Timers \<Rightarrow> bool" where
  "timers_behind time ts \<longleftrightarrow> (\<forall>n. timer_values ts n \<le> time - time_started ts) \<and>
     (\<forall>x \<in> set (session_timers ts). x \<le> time - time_started ts)"

text \<open>What the steps of \<open>update_timers\<close> after the expiry of sessions have in common.\<close>

definition keeps :: "instant \<Rightarrow> Tunn \<Rightarrow> Tunn \<Rightarrow> bool" where
  "keeps time t t' \<longleftrightarrow> time_started (tn_timers t') = time_started (tn_timers t) \<and>
     session_timers (tn_timers t') = session_timers (tn_timers t) \<and>
     (\<forall>i < N_SESSIONS. tn_sessions t' ! i \<noteq> None \<longrightarrow> tn_sessions t ! i \<noteq> None) \<and>
     (tunn_wf t \<longrightarrow> tunn_wf t') \<and>
     (timers_behind time (tn_timers t) \<longrightarrow> timers_behind time (tn_timers t'))"

lemma keeps_refl [simp]: "keeps time t t" by (simp add: keeps_def)

lemma keeps_trans: "keeps time t u \<Longrightarrow> keeps time u v \<Longrightarrow> keeps time t v"
  by (simp add: keeps_def)

lemma keeps_tick: "keeps time t (timer_tick n t)"
  by (auto simp: keeps_def tunn_wf_def timers_behind_def)

lemma keeps_counts [simp]:
  "keeps time t (u\<lparr>tn_tx_packets := a\<rparr>) = keeps time t u" "keeps time t (u\<lparr>tn_tx_bytes := b\<rparr>) = keeps time t u"
  by (simp_all add: keeps_def tunn_wf_def)

lemma keeps_after_sending: "keeps time t (after_sending d t)"
  by (simp add: after_sending_def Let_def) (metis keeps_tick keeps_trans)

lemma keeps_clear: "keeps time t (t\<lparr>tn_timers := timers_clear time (tn_timers t)\<rparr>)"
  by (simp add: keeps_def tunn_wf_def timers_behind_def timers_clear_def)

lemma keeps_handshake:
  "params h = params (tn_handshake t) \<Longrightarrow> keeps time t (t\<lparr>tn_handshake := h\<rparr>)"
  by (simp add: keeps_def tunn_wf_def)

lemma keeps_more:
  fixes t t' :: Tunn
  assumes "packet_queue.more t' = packet_queue.more t"
  shows "keeps time t t'"
  using tunn_more [OF assms] by (simp add: keeps_def tunn_wf_def)

section \<open>The steps\<close>

lemma initiation_total:
  assumes C: "crypto_correct C" and wf: "tunn_wf t" and dst: "148 \<le> dst_len"
  shows "\<exists>r t'. tunn_format_handshake_initiation C time eph dst_len f t = Ret (r, t') \<and> keeps time t t' \<and>
    packet_queue_head t' = packet_queue_head t \<and> packet_queue_tail t' = packet_queue_tail t \<and>
    packet_queue_len t' = packet_queue_len t"
proof (cases "is_in_progress (tn_handshake t) \<and> \<not> f")
  case True
  then show ?thesis by (simp add: tunn_format_handshake_initiation_def)
next
  case False
  define t1 where "t1 = (if is_expired (tn_handshake t) then t\<lparr>tn_timers := timers_clear time (tn_timers t)\<rparr> else t)"
  have k1: "keeps time t t1" by (simp add: t1_def keeps_clear)
  have h1: "tn_handshake t1 = tn_handshake t" by (simp add: t1_def)
  obtain i h0 where al: "allocate_local_index (tn_handshake t1) = (i, h0)" by fastforce
  have pub: "length (static_public (params (tn_handshake t1))) = 32" using wf by (simp add: h1 tunn_wf_def)
  obtain m h where f: "format_handshake_initiation C time eph dst_len (tn_stamper t1) (tn_handshake t1) = Ret (Inr m, h)"
      "params h = params (tn_handshake t1)"
    by (rule format_initiation_spec [OF C dst pub al, where eph = eph and now = time and st = "tn_stamper t1"])
      (use allocate_local_index_fields(2) [OF al] that in auto)
  define t2 where "t2 = t1\<lparr>tn_handshake := h\<rparr>"
  define t3 where "t3 = (if is_in_progress (tn_handshake t1) then t2 else timer_tick TimeLastHandshakeStarted t2)"
  define t4 where "t4 = timer_tick TimeLastPacketSent t3"
  have "keeps time t1 t2" unfolding t2_def by (rule keeps_handshake [OF f(2)])
  moreover have "keeps time t2 t3" by (simp add: t3_def keeps_tick)
  moreover have "keeps time t3 t4" by (simp add: t4_def keeps_tick)
  ultimately have "keeps time t t4" using k1 keeps_trans by blast
  moreover have "tunn_format_handshake_initiation C time eph dst_len f t =
      Ret (WriteToNetwork m, t4\<lparr>tn_tx_packets := tn_tx_packets t4 + 1\<rparr>)"
    using False f(1) by (simp add: tunn_format_handshake_initiation_def t1_def [symmetric] t2_def t3_def t4_def Let_def)
  ultimately show ?thesis by (simp add: t4_def t3_def t2_def t1_def)
qed

lemma encrypt_total:
  assumes C: "crypto_correct C" and wf: "tunn_wf t" and dst: "32 \<le> length dst"
  shows "\<exists>r t'. encrypt_current C ty [] dst t = Ret (r, t') \<and> keeps time t t' \<and>
    packet_queue_head t' = packet_queue_head t \<and> packet_queue_tail t' = packet_queue_tail t \<and>
    packet_queue_len t' = packet_queue_len t"
proof -
  let ?i = "tn_current t mod N_SESSIONS"
  have i: "?i < length (tn_sessions t)" using wf by (simp add: tunn_wf_def N_SESSIONS_def)
  show ?thesis
  proof (cases "tn_sessions t ! ?i")
    case None
    then show ?thesis by (simp add: encrypt_current_def)
  next
    case (Some s)
    then have "Some s \<in> set (tn_sessions t)" using i by (metis nth_mem)
    then have s: "length (sender s) = 32" using wf by (simp add: tunn_wf_def)
    have "\<exists>s' out. format_packet_data_with_type C ty [] dst s = Ret (s', out) \<and> sender s' = sender s"
    proof (cases "reserve_counter s")
      case None
      then show ?thesis using dst by (simp add: format_packet_data_with_type_def padded_len_def session_consts Let_def)
    next
      case (Some cs)
      then obtain c s' where rc: "reserve_counter s = Some (c, s')" by (cases cs) simp
      then have "sender s' = sender s" by (auto simp: reserve_counter_eq split: if_splits)
      with format_packet_data_spec [OF crypto_correctD(1) [OF C] s _ _ rc, of "[]" dst ty] dst show ?thesis
        by (auto simp: padded_len_def)
    qed
    then obtain s' out where f: "format_packet_data_with_type C ty [] dst s = Ret (s', out)" "sender s' = sender s" by blast
    have "keeps time t (t\<lparr>tn_sessions := (tn_sessions t)[?i := Some s']\<rparr>)"
    proof -
      have "length (sender x) = 32" if "Some x \<in> set ((tn_sessions t)[?i := Some s'])" "tunn_wf t" for x
        using that s f(2) set_update_subset_insert [of "tn_sessions t" ?i "Some s'"] by (auto simp: tunn_wf_def)
      then show ?thesis using Some i by (auto simp: keeps_def tunn_wf_def nth_list_update)
    qed
    with f(1) Some show ?thesis by (simp add: encrypt_current_def)
  qed
qed

lemma age_check:
  "x \<le> now \<Longrightarrow> (if b then run_bind (dur_sub now x) (\<lambda>d. Ret (d \<ge> y)) else Ret False) = Ret (b \<and> now - x \<ge> y)"
  "x \<le> now \<Longrightarrow> (if b then Ret True else run_bind (dur_sub now x) (\<lambda>d. Ret (d \<ge> y))) = Ret (b \<or> now - x \<ge> y)"
  by (simp_all add: dur_sub_def)

lemma timers_behind_flags [simp]:
  "timers_behind time (ts\<lparr>want_handshake := a\<rparr>) = timers_behind time ts"
  "timers_behind time (ts\<lparr>want_keepalive := a\<rparr>) = timers_behind time ts"
  "timers_behind time (ts\<lparr>send_initial_keepalive := a\<rparr>) = timers_behind time ts"
  by (simp_all add: timers_behind_def)

lemma timers_behind_tick: "timers_behind time ts \<Longrightarrow> timers_behind time (tick_timers n ts)"
  by (auto simp: timers_behind_def)

definition same_sessions :: "instant \<Rightarrow> Timers \<Rightarrow> Timers \<Rightarrow> bool" where
  "same_sessions time ts ts' \<longleftrightarrow> session_timers ts' = session_timers ts \<and> time_started ts' = time_started ts \<and> timers_behind time ts'"

lemma idle_timers_total:
  assumes b: "timers_behind time ts" and now: "now = time - time_started ts" and v: "\<And>n. v n \<le> now"
  shows "\<exists>i k ts'. idle_timers now v ts = Ret (i, k, ts') \<and> same_sessions time ts ts'"
proof -
  have flags: "same_sessions time ts (ts\<lparr>want_handshake := a, want_keepalive := b, send_initial_keepalive := c\<rparr>)" for a b c
    using assms(1) by (simp add: same_sessions_def)
  have tick: "same_sessions time ts ts' \<Longrightarrow> same_sessions time ts (tick_timers n ts')" for ts' n
    by (simp add: same_sessions_def timers_behind_tick)
  have pk: "timer_values ts TimePersistentKeepalive \<le> now" using b now by (simp add: timers_behind_def)
  define A where "A = (is_initiator ts \<and> v TimeSessionEstablished < v TimeLastDataPacketSent \<and> REKEY_AFTER_TIME \<le> now - v TimeSessionEstablished)"
  define B where "B = (is_initiator ts \<and> v TimeSessionEstablished < v TimeLastDataPacketReceived \<and>
    REJECT_AFTER_TIME - KEEPALIVE_TIMEOUT - REKEY_TIMEOUT \<le> now - v TimeSessionEstablished)"
  define S where "S = (v TimeLastPacketReceived < v TimeLastDataPacketSent \<and> KEEPALIVE_TIMEOUT + REKEY_TIMEOUT \<le> now - v TimeLastPacketReceived)"
  define I where "I = (v TimeLastPacketSent < v TimeLastDataPacketReceived \<and> KEEPALIVE_TIMEOUT \<le> now - v TimeLastPacketSent)"
  define t1 where "t1 = (if S then ts\<lparr>want_handshake := False\<rparr> else ts)"
  define t2 where "t2 = (if I then t1\<lparr>want_keepalive := False\<rparr> else t1)"
  have t2s: "same_sessions time ts t1" "same_sessions time ts t2" "same_sessions time ts (t2\<lparr>send_initial_keepalive := False\<rparr>)"
    using b by (simp_all add: same_sessions_def t1_def t2_def)
  have pk2: "timer_values t2 TimePersistentKeepalive \<le> now" using pk by (simp add: t1_def t2_def)
  have "idle_timers now v ts =
    (if A \<or> B \<or> (S \<and> want_handshake ts) then Ret (True, False, t1)
     else if keepalive_secs t2 > 0 then
       (if send_initial_keepalive t2 \<or> now - timer_values t2 TimePersistentKeepalive \<ge> keepalive_secs t2 * SECOND
        then Ret (False, True, tick_timers TimePersistentKeepalive (t2\<lparr>send_initial_keepalive := False\<rparr>))
        else Ret (False, I \<and> want_keepalive t1, t2\<lparr>send_initial_keepalive := False\<rparr>))
     else Ret (False, I \<and> want_keepalive t1, t2))"
    unfolding idle_timers_def age_check(1) [OF v] run_bind_simps conj_assoc
      A_def [symmetric] B_def [symmetric] S_def [symmetric] I_def [symmetric] Let_def
      t1_def [symmetric] t2_def [symmetric] age_check(2) [OF pk2] by simp
  with t2s tick [OF t2s(3)] show ?thesis by (simp only: split: if_split) blast
qed

lemma update_session_timer_spec:
  assumes "i < N_SESSIONS" "tunn_wf t" "timers_behind time (tn_timers t)"
  defines "now \<equiv> time - time_started (tn_timers t)"
  shows "\<exists>t'. update_session_timer now i t = Ret t' \<and> tunn_wf t' \<and> timers_behind time (tn_timers t') \<and>
    time_started (tn_timers t') = time_started (tn_timers t) \<and> timer_values (tn_timers t') = timer_values (tn_timers t) \<and>
    tn_handshake t' = tn_handshake t \<and> packet_queue_head t' = packet_queue_head t \<and>
    packet_queue_tail t' = packet_queue_tail t \<and> packet_queue_len t' = packet_queue_len t \<and>
    (tn_sessions t' ! i \<noteq> None \<longrightarrow> now - session_timers (tn_timers t') ! i \<le> REJECT_AFTER_TIME) \<and>
    (\<forall>j. j \<noteq> i \<longrightarrow> tn_sessions t' ! j = tn_sessions t ! j \<and>
       session_timers (tn_timers t') ! j = session_timers (tn_timers t) ! j)"
proof -
  have i: "i < length (tn_sessions t)" "i < length (session_timers (tn_timers t))" using assms(1,2) by (simp_all add: tunn_wf_def)
  then have "session_timers (tn_timers t) ! i \<le> now" using assms(3) by (simp add: timers_behind_def now_def)
  moreover have "length (sender s) = 32" if "Some s \<in> set ((tn_sessions t)[i := None])" for s
    using that assms(2) set_update_subset_insert [of "tn_sessions t" i None] by (auto simp: tunn_wf_def)
  moreover have "x \<le> now" if "x \<in> set ((session_timers (tn_timers t))[i := now])" for x
    using that assms(3) set_update_subset_insert [of "session_timers (tn_timers t)" i now] by (auto simp: timers_behind_def now_def)
  ultimately show ?thesis
    using assms(2,3) i by (auto simp: update_session_timer_def dur_sub_def tunn_wf_def timers_behind_def now_def)
qed

lemma update_session_timers_spec:
  assumes "n \<le> N_SESSIONS" "tunn_wf t" "timers_behind time (tn_timers t)"
  defines "now \<equiv> time - time_started (tn_timers t)"
  shows "\<exists>t'. update_session_timers_upto now n t = Ret t' \<and> tunn_wf t' \<and> timers_behind time (tn_timers t') \<and>
    time_started (tn_timers t') = time_started (tn_timers t) \<and> timer_values (tn_timers t') = timer_values (tn_timers t) \<and>
    tn_handshake t' = tn_handshake t \<and> packet_queue_head t' = packet_queue_head t \<and>
    packet_queue_tail t' = packet_queue_tail t \<and> packet_queue_len t' = packet_queue_len t \<and>
    (\<forall>i < n. tn_sessions t' ! i \<noteq> None \<longrightarrow> now - session_timers (tn_timers t') ! i \<le> REJECT_AFTER_TIME)"
  using assms(1)
proof (induction n)
  case 0
  then show ?case using assms(2,3) by simp
next
  case (Suc n)
  then obtain t1 where t1: "update_session_timers_upto now n t = Ret t1" "tunn_wf t1" "timers_behind time (tn_timers t1)"
      "time_started (tn_timers t1) = time_started (tn_timers t)" "timer_values (tn_timers t1) = timer_values (tn_timers t)"
      "tn_handshake t1 = tn_handshake t" "packet_queue_head t1 = packet_queue_head t"
      "packet_queue_tail t1 = packet_queue_tail t" "packet_queue_len t1 = packet_queue_len t"
      "\<forall>i < n. tn_sessions t1 ! i \<noteq> None \<longrightarrow> now - session_timers (tn_timers t1) ! i \<le> REJECT_AFTER_TIME"
    by auto
  have "n < N_SESSIONS" using Suc.prems by simp
  from update_session_timer_spec [OF this t1(2,3)] obtain t2 where
    t2: "update_session_timer now n t1 = Ret t2" "tunn_wf t2" "timers_behind time (tn_timers t2)"
      "time_started (tn_timers t2) = time_started (tn_timers t1)" "timer_values (tn_timers t2) = timer_values (tn_timers t1)"
      "tn_handshake t2 = tn_handshake t1" "packet_queue_head t2 = packet_queue_head t1"
      "packet_queue_tail t2 = packet_queue_tail t1" "packet_queue_len t2 = packet_queue_len t1"
      "tn_sessions t2 ! n \<noteq> None \<longrightarrow> now - session_timers (tn_timers t2) ! n \<le> REJECT_AFTER_TIME"
      "\<forall>j. j \<noteq> n \<longrightarrow> tn_sessions t2 ! j = tn_sessions t1 ! j \<and> session_timers (tn_timers t2) ! j = session_timers (tn_timers t1) ! j"
    unfolding t1(4) now_def by blast
  show ?case
  proof (intro exI conjI)
    show "update_session_timers_upto now (Suc n) t = Ret t2" using t1(1) t2(1) by simp
    show "\<forall>i < Suc n. tn_sessions t2 ! i \<noteq> None \<longrightarrow> now - session_timers (tn_timers t2) ! i \<le> REJECT_AFTER_TIME"
      using t1(10) t2(10,11) by (metis less_antisym)
  qed (use t1 t2 in simp_all)
qed

section \<open>The whole handler\<close>

text \<open>What \<open>update_timers\<close> leaves behind, for a tunnel that is not brought to an end.\<close>

definition tunn_good :: "instant \<Rightarrow> Tunn \<Rightarrow> bool" where
  "tunn_good time t \<longleftrightarrow> tunn_wf t \<and> timers_behind time (tn_timers t) \<and>
     (\<forall>i < N_SESSIONS. tn_sessions t ! i \<noteq> None \<longrightarrow>
        time - time_started (tn_timers t) - session_timers (tn_timers t) ! i \<le> REJECT_AFTER_TIME)"

lemma tunn_good_keeps: "tunn_good time t \<Longrightarrow> keeps time t t' \<Longrightarrow> tunn_good time t'"
  by (simp add: tunn_good_def keeps_def)

context packet_store
begin

lemma clear_all_total:
  assumes "pinv p" and "holds (view p) t hs"
  shows "\<exists>t' p'. clear_all P time t p = Ret (t', p') \<and> keeps time t t' \<and> pinv p' \<and> holds (view p') t' [] \<and>
    tn_handshake t' = tn_handshake t \<and> view p' = (\<lambda>h. if h \<in> set hs then None else view p h)"
proof -
  obtain t1 p1 where c: "clear_packet_queue P t p = Some (t1, p1)" "pinv p1" "holds (view p1) t1 []"
      "view p1 = (\<lambda>h. if h \<in> set hs then None else view p h)"
    using clear_law [OF assms] by blast
  note m = clear_packet_queue_more [OF c(1)]
  let ?t2 = "t1\<lparr>tn_timers := timers_clear time (tn_timers t1)\<rparr>"
  have "keeps time t ?t2" using keeps_trans [OF keeps_more [OF m] keeps_clear] .
  moreover have "holds (view p1) ?t2 []" using c(3) holds_cong [of ?t2 t1] by simp
  ultimately show ?thesis
    using c tunn_more(2) [OF m] by (simp add: clear_all_def from_option_def)
qed

lemma keepalive_total:
  assumes C: "crypto_correct C" and wf: "tunn_wf t" and dst: "148 \<le> length dst"
    and pool: "pinv p" "holds (view p) t hs"
  shows "\<exists>r t' p'. encapsulate C P time eph [] dst t p = Ret (r, t', p') \<and> keeps time t t' \<and> pinv p' \<and>
    (\<exists>hs'. holds (view p') t' hs')"
proof -
  obtain r t1 where e: "encrypt_current C DATA [] dst t = Ret (r, t1)" "keeps time t t1"
      "packet_queue_head t1 = packet_queue_head t" "packet_queue_tail t1 = packet_queue_tail t"
      "packet_queue_len t1 = packet_queue_len t"
    using encrypt_total [OF C wf, of dst DATA time] dst by auto
  have h1: "holds (view p) t1 hs" using pool(2) holds_cong [OF e(3-5)] by simp
  show ?thesis
  proof (cases r)
    case (Some pkt)
    have "holds (view p) (after_sending [] t1) hs" using h1 holds_cong [of "after_sending [] t1" t1] by simp
    moreover have "keeps time t (after_sending [] t1)" using keeps_trans [OF e(2) keeps_after_sending] .
    ultimately show ?thesis using e(1) Some pool(1) by (auto simp: encapsulate_def encapsulate_with_type_def)
  next
    case None
    obtain t2 p2 new where q: "queue_packet P time DATA [] t1 p = Some (t2, p2)" "pinv p2"
        "holds (view p2) t2 (filter (\<lambda>h. \<not> expired time (view p) h) hs @ new)"
      using queue_packet_law [OF pool(1) h1, of "[]" time DATA] by auto
    have k2: "keeps time t t2" using keeps_trans [OF e(2) keeps_more [OF queue_packet_more [OF q(1)]]] .
    then have wf2: "tunn_wf t2" using wf by (simp add: keeps_def)
    obtain r3 t3 where f: "tunn_format_handshake_initiation C time eph (length dst) False t2 = Ret (r3, t3)" "keeps time t2 t3"
        "packet_queue_head t3 = packet_queue_head t2" "packet_queue_tail t3 = packet_queue_tail t2"
        "packet_queue_len t3 = packet_queue_len t2"
      using initiation_total [OF C wf2 dst] by blast
    have "holds (view p2) t3 (filter (\<lambda>h. \<not> expired time (view p) h) hs @ new)" using q(3) holds_cong [OF f(3-5)] by simp
    moreover have "keeps time t t3" using keeps_trans [OF k2 f(2)] .
    ultimately show ?thesis
      using e(1) None q f(1) by (auto simp: encapsulate_def encapsulate_with_type_def from_option_def)
  qed
qed

lemma initiation_step:
  assumes "crypto_correct C" "tunn_wf t" "148 \<le> length dst" "pinv p" "holds (view p) t hs"
  shows "\<exists>r t'. tunn_format_handshake_initiation C time eph (length dst) f t = Ret (r, t') \<and> keeps time t t' \<and>
    holds (view p) t' hs"
  using initiation_total [OF assms(1-3)] assms(5) holds_cong by metis

lemma update_timers_law:
  assumes C: "crypto_correct C" and wf: "tunn_wf t" and clock: "timers_behind time (tn_timers t)"
    and dst: "148 \<le> length dst" and pool: "pinv p" "holds (view p) t hs"
  shows "\<exists>r t' p'. update_timers C P time eph dst t p = Ret (r, t', p') \<and> tunn_good time t' \<and> pinv p' \<and>
    (\<exists>hs'. holds (view p') t' hs')"
proof -
  define now where "now = time - time_started (tn_timers t)"
  define t1 where "t1 = t\<lparr>tn_timers := (tn_timers t)\<lparr>timer_values := (timer_values (tn_timers t))(TimeCurrent := now)\<rparr>\<rparr>"
  have t1: "tunn_wf t1" "timers_behind time (tn_timers t1)" "time_started (tn_timers t1) = time_started (tn_timers t)"
    using wf clock by (auto simp: t1_def tunn_wf_def timers_behind_def now_def)
  obtain t2 where t2: "update_session_timers now t1 = Ret t2" "tunn_wf t2" "timers_behind time (tn_timers t2)"
      "time_started (tn_timers t2) = time_started (tn_timers t)" "tn_handshake t2 = tn_handshake t"
      "packet_queue_head t2 = packet_queue_head t" "packet_queue_tail t2 = packet_queue_tail t" "packet_queue_len t2 = packet_queue_len t"
      "\<forall>i < N_SESSIONS. tn_sessions t2 ! i \<noteq> None \<longrightarrow> now - session_timers (tn_timers t2) ! i \<le> REJECT_AFTER_TIME"
    using update_session_timers_spec [OF order.refl t1(1,2)] t1(3)
    by (auto simp: update_session_timers_def now_def t1_def)
  define v where "v = timer_values (tn_timers t2)"
  have v: "v n \<le> now" for n using t2(3,4) by (simp add: timers_behind_def v_def now_def)
  have good2: "tunn_good time t2" using t2 by (simp add: tunn_good_def now_def)
  have h2: "holds (view p) t2 hs" using pool(2) holds_cong [OF t2(6-8)] by simp
  show ?thesis
  proof (cases "is_expired (tn_handshake t2)")
    case True
    then show ?thesis
      using t2(1) good2 pool(1) h2 unfolding update_timers_def Let_def now_def [symmetric] t1_def [symmetric] by auto
  next
    case False
    define t3 where "t3 = (if has_cookie (tn_handshake t2) \<and> now - v TimeCookieReceived \<ge> COOKIE_EXPIRATION_TIME
      then t2\<lparr>tn_handshake := clear_cookie (tn_handshake t2)\<rparr> else t2)"
    have cookie: "(if has_cookie (tn_handshake t2) then run_bind (dur_sub now (v TimeCookieReceived)) (\<lambda>d.
        Ret (if d \<ge> COOKIE_EXPIRATION_TIME then t2\<lparr>tn_handshake := clear_cookie (tn_handshake t2)\<rparr> else t2)) else Ret t2) = Ret t3"
      using v by (simp add: dur_sub_def t3_def)
    have k3: "keeps time t2 t3" by (simp add: t3_def keeps_handshake clear_cookie_def)
    note good3 = tunn_good_keeps [OF good2 k3]
    have wf3: "tunn_wf t3" using good3 by (simp add: tunn_good_def)
    have h3: "holds (view p) t3 hs" using h2 holds_cong [of t3 t2] by (simp add: t3_def)
    define t3e where "t3e = t3\<lparr>tn_handshake := set_expired (tn_handshake t3)\<rparr>"
    have k3e: "keeps time t3 t3e" by (simp add: t3e_def keeps_handshake set_expired_def)
    have h3e: "holds (view p) t3e hs" using h3 holds_cong [of t3e t3] by (simp add: t3e_def)
    obtain te pe where ce: "clear_all P time t3e p = Ret (te, pe)" "keeps time t3e te" "pinv pe" "holds (view pe) te []"
      using clear_all_total [OF pool(1) h3e] by blast
    have goode: "tunn_good time te" using tunn_good_keeps [OF good3 keeps_trans [OF k3e ce(2)]] .
    have sub: "dur_sub now (v n) = Ret (now - v n)" for n using v by (simp add: dur_sub_def)
    have eq: "update_timers C P time eph dst t p =
      (if now - v TimeSessionEstablished \<ge> REJECT_AFTER_TIME * 3 then Ret (Err ConnectionExpired, te, pe)
       else case timer (tn_handshake t3) of
         Some time_init_sent \<Rightarrow>
           if now - v TimeLastHandshakeStarted \<ge> REKEY_ATTEMPT_TIME then Ret (Err ConnectionExpired, te, pe)
           else if time - time_init_sent \<ge> REKEY_TIMEOUT then
             run_bind (tunn_format_handshake_initiation C time eph (length dst) True t3) (\<lambda>(r, t4). Ret (r, t4, p))
           else Ret (Done, t3, p)
       | None \<Rightarrow>
           run_bind (idle_timers now v (tn_timers t3)) (\<lambda>(initiate, keepalive, ts).
             if initiate then
               run_bind (tunn_format_handshake_initiation C time eph (length dst) True (t3\<lparr>tn_timers := ts\<rparr>)) (\<lambda>(r, t5). Ret (r, t5, p))
             else if keepalive then encapsulate C P time eph [] dst (t3\<lparr>tn_timers := ts\<rparr>) p
             else Ret (Done, t3\<lparr>tn_timers := ts\<rparr>, p)))"
      unfolding update_timers_def Let_def now_def [symmetric] t1_def [symmetric] t2(1) run_bind_simps v_def [symmetric]
        cookie if_not_P [OF False]
      unfolding run_bind_simps sub t3e_def [symmetric] ce(1) prod.case by simp
    have resend: "\<exists>r t'. run_bind (tunn_format_handshake_initiation C time eph (length dst) True u) (\<lambda>(r, t4). Ret (r, t4, p)) =
        Ret (r, t', p) \<and> tunn_good time t' \<and> (\<exists>hs'. holds (view p) t' hs')"
      if "tunn_good time u" "holds (view p) u hs" for u
    proof -
      have "tunn_wf u" using that(1) by (simp add: tunn_good_def)
      from initiation_step [OF C this dst pool(1) that(2), of time eph True] tunn_good_keeps [OF that(1)] show ?thesis
        by auto
    qed
    show ?thesis
    proof (cases "timer (tn_handshake t3)")
      case (Some s)
      then show ?thesis unfolding eq using goode ce(3,4) resend [OF good3 h3] good3 pool(1) h3 by auto
    next
      case None
      have ts3: "tn_timers t3 = tn_timers t2" by (simp add: t3_def)
      obtain i k ts where it: "idle_timers now v (tn_timers t3) = Ret (i, k, ts)" "same_sessions time (tn_timers t3) ts"
        using idle_timers_total [of time "tn_timers t3" now v] t2(3,4) v by (auto simp: ts3 now_def)
      let ?t4 = "t3\<lparr>tn_timers := ts\<rparr>"
      have k4: "keeps time t3 ?t4" using it(2) by (simp add: keeps_def same_sessions_def tunn_wf_def)
      note good4 = tunn_good_keeps [OF good3 k4]
      have wf4: "tunn_wf ?t4" using good4 by (simp add: tunn_good_def)
      have h4: "holds (view p) ?t4 hs" using h3 holds_cong [of ?t4 t3] by simp
      obtain rk tk pk where ka: "encapsulate C P time eph [] dst ?t4 p = Ret (rk, tk, pk)" "tunn_good time tk" "pinv pk"
          "\<exists>hs'. holds (view pk) tk hs'"
        using keepalive_total [OF C wf4 dst pool(1) h4] tunn_good_keeps [OF good4] by blast
      show ?thesis
        unfolding eq None option.case it(1) run_bind_simps prod.case
        using goode ce(3,4) resend [OF good4 h4] ka good4 pool(1) h4 by (auto split: if_split)
    qed
  qed
qed

end

section \<open>Properties\<close>

text \<open>C22. The timer handler is total and safe: from any well-formed tunnel whose timers are not ahead of the
  clock, with its queue in the pool, \<open>update_timers\<close> returns without a panic; the tunnel, its timers
  and its queue are well-formed again; and no session older than \<open>REJECT_AFTER_TIME\<close> is left.\<close>

theorem update_timers_safe:
  assumes "crypto_correct C" and "tunn_wf t" and "timers_behind time (tn_timers t)"
    and "148 \<le> length dst" and "heap_inv N BYTES p" and "holds (heap_view p) t hs"
  shows "\<exists>r t' p'. update_timers C (heap_ops N BYTES) time eph dst t p = Ret (r, t', p') \<and>
    tunn_wf t' \<and> timers_behind time (tn_timers t') \<and> heap_inv N BYTES p' \<and> (\<exists>hs'. holds (heap_view p') t' hs') \<and>
    (\<forall>i < N_SESSIONS. tn_sessions t' ! i \<noteq> None \<longrightarrow>
       time - time_started (tn_timers t') - session_timers (tn_timers t') ! i \<le> REJECT_AFTER_TIME)"
  using heap.update_timers_law [OF assms] unfolding tunn_good_def by blast

lemma sample_tunn_wf: "tunn_wf (sample_tunn sample_session)" "timers_behind 5 (tn_timers (sample_tunn sample_session))"
    "holds v (sample_tunn sample_session) []"
  using crypto_correctD(5) [OF sample_crypto_correct]
  by (auto simp: tunn_wf_def timers_behind_def holds_def sample_tunn_def tunn_new_def timers_new_def N_SESSIONS_def
      sample_session_def session_new_def handshake_new_def noise_params_new_def)

theorem update_timers_safe_witness:
  "\<exists>r t' p'. update_timers sample_crypto (heap_ops 4 100) 5 [3] (replicate 148 0) (sample_tunn sample_session) heap_new = Ret (r, t', p') \<and>
     tunn_wf t'"
  using update_timers_safe [OF sample_crypto_correct sample_tunn_wf(1,2) _ heap_inv_new sample_tunn_wf(3), of "replicate 148 0" 4 100 "[3]"]
  by auto

end
