(* ===== verification/Allowed_IPs.thy ===== *)
theory Allowed_IPs
  imports Ipnet
begin

text \<open>
  The allowed-IPs table (\<^verbatim>\<open>AllowedIPs\<close> of \<^verbatim>\<open>allowed_ips.rs\<close>): a prefix trie per
  address family, in the build with both families. The contract its clients (the device and
  its peers) rely on is the locale \<open>prefix_table\<close>; it is interpreted on the trie of each
  width and on the table.
\<close>

section \<open>The table\<close>

record 'd AllowedIPs =
  ai_v4 :: "(u32, 'd) arena"
  ai_v6 :: "(u128, 'd) arena"

definition allowed_ips_new :: "'d AllowedIPs" where
  "allowed_ips_new = \<lparr>ai_v4 = trie_new, ai_v6 = trie_new\<rparr>"

definition allowed_ips_clear :: "'d AllowedIPs \<Rightarrow> 'd AllowedIPs" where
  "allowed_ips_clear t = \<lparr>ai_v4 = trie_clear (ai_v4 t), ai_v6 = trie_clear (ai_v6 t)\<rparr>"

text \<open>\<open>None\<close>: the call panics or does not return.\<close>

definition allowed_ips_insert ::
  "nat option \<Rightarrow> IpNet \<Rightarrow> 'd \<Rightarrow> 'd AllowedIPs \<Rightarrow> ((AllowedIPsError + 'd option) \<times> 'd AllowedIPs) option" where
  "allowed_ips_insert cap network data t =
     (let cidr = unat (ipnet_prefix_len network) in
      case ipnet_network network of
        AddrV4 a \<Rightarrow> map_option (\<lambda>(r, nodes). (r, t\<lparr>ai_v4 := nodes\<rparr>)) (trie_insert cap a cidr data (ai_v4 t))
      | AddrV6 a \<Rightarrow> map_option (\<lambda>(r, nodes). (r, t\<lparr>ai_v6 := nodes\<rparr>)) (trie_insert cap a cidr data (ai_v6 t)))"

definition allowed_ips_find :: "IpAddr \<Rightarrow> 'd AllowedIPs \<Rightarrow> 'd option option" where
  "allowed_ips_find key t =
     (case key of AddrV4 a \<Rightarrow> trie_find a (ai_v4 t) | AddrV6 a \<Rightarrow> trie_find a (ai_v6 t))"

definition allowed_ips_overlaps :: "IpNet \<Rightarrow> 'd AllowedIPs \<Rightarrow> bool" where
  "allowed_ips_overlaps network t =
     (let cidr = unat (ipnet_prefix_len network) in
      case ipnet_network network of
        AddrV4 a \<Rightarrow> trie_overlaps a cidr (ai_v4 t)
      | AddrV6 a \<Rightarrow> trie_overlaps a cidr (ai_v6 t))"

definition allowed_ips_remove :: "('d \<Rightarrow> bool) \<Rightarrow> 'd AllowedIPs \<Rightarrow> 'd AllowedIPs" where
  "allowed_ips_remove predicate t =
     t\<lparr>ai_v4 := trie_remove predicate (ai_v4 t), ai_v6 := trie_remove predicate (ai_v6 t)\<rparr>"

text \<open>\<^verbatim>\<open>IpNet::new(..).unwrap()\<close> for every entry, IPv4 first; \<open>None\<close> is the panic.\<close>

definition allowed_ips_iter :: "'d AllowedIPs \<Rightarrow> ('d \<times> IpNet) list option" where
  "allowed_ips_iter t =
     (let item = (\<lambda>d a (l::nat). case ipnet_new a (of_nat l) of Inr n \<Rightarrow> Some (d, n) | Inl _ \<Rightarrow> None)
      in those (map (\<lambda>(d, p, l). item d (AddrV4 p) l) (trie_iter (ai_v4 t)) @
                map (\<lambda>(d, p, l). item d (AddrV6 p) l) (trie_iter (ai_v6 t))))"

fun allowed_ips_insert_all ::
  "nat option \<Rightarrow> (IpNet \<times> 'd) list \<Rightarrow> 'd AllowedIPs \<Rightarrow> (AllowedIPsError + 'd AllowedIPs) option" where
  "allowed_ips_insert_all cap [] t = Some (Inr t)"
| "allowed_ips_insert_all cap ((ip, data) # rest) t =
     (case allowed_ips_insert cap ip data t of
        None \<Rightarrow> None
      | Some (Inl e, _) \<Rightarrow> Some (Inl e)
      | Some (Inr _, t') \<Rightarrow> allowed_ips_insert_all cap rest t')"

definition allowed_ips_try_from_iter ::
  "nat option \<Rightarrow> (IpNet \<times> 'd) list \<Rightarrow> (AllowedIPsError + 'd AllowedIPs) option" where
  "allowed_ips_try_from_iter cap items = allowed_ips_insert_all cap items allowed_ips_new"

section \<open>The contract of a prefix table\<close>

text \<open>Entries are a partial map from prefixes; insertion is total, updates the map or leaves
  the table as it was; lookup is the best match in the map.\<close>

locale prefix_table =
  fixes tbl_new :: 't
    and tbl_insert :: "'n \<Rightarrow> 'd \<Rightarrow> 't \<Rightarrow> ((AllowedIPsError + 'd option) \<times> 't) option"
    and tbl_find :: "'a \<Rightarrow> 't \<Rightarrow> 'd option option"
    and tbl_remove :: "('d \<Rightarrow> bool) \<Rightarrow> 't \<Rightarrow> 't"
    and tbl_inv :: "'t \<Rightarrow> bool"
    and tbl_valid :: "'n \<Rightarrow> bool"
    and tbl_key :: "'n \<Rightarrow> 'k"
    and tbl_map :: "'t \<Rightarrow> 'k \<Rightarrow> 'd option"
    and tbl_match :: "('k \<Rightarrow> 'd option) \<Rightarrow> 'a \<Rightarrow> 'd option"
  assumes new_inv: "tbl_inv tbl_new"
    and new_map: "tbl_map tbl_new = Map.empty"
    and insert_law: "tbl_inv t \<Longrightarrow> tbl_valid n \<Longrightarrow>
      \<exists>r t'. tbl_insert n d t = Some (r, t') \<and> tbl_inv t' \<and>
        (case r of Inr old \<Rightarrow> old = tbl_map t (tbl_key n) \<and> tbl_map t' = (tbl_map t)(tbl_key n \<mapsto> d)
                 | Inl e \<Rightarrow> t' = t)"
    and find_law: "tbl_inv t \<Longrightarrow> tbl_find a t = Some (tbl_match (tbl_map t) a)"
    and remove_inv: "tbl_inv t \<Longrightarrow> tbl_inv (tbl_remove f t)"
    and remove_map: "tbl_inv t \<Longrightarrow> tbl_map (tbl_remove f t) k =
      (case tbl_map t k of Some d \<Rightarrow> if f d then None else Some d | None \<Rightarrow> None)"
begin

text \<open>Inserting a list of entries, stopping at the first error.\<close>

fun tbl_insert_all :: "('n \<times> 'd) list \<Rightarrow> 't \<Rightarrow> (AllowedIPsError + 't) option" where
  "tbl_insert_all [] t = Some (Inr t)"
| "tbl_insert_all ((n, d) # rest) t =
     (case tbl_insert n d t of
        None \<Rightarrow> None | Some (Inl e, _) \<Rightarrow> Some (Inl e) | Some (Inr _, t') \<Rightarrow> tbl_insert_all rest t')"

lemma insert_all_law:
  assumes "tbl_inv t" and "\<forall>x\<in>set items. tbl_valid (fst x)"
  shows "\<exists>r. tbl_insert_all items t = Some r \<and>
    (\<forall>t'. r = Inr t' \<longrightarrow> tbl_inv t' \<and>
       tbl_map t' = tbl_map t ++ map_of (rev (map (\<lambda>(n, d). (tbl_key n, d)) items)))"
  using assms
proof (induction items arbitrary: t)
  case Nil
  then show ?case by simp
next
  case (Cons x rest)
  obtain n d where x: "x = (n, d)" by fastforce
  from insert_law [OF Cons.prems(1), of n d] Cons.prems(2) x
  obtain r t' where i: "tbl_insert n d t = Some (r, t')" "tbl_inv t'"
    "case r of Inr old \<Rightarrow> old = tbl_map t (tbl_key n) \<and> tbl_map t' = (tbl_map t)(tbl_key n \<mapsto> d) | Inl e \<Rightarrow> t' = t"
    by auto
  show ?case
  proof (cases r)
    case (Inr old)
    have "\<forall>x\<in>set rest. tbl_valid (fst x)" using Cons.prems(2) by simp
    from Cons.IH [OF i(2) this] obtain r' where r': "tbl_insert_all rest t' = Some r'"
      "\<And>t''. r' = Inr t'' \<Longrightarrow> tbl_inv t'' \<and>
         tbl_map t'' = tbl_map t' ++ map_of (rev (map (\<lambda>(n, d). (tbl_key n, d)) rest))" by blast
    have "tbl_map t' = (tbl_map t)(tbl_key n \<mapsto> d)" using i(3) Inr by simp
    with r' x i(1) Inr show ?thesis by simp
  qed (use x i in simp)
qed

lemma find_after_insert:
  assumes "tbl_inv t" and "tbl_valid n" and "tbl_insert n d t = Some (Inr old, t')"
  shows "tbl_find a t' = Some (tbl_match ((tbl_map t)(tbl_key n \<mapsto> d)) a)"
  using insert_law [OF assms(1,2), of d] assms(3) find_law by auto

lemma failed_insert_keeps:
  assumes "tbl_inv t" and "tbl_valid n" and "tbl_insert n d t = Some (Inl e, t')"
  shows "t' = t"
  using insert_law [OF assms(1,2), of d] assms(3) by auto

end

section \<open>The trie is a prefix table, at every width\<close>

interpretation trie_table: prefix_table
  "trie_new :: ('w::len word, 'd) arena" "\<lambda>(p, l). trie_insert cap p l" trie_find trie_remove trie_wf
  "\<lambda>(p :: 'w word, l). l \<le> LENGTH('w)" "\<lambda>(p, l). bits p l" trie_map "\<lambda>m (a :: 'w word). lpm m (bits a LENGTH('w))"
proof
  fix t :: "('w word, 'd) arena" and n :: "'w word \<times> nat" and d
  assume "trie_wf t" "case n of (p, l) \<Rightarrow> l \<le> LENGTH('w)"
  then show "\<exists>r t'. (case n of (p, l) \<Rightarrow> trie_insert cap p l) d t = Some (r, t') \<and> trie_wf t' \<and>
      (case r of Inr old \<Rightarrow> old = trie_map t (case n of (p, l) \<Rightarrow> bits p l) \<and>
         trie_map t' = (trie_map t)((case n of (p, l) \<Rightarrow> bits p l) \<mapsto> d) | Inl e \<Rightarrow> t' = t)"
    using trie_insert_spec [of t "snd n" cap "fst n" d]
    by (fastforce simp: insert_post_def split: prod.splits sum.splits)
qed (simp_all add: trie_new_wf trie_new_map trie_remove_wf trie_map_remove trie_find_lpm)

section \<open>The table is a prefix table\<close>

text \<open>Keys of the table: a prefix of one family.\<close>

datatype net_key = K4 "bool list" | K6 "bool list"

fun ipnet_key :: "IpNet \<Rightarrow> net_key" where
  "ipnet_key (NetV4 n) = K4 (bits (v4_addr n) (unat (v4_prefix_len n)))"
| "ipnet_key (NetV6 n) = K6 (bits (v6_addr n) (unat (v6_prefix_len n)))"

definition allowed_ips_wf :: "'d AllowedIPs \<Rightarrow> bool" where
  "allowed_ips_wf t \<longleftrightarrow> trie_wf (ai_v4 t) \<and> trie_wf (ai_v6 t)"

definition allowed_ips_map :: "'d AllowedIPs \<Rightarrow> net_key \<Rightarrow> 'd option" where
  "allowed_ips_map t k = (case k of K4 q \<Rightarrow> trie_map (ai_v4 t) q | K6 q \<Rightarrow> trie_map (ai_v6 t) q)"

definition best_match :: "(net_key \<Rightarrow> 'd option) \<Rightarrow> IpAddr \<Rightarrow> 'd option" where
  "best_match m a =
     (case a of AddrV4 x \<Rightarrow> lpm (\<lambda>q. m (K4 q)) (bits x 32) | AddrV6 x \<Rightarrow> lpm (\<lambda>q. m (K6 q)) (bits x 128))"

lemma map_family:
  "(\<lambda>q. allowed_ips_map t (K4 q)) = trie_map (ai_v4 t)" "(\<lambda>q. allowed_ips_map t (K6 q)) = trie_map (ai_v6 t)"
  by (simp_all add: allowed_ips_map_def)

lemma allowed_ips_insert_strong:
  assumes "allowed_ips_wf t" and "ipnet_wf n"
  shows "\<exists>r t'. allowed_ips_insert cap n d t = Some (r, t') \<and> allowed_ips_wf t' \<and>
    (case r of
       Inr old \<Rightarrow> old = allowed_ips_map t (ipnet_key n) \<and>
         allowed_ips_map t' = (allowed_ips_map t)(ipnet_key n \<mapsto> d)
     | Inl e \<Rightarrow> e = Full \<and> t' = t \<and>
         arena_room cap < (if is_ipv4 n then length (ai_v4 t) else length (ai_v6 t)) + 2)"
proof (cases n)
  case (NetV4 m)
  let ?l = "unat (v4_prefix_len m)" and ?p = "mask_prefix (v4_addr m) (unat (v4_prefix_len m))"
  have l: "?l \<le> 32" "ipnet_network n = AddrV4 ?p"
    using assms(2) NetV4 by (simp_all add: ipv4net_network_mask word_le_nat_alt)
  have bm: "bits ?p ?l = bits (v4_addr m) ?l" using l(1) by (intro bits_mask_prefix) simp_all
  obtain r nodes where i: "trie_insert cap ?p ?l d (ai_v4 t) = Some (r, nodes)"
    and post: "insert_post cap (ai_v4 t) (bits (v4_addr m) ?l) d (r, nodes)"
    using trie_insert_spec [of "ai_v4 t" ?l cap ?p d] assms(1) l(1) bm by (auto simp: allowed_ips_wf_def)
  have "allowed_ips_insert cap n d t = Some (r, t\<lparr>ai_v4 := nodes\<rparr>)"
    using i l NetV4 by (simp add: allowed_ips_insert_def)
  with post assms(1) NetV4 show ?thesis
    by (auto simp: insert_post_def allowed_ips_wf_def allowed_ips_map_def fun_eq_iff split: sum.splits net_key.splits)
next
  case (NetV6 m)
  let ?l = "unat (v6_prefix_len m)" and ?p = "mask_prefix (v6_addr m) (unat (v6_prefix_len m))"
  have l: "?l \<le> 128" "ipnet_network n = AddrV6 ?p"
    using assms(2) NetV6 by (simp_all add: ipv6net_network_mask word_le_nat_alt)
  have bm: "bits ?p ?l = bits (v6_addr m) ?l" using l(1) by (intro bits_mask_prefix) simp_all
  obtain r nodes where i: "trie_insert cap ?p ?l d (ai_v6 t) = Some (r, nodes)"
    and post: "insert_post cap (ai_v6 t) (bits (v6_addr m) ?l) d (r, nodes)"
    using trie_insert_spec [of "ai_v6 t" ?l cap ?p d] assms(1) l(1) bm by (auto simp: allowed_ips_wf_def)
  have "allowed_ips_insert cap n d t = Some (r, t\<lparr>ai_v6 := nodes\<rparr>)"
    using i l NetV6 by (simp add: allowed_ips_insert_def)
  with post assms(1) NetV6 show ?thesis
    by (auto simp: insert_post_def allowed_ips_wf_def allowed_ips_map_def fun_eq_iff split: sum.splits net_key.splits)
qed

interpretation allowed: prefix_table
  allowed_ips_new "allowed_ips_insert cap" allowed_ips_find allowed_ips_remove allowed_ips_wf
  ipnet_wf ipnet_key allowed_ips_map best_match
proof
  fix t :: "'a AllowedIPs" and a
  assume "allowed_ips_wf t"
  then show "allowed_ips_find a t = Some (best_match (allowed_ips_map t) a)"
    by (auto simp: allowed_ips_find_def best_match_def allowed_ips_wf_def map_family trie_find_lpm split: IpAddr.split)
next
  fix t :: "'a AllowedIPs" and f k
  show "allowed_ips_map (allowed_ips_remove f t) k =
      (case allowed_ips_map t k of Some d \<Rightarrow> if f d then None else Some d | None \<Rightarrow> None)"
    by (cases k) (simp_all add: allowed_ips_map_def allowed_ips_remove_def trie_map_remove)
next
  fix t :: "'a AllowedIPs" and n d
  assume "allowed_ips_wf t" "ipnet_wf n"
  then show "\<exists>r t'. allowed_ips_insert cap n d t = Some (r, t') \<and> allowed_ips_wf t' \<and>
    (case r of Inr old \<Rightarrow> old = allowed_ips_map t (ipnet_key n) \<and>
       allowed_ips_map t' = (allowed_ips_map t)(ipnet_key n \<mapsto> d) | Inl e \<Rightarrow> t' = t)"
    using allowed_ips_insert_strong [of t n cap d] by (fastforce split: sum.splits)
qed (simp_all add: allowed_ips_wf_def allowed_ips_new_def trie_new_wf allowed_ips_map_def trie_new_map fun_eq_iff
    allowed_ips_remove_def trie_remove_wf split: net_key.split)

section \<open>What the table does\<close>

fun key_matches :: "net_key \<Rightarrow> IpAddr \<Rightarrow> bool" where
  "key_matches (K4 q) (AddrV4 x) \<longleftrightarrow> prefix q (bits x 32)"
| "key_matches (K6 q) (AddrV6 x) \<longleftrightarrow> prefix q (bits x 128)"
| "key_matches _ _ \<longleftrightarrow> False"

fun key_len :: "net_key \<Rightarrow> nat" where
  "key_len (K4 q) = length q" | "key_len (K6 q) = length q"

text \<open>The keys that match are the networks that contain the address.\<close>

lemma key_matches_ipnet: "ipnet_wf n \<Longrightarrow> key_matches (ipnet_key n) a \<longleftrightarrow> ipnet_contains n a"
  by (cases n; cases a) (auto simp: prefix_bits_iff word_le_nat_alt)

lemma lpm_Some_iff:
  "lpm m k = Some d \<longleftrightarrow>
     (\<exists>q. prefix q k \<and> m q = Some d \<and> (\<forall>q'. prefix q' k \<longrightarrow> length q < length q' \<longrightarrow> m q' = None))"
proof (induction k rule: rev_induct)
  case Nil
  then show ?case by (auto simp: lpm.simps [of m "[]"] split: option.split)
next
  case (snoc x xs)
  show ?case
  proof (cases "m (xs @ [x])")
    case None
    then have "lpm m (xs @ [x]) = lpm m xs" by (simp add: lpm.simps [of m "xs @ [x]"])
    with snoc None show ?thesis by auto
  next
    case (Some e)
    then have "lpm m (xs @ [x]) = Some e" by (simp add: lpm.simps [of m "xs @ [x]"])
    moreover have "q = xs @ [x]"
      if "prefix q (xs @ [x])" "\<forall>q'. prefix q' (xs @ [x]) \<longrightarrow> length q < length q' \<longrightarrow> m q' = None" for q
    proof -
      have "\<not> length q < length (xs @ [x])" using that(2) Some by auto
      then show ?thesis using that(1) by (auto dest: prefix_length_le)
    qed
    moreover have "prefix q (xs @ [x]) \<Longrightarrow> \<not> length (xs @ [x]) < length q" for q
      by (auto dest: prefix_length_le)
    ultimately show ?thesis using Some by (metis option.inject prefix_order.refl)
  qed
qed

lemma best_match_Some_iff:
  "best_match m a = Some d \<longleftrightarrow>
     (\<exists>k. key_matches k a \<and> m k = Some d \<and>
        (\<forall>k'. key_matches k' a \<longrightarrow> key_len k < key_len k' \<longrightarrow> m k' = None))"
proof -
  have all: "(\<forall>k. P k) \<longleftrightarrow> (\<forall>q. P (K4 q)) \<and> (\<forall>q. P (K6 q))" for P by (metis net_key.exhaust)
  have ex: "(\<exists>k. P k) \<longleftrightarrow> (\<exists>q. P (K4 q)) \<or> (\<exists>q. P (K6 q))" for P by (metis net_key.exhaust)
  show ?thesis
    unfolding ex all by (cases a) (simp_all add: best_match_def lpm_Some_iff)
qed

text \<open>A table with one entry, 10.0.0.0/8, for the witnesses.\<close>

definition sample_net :: IpNet where
  "sample_net = NetV4 \<lparr>v4_addr = 0x0A010203, v4_prefix_len = 8\<rparr>"

lemma sample_table_gen:
  fixes v :: 'd
  shows "\<exists>t. allowed_ips_insert None sample_net v allowed_ips_new = Some (Inr None, t) \<and> allowed_ips_wf t \<and>
     allowed_ips_map t = [ipnet_key sample_net \<mapsto> v]"
proof -
  have "ipnet_wf sample_net" by (simp add: sample_net_def word_le_nat_alt)
  from allowed_ips_insert_strong [OF allowed.new_inv this, of None v]
  obtain r t where r: "allowed_ips_insert None sample_net v allowed_ips_new = Some (r, t)" "allowed_ips_wf t"
    "case r of
       Inr old \<Rightarrow> old = allowed_ips_map allowed_ips_new (ipnet_key sample_net) \<and>
         allowed_ips_map t = (allowed_ips_map allowed_ips_new)(ipnet_key sample_net \<mapsto> v)
     | Inl e \<Rightarrow> e = Full \<and> t = allowed_ips_new \<and>
         arena_room None < (if is_ipv4 sample_net then length (ai_v4 (allowed_ips_new :: 'd AllowedIPs))
           else length (ai_v6 (allowed_ips_new :: 'd AllowedIPs))) + 2"
    by blast
  show ?thesis
  proof (cases r)
    case (Inl e)
    with r(3) show ?thesis by (simp add: arena_room_def sample_net_def allowed_ips_new_def trie_new_def)
  next
    case (Inr old)
    with r show ?thesis by (simp add: allowed.new_map)
  qed
qed

lemmas sample_table = sample_table_gen [where v = "7 :: nat"]

text \<open>C18. Lookup is longest-prefix match: \<open>find\<close> returns, and it gives the payload of a stored prefix
  that contains the address such that no longer stored prefix contains it; no match means
  that no stored prefix contains it.\<close>

theorem allowed_ips_find_longest_prefix:
  assumes "allowed_ips_wf t"
  shows "\<exists>r. allowed_ips_find a t = Some r \<and>
    (\<forall>d. r = Some d \<longleftrightarrow>
       (\<exists>k. key_matches k a \<and> allowed_ips_map t k = Some d \<and>
          (\<forall>k'. key_matches k' a \<longrightarrow> key_len k < key_len k' \<longrightarrow> allowed_ips_map t k' = None)))"
  by (simp add: allowed.find_law [OF assms] best_match_Some_iff)

theorem allowed_ips_find_longest_prefix_witness:
  "\<exists>t r. allowed_ips_insert None sample_net (7::nat) allowed_ips_new = Some (Inr None, t) \<and>
    allowed_ips_find (AddrV4 0x0A090909) t = Some r \<and>
    (\<forall>d. r = Some d \<longleftrightarrow>
       (\<exists>k. key_matches k (AddrV4 0x0A090909) \<and> allowed_ips_map t k = Some d \<and>
          (\<forall>k'. key_matches k' (AddrV4 0x0A090909) \<longrightarrow> key_len k < key_len k' \<longrightarrow> allowed_ips_map t k' = None)))"
proof -
  obtain t where t: "allowed_ips_insert None sample_net (7::nat) allowed_ips_new = Some (Inr None, t)"
      "allowed_ips_wf t"
    using sample_table by blast
  from allowed_ips_find_longest_prefix [OF t(2), of "AddrV4 0x0A090909"] t(1) show ?thesis by blast
qed

text \<open>Insertion is total, and either replaces exactly the entry of the network and returns its
  old payload, or reports that the table is full and leaves it unchanged, which happens only
  when the family's arena has fewer than two free nodes.\<close>

theorem allowed_ips_insert_updates:
  assumes "allowed_ips_wf t" and "ipnet_wf n"
  shows "\<exists>r t'. allowed_ips_insert cap n d t = Some (r, t') \<and> allowed_ips_wf t' \<and>
    (case r of
       Inr old \<Rightarrow> old = allowed_ips_map t (ipnet_key n) \<and>
         allowed_ips_map t' = (allowed_ips_map t)(ipnet_key n \<mapsto> d)
     | Inl e \<Rightarrow> e = Full \<and> t' = t \<and>
         arena_room cap < (if is_ipv4 n then length (ai_v4 t) else length (ai_v6 t)) + 2)"
  by (rule allowed_ips_insert_strong [OF assms])

theorem allowed_ips_insert_updates_witness:
  "\<exists>r t'. allowed_ips_insert (Some 4) sample_net (7::nat) allowed_ips_new = Some (r, t') \<and> allowed_ips_wf t' \<and>
    (case r of
       Inr old \<Rightarrow> old = allowed_ips_map allowed_ips_new (ipnet_key sample_net) \<and>
         allowed_ips_map t' = (allowed_ips_map allowed_ips_new)(ipnet_key sample_net \<mapsto> 7)
     | Inl e \<Rightarrow> e = Full \<and> t' = allowed_ips_new \<and>
         arena_room (Some 4) < (if is_ipv4 sample_net then length (ai_v4 (allowed_ips_new :: nat AllowedIPs))
           else length (ai_v6 (allowed_ips_new :: nat AllowedIPs))) + 2)"
  by (rule allowed_ips_insert_updates [OF allowed.new_inv]) (simp add: sample_net_def word_le_nat_alt)

lemma overlaps_spec:
  assumes "allowed_ips_wf t" and "ipnet_wf n"
  shows "allowed_ips_overlaps n t \<longleftrightarrow>
    (\<exists>k d a. allowed_ips_map t k = Some d \<and> key_matches k a \<and> ipnet_contains n a)"
proof (cases n)
  case (NetV4 m)
  let ?l = "unat (v4_prefix_len m)"
  have l: "?l \<le> 32" using assms(2) NetV4 by (simp add: word_le_nat_alt)
  have "allowed_ips_overlaps n t = trie_overlaps (mask_prefix (v4_addr m) ?l) ?l (ai_v4 t)"
    using assms(2) NetV4 by (simp add: allowed_ips_overlaps_def ipv4net_network_mask)
  also have "\<dots> \<longleftrightarrow> (\<exists>q d (x :: u32). trie_map (ai_v4 t) q = Some d \<and> prefix q (bits x 32) \<and>
      bits x ?l = bits (v4_addr m) ?l)"
    using trie_overlaps_spec [where 'w = 32, of "ai_v4 t" ?l "mask_prefix (v4_addr m) ?l"] assms(1) l
    by (simp add: allowed_ips_wf_def bits_mask_prefix [where 'w = 32])
  also have "\<dots> \<longleftrightarrow> (\<exists>k d a. allowed_ips_map t k = Some d \<and> key_matches k a \<and> ipnet_contains n a)"
  proof -
    have "key_matches k a \<and> ipnet_contains n a \<longleftrightarrow>
        (\<exists>q x. k = K4 q \<and> a = AddrV4 x \<and> prefix q (bits x 32) \<and> bits x ?l = bits (v4_addr m) ?l)" for k a
      using NetV4 by (cases k; cases a) auto
    then have "(\<exists>k d a. allowed_ips_map t k = Some d \<and> key_matches k a \<and> ipnet_contains n a) \<longleftrightarrow>
        (\<exists>k d a. allowed_ips_map t k = Some d \<and>
          (\<exists>q x. k = K4 q \<and> a = AddrV4 x \<and> prefix q (bits x 32) \<and> bits x ?l = bits (v4_addr m) ?l))" by simp
    also have "\<dots> \<longleftrightarrow> (\<exists>q d (x :: u32). allowed_ips_map t (K4 q) = Some d \<and> prefix q (bits x 32) \<and> bits x ?l = bits (v4_addr m) ?l)"
      by blast
    finally show ?thesis by (simp add: allowed_ips_map_def)
  qed
  finally show ?thesis .
next
  case (NetV6 m)
  let ?l = "unat (v6_prefix_len m)"
  have l: "?l \<le> 128" using assms(2) NetV6 by (simp add: word_le_nat_alt)
  have "allowed_ips_overlaps n t = trie_overlaps (mask_prefix (v6_addr m) ?l) ?l (ai_v6 t)"
    using assms(2) NetV6 by (simp add: allowed_ips_overlaps_def ipv6net_network_mask)
  also have "\<dots> \<longleftrightarrow> (\<exists>q d (x :: u128). trie_map (ai_v6 t) q = Some d \<and> prefix q (bits x 128) \<and>
      bits x ?l = bits (v6_addr m) ?l)"
    using trie_overlaps_spec [where 'w = 128, of "ai_v6 t" ?l "mask_prefix (v6_addr m) ?l"] assms(1) l
    by (simp add: allowed_ips_wf_def bits_mask_prefix [where 'w = 128])
  also have "\<dots> \<longleftrightarrow> (\<exists>k d a. allowed_ips_map t k = Some d \<and> key_matches k a \<and> ipnet_contains n a)"
  proof -
    have "key_matches k a \<and> ipnet_contains n a \<longleftrightarrow>
        (\<exists>q x. k = K6 q \<and> a = AddrV6 x \<and> prefix q (bits x 128) \<and> bits x ?l = bits (v6_addr m) ?l)" for k a
      using NetV6 by (cases k; cases a) auto
    then have "(\<exists>k d a. allowed_ips_map t k = Some d \<and> key_matches k a \<and> ipnet_contains n a) \<longleftrightarrow>
        (\<exists>k d a. allowed_ips_map t k = Some d \<and>
          (\<exists>q x. k = K6 q \<and> a = AddrV6 x \<and> prefix q (bits x 128) \<and> bits x ?l = bits (v6_addr m) ?l))" by simp
    also have "\<dots> \<longleftrightarrow> (\<exists>q d (x :: u128). allowed_ips_map t (K6 q) = Some d \<and> prefix q (bits x 128) \<and> bits x ?l = bits (v6_addr m) ?l)"
      by blast
    finally show ?thesis by (simp add: allowed_ips_map_def)
  qed
  finally show ?thesis .
qed

text \<open>C32. \<open>overlaps\<close> is true exactly when some address is both in the network and in a stored prefix.\<close>

theorem allowed_ips_overlaps_shared_address:
  assumes "allowed_ips_wf t" and "ipnet_wf n"
  shows "allowed_ips_overlaps n t \<longleftrightarrow>
    (\<exists>k d a. allowed_ips_map t k = Some d \<and> key_matches k a \<and> ipnet_contains n a)"
  by (rule overlaps_spec [OF assms])

theorem allowed_ips_overlaps_shared_address_witness:
  "\<exists>t. allowed_ips_insert None sample_net (7::nat) allowed_ips_new = Some (Inr None, t) \<and> allowed_ips_overlaps sample_net t"
proof -
  obtain t where t: "allowed_ips_insert None sample_net (7::nat) allowed_ips_new = Some (Inr None, t)"
      "allowed_ips_wf t" "allowed_ips_map t = [ipnet_key sample_net \<mapsto> 7]"
    using sample_table by blast
  have wf: "ipnet_wf sample_net" by (simp add: sample_net_def word_le_nat_alt)
  have "ipnet_contains sample_net (AddrV4 0x0A010203)" by (simp add: sample_net_def)
  with key_matches_ipnet [OF wf] have "key_matches (ipnet_key sample_net) (AddrV4 0x0A010203)" by blast
  then have "allowed_ips_overlaps sample_net t"
    using allowed_ips_overlaps_shared_address [OF t(2) wf] t(3) \<open>ipnet_contains sample_net (AddrV4 0x0A010203)\<close>
    by (metis fun_upd_same)
  with t(1) show ?thesis by blast
qed

section \<open>Building and listing a table\<close>

lemma insert_all_is_table: "allowed_ips_insert_all cap items t = allowed.tbl_insert_all cap items t"
  by (induction cap items t rule: allowed_ips_insert_all.induct)
    (auto split: option.split sum.split prod.split)

text \<open>A table built from a list of networks returns and, unless it reports an error, finds for every
  address the best match among the list's networks, the last entry of a prefix winning.\<close>

theorem allowed_ips_try_from_iter_finds:
  assumes "\<forall>x\<in>set items. ipnet_wf (fst x)"
  shows "\<exists>r. allowed_ips_try_from_iter cap items = Some r \<and>
    (\<forall>t. r = Inr t \<longrightarrow> allowed_ips_wf t \<and>
       allowed_ips_find a t = Some (best_match (map_of (rev (map (\<lambda>(n, d). (ipnet_key n, d)) items))) a))"
proof -
  from allowed.insert_all_law [OF allowed.new_inv assms, of cap]
  obtain r where r: "allowed_ips_try_from_iter cap items = Some r"
    "\<And>t. r = Inr t \<Longrightarrow> allowed_ips_wf t \<and> allowed_ips_map t = map_of (rev (map (\<lambda>(n, d). (ipnet_key n, d)) items))"
    by (auto simp: allowed_ips_try_from_iter_def insert_all_is_table allowed.new_map)
  then show ?thesis using allowed.find_law by fastforce
qed

theorem allowed_ips_try_from_iter_finds_witness:
  "\<exists>r. allowed_ips_try_from_iter None [(sample_net, 7::nat)] = Some r \<and>
    (\<forall>t. r = Inr t \<longrightarrow> allowed_ips_wf t \<and>
       allowed_ips_find (AddrV4 1) t =
         Some (best_match (map_of (rev (map (\<lambda>(n, d). (ipnet_key n, d)) [(sample_net, 7)]))) (AddrV4 1)))"
  by (rule allowed_ips_try_from_iter_finds) (simp add: sample_net_def word_le_nat_alt)

text \<open>The iterator never hits its \<^verbatim>\<open>unwrap\<close> and lists exactly the entries.\<close>

lemma those_map_Some:
  assumes "\<And>x. x \<in> set xs \<Longrightarrow> f x = Some (g x)"
  shows "those (map f xs) = Some (map g xs)"
  using assms by (induction xs) auto

lemma those_append: "those xs = Some a \<Longrightarrow> those ys = Some b \<Longrightarrow> those (xs @ ys) = Some (a @ b)"
  by (induction xs arbitrary: a) (auto split: option.splits)

lemma u8_of_nat_small: "l \<le> 128 \<Longrightarrow> unat (of_nat l :: u8) = l"
  by (rule unat_of_nat_small) simp

lemma allowed_ips_iter_eq:
  assumes "allowed_ips_wf t"
  shows "allowed_ips_iter t = Some
    (map (\<lambda>(d, p, l). (d, NetV4 \<lparr>v4_addr = p, v4_prefix_len = of_nat l\<rparr>)) (trie_iter (ai_v4 t)) @
     map (\<lambda>(d, p, l). (d, NetV6 \<lparr>v6_addr = p, v6_prefix_len = of_nat l\<rparr>)) (trie_iter (ai_v6 t)))"
proof -
  have wf: "trie_wf (ai_v4 t)" "trie_wf (ai_v6 t)" using assms by (simp_all add: allowed_ips_wf_def)
  have l4: "of_nat l \<le> (32 :: u8)" if "(d, p, l) \<in> set (trie_iter (ai_v4 t))" for d p l
    using that set_trie_iter [OF wf(1)] trie_wfD(4) [OF wf(1)] by (force simp: word_le_nat_alt u8_of_nat_small)
  have l6: "of_nat l \<le> (128 :: u8)" if "(d, p, l) \<in> set (trie_iter (ai_v6 t))" for d p l
    using that set_trie_iter [OF wf(2)] trie_wfD(4) [OF wf(2)] by (force simp: word_le_nat_alt u8_of_nat_small)
  have "those (map (\<lambda>(d, p, l). case ipnet_new (AddrV4 p) (of_nat l) of Inr n \<Rightarrow> Some (d, n) | Inl _ \<Rightarrow> None)
        (trie_iter (ai_v4 t))) =
      Some (map (\<lambda>(d, p, l). (d, NetV4 \<lparr>v4_addr = p, v4_prefix_len = of_nat l\<rparr>)) (trie_iter (ai_v4 t)))"
    using l4 by (intro those_map_Some) (fastforce simp: ipnet_new_def ipv4net_new_def not_less)
  moreover have "those (map (\<lambda>(d, p, l). case ipnet_new (AddrV6 p) (of_nat l) of Inr n \<Rightarrow> Some (d, n) | Inl _ \<Rightarrow> None)
        (trie_iter (ai_v6 t))) =
      Some (map (\<lambda>(d, p, l). (d, NetV6 \<lparr>v6_addr = p, v6_prefix_len = of_nat l\<rparr>)) (trie_iter (ai_v6 t)))"
    using l6 by (intro those_map_Some) (fastforce simp: ipnet_new_def ipv6net_new_def not_less)
  ultimately show ?thesis unfolding allowed_ips_iter_def Let_def by (rule those_append)
qed

lemma trie_map_iter:
  fixes nodes :: "('w::len word, 'd) arena"
  assumes "trie_wf nodes"
  shows "trie_map nodes q = Some d \<longleftrightarrow>
    (\<exists>p l. (d, p, l) \<in> set (trie_iter nodes) \<and> l \<le> LENGTH('w) \<and> bits p l = q)"
proof -
  have "trie_map nodes q = Some d \<longleftrightarrow>
      (\<exists>i < length nodes. bits (n_prefix (nodes ! i)) (n_prefix_len (nodes ! i)) = q \<and> n_data (nodes ! i) = Some d)"
    by (simp add: trie_map_Some_iff [OF assms] node_key_def)
  also have "\<dots> \<longleftrightarrow> (\<exists>p l. (d, p, l) \<in> set (trie_iter nodes) \<and> l \<le> LENGTH('w) \<and> bits p l = q)"
    using trie_wfD(4) [OF assms] unfolding set_trie_iter [OF assms] by blast
  finally show ?thesis .
qed

lemma iter_spec:
  assumes "allowed_ips_wf t"
  shows "\<exists>xs. allowed_ips_iter t = Some xs \<and>
    (\<forall>k d. allowed_ips_map t k = Some d \<longleftrightarrow> (\<exists>n. (d, n) \<in> set xs \<and> ipnet_wf n \<and> ipnet_key n = k)) \<and>
    (\<forall>x \<in> set xs. ipnet_wf (snd x))"
proof -
  have wf: "trie_wf (ai_v4 t)" "trie_wf (ai_v6 t)" using assms by (simp_all add: allowed_ips_wf_def)
  let ?xs = "map (\<lambda>(d, p, l). (d, NetV4 \<lparr>v4_addr = p, v4_prefix_len = of_nat l\<rparr>)) (trie_iter (ai_v4 t)) @
     map (\<lambda>(d, p, l). (d, NetV6 \<lparr>v6_addr = p, v6_prefix_len = of_nat l\<rparr>)) (trie_iter (ai_v6 t))"
  have "allowed_ips_map t k = Some d \<longleftrightarrow> (\<exists>n. (d, n) \<in> set ?xs \<and> ipnet_wf n \<and> ipnet_key n = k)" for k d
  proof (cases k)
    case (K4 q)
    have pt: "(of_nat l \<le> (32 :: u8) \<and> bits p (unat (of_nat l :: u8)) = q) \<longleftrightarrow> (l \<le> 32 \<and> bits p l = q)"
      if "(d, p, l) \<in> set (trie_iter (ai_v4 t))" for p l
    proof -
      have "l \<le> 32" using that set_trie_iter [OF wf(1)] trie_wfD(4) [OF wf(1)] by force
      then show ?thesis by (simp add: word_le_nat_alt u8_of_nat_small)
    qed
    have "(\<exists>n. (d, n) \<in> set ?xs \<and> ipnet_wf n \<and> ipnet_key n = K4 q) \<longleftrightarrow>
        (\<exists>p l. (d, p, l) \<in> set (trie_iter (ai_v4 t)) \<and> of_nat l \<le> (32 :: u8) \<and> bits p (unat (of_nat l :: u8)) = q)"
      by force
    also have "\<dots> \<longleftrightarrow> (\<exists>p l. (d, p, l) \<in> set (trie_iter (ai_v4 t)) \<and> l \<le> 32 \<and> bits p l = q)"
      using pt by blast
    finally show ?thesis using trie_map_iter [OF wf(1), of q d] K4 by (simp add: allowed_ips_map_def)
  next
    case (K6 q)
    have pt: "(of_nat l \<le> (128 :: u8) \<and> bits p (unat (of_nat l :: u8)) = q) \<longleftrightarrow> (l \<le> 128 \<and> bits p l = q)"
      if "(d, p, l) \<in> set (trie_iter (ai_v6 t))" for p l
    proof -
      have "l \<le> 128" using that set_trie_iter [OF wf(2)] trie_wfD(4) [OF wf(2)] by force
      then show ?thesis by (simp add: word_le_nat_alt u8_of_nat_small)
    qed
    have "(\<exists>n. (d, n) \<in> set ?xs \<and> ipnet_wf n \<and> ipnet_key n = K6 q) \<longleftrightarrow>
        (\<exists>p l. (d, p, l) \<in> set (trie_iter (ai_v6 t)) \<and> of_nat l \<le> (128 :: u8) \<and> bits p (unat (of_nat l :: u8)) = q)"
      by force
    also have "\<dots> \<longleftrightarrow> (\<exists>p l. (d, p, l) \<in> set (trie_iter (ai_v6 t)) \<and> l \<le> 128 \<and> bits p l = q)"
      using pt by blast
    finally show ?thesis using trie_map_iter [OF wf(2), of q d] K6 by (simp add: allowed_ips_map_def)
  qed
  moreover have "\<forall>x \<in> set ?xs. ipnet_wf (snd x)"
  proof -
    have "of_nat l \<le> (32 :: u8)" if "(d, p, l) \<in> set (trie_iter (ai_v4 t))" for d p l
      using that set_trie_iter [OF wf(1)] trie_wfD(4) [OF wf(1)] by (force simp: word_le_nat_alt u8_of_nat_small)
    moreover have "of_nat l \<le> (128 :: u8)" if "(d, p, l) \<in> set (trie_iter (ai_v6 t))" for d p l
      using that set_trie_iter [OF wf(2)] trie_wfD(4) [OF wf(2)] by (force simp: word_le_nat_alt u8_of_nat_small)
    ultimately show ?thesis by fastforce
  qed
  ultimately show ?thesis using allowed_ips_iter_eq [OF assms] by blast
qed

text \<open>The iterator does not panic and lists exactly the entries of the table.\<close>

theorem allowed_ips_iter_exact:
  assumes "allowed_ips_wf t"
  shows "\<exists>xs. allowed_ips_iter t = Some xs \<and>
    (\<forall>k d. allowed_ips_map t k = Some d \<longleftrightarrow> (\<exists>n. (d, n) \<in> set xs \<and> ipnet_wf n \<and> ipnet_key n = k))"
  using iter_spec [OF assms] by blast

theorem allowed_ips_iter_exact_witness:
  "\<exists>t xs. allowed_ips_insert None sample_net (7::nat) allowed_ips_new = Some (Inr None, t) \<and> allowed_ips_iter t = Some xs \<and>
    (\<forall>k d. allowed_ips_map t k = Some d \<longleftrightarrow> (\<exists>n. (d, n) \<in> set xs \<and> ipnet_wf n \<and> ipnet_key n = k))"
proof -
  obtain t where t: "allowed_ips_insert None sample_net (7::nat) allowed_ips_new = Some (Inr None, t)" "allowed_ips_wf t"
    using sample_table by blast
  from allowed_ips_iter_exact [OF t(2)] t(1) show ?thesis by blast
qed

text \<open>An arena of \<open>N\<close> nodes stores fewer than \<open>N\<close> prefixes other than the default route: the root
  takes a node. The per-peer tables of the builds without \<^verbatim>\<open>alloc\<close> have
  \<^verbatim>\<open>MAX_ALLOWED_IPS_PER_PEER\<close> nodes, so they never hold that many networks of one family.\<close>

theorem trie_entries_below_nodes:
  assumes "trie_wf nodes"
  shows "card {k. trie_map nodes k \<noteq> None \<and> k \<noteq> []} < length nodes"
proof -
  have "{k. trie_map nodes k \<noteq> None \<and> k \<noteq> []} \<subseteq> set (map node_key nodes) - {[]}"
    using trie_map_Some_iff [OF assms] by fastforce
  then have "card {k. trie_map nodes k \<noteq> None \<and> k \<noteq> []} \<le> card (set (map node_key nodes) - {[]})"
    by (intro card_mono) auto
  also have "\<dots> < card (set (map node_key nodes))"
    using trie_wfD(1,3) [OF assms] by (intro card_Diff1_less) (auto intro!: image_eqI [of _ _ "nodes ! 0"])
  also have "\<dots> = length nodes" using distinct_card [OF trie_wfD(6) [OF assms]] by simp
  finally show ?thesis .
qed

theorem trie_entries_below_nodes_witness:
  "card {k. trie_map (trie_new :: (u32, nat) arena) k \<noteq> None \<and> k \<noteq> []} < length (trie_new :: (u32, nat) arena)"
  by (rule trie_entries_below_nodes [OF trie_new_wf])

end
