(* ===== verification/Table_Room.thy ===== *)
theory Table_Room
  imports Allowed_IPs
begin

text \<open>
  How far a prefix table grows, and when networks share an address: an insertion takes at most two
  nodes of the arena, and a node index has 16 bits, so a table finds room for half as many networks
  as it has nodes; a list of networks has no overlap when they are apart.
\<close>

section \<open>Growth of the tables\<close>

lemma node_push_growth: "node_push cap n nodes = Some nodes' \<Longrightarrow> length nodes' = length nodes + 1"
  by (auto simp: node_push_def split: option.splits if_splits)

lemma insert_step_growth:
  "trie_insert_step cap pfx l data i nodes = Some (Inr (r, nodes')) \<Longrightarrow> length nodes' \<le> length nodes + 2"
  by (auto simp: trie_insert_step_def trie_insert_leaf_def trie_insert_split_def Let_def
      dest!: node_push_growth split: if_splits option.splits sum.splits)

lemma insert_loop_growth:
  fixes pfx :: "'a::len word" and data :: 'b
  assumes "trie_insert_loop cap pfx l data i nodes = Some x"
  shows "length (snd x) \<le> length nodes + 2"
proof (rule trie_insert_loop.raw_induct [where P = "\<lambda>_ _ _ _ _ nodes x. length (snd x) \<le> length nodes + 2", OF _ assms])
  fix loop :: "nat option \<Rightarrow> 'a word \<Rightarrow> nat \<Rightarrow> 'b \<Rightarrow> nat \<Rightarrow> ('a word, 'b) arena \<Rightarrow> ((AllowedIPsError + 'b option) \<times> ('a word, 'b) arena) option"
  fix cap pfx l data i nodes r
  assume IH: "\<And>cap pfx l data i nodes r. loop cap pfx l data i nodes = Some r \<Longrightarrow> length (snd r) \<le> length nodes + 2"
    and step: "(case trie_insert_step cap pfx l data i nodes of None \<Rightarrow> None | Some (Inl j) \<Rightarrow> loop cap pfx l data j nodes | Some (Inr r) \<Rightarrow> Some r) = Some r"
  show "length (snd r) \<le> length nodes + 2"
  proof (cases "trie_insert_step cap pfx l data i nodes")
    case (Some s)
    with step show ?thesis by (cases s; cases r) (auto dest: insert_step_growth IH)
  qed (use step in simp)
qed

lemma insert_growth:
  assumes "allowed_ips_insert cap n d t = Some (r, t')"
  shows "length (ai_v4 t') \<le> length (ai_v4 t) + 2" "length (ai_v6 t') \<le> length (ai_v6 t) + 2"
  using assms by (auto simp: allowed_ips_insert_def trie_insert_def Let_def dest!: insert_loop_growth split: IpAddr.splits)

text \<open>A table that \<open>m\<close> insertions can have led to, and the number of insertions that always find room.\<close>

definition grown :: "nat \<Rightarrow> 'd AllowedIPs \<Rightarrow> bool" where
  "grown m t \<longleftrightarrow> length (ai_v4 t) \<le> 1 + 2 * m \<and> length (ai_v6 t) \<le> 1 + 2 * m"

definition table_room :: "nat option \<Rightarrow> nat" where
  "table_room cap = (arena_room cap - 1) div 2"

definition TABLE_ROOM :: nat where "TABLE_ROOM = 2 ^ 15 - 1"

lemma table_room_None [simp]: "table_room None = TABLE_ROOM"
  by (simp add: table_room_def arena_room_def TABLE_ROOM_def)

lemma grown_new [simp]: "grown 0 allowed_ips_new"
  by (simp add: grown_def allowed_ips_new_def trie_new_def)

lemma insert_room:
  assumes "allowed_ips_wf t" "ipnet_wf n" "grown m t" "m < table_room cap"
  shows "\<exists>t'. allowed_ips_insert cap n d t = Some (Inr (allowed_ips_map t (ipnet_key n)), t') \<and> allowed_ips_wf t' \<and> grown (Suc m) t'"
proof -
  from allowed_ips_insert_strong [OF assms(1,2), of cap d] obtain r t' where i: "allowed_ips_insert cap n d t = Some (r, t')" "allowed_ips_wf t'"
    "case r of Inr old \<Rightarrow> old = allowed_ips_map t (ipnet_key n) \<and> allowed_ips_map t' = (allowed_ips_map t)(ipnet_key n \<mapsto> d)
     | Inl e \<Rightarrow> e = Full \<and> t' = t \<and> arena_room cap < (if is_ipv4 n then length (ai_v4 t) else length (ai_v6 t)) + 2" by blast
  have "grown (Suc m) t'" using insert_growth [OF i(1)] assms(3) by (simp add: grown_def)
  moreover have "1 + 2 * m + 2 \<le> arena_room cap" using assms(4) by (simp add: table_room_def)
  then have "\<not> isl r" using i(3) assms(3) by (cases r) (auto simp: grown_def split: if_splits)
  ultimately show ?thesis using i by (cases r) auto
qed

lemma insert_all_room:
  assumes "allowed_ips_wf t" "grown m t" "m + length items \<le> table_room cap" "\<forall>x \<in> set items. ipnet_wf (fst x)"
  shows "\<exists>t'. allowed_ips_insert_all cap items t = Some (Inr t')"
  using assms
proof (induction items arbitrary: t m)
  case (Cons x items)
  obtain n d where x: "x = (n, d)" by (cases x)
  with Cons.prems have "ipnet_wf n" "m < table_room cap" by simp_all
  from insert_room [OF Cons.prems(1) this(1) Cons.prems(2) this(2), of d] obtain t1 where
    t1: "allowed_ips_insert cap n d t = Some (Inr (allowed_ips_map t (ipnet_key n)), t1)" "allowed_ips_wf t1" "grown (Suc m) t1" by blast
  with Cons.IH [OF t1(2,3)] Cons.prems x show ?case by simp
qed simp

text \<open>Networks without a shared address.\<close>

definition apart :: "net_key \<Rightarrow> net_key \<Rightarrow> bool" where
  "apart x y \<longleftrightarrow> (\<forall>a. \<not> (key_matches x a \<and> key_matches y a))"

lemma apart_sym: "apart x y \<Longrightarrow> apart y x"
  by (auto simp: apart_def)

section \<open>Networks of a table\<close>

definition nets_of :: "'d AllowedIPs \<Rightarrow> net_key set" where
  "nets_of t = {n. allowed_ips_map t n \<noteq> None}"

lemma trie_iter_keys: "map (\<lambda>(d, p, l). bits p l) (trie_iter nodes) = map node_key (filter (\<lambda>n. n_data n \<noteq> None) nodes)"
  by (induction nodes) (auto simp: trie_iter_def node_key_def split: option.split)

lemma iter_keys:
  assumes "allowed_ips_wf t" "allowed_ips_iter t = Some xs"
  shows "distinct (map (ipnet_key \<circ> snd) xs)" "ipnet_key ` snd ` set xs = nets_of t" "\<forall>x \<in> set xs. ipnet_wf (snd x)"
proof -
  have wf: "trie_wf (ai_v4 t)" "trie_wf (ai_v6 t)" using assms by (simp_all add: allowed_ips_wf_def)
  have k4: "ipnet_key (NetV4 \<lparr>v4_addr = p, v4_prefix_len = of_nat l\<rparr>) = K4 (bits p l)" if "(d, p, l) \<in> set (trie_iter (ai_v4 t))" for d p l
  proof -
    have "l \<le> 32" using that set_trie_iter [OF wf(1)] trie_wfD(4) [OF wf(1)] by force
    then show ?thesis by (simp add: u8_of_nat_small)
  qed
  have k6: "ipnet_key (NetV6 \<lparr>v6_addr = p, v6_prefix_len = of_nat l\<rparr>) = K6 (bits p l)" if "(d, p, l) \<in> set (trie_iter (ai_v6 t))" for d p l
  proof -
    have "l \<le> 128" using that set_trie_iter [OF wf(2)] trie_wfD(4) [OF wf(2)] by force
    then show ?thesis by (simp add: u8_of_nat_small)
  qed
  have "map (ipnet_key \<circ> snd) xs = map (\<lambda>(d, p, l). K4 (bits p l)) (trie_iter (ai_v4 t)) @ map (\<lambda>(d, p, l). K6 (bits p l)) (trie_iter (ai_v6 t))"
    using assms(2) allowed_ips_iter_eq [OF assms(1)] k4 k6 by (auto simp: case_prod_beta)
  also have "\<dots> = map K4 (map node_key (filter (\<lambda>n. n_data n \<noteq> None) (ai_v4 t))) @ map K6 (map node_key (filter (\<lambda>n. n_data n \<noteq> None) (ai_v6 t)))"
    unfolding trie_iter_keys [symmetric] by (simp add: case_prod_beta comp_def)
  finally show "distinct (map (ipnet_key \<circ> snd) xs)"
    using trie_wfD(6) [OF wf(1)] trie_wfD(6) [OF wf(2)] by (auto simp: distinct_map inj_on_def)
  from iter_spec [OF assms(1)] assms(2) have s: "\<And>k d. allowed_ips_map t k = Some d \<longleftrightarrow> (\<exists>n. (d, n) \<in> set xs \<and> ipnet_wf n \<and> ipnet_key n = k)"
      "\<forall>x \<in> set xs. ipnet_wf (snd x)" by auto
  show "\<forall>x \<in> set xs. ipnet_wf (snd x)" using s(2) .
  show "ipnet_key ` snd ` set xs = nets_of t" using s unfolding nets_of_def by force
qed

lemma iter_length: "allowed_ips_wf t \<Longrightarrow> allowed_ips_iter t = Some xs \<Longrightarrow> length xs = card (nets_of t)"
  using distinct_card [OF iter_keys(1)] iter_keys(2) by (metis image_comp length_map list.set_map)

lemma nets_finite: "allowed_ips_wf t \<Longrightarrow> finite (nets_of t)"
  using iter_spec [of t] iter_keys(2) by (metis List.finite_set finite_imageI)

text \<open>Networks are spread when no two share an address.\<close>

definition spread :: "net_key set \<Rightarrow> bool" where
  "spread A \<longleftrightarrow> (\<forall>x \<in> A. \<forall>y \<in> A. x \<noteq> y \<longrightarrow> apart x y)"

definition far :: "net_key set \<Rightarrow> net_key set \<Rightarrow> bool" where
  "far A B \<longleftrightarrow> (\<forall>x \<in> A. \<forall>y \<in> B. apart x y)"

lemma far_simps [simp]: "far {} B" "far A {}" "far (A \<union> A') B \<longleftrightarrow> far A B \<and> far A' B" "far A (B \<union> B') \<longleftrightarrow> far A B \<and> far A B'"
  by (auto simp: far_def)

end
