(* ===== verification/Bounded.thy ===== *)
theory Bounded
  imports Prelude "HOL-Library.Product_Lexorder"
begin

text \<open>
  Collections that grow with \<^verbatim>\<open>alloc\<close> and have a fixed capacity without it
  (\<^verbatim>\<open>bounded.rs\<close>). A capacity is an argument: \<open>None\<close> is the build with \<^verbatim>\<open>alloc\<close>, \<open>Some n\<close> a
  \<^verbatim>\<open>heapless\<close> collection of \<open>n\<close> elements. A map is a list of entries with distinct keys: iteration
  visits them in the order of the list, which stands for whatever order the hash table has.
\<close>

section \<open>Operations\<close>

datatype CapacityError = CapacityError string

fun cap_context :: "CapacityError \<Rightarrow> string" where
  "cap_context (CapacityError c) = c"

definition has_room :: "nat option \<Rightarrow> nat \<Rightarrow> bool" where
  "has_room cap n = (case cap of None \<Rightarrow> True | Some c \<Rightarrow> n < c)"

definition try_push :: "nat option \<Rightarrow> string \<Rightarrow> 'a \<Rightarrow> 'a list \<Rightarrow> CapacityError + 'a list" where
  "try_push cap ctx v xs = (if has_room cap (length xs) then Inr (xs @ [v]) else Inl (CapacityError ctx))"

fun map_insert :: "'k \<Rightarrow> 'v \<Rightarrow> ('k \<times> 'v) list \<Rightarrow> ('k \<times> 'v) list" where
  "map_insert k v [] = [(k, v)]"
| "map_insert k v ((k', v') # m) = (if k = k' then (k, v) # m else (k', v') # map_insert k v m)"

definition map_remove :: "'k \<Rightarrow> ('k \<times> 'v) list \<Rightarrow> ('k \<times> 'v) list" where
  "map_remove k m = filter (\<lambda>e. fst e \<noteq> k) m"

definition try_insert_entry ::
  "nat option \<Rightarrow> string \<Rightarrow> 'k \<Rightarrow> 'v \<Rightarrow> ('k \<times> 'v) list \<Rightarrow> CapacityError + ('k \<times> 'v) list" where
  "try_insert_entry cap ctx k v m =
     (if map_of m k \<noteq> None \<or> has_room cap (length m) then Inr (map_insert k v m) else Inl (CapacityError ctx))"

definition try_insert_key :: "nat option \<Rightarrow> string \<Rightarrow> 'k \<Rightarrow> 'k list \<Rightarrow> CapacityError + 'k list" where
  "try_insert_key cap ctx k s =
     (if k \<in> set s then Inr s else if has_room cap (length s) then Inr (s @ [k]) else Inl (CapacityError ctx))"

text \<open>\<^verbatim>\<open>Iterator::min_by_key\<close>: the first element with the least key.\<close>

fun min_by_key :: "('a \<Rightarrow> 'k::linorder) \<Rightarrow> 'a list \<Rightarrow> 'a option" where
  "min_by_key f [] = None"
| "min_by_key f (x # xs) = (case min_by_key f xs of
     None \<Rightarrow> Some x | Some y \<Rightarrow> if f x \<le> f y then Some x else Some y)"

section \<open>Lemmas\<close>

lemma map_of_map_insert [simp]: "map_of (map_insert k v m) = (map_of m)(k \<mapsto> v)"
  by (induction k v m rule: map_insert.induct) (auto simp: fun_eq_iff)

lemma keys_map_insert: "map fst (map_insert k v m) = (if k \<in> fst ` set m then map fst m else map fst m @ [k])"
  by (induction k v m rule: map_insert.induct) auto

lemma distinct_map_insert: "distinct (map fst m) \<Longrightarrow> distinct (map fst (map_insert k v m))"
  by (auto simp: keys_map_insert)

lemma map_of_map_remove [simp]: "map_of (map_remove k m) = (map_of m)(k := None)"
  unfolding map_remove_def by (induction m) (auto simp: fun_eq_iff)

lemma keys_map_remove: "map fst (map_remove k m) = filter (\<lambda>x. x \<noteq> k) (map fst m)"
  unfolding map_remove_def by (induction m) auto

lemma distinct_map_remove: "distinct (map fst m) \<Longrightarrow> distinct (map fst (map_remove k m))"
  by (simp add: keys_map_remove)

lemma try_push_Inr: "try_push cap ctx v xs = Inr ys \<longleftrightarrow> has_room cap (length xs) \<and> ys = xs @ [v]"
  by (auto simp: try_push_def)

lemma try_insert_entry_Inr:
  "try_insert_entry cap ctx k v m = Inr m' \<longleftrightarrow> (map_of m k \<noteq> None \<or> has_room cap (length m)) \<and> m' = map_insert k v m"
  by (auto simp: try_insert_entry_def)

lemma min_by_key_None [simp]: "min_by_key f xs = None \<longleftrightarrow> xs = []"
  by (cases xs) (auto split: option.splits)

lemma min_by_key_Some: "min_by_key f xs = Some x \<Longrightarrow> x \<in> set xs \<and> (\<forall>y \<in> set xs. f x \<le> f y)"
  by (induction xs arbitrary: x) (fastforce split: option.splits if_splits)+

lemma min_by_key_exists: "x \<in> set xs \<Longrightarrow> \<exists>y. min_by_key f xs = Some y"
  by (cases "min_by_key f xs") auto

end
