(* ===== verification/Peers.thy ===== *)
theory Peers
  imports Table_Room Tunnel_Timers Index_Generator Bounded
begin

text \<open>
  The peers of a device and the commands that change them (\<^verbatim>\<open>device.rs\<close>): the table of peers, the
  routing table over all allowed networks and the table of index prefixes, with the operations of
  \<^verbatim>\<open>PeerState\<close> and \<^verbatim>\<open>Peer\<close> and the handler of the command queue. The capacities of the builds
  without \<^verbatim>\<open>alloc\<close> are arguments; iteration over the peers is in the order of the list of
  entries, as in \<^verbatim>\<open>bounded.rs\<close>.
\<close>

section \<open>State\<close>

datatype DeviceError = Io | PeerAlreadyExists | PeerNotFound | AllowedIPOverlap | Capacity

record PeerConfig =
  pc_public_key :: bytes
  pc_endpoint :: "SocketAddr option"
  pc_allowed_ips :: "IpNet list"
  pc_keepalive :: "u16 option"
  pc_relay :: "bytes option"

record Peer =
  pr_tunnel :: Tunn
  pr_index :: u32
  pr_endpoint :: "SocketAddr option"
  pr_relay :: "bytes option"
  pr_allowed_ips :: "unit AllowedIPs"

record PeerState =
  ps_peers :: "(bytes \<times> Peer) list"
  ps_by_ip :: "bytes AllowedIPs"
  ps_by_idx :: "(u32 \<times> bytes) list"

text \<open>\<^verbatim>\<open>MAX_PEERS\<close>, the nodes of the routing table and those of the table of one peer.\<close>

record caps =
  cap_peers :: "nat option"
  cap_routes :: "nat option"
  cap_allowed :: "nat option"

record PeerInfo =
  pi_endpoint :: "SocketAddr option"
  pi_tx_packets :: nat
  pi_rx_packets :: nat

datatype CommandOutput = NoOutput | InfoOutput PeerInfo | KeysOutput "bytes list"

datatype Command =
    NoCommand
  | Add PeerConfig
  | Update PeerConfig
  | Remove bytes
  | Get bytes
  | List

section \<open>One peer\<close>

definition allowed_ips_from_slice :: "caps \<Rightarrow> IpNet list \<Rightarrow> (DeviceError + unit AllowedIPs) run" where
  "allowed_ips_from_slice K nets =
     (case allowed_ips_try_from_iter (cap_allowed K) (map (\<lambda>n. (n, ())) nets) of
        None \<Rightarrow> Panic | Some (Inl _) \<Rightarrow> Ret (Inl Capacity) | Some (Inr t) \<Rightarrow> Ret (Inr t))"

definition peer_new ::
  "caps \<Rightarrow> Tunn \<Rightarrow> u32 \<Rightarrow> SocketAddr option \<Rightarrow> IpNet list \<Rightarrow> bytes option \<Rightarrow> (DeviceError + Peer) run" where
  "peer_new K tunnel index endpoint nets relay =
     run_bind (allowed_ips_from_slice K nets) (\<lambda>r. case r of
       Inl e \<Rightarrow> Ret (Inl e)
     | Inr ips \<Rightarrow> Ret (Inr \<lparr>pr_tunnel = tunnel, pr_index = index, pr_endpoint = endpoint, pr_relay = relay,
         pr_allowed_ips = ips\<rparr>))"

definition is_allowed_ip :: "IpAddr \<Rightarrow> Peer \<Rightarrow> bool run" where
  "is_allowed_ip addr p = run_bind (from_option (allowed_ips_find addr (pr_allowed_ips p))) (\<lambda>r. Ret (r \<noteq> None))"

definition set_endpoint :: "SocketAddr \<Rightarrow> Peer \<Rightarrow> Peer" where
  "set_endpoint addr p = p\<lparr>pr_endpoint := Some addr\<rparr>"

definition peer_info :: "Peer \<Rightarrow> PeerInfo" where
  "peer_info p = \<lparr>pi_endpoint = pr_endpoint p, pi_tx_packets = tn_tx_packets (pr_tunnel p),
     pi_rx_packets = tn_rx_packets (pr_tunnel p)\<rparr>"

section \<open>The table of peers\<close>

definition peer_state_new :: PeerState where
  "peer_state_new = \<lparr>ps_peers = [], ps_by_ip = allowed_ips_new, ps_by_idx = []\<rparr>"

definition peer_by_key :: "bytes \<Rightarrow> PeerState \<Rightarrow> Peer option" where
  "peer_by_key k ps = map_of (ps_peers ps) k"

text \<open>Writing back what was changed through \<^verbatim>\<open>peer_by_key_mut\<close>.\<close>

definition put_peer :: "bytes \<Rightarrow> Peer \<Rightarrow> PeerState \<Rightarrow> PeerState" where
  "put_peer k p ps = ps\<lparr>ps_peers := map_insert k p (ps_peers ps)\<rparr>"

definition peer_key_by_index :: "u32 \<Rightarrow> PeerState \<Rightarrow> bytes option" where
  "peer_key_by_index index ps = map_of (ps_by_idx ps) (drop_bit 8 index)"

definition insert_peer_storage :: "caps \<Rightarrow> bytes \<Rightarrow> u32 \<Rightarrow> Peer \<Rightarrow> PeerState \<Rightarrow> (DeviceError + unit) \<times> PeerState" where
  "insert_peer_storage K key index peer ps =
     (case try_insert_entry (cap_peers K) ''peers'' key peer (ps_peers ps) of
        Inl _ \<Rightarrow> (Inl Capacity, ps)
      | Inr peers \<Rightarrow>
          (case try_insert_entry (cap_peers K) ''peer indexes'' index key (ps_by_idx ps) of
             Inl _ \<Rightarrow> (Inl Capacity, ps\<lparr>ps_peers := map_remove key peers\<rparr>)
           | Inr idx \<Rightarrow> (Inr (), ps\<lparr>ps_peers := peers, ps_by_idx := idx\<rparr>)))"

definition remove_peer_storage :: "bytes \<Rightarrow> PeerState \<Rightarrow> bool \<times> PeerState" where
  "remove_peer_storage key ps = (case peer_by_key key ps of
     None \<Rightarrow> (False, ps)
   | Some p \<Rightarrow> (True, ps\<lparr>ps_peers := map_remove key (ps_peers ps), ps_by_idx := map_remove (pr_index p) (ps_by_idx ps)\<rparr>))"

fun insert_routes :: "nat option \<Rightarrow> bytes \<Rightarrow> IpNet list \<Rightarrow> bytes AllowedIPs \<Rightarrow> (DeviceError + bytes AllowedIPs) run" where
  "insert_routes cap key [] t = Ret (Inr t)"
| "insert_routes cap key (n # ns) t =
     (if allowed_ips_overlaps n t then Ret (Inl AllowedIPOverlap)
      else case allowed_ips_insert cap n key t of
        None \<Rightarrow> Panic
      | Some (Inl _, _) \<Rightarrow> Ret (Inl Capacity)
      | Some (Inr _, t') \<Rightarrow> insert_routes cap key ns t')"

definition insert_table :: "nat option \<Rightarrow> bytes \<Rightarrow> unit AllowedIPs \<Rightarrow> bytes AllowedIPs \<Rightarrow> (DeviceError + bytes AllowedIPs) run" where
  "insert_table cap key ips t =
     (case allowed_ips_iter ips of None \<Rightarrow> Panic | Some xs \<Rightarrow> insert_routes cap key (map snd xs) t)"

fun rebuild_loop :: "nat option \<Rightarrow> bytes \<Rightarrow> unit AllowedIPs \<Rightarrow> (bytes \<times> Peer) list \<Rightarrow> bool \<Rightarrow> bytes AllowedIPs \<Rightarrow>
    (DeviceError + (bool \<times> bytes AllowedIPs)) run" where
  "rebuild_loop cap updated ips [] found t = Ret (Inr (found, t))"
| "rebuild_loop cap updated ips ((key, peer) # rest) found t =
     run_bind (insert_table cap key (if key = updated then ips else pr_allowed_ips peer) t) (\<lambda>r. case r of
       Inl e \<Rightarrow> Ret (Inl e)
     | Inr t' \<Rightarrow> rebuild_loop cap updated ips rest (found \<or> key = updated) t')"

definition rebuilt_peers_by_ip_with ::
  "caps \<Rightarrow> bytes \<Rightarrow> unit AllowedIPs \<Rightarrow> PeerState \<Rightarrow> (DeviceError + bytes AllowedIPs) run" where
  "rebuilt_peers_by_ip_with K updated ips ps =
     run_bind (rebuild_loop (cap_routes K) updated ips (ps_peers ps) False allowed_ips_new) (\<lambda>r. case r of
       Inl e \<Rightarrow> Ret (Inl e)
     | Inr (found, t) \<Rightarrow> if found then Ret (Inr t) else insert_table (cap_routes K) updated ips t)"

fun peer_keys_loop :: "nat option \<Rightarrow> bytes list \<Rightarrow> bytes list \<Rightarrow> bytes list" where
  "peer_keys_loop cap [] acc = acc"
| "peer_keys_loop cap (k # ks) acc = (case try_insert_key cap ''peer keys'' k acc of
     Inl _ \<Rightarrow> acc | Inr acc' \<Rightarrow> peer_keys_loop cap ks acc')"

definition peer_keys :: "caps \<Rightarrow> PeerState \<Rightarrow> bytes list" where
  "peer_keys K ps = peer_keys_loop (cap_peers K) (map fst (ps_peers ps)) []"

section \<open>Commands\<close>

definition add_peer_to_state ::
  "caps \<Rightarrow> crypto \<Rightarrow> instant \<Rightarrow> bytes \<Rightarrow> TimeStamper \<Rightarrow> PeerConfig \<Rightarrow> PeerState \<Rightarrow> IndexGenerator \<Rightarrow>
     ((DeviceError + CommandOutput) \<times> PeerState \<times> IndexGenerator) run" where
  "add_peer_to_state K C now priv stamper config ps g =
     (if peer_by_key (pc_public_key config) ps \<noteq> None then Ret (Inl PeerAlreadyExists, ps, g)
      else run_bind (new_index g) (\<lambda>(index, g1).
        let tunn = tunn_new C now priv (pc_public_key config) (pc_keepalive config) index stamper in
        run_bind (peer_new K tunn index (pc_endpoint config) (pc_allowed_ips config) (pc_relay config)) (\<lambda>r. case r of
          Inl e \<Rightarrow> Ret (Inl e, ps, g1)
        | Inr peer \<Rightarrow>
            run_bind (rebuilt_peers_by_ip_with K (pc_public_key config) (pr_allowed_ips peer) ps) (\<lambda>r2. case r2 of
              Inl e \<Rightarrow> Ret (Inl e, ps, g1)
            | Inr by_ip \<Rightarrow>
                (case insert_peer_storage K (pc_public_key config) index peer ps of
                   (Inl e, ps1) \<Rightarrow> Ret (Inl e, ps1, g1)
                 | (Inr _, ps1) \<Rightarrow> Ret (Inr NoOutput, ps1\<lparr>ps_by_ip := by_ip\<rparr>, g1))))))"

definition update_peer_in_state ::
  "caps \<Rightarrow> PeerConfig \<Rightarrow> PeerState \<Rightarrow> ((DeviceError + CommandOutput) \<times> PeerState) run" where
  "update_peer_in_state K config ps = (case peer_by_key (pc_public_key config) ps of
     None \<Rightarrow> Ret (Inl PeerNotFound, ps)
   | Some peer \<Rightarrow>
       run_bind (allowed_ips_from_slice K (pc_allowed_ips config)) (\<lambda>r. case r of
         Inl e \<Rightarrow> Ret (Inl e, ps)
       | Inr ips \<Rightarrow>
           run_bind (rebuilt_peers_by_ip_with K (pc_public_key config) ips ps) (\<lambda>r2. case r2 of
             Inl e \<Rightarrow> Ret (Inl e, ps)
           | Inr by_ip \<Rightarrow>
               let peer' = peer\<lparr>pr_endpoint := pc_endpoint config, pr_relay := pc_relay config,
                     pr_tunnel := set_persistent_keepalive (pc_keepalive config) (pr_tunnel peer), pr_allowed_ips := ips\<rparr>
               in Ret (Inr NoOutput, (put_peer (pc_public_key config) peer' ps)\<lparr>ps_by_ip := by_ip\<rparr>))))"

definition remove_peer_from_state :: "bytes \<Rightarrow> PeerState \<Rightarrow> PeerState" where
  "remove_peer_from_state key ps = (case remove_peer_storage key ps of
     (True, ps1) \<Rightarrow> ps1\<lparr>ps_by_ip := allowed_ips_remove (\<lambda>p. p = key) (ps_by_ip ps1)\<rparr>
   | (False, ps1) \<Rightarrow> ps1)"

definition handle_peer_update ::
  "caps \<Rightarrow> crypto \<Rightarrow> instant \<Rightarrow> bytes \<Rightarrow> TimeStamper \<Rightarrow> Command \<Rightarrow> PeerState \<Rightarrow> IndexGenerator \<Rightarrow>
     ((DeviceError + CommandOutput) \<times> PeerState \<times> IndexGenerator) run" where
  "handle_peer_update K C now priv stamper command ps g = (case command of
     NoCommand \<Rightarrow> Ret (Inr NoOutput, ps, g)
   | Add config \<Rightarrow> add_peer_to_state K C now priv stamper config ps g
   | Update config \<Rightarrow> run_bind (update_peer_in_state K config ps) (\<lambda>(r, ps1). Ret (r, ps1, g))
   | Remove key \<Rightarrow> Ret (Inr NoOutput, remove_peer_from_state key ps, g)
   | Get key \<Rightarrow> Ret (case peer_by_key key ps of Some p \<Rightarrow> Inr (InfoOutput (peer_info p)) | None \<Rightarrow> Inl PeerNotFound, ps, g)
   | List \<Rightarrow> Ret (Inr (KeysOutput (peer_keys K ps)), ps, g))"

section \<open>Invariant\<close>

text \<open>No address is in two networks of a routing table.\<close>

definition no_overlap :: "(net_key \<Rightarrow> 'd option) \<Rightarrow> bool" where
  "no_overlap m \<longleftrightarrow> (\<forall>k1 k2 a. m k1 \<noteq> None \<and> m k2 \<noteq> None \<and> key_matches k1 a \<and> key_matches k2 a \<longrightarrow> k1 = k2)"

definition owns :: "PeerState \<Rightarrow> bytes \<Rightarrow> net_key \<Rightarrow> bool" where
  "owns ps k n \<longleftrightarrow> (\<exists>p. peer_by_key k ps = Some p \<and> allowed_ips_map (pr_allowed_ips p) n \<noteq> None)"

definition peer_ok :: "Peer \<Rightarrow> bool" where
  "peer_ok p \<longleftrightarrow> allowed_ips_wf (pr_allowed_ips p) \<and> drop_bit 8 (next_local_index (tn_handshake (pr_tunnel p))) = pr_index p"

text \<open>The three tables agree: every peer is well-formed and hands out indices under its own prefix, the prefixes lead
  back to their peers, and the routing table holds exactly the networks of the peers, without overlap.\<close>

definition peers_inv :: "PeerState \<Rightarrow> bool" where
  "peers_inv ps \<longleftrightarrow>
     distinct (map fst (ps_peers ps)) \<and> distinct (map fst (ps_by_idx ps)) \<and>
     (\<forall>k p. peer_by_key k ps = Some p \<longrightarrow> peer_ok p) \<and>
     (\<forall>i k. map_of (ps_by_idx ps) i = Some k \<longleftrightarrow> (\<exists>p. peer_by_key k ps = Some p \<and> pr_index p = i)) \<and>
     allowed_ips_wf (ps_by_ip ps) \<and> no_overlap (allowed_ips_map (ps_by_ip ps)) \<and>
     (\<forall>n k. allowed_ips_map (ps_by_ip ps) n = Some k \<longleftrightarrow> owns ps k n)"

lemma peers_invD:
  assumes "peers_inv ps"
  shows "distinct (map fst (ps_peers ps))" "distinct (map fst (ps_by_idx ps))"
    "\<And>k p. peer_by_key k ps = Some p \<Longrightarrow> peer_ok p"
    "\<And>i k. map_of (ps_by_idx ps) i = Some k \<longleftrightarrow> (\<exists>p. peer_by_key k ps = Some p \<and> pr_index p = i)"
    "allowed_ips_wf (ps_by_ip ps)" "no_overlap (allowed_ips_map (ps_by_ip ps))"
    "\<And>n k. allowed_ips_map (ps_by_ip ps) n = Some k \<longleftrightarrow> owns ps k n"
  using assms unfolding peers_inv_def by blast+

lemma peers_inv_new: "peers_inv peer_state_new"
  by (simp add: peers_inv_def peer_state_new_def peer_by_key_def owns_def no_overlap_def allowed.new_inv allowed.new_map)

section \<open>The routing table\<close>

lemma net_has_address: "ipnet_wf n \<Longrightarrow> \<exists>a. key_matches (ipnet_key n) a \<and> ipnet_contains n a"
proof -
  assume wf: "ipnet_wf n"
  have "ipnet_contains n (ipnet_addr n)" by (cases n) simp_all
  with key_matches_ipnet [OF wf] show ?thesis by blast
qed

lemma insert_routes_law:
  assumes "allowed_ips_wf t" "no_overlap (allowed_ips_map t)" "\<forall>n \<in> set ns. ipnet_wf n"
  shows "\<exists>r. insert_routes cap key ns t = Ret r \<and>
    (\<forall>t'. r = Inr t' \<longrightarrow> allowed_ips_wf t' \<and> no_overlap (allowed_ips_map t') \<and>
       (\<forall>n k. allowed_ips_map t' n = Some k \<longleftrightarrow> allowed_ips_map t n = Some k \<or> n \<in> ipnet_key ` set ns \<and> k = key))"
  using assms
proof (induction ns arbitrary: t)
  case (Cons n ns)
  have wf: "ipnet_wf n" using Cons.prems(3) by simp
  show ?case
  proof (cases "allowed_ips_overlaps n t")
    case False
    have free: "allowed_ips_map t k = None" if "key_matches k a" "key_matches (ipnet_key n) a" for k a
      using False overlaps_spec [OF Cons.prems(1) wf] key_matches_ipnet [OF wf] that by (metis option.exhaust)
    have new: "allowed_ips_map t (ipnet_key n) = None" using net_has_address [OF wf] free by blast
    obtain r t1 where i: "allowed_ips_insert cap n key t = Some (r, t1)" "allowed_ips_wf t1"
        "case r of Inr old \<Rightarrow> old = allowed_ips_map t (ipnet_key n) \<and> allowed_ips_map t1 = (allowed_ips_map t)(ipnet_key n \<mapsto> key)
         | Inl e \<Rightarrow> t1 = t"
      using allowed.insert_law [OF Cons.prems(1) wf, of cap key] by blast
    show ?thesis
    proof (cases r)
      case (Inr old)
      with i have m1: "allowed_ips_map t1 = (allowed_ips_map t)(ipnet_key n \<mapsto> key)" by simp
      have no1: "no_overlap (allowed_ips_map t1)"
        using Cons.prems(2) free unfolding no_overlap_def m1 by (auto split: if_splits)
      from Cons.IH [OF i(2) no1] Cons.prems(3) obtain r' where r': "insert_routes cap key ns t1 = Ret r'"
        "\<And>t'. r' = Inr t' \<Longrightarrow> allowed_ips_wf t' \<and> no_overlap (allowed_ips_map t') \<and>
         (\<forall>n k. allowed_ips_map t' n = Some k \<longleftrightarrow> allowed_ips_map t1 n = Some k \<or> n \<in> ipnet_key ` set ns \<and> k = key)"
        by auto
      have "allowed_ips_map t1 m = Some k \<or> m \<in> ipnet_key ` set ns \<and> k = key \<longleftrightarrow>
          allowed_ips_map t m = Some k \<or> m \<in> ipnet_key ` set (n # ns) \<and> k = key" for m k
        using new by (auto simp: m1)
      with r' False i(1) Inr show ?thesis by simp
    next
      case (Inl e)
      with i(1) False show ?thesis by simp
    qed
  qed simp
qed simp

lemma insert_table_law:
  assumes "allowed_ips_wf t" "no_overlap (allowed_ips_map t)" "allowed_ips_wf ips"
  shows "\<exists>r. insert_table cap key ips t = Ret r \<and>
    (\<forall>t'. r = Inr t' \<longrightarrow> allowed_ips_wf t' \<and> no_overlap (allowed_ips_map t') \<and>
       (\<forall>n k. allowed_ips_map t' n = Some k \<longleftrightarrow> allowed_ips_map t n = Some k \<or> allowed_ips_map ips n \<noteq> None \<and> k = key))"
proof -
  obtain xs where xs: "allowed_ips_iter ips = Some xs"
      "\<And>k d. allowed_ips_map ips k = Some d \<longleftrightarrow> (\<exists>n. (d, n) \<in> set xs \<and> ipnet_wf n \<and> ipnet_key n = k)"
      "\<forall>x \<in> set xs. ipnet_wf (snd x)"
    using iter_spec [OF assms(3)] by blast
  have "k \<in> ipnet_key ` set (map snd xs) \<longleftrightarrow> allowed_ips_map ips k \<noteq> None" for k
  proof -
    have "allowed_ips_map ips k \<noteq> None \<longleftrightarrow> (\<exists>d n. (d, n) \<in> set xs \<and> ipnet_wf n \<and> ipnet_key n = k)"
      using xs(2) by fastforce
    also have "\<dots> \<longleftrightarrow> k \<in> ipnet_key ` set (map snd xs)" using xs(3) by force
    finally show ?thesis by simp
  qed
  with insert_routes_law [OF assms(1,2), of "map snd xs" cap key] xs(1,3) show ?thesis
    by (auto simp: insert_table_def)
qed

lemma rebuild_loop_law:
  assumes "allowed_ips_wf t" "no_overlap (allowed_ips_map t)" "allowed_ips_wf ips"
    "\<forall>x \<in> set peers. allowed_ips_wf (pr_allowed_ips (snd x))"
  shows "\<exists>r. rebuild_loop cap upd ips peers found t = Ret r \<and>
    (\<forall>f t'. r = Inr (f, t') \<longrightarrow> allowed_ips_wf t' \<and> no_overlap (allowed_ips_map t') \<and> (f \<longleftrightarrow> found \<or> upd \<in> fst ` set peers) \<and>
       (\<forall>n k. allowed_ips_map t' n = Some k \<longleftrightarrow> allowed_ips_map t n = Some k \<or>
          (\<exists>p. (k, p) \<in> set peers \<and> allowed_ips_map (if k = upd then ips else pr_allowed_ips p) n \<noteq> None)))"
  using assms
proof (induction peers arbitrary: t found)
  case (Cons x peers)
  obtain key p where x: "x = (key, p)" by (cases x)
  let ?ips = "if key = upd then ips else pr_allowed_ips p"
  have "allowed_ips_wf ?ips" using Cons.prems(3,4) x by simp
  from insert_table_law [OF Cons.prems(1,2) this, of cap key]
  obtain r where r: "insert_table cap key ?ips t = Ret r"
    "\<And>t'. r = Inr t' \<Longrightarrow> allowed_ips_wf t' \<and> no_overlap (allowed_ips_map t') \<and>
       (\<forall>n k. allowed_ips_map t' n = Some k \<longleftrightarrow> allowed_ips_map t n = Some k \<or> allowed_ips_map ?ips n \<noteq> None \<and> k = key)"
    by blast
  show ?case
  proof (cases r)
    case (Inr t1)
    note t1 = r(2) [OF Inr]
    from Cons.IH [of t1 "found \<or> key = upd"] t1 Cons.prems(3,4)
    obtain r' where r': "rebuild_loop cap upd ips peers (found \<or> key = upd) t1 = Ret r'"
      "\<And>f t'. r' = Inr (f, t') \<Longrightarrow> allowed_ips_wf t' \<and> no_overlap (allowed_ips_map t') \<and>
         (f \<longleftrightarrow> (found \<or> key = upd) \<or> upd \<in> fst ` set peers) \<and>
         (\<forall>n k. allowed_ips_map t' n = Some k \<longleftrightarrow> allowed_ips_map t1 n = Some k \<or>
          (\<exists>p. (k, p) \<in> set peers \<and> allowed_ips_map (if k = upd then ips else pr_allowed_ips p) n \<noteq> None))"
      by auto
    have "allowed_ips_map t1 n = Some k \<or> (\<exists>q. (k, q) \<in> set peers \<and> allowed_ips_map (if k = upd then ips else pr_allowed_ips q) n \<noteq> None)
      \<longleftrightarrow> allowed_ips_map t n = Some k \<or>
        (\<exists>q. (k, q) \<in> set (x # peers) \<and> allowed_ips_map (if k = upd then ips else pr_allowed_ips q) n \<noteq> None)" for n k
      using t1 x by (cases "k = key") auto
    with r' r(1) Inr x show ?thesis by simp blast
  next
    case (Inl e)
    with r(1) x show ?thesis by simp
  qed
qed simp

lemma rebuilt_law:
  assumes inv: "peers_inv ps" and ips: "allowed_ips_wf ips"
  shows "\<exists>r. rebuilt_peers_by_ip_with K upd ips ps = Ret r \<and>
    (\<forall>t. r = Inr t \<longrightarrow> allowed_ips_wf t \<and> no_overlap (allowed_ips_map t) \<and>
       (\<forall>n k. allowed_ips_map t n = Some k \<longleftrightarrow>
          (if k = upd then allowed_ips_map ips n \<noteq> None else owns ps k n)))"
proof -
  have mem: "(k, p) \<in> set (ps_peers ps) \<longleftrightarrow> peer_by_key k ps = Some p" for k p
    using peers_invD(1) [OF inv] by (simp add: peer_by_key_def)
  have wf: "\<forall>x \<in> set (ps_peers ps). allowed_ips_wf (pr_allowed_ips (snd x))"
    using peers_invD(3) [OF inv] mem by (auto simp: peer_ok_def)
  have no: "no_overlap (allowed_ips_map (allowed_ips_new :: bytes AllowedIPs))" by (simp add: no_overlap_def allowed.new_map)
  from rebuild_loop_law [OF allowed.new_inv no ips wf, of "cap_routes K" upd False]
  obtain r where r: "rebuild_loop (cap_routes K) upd ips (ps_peers ps) False allowed_ips_new = Ret r"
    "\<And>f t'. r = Inr (f, t') \<Longrightarrow> allowed_ips_wf t' \<and> no_overlap (allowed_ips_map t') \<and> (f \<longleftrightarrow> upd \<in> fst ` set (ps_peers ps)) \<and>
       (\<forall>n k. allowed_ips_map t' n = Some k \<longleftrightarrow>
          (\<exists>p. (k, p) \<in> set (ps_peers ps) \<and> allowed_ips_map (if k = upd then ips else pr_allowed_ips p) n \<noteq> None))"
    by (auto simp: allowed.new_map)
  show ?thesis
  proof (cases r)
    case (Inl e)
    with r(1) show ?thesis by (simp add: rebuilt_peers_by_ip_with_def)
  next
    case (Inr ft)
    obtain f t where ft: "ft = (f, t)" by (cases ft)
    note t = r(2) [OF Inr [unfolded ft]]
    have "upd \<in> fst ` set (ps_peers ps) \<longleftrightarrow> (\<exists>p. (upd, p) \<in> set (ps_peers ps))" by force
    moreover have "f \<longleftrightarrow> upd \<in> fst ` set (ps_peers ps)" using t by blast
    ultimately have f: "f \<longleftrightarrow> (\<exists>p. peer_by_key upd ps = Some p)" by (simp only: mem)
    have mt: "allowed_ips_map t n = Some k \<longleftrightarrow> (if k = upd then f \<and> allowed_ips_map ips n \<noteq> None else owns ps k n)" for n k
      using t f by (auto simp: mem owns_def)
    have wft: "allowed_ips_wf t" "no_overlap (allowed_ips_map t)" using t by auto
    show ?thesis
    proof (cases f)
      case True
      with wft mt r(1) Inr ft show ?thesis by (simp add: rebuilt_peers_by_ip_with_def)
    next
      case False
      from insert_table_law [OF wft ips, of "cap_routes K" upd]
      obtain r2 where r2: "insert_table (cap_routes K) upd ips t = Ret r2"
        "\<And>t'. r2 = Inr t' \<Longrightarrow> allowed_ips_wf t' \<and> no_overlap (allowed_ips_map t') \<and>
         (\<forall>n k. allowed_ips_map t' n = Some k \<longleftrightarrow> allowed_ips_map t n = Some k \<or> allowed_ips_map ips n \<noteq> None \<and> k = upd)"
        by blast
      with False r(1) Inr ft mt show ?thesis by (simp add: rebuilt_peers_by_ip_with_def)
    qed
  qed
qed

section \<open>When the routing table can be built\<close>

text \<open>With room in the arenas an insertion fails only for an overlap, with networks that are apart only for want of room.\<close>

lemma insert_routes_error: "insert_routes cap key ns t = Ret (Inl e) \<Longrightarrow> e = AllowedIPOverlap \<or> e = Capacity"
  by (induction cap key ns t rule: insert_routes.induct) (auto split: if_splits option.splits sum.splits prod.splits)

lemma insert_routes_room:
  assumes "allowed_ips_wf t" "\<forall>n \<in> set ns. ipnet_wf n" "grown m t" "m + length ns \<le> table_room cap" "insert_routes cap key ns t = Ret r"
  shows "r = Inl AllowedIPOverlap \<or> (\<exists>t'. r = Inr t' \<and> allowed_ips_wf t' \<and> grown (m + length ns) t')"
  using assms
proof (induction ns arbitrary: t m)
  case (Cons n ns)
  have wf: "ipnet_wf n" "m < table_room cap" using Cons.prems(2,4) by simp_all
  from insert_room [OF Cons.prems(1) wf(1) Cons.prems(3) wf(2), of key] obtain t1 where
    t1: "allowed_ips_insert cap n key t = Some (Inr (allowed_ips_map t (ipnet_key n)), t1)" "allowed_ips_wf t1" "grown (Suc m) t1" by blast
  show ?case
  proof (cases "allowed_ips_overlaps n t")
    case True
    with Cons.prems(5) show ?thesis by simp
  next
    case False
    with Cons.IH [OF t1(2) _ t1(3)] Cons.prems t1(1) show ?thesis by simp
  qed
qed auto

lemma insert_routes_apart:
  assumes "allowed_ips_wf t" "\<forall>n \<in> set ns. ipnet_wf n" "\<forall>n \<in> set ns. \<forall>k. allowed_ips_map t k \<noteq> None \<longrightarrow> apart (ipnet_key n) k"
    and "sorted_wrt (\<lambda>n n'. apart (ipnet_key n) (ipnet_key n')) ns" "insert_routes cap key ns t = Ret r"
  shows "r \<noteq> Inl AllowedIPOverlap"
  using assms
proof (induction ns arbitrary: t)
  case (Cons n ns)
  have wf: "ipnet_wf n" using Cons.prems(2) by simp
  have no: "\<not> allowed_ips_overlaps n t"
    using Cons.prems(3) unfolding overlaps_spec [OF Cons.prems(1) wf] by (fastforce simp: apart_def key_matches_ipnet [OF wf, symmetric])
  from allowed_ips_insert_strong [OF Cons.prems(1) wf, of cap key] obtain x t1 where
    t1: "allowed_ips_insert cap n key t = Some (x, t1)" "allowed_ips_wf t1"
      "\<And>old. x = Inr old \<Longrightarrow> allowed_ips_map t1 = (allowed_ips_map t)(ipnet_key n \<mapsto> key)" by (fastforce split: sum.splits)
  show ?case
  proof (cases x)
    case (Inl e)
    with no t1(1) Cons.prems(5) show ?thesis by auto
  next
    case (Inr old)
    have "\<forall>n' \<in> set ns. \<forall>k. allowed_ips_map t1 k \<noteq> None \<longrightarrow> apart (ipnet_key n') k"
      using Cons.prems(3,4) by (auto simp: t1(3) [OF Inr] intro: apart_sym)
    with Cons.IH [OF t1(2)] Cons.prems no t1(1) Inr show ?thesis by simp
  qed
qed auto

lemma insert_table_error: "insert_table cap key ips t = Ret (Inl e) \<Longrightarrow> e = AllowedIPOverlap \<or> e = Capacity"
  by (auto simp: insert_table_def dest: insert_routes_error split: option.splits)

lemma insert_table_room:
  assumes "allowed_ips_wf t" "allowed_ips_wf ips" "grown m t" "m + card (nets_of ips) \<le> table_room cap" "insert_table cap key ips t = Ret r"
  shows "r = Inl AllowedIPOverlap \<or> (\<exists>t'. r = Inr t' \<and> allowed_ips_wf t' \<and> grown (m + card (nets_of ips)) t')"
proof -
  obtain xs where xs: "allowed_ips_iter ips = Some xs" using iter_spec [OF assms(2)] by blast
  have "\<forall>n \<in> set (map snd xs). ipnet_wf n" using iter_keys(3) [OF assms(2) xs] by auto
  from insert_routes_room [OF assms(1) this assms(3), of cap key r] show ?thesis
    using assms(4,5) xs iter_length [OF assms(2) xs] by (simp add: insert_table_def)
qed

lemma insert_table_apart:
  assumes "allowed_ips_wf t" "allowed_ips_wf ips" "spread (nets_of ips)" "far (nets_of ips) (nets_of t)" "insert_table cap key ips t = Ret r"
  shows "r \<noteq> Inl AllowedIPOverlap"
proof -
  obtain xs where xs: "allowed_ips_iter ips = Some xs" using iter_spec [OF assms(2)] by blast
  note k = iter_keys [OF assms(2) xs]
  have in_nets: "x \<in> set xs \<Longrightarrow> ipnet_key (snd x) \<in> nets_of ips" for x using k(2) by blast
  have "sorted_wrt (\<lambda>n n'. apart (ipnet_key n) (ipnet_key n')) (map snd xs)"
    unfolding sorted_wrt_iff_nth_less
  proof (intro allI impI)
    fix i j assume ij: "i < j" "j < length (map snd xs)"
    then have "ipnet_key (snd (xs ! i)) \<noteq> ipnet_key (snd (xs ! j))" using k(1) nth_eq_iff_index_eq [OF k(1), of i j] by auto
    then show "apart (ipnet_key (map snd xs ! i)) (ipnet_key (map snd xs ! j))" using ij assms(3) in_nets by (simp add: spread_def)
  qed
  moreover have "\<forall>n \<in> set (map snd xs). \<forall>k. allowed_ips_map t k \<noteq> None \<longrightarrow> apart (ipnet_key n) k"
    using assms(4) in_nets by (auto simp: far_def nets_of_def)
  moreover have "\<forall>n \<in> set (map snd xs). ipnet_wf n" using k(3) by auto
  ultimately show ?thesis using insert_routes_apart [OF assms(1), of "map snd xs" cap key r] assms(5) xs by (simp add: insert_table_def)
qed

lemma insert_table_nets:
  assumes "allowed_ips_wf t" "no_overlap (allowed_ips_map t)" "allowed_ips_wf ips" "insert_table cap key ips t = Ret (Inr t')"
  shows "allowed_ips_wf t'" "no_overlap (allowed_ips_map t')" "nets_of t' = nets_of t \<union> nets_of ips"
proof -
  from insert_table_law [OF assms(1-3), of cap key] assms(4) have law: "allowed_ips_wf t'" "no_overlap (allowed_ips_map t')"
      "\<And>n k. allowed_ips_map t' n = Some k \<longleftrightarrow> allowed_ips_map t n = Some k \<or> allowed_ips_map ips n \<noteq> None \<and> k = key" by auto
  then show "allowed_ips_wf t'" "no_overlap (allowed_ips_map t')" by simp_all
  show "nets_of t' = nets_of t \<union> nets_of ips" using law(3) unfolding nets_of_def by blast
qed

definition row_nets :: "bytes \<Rightarrow> unit AllowedIPs \<Rightarrow> bytes \<times> Peer \<Rightarrow> net_key set" where
  "row_nets upd ips x = nets_of (if fst x = upd then ips else pr_allowed_ips (snd x))"

definition old_nets :: "bytes \<times> Peer \<Rightarrow> net_key set" where
  "old_nets x = nets_of (pr_allowed_ips (snd x))"

lemma rebuild_loop_error: "rebuild_loop cap upd ips peers found t = Ret (Inl e) \<Longrightarrow> e = AllowedIPOverlap \<or> e = Capacity"
  by (induction cap upd ips peers found t rule: rebuild_loop.induct)
    (auto simp: run_bind_def dest: insert_table_error split: run.splits sum.splits)

lemma rebuild_loop_room:
  assumes "allowed_ips_wf t" "allowed_ips_wf ips" "grown m t" "\<forall>x \<in> set peers. allowed_ips_wf (pr_allowed_ips (snd x))"
    and "m + (\<Sum>x\<leftarrow>peers. card (row_nets upd ips x)) \<le> table_room cap" "rebuild_loop cap upd ips peers found t = Ret r"
  shows "r = Inl AllowedIPOverlap \<or>
    (\<exists>f t'. r = Inr (f, t') \<and> allowed_ips_wf t' \<and> grown (m + (\<Sum>x\<leftarrow>peers. card (row_nets upd ips x))) t')"
  using assms
proof (induction peers arbitrary: t m found)
  case (Cons x peers)
  obtain k p where x: "x = (k, p)" by (cases x)
  let ?tab = "if k = upd then ips else pr_allowed_ips p"
  have tab: "allowed_ips_wf ?tab" "nets_of ?tab = row_nets upd ips x" using Cons.prems(2,4) x by (auto simp: row_nets_def)
  obtain r1 where r1: "insert_table cap k ?tab t = Ret r1" using Cons.prems(6) x by (cases "insert_table cap k ?tab t") simp_all
  from insert_table_room [OF Cons.prems(1) tab(1) Cons.prems(3) _ r1] Cons.prems(5) tab(2)
  consider "r1 = Inl AllowedIPOverlap" | t1 where "r1 = Inr t1" "allowed_ips_wf t1" "grown (m + card (row_nets upd ips x)) t1" by auto
  then show ?case
  proof cases
    case 1
    with r1 Cons.prems(6) x show ?thesis by simp
  next
    case 2
    with Cons.IH [OF 2(2) Cons.prems(2) 2(3), of "found \<or> k = upd"] Cons.prems(4-6) r1 x show ?thesis by (simp add: add.assoc)
  qed
qed auto

lemma rebuild_loop_apart:
  assumes "allowed_ips_wf t" "no_overlap (allowed_ips_map t)" "allowed_ips_wf ips"
    and "\<forall>x \<in> set peers. allowed_ips_wf (pr_allowed_ips (snd x)) \<and> spread (row_nets upd ips x) \<and> far (row_nets upd ips x) (nets_of t)"
    and "sorted_wrt (\<lambda>x y. far (row_nets upd ips y) (row_nets upd ips x)) peers" "rebuild_loop cap upd ips peers found t = Ret r"
  shows "r \<noteq> Inl AllowedIPOverlap \<and> (\<forall>f t'. r = Inr (f, t') \<longrightarrow> nets_of t' = nets_of t \<union> (\<Union>x \<in> set peers. row_nets upd ips x))"
  using assms
proof (induction peers arbitrary: t found)
  case (Cons x peers)
  obtain k p where x: "x = (k, p)" by (cases x)
  let ?tab = "if k = upd then ips else pr_allowed_ips p"
  have tab: "allowed_ips_wf ?tab" "nets_of ?tab = row_nets upd ips x" using Cons.prems(3,4) x by (auto simp: row_nets_def)
  obtain r1 where r1: "insert_table cap k ?tab t = Ret r1" using Cons.prems(6) x by (cases "insert_table cap k ?tab t") simp_all
  show ?case
  proof (cases r1)
    case (Inl e)
    have "r1 \<noteq> Inl AllowedIPOverlap" using insert_table_apart [OF Cons.prems(1) tab(1) _ _ r1] Cons.prems(4) tab(2) by simp
    with Inl r1 Cons.prems(6) x show ?thesis by auto
  next
    case (Inr t1)
    note t1 = insert_table_nets [OF Cons.prems(1,2) tab(1) r1 [unfolded Inr], unfolded tab(2)]
    have "\<forall>y \<in> set peers. allowed_ips_wf (pr_allowed_ips (snd y)) \<and> spread (row_nets upd ips y) \<and> far (row_nets upd ips y) (nets_of t1)"
      using Cons.prems(4,5) t1(3) by simp
    from Cons.IH [OF t1(1,2) Cons.prems(3) this, of "found \<or> k = upd"] Cons.prems(5,6) r1 Inr x t1(3) show ?thesis by auto
  qed
qed auto

text \<open>The networks of the peers of a device are spread.\<close>

lemma owned_apart:
  assumes "peers_inv ps" "owns ps k x" "owns ps j y" "k \<noteq> j \<or> x \<noteq> y"
  shows "apart x y"
proof -
  note I = peers_invD [OF assms(1)]
  have "x = y" if "key_matches x a" "key_matches y a" for a
    using I(6) I(7) [of x k] I(7) [of y j] assms(2,3) that unfolding no_overlap_def by blast
  moreover have "x = y \<Longrightarrow> k = j" using I(7) [of x k] I(7) [of y j] assms(2,3) by simp
  ultimately show ?thesis using assms(4) unfolding apart_def by blast
qed

lemma row_weight:
  assumes "distinct (map fst peers)"
  shows "(\<Sum>x\<leftarrow>peers. card (row_nets upd ips x)) \<le> card (nets_of ips) + (\<Sum>x\<leftarrow>peers. card (old_nets x))"
    "upd \<notin> fst ` set peers \<Longrightarrow> (\<Sum>x\<leftarrow>peers. card (row_nets upd ips x)) = (\<Sum>x\<leftarrow>peers. card (old_nets x))"
proof -
  show no: "(\<Sum>x\<leftarrow>ps. card (row_nets upd ips x)) = (\<Sum>x\<leftarrow>ps. card (old_nets x))" if "upd \<notin> fst ` set ps" for ps
    using that by (induction ps) (auto simp: row_nets_def old_nets_def)
  show "(\<Sum>x\<leftarrow>peers. card (row_nets upd ips x)) \<le> card (nets_of ips) + (\<Sum>x\<leftarrow>peers. card (old_nets x))"
    using assms
  proof (induction peers)
    case (Cons x peers)
    show ?case
    proof (cases "fst x = upd")
      case True
      with Cons.prems have "upd \<notin> fst ` set peers" by auto
      then have "(\<Sum>y\<leftarrow>peers. card (row_nets upd ips y)) = (\<Sum>y\<leftarrow>peers. card (old_nets y))" by (rule no)
      moreover have "row_nets upd ips x = nets_of ips" using True by (simp add: row_nets_def)
      ultimately show ?thesis by simp
    next
      case False
      then have "row_nets upd ips x = old_nets x" by (simp add: row_nets_def old_nets_def)
      with Cons show ?thesis by simp
    qed
  qed simp
qed

lemma rows_spread:
  assumes inv: "peers_inv ps" and ips: "spread (nets_of ips)" and x: "peer_by_key k ps = Some p"
    and far: "\<forall>j q. peer_by_key j ps = Some q \<and> j \<noteq> upd \<longrightarrow> far (nets_of ips) (nets_of (pr_allowed_ips q))"
  shows "spread (row_nets upd ips (k, p))"
    "peer_by_key j ps = Some q \<Longrightarrow> k \<noteq> j \<Longrightarrow> far (row_nets upd ips (j, q)) (row_nets upd ips (k, p))"
proof -
  have own: "peer_by_key i ps = Some r \<Longrightarrow> u \<in> nets_of (pr_allowed_ips r) \<Longrightarrow> owns ps i u" for i r u by (auto simp: owns_def nets_of_def)
  have "apart u v" if "u \<in> nets_of (pr_allowed_ips p)" "v \<in> nets_of (pr_allowed_ips p)" "u \<noteq> v" for u v
    using owned_apart [OF inv own [OF x that(1)] own [OF x that(2)]] that(3) by simp
  with ips show "spread (row_nets upd ips (k, p))" by (simp add: row_nets_def spread_def)
  assume y: "peer_by_key j ps = Some q" "k \<noteq> j"
  consider "j = upd" "k \<noteq> upd" | "k = upd" "j \<noteq> upd" | "j \<noteq> upd" "k \<noteq> upd" using y(2) by blast
  then show "far (row_nets upd ips (j, q)) (row_nets upd ips (k, p))"
  proof cases
    case 1
    with x far have "far (nets_of ips) (nets_of (pr_allowed_ips p))" by blast
    with 1 show ?thesis by (simp add: row_nets_def)
  next
    case 2
    with y(1) far have "far (nets_of ips) (nets_of (pr_allowed_ips q))" by blast
    with 2 show ?thesis by (auto simp: row_nets_def far_def intro: apart_sym)
  next
    case 3
    have "apart u v" if "u \<in> nets_of (pr_allowed_ips q)" "v \<in> nets_of (pr_allowed_ips p)" for u v
      using owned_apart [OF inv own [OF y(1) that(1)] own [OF x that(2)]] y(2) by simp
    with 3 show ?thesis by (simp add: row_nets_def far_def)
  qed
qed

text \<open>The new table of a device, over the peers that have one.\<close>

definition peers_apart :: "PeerState \<Rightarrow> bytes \<Rightarrow> unit AllowedIPs \<Rightarrow> bool" where
  "peers_apart ps upd ips \<longleftrightarrow> spread (nets_of ips) \<and>
     (\<forall>k p. peer_by_key k ps = Some p \<and> k \<noteq> upd \<longrightarrow> far (nets_of ips) (nets_of (pr_allowed_ips p)))"

lemma rebuilt_room:
  assumes inv: "peers_inv ps" and ips: "allowed_ips_wf ips" and r: "rebuilt_peers_by_ip_with K upd ips ps = Ret r"
    and room: "card (nets_of ips) + (\<Sum>x\<leftarrow>ps_peers ps. card (old_nets x)) \<le> table_room (cap_routes K)"
  shows "r \<noteq> Inl Capacity"
proof -
  note I = peers_invD [OF inv]
  let ?w = "\<Sum>x\<leftarrow>ps_peers ps. card (row_nets upd ips x)"
  have wf: "\<forall>x \<in> set (ps_peers ps). allowed_ips_wf (pr_allowed_ips (snd x))" using I(1,3) by (auto simp: peer_by_key_def peer_ok_def)
  have no: "no_overlap (allowed_ips_map (allowed_ips_new :: bytes AllowedIPs))" by (simp add: no_overlap_def allowed.new_map)
  from rebuild_loop_law [OF allowed.new_inv no ips wf, of "cap_routes K" upd False] obtain q where
    q: "rebuild_loop (cap_routes K) upd ips (ps_peers ps) False allowed_ips_new = Ret q"
      "\<And>f t. q = Inr (f, t) \<Longrightarrow> (f \<longleftrightarrow> upd \<in> fst ` set (ps_peers ps))" by auto
  have w: "0 + ?w \<le> table_room (cap_routes K)" using row_weight(1) [OF I(1), of upd ips] room by simp
  from rebuild_loop_room [OF allowed.new_inv ips grown_new wf w q(1)]
  consider "q = Inl AllowedIPOverlap" | f t where "q = Inr (f, t)" "allowed_ips_wf t" "grown ?w t" by auto
  then show ?thesis
  proof cases
    case 1
    with q(1) r show ?thesis by (auto simp: rebuilt_peers_by_ip_with_def)
  next
    case 2
    show ?thesis
    proof (cases f)
      case True
      with 2 q(1) r show ?thesis by (auto simp: rebuilt_peers_by_ip_with_def)
    next
      case False
      then have "upd \<notin> fst ` set (ps_peers ps)" using q(2) 2(1) by simp
      from row_weight(2) [OF I(1) this, of ips] room have "?w + card (nets_of ips) \<le> table_room (cap_routes K)" by simp
      moreover have "insert_table (cap_routes K) upd ips t = Ret r" using False 2(1) q(1) r by (simp add: rebuilt_peers_by_ip_with_def)
      ultimately show ?thesis using insert_table_room [OF 2(2) ips 2(3)] by fastforce
    qed
  qed
qed

lemma rebuilt_apart:
  assumes inv: "peers_inv ps" and ips: "allowed_ips_wf ips" and r: "rebuilt_peers_by_ip_with K upd ips ps = Ret r" and ap: "peers_apart ps upd ips"
  shows "r \<noteq> Inl AllowedIPOverlap"
proof -
  note I = peers_invD [OF inv]
  have spread: "spread (nets_of ips)" and far: "\<forall>k p. peer_by_key k ps = Some p \<and> k \<noteq> upd \<longrightarrow> far (nets_of ips) (nets_of (pr_allowed_ips p))"
    using ap unfolding peers_apart_def by blast+
  have mem: "x \<in> set (ps_peers ps) \<Longrightarrow> peer_by_key (fst x) ps = Some (snd x)" for x using I(1) by (simp add: peer_by_key_def)
  have wf: "\<forall>x \<in> set (ps_peers ps). allowed_ips_wf (pr_allowed_ips (snd x))" using I(3) mem by (auto simp: peer_ok_def)
  have no: "no_overlap (allowed_ips_map (allowed_ips_new :: bytes AllowedIPs))" by (simp add: no_overlap_def allowed.new_map)
  have new: "nets_of (allowed_ips_new :: bytes AllowedIPs) = {}" by (simp add: nets_of_def allowed.new_map)
  have "sorted_wrt (\<lambda>x y. far (row_nets upd ips y) (row_nets upd ips x)) (ps_peers ps)"
    unfolding sorted_wrt_iff_nth_less
  proof (intro allI impI)
    fix i j assume ij: "i < j" "j < length (ps_peers ps)"
    then have "fst (ps_peers ps ! i) \<noteq> fst (ps_peers ps ! j)" using nth_eq_iff_index_eq [OF I(1), of i j] by simp
    with rows_spread(2) [OF inv spread mem far mem, of "ps_peers ps ! i" "ps_peers ps ! j"] ij
    show "far (row_nets upd ips (ps_peers ps ! j)) (row_nets upd ips (ps_peers ps ! i))" by simp
  qed
  moreover have "\<forall>x \<in> set (ps_peers ps). allowed_ips_wf (pr_allowed_ips (snd x)) \<and> spread (row_nets upd ips x) \<and>
      far (row_nets upd ips x) (nets_of (allowed_ips_new :: bytes AllowedIPs))"
    using wf new mem rows_spread(1) [OF inv spread mem far] by auto
  ultimately have loop: "rebuild_loop (cap_routes K) upd ips (ps_peers ps) False allowed_ips_new = Ret q \<Longrightarrow>
      q \<noteq> Inl AllowedIPOverlap \<and> (\<forall>f t. q = Inr (f, t) \<longrightarrow> nets_of t = (\<Union>x \<in> set (ps_peers ps). row_nets upd ips x))" for q
    using rebuild_loop_apart [OF allowed.new_inv no ips, of "ps_peers ps" upd "cap_routes K" False q] new by simp
  from rebuild_loop_law [OF allowed.new_inv no ips wf, of "cap_routes K" upd False] obtain q where
    q: "rebuild_loop (cap_routes K) upd ips (ps_peers ps) False allowed_ips_new = Ret q"
      "\<And>f t. q = Inr (f, t) \<Longrightarrow> allowed_ips_wf t \<and> (f \<longleftrightarrow> upd \<in> fst ` set (ps_peers ps))" by auto
  show ?thesis
  proof (cases q)
    case (Inl e)
    with loop [OF q(1)] q(1) r show ?thesis by (auto simp: rebuilt_peers_by_ip_with_def)
  next
    case (Inr ft)
    obtain f t where ft: "ft = (f, t)" by force
    note t = q(2) [OF Inr [unfolded ft]]
    show ?thesis
    proof (cases f)
      case True
      with q(1) Inr ft r show ?thesis by (auto simp: rebuilt_peers_by_ip_with_def)
    next
      case False
      have "far (nets_of ips) (row_nets upd ips x)" if x: "x \<in> set (ps_peers ps)" for x
      proof -
        have k: "fst x \<noteq> upd" using t False x by blast
        with far mem [OF x] show ?thesis by (simp add: row_nets_def)
      qed
      then have "far (nets_of ips) (nets_of t)" using loop [OF q(1)] Inr ft by (auto simp: far_def)
      moreover have "insert_table (cap_routes K) upd ips t = Ret r" using False Inr ft q(1) r by (simp add: rebuilt_peers_by_ip_with_def)
      ultimately show ?thesis using insert_table_apart [OF _ ips spread] t by blast
    qed
  qed
qed

lemma rebuilt_error:
  "rebuilt_peers_by_ip_with K upd ips ps = Ret (Inl e) \<Longrightarrow> e = AllowedIPOverlap \<or> e = Capacity"
  by (auto simp: rebuilt_peers_by_ip_with_def run_bind_def dest: rebuild_loop_error insert_table_error split: run.splits sum.splits if_splits)

section \<open>Commands keep the invariant\<close>

text \<open>What a configuration asks for, and what is installed for a peer. The keepalive is part of the tunnel.\<close>

record peer_view =
  pv_endpoint :: "SocketAddr option"
  pv_relay :: "bytes option"
  pv_keepalive :: "u16 option"
  pv_networks :: "net_key set"

definition peer_view_of :: "Peer \<Rightarrow> peer_view" where
  "peer_view_of p = \<lparr>pv_endpoint = pr_endpoint p, pv_relay = pr_relay p, pv_keepalive = persistent_keepalive (pr_tunnel p),
     pv_networks = {n. allowed_ips_map (pr_allowed_ips p) n \<noteq> None}\<rparr>"

definition config_view :: "PeerConfig \<Rightarrow> peer_view" where
  "config_view c = \<lparr>pv_endpoint = pc_endpoint c, pv_relay = pc_relay c,
     pv_keepalive = (case pc_keepalive c of Some k \<Rightarrow> if k = 0 then None else Some k | None \<Rightarrow> None),
     pv_networks = ipnet_key ` set (pc_allowed_ips c)\<rparr>"

definition peers_view :: "PeerState \<Rightarrow> bytes \<Rightarrow> peer_view option" where
  "peers_view ps k = map_option peer_view_of (peer_by_key k ps)"

definition config_wf :: "PeerConfig \<Rightarrow> bool" where
  "config_wf c \<longleftrightarrow> (\<forall>n \<in> set (pc_allowed_ips c). ipnet_wf n)"

lemma allowed_ips_from_slice_law:
  assumes "\<forall>n \<in> set nets. ipnet_wf n"
  shows "\<exists>r. allowed_ips_from_slice K nets = Ret r \<and> (\<forall>e. r = Inl e \<longrightarrow> e = Capacity) \<and>
    (\<forall>t. r = Inr t \<longrightarrow> allowed_ips_wf t \<and> {n. allowed_ips_map t n \<noteq> None} = ipnet_key ` set nets)"
proof -
  have "\<forall>x \<in> set (map (\<lambda>n. (n, ())) nets). ipnet_wf (fst x)" using assms by auto
  from allowed.insert_all_law [OF allowed.new_inv this, of "cap_allowed K"]
  obtain r where r: "allowed_ips_try_from_iter (cap_allowed K) (map (\<lambda>n. (n, ())) nets) = Some r"
    "\<And>t. r = Inr t \<Longrightarrow> allowed_ips_wf t \<and> allowed_ips_map t = map_of (rev (map (\<lambda>(n, d). (ipnet_key n, d)) (map (\<lambda>n. (n, ())) nets)))"
    by (auto simp: allowed_ips_try_from_iter_def insert_all_is_table allowed.new_map)
  have "{n. map_of (rev (map (\<lambda>(n, d). (ipnet_key n, d)) (map (\<lambda>n. (n, ())) nets))) n \<noteq> None} = ipnet_key ` set nets"
    by (auto simp: map_of_eq_None_iff image_image simp del: rev_map map_map not_None_eq)
  with r show ?thesis by (cases r) (auto simp: allowed_ips_from_slice_def)
qed

definition config_nets :: "PeerConfig \<Rightarrow> net_key set" where
  "config_nets c = ipnet_key ` set (pc_allowed_ips c)"

text \<open>When a configuration can be installed beside the other peers: its networks share no address with theirs or with each
  other, the arenas of the tables find room for it and, for a new peer, the table of peers does. Duplicates
  in its list count.\<close>

definition total_nets :: "(bytes \<Rightarrow> peer_view option) \<Rightarrow> nat" where
  "total_nets v = (\<Sum>k \<in> dom v. card (pv_networks (the (v k))))"

definition config_apart :: "(bytes \<Rightarrow> peer_view option) \<Rightarrow> PeerConfig \<Rightarrow> bool" where
  "config_apart v c \<longleftrightarrow> spread (config_nets c) \<and>
     (\<forall>k w. v k = Some w \<and> k \<noteq> pc_public_key c \<longrightarrow> far (config_nets c) (pv_networks w))"

definition config_room :: "caps \<Rightarrow> (bytes \<Rightarrow> peer_view option) \<Rightarrow> PeerConfig \<Rightarrow> bool" where
  "config_room K v c \<longleftrightarrow> length (pc_allowed_ips c) \<le> table_room (cap_allowed K) \<and>
     length (pc_allowed_ips c) + total_nets v \<le> table_room (cap_routes K) \<and>
     (v (pc_public_key c) = None \<longrightarrow> has_room (cap_peers K) (card (dom v)))"

text \<open>Why a configuration may be refused.\<close>

definition refusal :: "caps \<Rightarrow> (bytes \<Rightarrow> peer_view option) \<Rightarrow> PeerConfig \<Rightarrow> DeviceError \<Rightarrow> bool" where
  "refusal K v c e \<longleftrightarrow> e = AllowedIPOverlap \<and> \<not> config_apart v c \<or> e = Capacity \<and> \<not> config_room K v c"

lemma peers_view_total:
  assumes "distinct (map fst (ps_peers ps))"
  shows "total_nets (peers_view ps) = (\<Sum>x\<leftarrow>ps_peers ps. card (old_nets x))" "card (dom (peers_view ps)) = length (ps_peers ps)"
proof -
  have mem: "x \<in> set (ps_peers ps) \<Longrightarrow> map_of (ps_peers ps) (fst x) = Some (snd x)" for x using assms by (metis map_of_is_SomeI prod.collapse)
  have dom: "dom (peers_view ps) = fst ` set (ps_peers ps)"
    by (auto simp: peers_view_def peer_by_key_def dom_def map_of_eq_None_iff image_iff dest: map_of_SomeD)
  have "card (pv_networks (the (peers_view ps (fst x)))) = card (old_nets x)" if "x \<in> set (ps_peers ps)" for x
    using mem [OF that] by (simp add: peers_view_def peer_by_key_def peer_view_of_def old_nets_def nets_of_def)
  moreover have d: "inj_on fst (set (ps_peers ps))" "distinct (ps_peers ps)" using assms by (simp_all add: distinct_map)
  ultimately show "total_nets (peers_view ps) = (\<Sum>x\<leftarrow>ps_peers ps. card (old_nets x))"
    unfolding total_nets_def dom by (simp add: sum.reindex sum_list_distinct_conv_sum_set cong: sum.cong)
  show "card (dom (peers_view ps)) = length (ps_peers ps)" unfolding dom using d by (simp add: card_image distinct_card)
qed

lemma indexes_room:
  assumes "peers_inv ps" shows "length (ps_by_idx ps) \<le> length (ps_peers ps)"
proof -
  note I = peers_invD [OF assms]
  have "i \<in> (\<lambda>x. pr_index (snd x)) ` set (ps_peers ps)" if "(i, k) \<in> set (ps_by_idx ps)" for i k
  proof -
    have "map_of (ps_by_idx ps) i = Some k" using that I(2) by simp
    with I(4) obtain p where "peer_by_key k ps = Some p" "pr_index p = i" by blast
    then show ?thesis by (force simp: peer_by_key_def dest: map_of_SomeD)
  qed
  then have "fst ` set (ps_by_idx ps) \<subseteq> (\<lambda>x. pr_index (snd x)) ` set (ps_peers ps)" by auto
  then have "card (fst ` set (ps_by_idx ps)) \<le> card ((\<lambda>x. pr_index (snd x)) ` set (ps_peers ps))" by (simp add: card_mono)
  also have "\<dots> \<le> length (ps_peers ps)" by (meson card_image_le card_length finite_set le_trans)
  finally show ?thesis using distinct_card [OF I(2)] by simp
qed

lemma from_slice_room:
  assumes "config_wf c" "length (pc_allowed_ips c) \<le> table_room (cap_allowed K)"
  shows "\<exists>t. allowed_ips_from_slice K (pc_allowed_ips c) = Ret (Inr t)"
proof -
  have "\<forall>x \<in> set (map (\<lambda>n. (n, ())) (pc_allowed_ips c)). ipnet_wf (fst x)" using assms(1) by (simp add: config_wf_def)
  from insert_all_room [OF allowed.new_inv grown_new _ this, of "cap_allowed K"] assms(2)
  obtain t where "allowed_ips_try_from_iter (cap_allowed K) (map (\<lambda>n. (n, ())) (pc_allowed_ips c)) = Some (Inr t)"
    by (auto simp: allowed_ips_try_from_iter_def)
  then show ?thesis by (simp add: allowed_ips_from_slice_def)
qed

text \<open>The two ways a command that installs a configuration is refused.\<close>

lemma from_slice_refused:
  assumes "config_wf c" "allowed_ips_from_slice K (pc_allowed_ips c) = Ret (Inl e)"
  shows "refusal K v c e"
proof -
  have "e = Capacity" using allowed_ips_from_slice_law [of "pc_allowed_ips c" K] assms by (auto simp: config_wf_def)
  moreover have "\<not> length (pc_allowed_ips c) \<le> table_room (cap_allowed K)" using from_slice_room [OF assms(1), of K] assms(2) by auto
  ultimately show ?thesis by (auto simp: refusal_def config_room_def)
qed

lemma rebuilt_refused:
  assumes inv: "peers_inv ps" and ips: "allowed_ips_wf ips" "nets_of ips = config_nets c"
    and r: "rebuilt_peers_by_ip_with K (pc_public_key c) ips ps = Ret (Inl e)"
  shows "refusal K (peers_view ps) c e"
proof -
  note I = peers_invD [OF inv]
  consider "e = AllowedIPOverlap" | "e = Capacity" using rebuilt_error [OF r] by blast
  then show ?thesis
  proof cases
    case 1
    have "\<not> peers_apart ps (pc_public_key c) ips" using rebuilt_apart [OF inv ips(1) r] 1 by blast
    moreover have "peers_apart ps (pc_public_key c) ips" if ap: "config_apart (peers_view ps) c"
    proof -
      have "far (nets_of ips) (nets_of (pr_allowed_ips p))" if p: "peer_by_key k ps = Some p" "k \<noteq> pc_public_key c" for k p
      proof -
        have "peers_view ps k = Some (peer_view_of p)" using p(1) by (simp add: peers_view_def)
        with ap p(2) have "far (config_nets c) (pv_networks (peer_view_of p))" unfolding config_apart_def by blast
        then show ?thesis unfolding ips(2) by (simp add: peer_view_of_def nets_of_def)
      qed
      then have "\<forall>k p. peer_by_key k ps = Some p \<and> k \<noteq> pc_public_key c \<longrightarrow> far (nets_of ips) (nets_of (pr_allowed_ips p))" by blast
      moreover have "spread (nets_of ips)" using ap ips(2) by (simp add: config_apart_def)
      ultimately show ?thesis unfolding peers_apart_def by blast
    qed
    ultimately show ?thesis using 1 by (auto simp: refusal_def)
  next
    case 2
    have "card (nets_of ips) \<le> length (pc_allowed_ips c)"
      unfolding ips(2) config_nets_def by (meson card_image_le card_length finite_set le_trans)
    moreover have "\<not> card (nets_of ips) + (\<Sum>x\<leftarrow>ps_peers ps. card (old_nets x)) \<le> table_room (cap_routes K)"
      using rebuilt_room [OF inv ips(1) r] 2 by blast
    ultimately show ?thesis using 2 peers_view_total(1) [OF I(1)] by (simp add: refusal_def config_room_def)
  qed
qed

text \<open>What was installed is apart.\<close>

lemma installed_apart:
  assumes inv: "peers_inv ps" and v: "peers_view ps = v(pc_public_key c \<mapsto> config_view c)"
  shows "config_apart v c"
proof -
  have own: "owns ps k n" if "peers_view ps k = Some w" "n \<in> pv_networks w" for k w n
    using that by (auto simp: peers_view_def peer_view_of_def owns_def)
  have c: "peers_view ps (pc_public_key c) = Some (config_view c)" "pv_networks (config_view c) = config_nets c"
    using v by (simp_all add: config_view_def config_nets_def)
  have "apart x y" if "x \<in> config_nets c" "y \<in> config_nets c" "x \<noteq> y" for x y
    using owned_apart [OF inv own [OF c(1)] own [OF c(1)]] that c(2) by simp
  moreover have "apart x y" if "x \<in> config_nets c" "v k = Some w" "k \<noteq> pc_public_key c" "y \<in> pv_networks w" for x y k w
    using owned_apart [OF inv own [OF c(1)] own [of k w]] that c(2) v by simp
  ultimately show ?thesis by (auto simp: config_apart_def spread_def far_def)
qed

lemma view_more:
  "peer_by_key k (put_peer key p ps) = (if k = key then Some p else peer_by_key k ps)"
  "peer_by_key k (ps\<lparr>ps_by_ip := t\<rparr>) = peer_by_key k ps"
  by (simp_all add: peer_by_key_def put_peer_def)

lemma update_law:
  assumes inv: "peers_inv ps" and wf: "config_wf c"
  shows "\<exists>r ps'. update_peer_in_state K c ps = Ret (r, ps') \<and> peers_inv ps' \<and>
    (case peers_view ps (pc_public_key c) of
       None \<Rightarrow> r = Inl PeerNotFound \<and> ps' = ps
     | Some _ \<Rightarrow> (case r of Inl e \<Rightarrow> ps' = ps \<and> refusal K (peers_view ps) c e | Inr x \<Rightarrow> x = NoOutput \<and> peers_view ps' = (peers_view ps)(pc_public_key c \<mapsto> config_view c)))"
proof (cases "peer_by_key (pc_public_key c) ps")
  case None
  with inv show ?thesis by (simp add: update_peer_in_state_def peers_view_def)
next
  case (Some p)
  let ?k = "pc_public_key c"
  note I = peers_invD [OF inv]
  obtain r where r: "allowed_ips_from_slice K (pc_allowed_ips c) = Ret r"
    "\<And>t. r = Inr t \<Longrightarrow> allowed_ips_wf t \<and> {n. allowed_ips_map t n \<noteq> None} = ipnet_key ` set (pc_allowed_ips c)"
    using allowed_ips_from_slice_law [of "pc_allowed_ips c" K] wf by (auto simp: config_wf_def)
  show ?thesis
  proof (cases r)
    case (Inl e)
    with Some r(1) inv from_slice_refused [OF wf r(1) [unfolded Inl], of "peers_view ps"] show ?thesis
      by (simp add: update_peer_in_state_def peers_view_def)
  next
    case (Inr ips)
    note ips = r(2) [OF Inr]
    obtain r2 where r2: "rebuilt_peers_by_ip_with K ?k ips ps = Ret r2"
      "\<And>t. r2 = Inr t \<Longrightarrow> allowed_ips_wf t \<and> no_overlap (allowed_ips_map t) \<and>
        (\<forall>n k. allowed_ips_map t n = Some k \<longleftrightarrow> (if k = ?k then allowed_ips_map ips n \<noteq> None else owns ps k n))"
      using rebuilt_law [OF inv, of ips K "pc_public_key c"] ips by blast
    show ?thesis
    proof (cases r2)
      case (Inl e)
      have "refusal K (peers_view ps) c e"
        by (rule rebuilt_refused [OF inv _ _ r2(1) [unfolded Inl]]) (use ips in \<open>simp_all add: nets_of_def config_nets_def\<close>)
      with Inl Some r(1) r2(1) Inr inv show ?thesis by (simp add: update_peer_in_state_def peers_view_def)
    next
      case t: (Inr t)
      note T = r2(2) [OF t]
      let ?p = "p\<lparr>pr_endpoint := pc_endpoint c, pr_relay := pc_relay c,
        pr_tunnel := set_persistent_keepalive (pc_keepalive c) (pr_tunnel p), pr_allowed_ips := ips\<rparr>"
      let ?ps = "(put_peer ?k ?p ps)\<lparr>ps_by_ip := t\<rparr>"
      have eq: "update_peer_in_state K c ps = Ret (Inr NoOutput, ?ps)"
        using Some r(1) r2(1) Inr t by (simp add: update_peer_in_state_def Let_def)
      have by_key: "peer_by_key k ?ps = (if k = ?k then Some ?p else peer_by_key k ps)" for k
        by (simp add: view_more)
      have okp: "peer_ok ?p" using I(3) [OF Some] ips by (simp add: peer_ok_def set_persistent_keepalive_def Let_def)
      have idx: "map_of (ps_by_idx ?ps) i = Some k \<longleftrightarrow> (\<exists>p. peer_by_key k ?ps = Some p \<and> pr_index p = i)" for i k
        unfolding by_key using I(4) [of i k] Some by (simp add: put_peer_def)
      have own: "allowed_ips_map t n = Some k \<longleftrightarrow> owns ?ps k n" for n k
        using T by (auto simp: owns_def by_key)
      have "peers_inv ?ps"
        unfolding peers_inv_def using I(1,2,3) T okp idx own by_key distinct_map_insert [OF I(1)]
        by (auto simp: put_peer_def split: if_splits)
      moreover have "peers_view ?ps = (peers_view ps)(?k \<mapsto> config_view c)"
      proof
        fix k
        have "peer_view_of ?p = config_view c"
          using ips by (auto simp: peer_view_of_def config_view_def persistent_keepalive_def set_persistent_keepalive_def Let_def unat_gt_0
              split: option.split)
        then show "peers_view ?ps k = ((peers_view ps)(?k \<mapsto> config_view c)) k" by (simp add: peers_view_def by_key)
      qed
      ultimately show ?thesis using eq Some by (simp add: peers_view_def)
    qed
  qed
qed

text \<open>The index generator has given out \<open>n\<close> indices, those of the peers among them.\<close>

definition nth_index :: "IndexGenerator \<Rightarrow> nat \<Rightarrow> u32" where
  "nth_index g k = index_value (ig_mask g) ((lfsr_step ^^ k) (ig_lfsr g))"

definition issued :: "IndexGenerator \<Rightarrow> nat \<Rightarrow> IndexGenerator \<Rightarrow> PeerState \<Rightarrow> bool" where
  "issued g0 n g ps \<longleftrightarrow> ready g0 \<and> ig_remaining g0 = LFSR_MAX \<and> n \<le> PERIOD \<and>
     g = g0\<lparr>ig_remaining := ig_remaining g0 - of_nat n, ig_lfsr := (lfsr_step ^^ n) (ig_lfsr g0)\<rparr> \<and>
     (\<forall>i k. map_of (ps_by_idx ps) i = Some k \<longrightarrow> i \<in> nth_index g0 ` {..<n})"

lemma nth_index_range: "ready g \<Longrightarrow> nth_index g k \<le> LFSR_MAX"
  unfolding nth_index_def using index_value_range lfsr_pow_range by (auto simp: ready_def)

lemma nth_index_fresh:
  assumes "ready g" "n < PERIOD"
  shows "nth_index g n \<notin> nth_index g ` {..<n}"
proof -
  have "distinct (map (nth_index g) [0..<Suc n])"
    using ready_indices_distinct [OF assms(1), of "Suc n"] assms(2) by (simp add: nth_index_def [abs_def])
  then show ?thesis by (simp add: atLeast0LessThan)
qed

lemma issued_next:
  assumes "issued g0 n g ps" "n < PERIOD"
  shows "\<exists>g'. new_index g = Ret (nth_index g0 n, g') \<and>
    g' = g0\<lparr>ig_remaining := ig_remaining g0 - of_nat (Suc n), ig_lfsr := (lfsr_step ^^ Suc n) (ig_lfsr g0)\<rparr>"
proof -
  have rem: "LFSR_MAX - of_nat n \<noteq> (0 :: u32)"
  proof
    assume "LFSR_MAX - of_nat n = (0 :: u32)"
    then have "unat LFSR_MAX = unat (of_nat n :: u32)" by simp
    with assms(2) show False by (simp add: unat_LFSR_MAX unat_of_nat_small PERIOD_def)
  qed
  have "(lfsr_step ^^ n) (ig_lfsr g0) \<noteq> 0" using assms(1) lfsr_pow_range by (auto simp: issued_def ready_def)
  with assms(1) rem show ?thesis by (simp add: issued_def new_index_def nth_index_def)
qed

lemma drop_push_index: "i \<le> LFSR_MAX \<Longrightarrow> drop_bit 8 (push_bit 8 i) = (i :: u32)"
proof (rule bit_word_eqI)
  fix n assume "i \<le> LFSR_MAX" and n: "n < LENGTH(32)"
  then have "\<not> bit i m" if "24 \<le> m" for m using le_LFSR_MAX_iff that by auto
  then have "m < 24" if "bit i m" for m using that by (meson leI)
  with n show "bit (drop_bit 8 (push_bit 8 i)) n = bit i n"
    by (auto simp: bit_drop_bit_eq bit_push_bit_iff)
qed

lemma map_remove_insert: "map_of m k = None \<Longrightarrow> map_remove k (map_insert k v m) = m"
  unfolding map_remove_def
  by (induction k v m rule: map_insert.induct) (auto simp: filter_id_conv map_of_eq_None_iff split: if_splits)

lemma insert_storage_law:
  assumes "peer_by_key key ps = None"
  shows "insert_peer_storage K key i p ps =
    (if has_room (cap_peers K) (length (ps_peers ps)) \<and> (map_of (ps_by_idx ps) i \<noteq> None \<or> has_room (cap_peers K) (length (ps_by_idx ps)))
     then (Inr (), ps\<lparr>ps_peers := map_insert key p (ps_peers ps), ps_by_idx := map_insert i key (ps_by_idx ps)\<rparr>)
     else (Inl Capacity, ps))"
  using assms by (auto simp: insert_peer_storage_def try_insert_entry_def peer_by_key_def map_remove_insert)

lemma add_law:
  assumes inv: "peers_inv ps" and wf: "config_wf c" and iss: "issued g0 n g ps" "n < PERIOD"
  shows "\<exists>r ps' g'. add_peer_to_state K C now priv stamper c ps g = Ret (r, ps', g') \<and> peers_inv ps' \<and>
    (issued g0 n g' ps' \<or> issued g0 (Suc n) g' ps') \<and>
    (case peers_view ps (pc_public_key c) of
       Some _ \<Rightarrow> r = Inl PeerAlreadyExists \<and> ps' = ps
     | None \<Rightarrow> (case r of Inl e \<Rightarrow> ps' = ps \<and> refusal K (peers_view ps) c e | Inr x \<Rightarrow> x = NoOutput \<and> peers_view ps' = (peers_view ps)(pc_public_key c \<mapsto> config_view c)))"
proof (cases "peer_by_key (pc_public_key c) ps")
  case (Some p)
  with inv iss show ?thesis by (auto simp: add_peer_to_state_def peers_view_def)
next
  case None
  let ?k = "pc_public_key c"
  note I = peers_invD [OF inv]
  obtain g1 where g1: "new_index g = Ret (nth_index g0 n, g1)"
      "g1 = g0\<lparr>ig_remaining := ig_remaining g0 - of_nat (Suc n), ig_lfsr := (lfsr_step ^^ Suc n) (ig_lfsr g0)\<rparr>"
    using issued_next [OF iss] by blast
  have ready: "ready g0" using iss(1) by (simp add: issued_def)
  have iss_same: "issued g0 (Suc n) g1 ps" using iss g1(2) by (auto simp: issued_def lessThan_Suc)
  define i where "i = nth_index g0 n"
  have fresh: "map_of (ps_by_idx ps) i = None"
    using iss(1) nth_index_fresh [OF ready iss(2)] unfolding issued_def i_def by (metis option.exhaust)
  define tunn where "tunn = tunn_new C now priv ?k (pc_keepalive c) i stamper"
  have idx: "drop_bit 8 (next_local_index (tn_handshake tunn)) = i"
    using drop_push_index [OF nth_index_range [OF ready]] by (simp add: tunn_def tunn_new_def handshake_new_def i_def)
  have keep: "persistent_keepalive tunn = pv_keepalive (config_view c)"
    by (auto simp: tunn_def tunn_new_def persistent_keepalive_def timers_new_def config_view_def Let_def unat_gt_0 split: option.split)
  obtain r where r: "allowed_ips_from_slice K (pc_allowed_ips c) = Ret r"
    "\<And>t. r = Inr t \<Longrightarrow> allowed_ips_wf t \<and> {n. allowed_ips_map t n \<noteq> None} = ipnet_key ` set (pc_allowed_ips c)"
    using allowed_ips_from_slice_law [of "pc_allowed_ips c" K] wf by (auto simp: config_wf_def)
  show ?thesis
  proof (cases r)
    case (Inl e)
    with None r(1) g1(1) inv iss_same from_slice_refused [OF wf r(1) [unfolded Inl], of "peers_view ps"] show ?thesis
      by (simp add: add_peer_to_state_def peer_new_def peers_view_def)
  next
    case (Inr ips)
    note ips = r(2) [OF Inr]
    obtain r2 where r2: "rebuilt_peers_by_ip_with K ?k ips ps = Ret r2"
      "\<And>t. r2 = Inr t \<Longrightarrow> allowed_ips_wf t \<and> no_overlap (allowed_ips_map t) \<and>
        (\<forall>n k. allowed_ips_map t n = Some k \<longleftrightarrow> (if k = ?k then allowed_ips_map ips n \<noteq> None else owns ps k n))"
      using rebuilt_law [OF inv, of ips K "pc_public_key c"] ips by blast
    let ?p = "\<lparr>pr_tunnel = tunn, pr_index = i, pr_endpoint = pc_endpoint c, pr_relay = pc_relay c, pr_allowed_ips = ips\<rparr>"
    let ?room = "has_room (cap_peers K) (length (ps_peers ps)) \<and>
      (map_of (ps_by_idx ps) i \<noteq> None \<or> has_room (cap_peers K) (length (ps_by_idx ps)))"
    have eq: "add_peer_to_state K C now priv stamper c ps g = (case r2 of
        Inl e \<Rightarrow> Ret (Inl e, ps, g1)
      | Inr t \<Rightarrow> if ?room then Ret (Inr NoOutput, ps\<lparr>ps_peers := map_insert ?k ?p (ps_peers ps),
           ps_by_idx := map_insert i ?k (ps_by_idx ps), ps_by_ip := t\<rparr>, g1) else Ret (Inl Capacity, ps, g1))"
      using None r(1) g1(1) r2(1) Inr insert_storage_law [OF None]
      by (auto simp: add_peer_to_state_def peer_new_def Let_def i_def tunn_def split: sum.split)
    show ?thesis
    proof (cases "(\<exists>e. r2 = Inl e) \<or> \<not> ?room")
      case True
      have "refusal K (peers_view ps) c e" if "r2 = Inl e" for e
        by (rule rebuilt_refused [OF inv _ _ r2(1) [unfolded that]]) (use ips in \<open>simp_all add: nets_of_def config_nets_def\<close>)
      moreover have "refusal K (peers_view ps) c Capacity" if "\<not> ?room"
      proof -
        have "\<not> has_room (cap_peers K) (length (ps_peers ps))" using that fresh indexes_room [OF inv] by (auto simp: has_room_def split: option.splits)
        then show ?thesis using None peers_view_total(2) [OF I(1)] by (simp add: refusal_def config_room_def peers_view_def)
      qed
      ultimately have "\<exists>e. add_peer_to_state K C now priv stamper c ps g = Ret (Inl e, ps, g1) \<and> refusal K (peers_view ps) c e"
        using eq True by (auto split: sum.split)
      with inv iss_same None show ?thesis by (auto simp: peers_view_def)
    next
      case False
      then obtain t where t: "r2 = Inr t" and room: ?room by (cases r2) auto
      note T = r2(2) [OF t]
      let ?ps = "ps\<lparr>ps_peers := map_insert ?k ?p (ps_peers ps), ps_by_idx := map_insert i ?k (ps_by_idx ps), ps_by_ip := t\<rparr>"
      have by_key: "peer_by_key k ?ps = (if k = ?k then Some ?p else peer_by_key k ps)" for k by (simp add: peer_by_key_def)
      have idxs: "map_of (ps_by_idx ?ps) j = Some k \<longleftrightarrow> (\<exists>p. peer_by_key k ?ps = Some p \<and> pr_index p = j)" for j k
        using I(4) [of j k] fresh None I(4) [of i k] by (auto simp: by_key)
      have own: "allowed_ips_map t n = Some k \<longleftrightarrow> owns ?ps k n" for n k using T by (auto simp: owns_def by_key)
      have "peer_ok ?p" using ips idx by (simp add: peer_ok_def)
      then have "peers_inv ?ps"
        unfolding peers_inv_def using I(3) T idxs own by_key distinct_map_insert [OF I(1)] distinct_map_insert [OF I(2)] by simp
      moreover have "issued g0 (Suc n) g1 ?ps" using iss_same by (auto simp: issued_def i_def)
      moreover have "peers_view ?ps = (peers_view ps)(?k \<mapsto> config_view c)"
      proof
        fix k
        have "peer_view_of ?p = config_view c" using ips keep by (simp add: peer_view_of_def config_view_def)
        then show "peers_view ?ps k = ((peers_view ps)(?k \<mapsto> config_view c)) k" by (simp add: peers_view_def by_key)
      qed
      ultimately show ?thesis using eq t room None by (auto simp: peers_view_def)
    qed
  qed
qed

lemma remove_law:
  assumes inv: "peers_inv ps"
  shows "peers_inv (remove_peer_from_state key ps)" "peers_view (remove_peer_from_state key ps) = (peers_view ps)(key := None)"
    "\<And>i k. map_of (ps_by_idx (remove_peer_from_state key ps)) i = Some k \<Longrightarrow> map_of (ps_by_idx ps) i = Some k"
proof -
  note I = peers_invD [OF inv]
  show "peers_inv (remove_peer_from_state key ps)"
  proof (cases "peer_by_key key ps")
    case None
    with inv show ?thesis by (simp add: remove_peer_from_state_def remove_peer_storage_def)
  next
    case (Some p)
    let ?t = "allowed_ips_remove (\<lambda>p. p = key) (ps_by_ip ps)"
    let ?ps = "ps\<lparr>ps_peers := map_remove key (ps_peers ps), ps_by_idx := map_remove (pr_index p) (ps_by_idx ps), ps_by_ip := ?t\<rparr>"
    have eq: "remove_peer_from_state key ps = ?ps" using Some by (simp add: remove_peer_from_state_def remove_peer_storage_def)
    have by_key: "peer_by_key k ?ps = (if k = key then None else peer_by_key k ps)" for k by (simp add: peer_by_key_def)
    have m: "allowed_ips_map ?t n = Some k \<longleftrightarrow> k \<noteq> key \<and> allowed_ips_map (ps_by_ip ps) n = Some k" for n k
      using allowed.remove_map [OF I(5), of "\<lambda>p. p = key" n] by (auto split: option.splits)
    have "no_overlap (allowed_ips_map ?t)" using I(6) m unfolding no_overlap_def by (metis option.exhaust option.distinct(1))
    moreover have "map_of (ps_by_idx ?ps) i = Some k \<longleftrightarrow> (\<exists>q. peer_by_key k ?ps = Some q \<and> pr_index q = i)" for i k
      using I(4) [of i k] I(4) [of "pr_index p" key] I(4) [of "pr_index p" k] Some by (auto simp: by_key)
    moreover have "allowed_ips_map ?t n = Some k \<longleftrightarrow> owns ?ps k n" for n k
      using m I(7) by (auto simp: owns_def by_key)
    ultimately show ?thesis
      unfolding eq peers_inv_def using I(3) allowed.remove_inv [OF I(5)] by_key distinct_map_remove [OF I(1)] distinct_map_remove [OF I(2)]
      by simp
  qed
  show "peers_view (remove_peer_from_state key ps) = (peers_view ps)(key := None)"
    by (auto simp: fun_eq_iff peers_view_def peer_by_key_def remove_peer_from_state_def remove_peer_storage_def split: option.split)
  show "map_of (ps_by_idx ps) i = Some k" if "map_of (ps_by_idx (remove_peer_from_state key ps)) i = Some k" for i k
    using that by (auto simp: remove_peer_from_state_def remove_peer_storage_def split: option.splits if_splits)
qed

section \<open>Specification of the commands\<close>

text \<open>What the commands promise, over a map from keys to what is installed for the peer: a command that fails changes
  nothing.\<close>

definition installs ::
  "caps \<Rightarrow> PeerConfig \<Rightarrow> (bytes \<Rightarrow> peer_view option) \<Rightarrow> DeviceError + CommandOutput \<Rightarrow> (bytes \<Rightarrow> peer_view option) \<Rightarrow> bool" where
  "installs K c m r m' \<longleftrightarrow> (case r of
     Inr x \<Rightarrow> x = NoOutput \<and> config_apart m c \<and> m' = m(pc_public_key c \<mapsto> config_view c)
   | Inl e \<Rightarrow> refusal K m c e \<and> m' = m)"

definition command_spec ::
  "caps \<Rightarrow> Command \<Rightarrow> (bytes \<Rightarrow> peer_view option) \<Rightarrow> DeviceError + CommandOutput \<Rightarrow> (bytes \<Rightarrow> peer_view option) \<Rightarrow> bool" where
  "command_spec K command m r m' \<longleftrightarrow> (case command of
     NoCommand \<Rightarrow> r = Inr NoOutput \<and> m' = m
   | Add c \<Rightarrow> (if m (pc_public_key c) = None then installs K c m r m' else r = Inl PeerAlreadyExists \<and> m' = m)
   | Update c \<Rightarrow> (if m (pc_public_key c) = None then r = Inl PeerNotFound \<and> m' = m else installs K c m r m')
   | Remove k \<Rightarrow> r = Inr NoOutput \<and> m' = m(k := None)
   | Get k \<Rightarrow> m' = m \<and> (case m k of
       None \<Rightarrow> r = Inl PeerNotFound | Some v \<Rightarrow> (\<exists>info. r = Inr (InfoOutput info) \<and> pi_endpoint info = pv_endpoint v))
   | List \<Rightarrow> m' = m \<and> (\<exists>ks. r = Inr (KeysOutput ks) \<and> distinct ks \<and> set ks = dom m))"

fun spec_run :: "caps \<Rightarrow> Command list \<Rightarrow> (bytes \<Rightarrow> peer_view option) \<Rightarrow> (DeviceError + CommandOutput) list \<Rightarrow>
    (bytes \<Rightarrow> peer_view option) \<Rightarrow> bool" where
  "spec_run K [] m [] m' \<longleftrightarrow> m' = m"
| "spec_run K (c # cs) m (r # rs) m' \<longleftrightarrow> (\<exists>m1. command_spec K c m r m1 \<and> spec_run K cs m1 rs m')"
| "spec_run K _ _ _ _ \<longleftrightarrow> False"

text \<open>The indices a command may draw.\<close>

fun draws :: "Command \<Rightarrow> nat" where
  "draws (Add _) = 1" | "draws _ = 0"

fun command_wf :: "Command \<Rightarrow> bool" where
  "command_wf (Add c) = config_wf c" | "command_wf (Update c) = config_wf c" | "command_wf _ = True"

definition peers_fit :: "caps \<Rightarrow> PeerState \<Rightarrow> bool" where
  "peers_fit K ps = (case cap_peers K of None \<Rightarrow> True | Some c \<Rightarrow> length (ps_peers ps) \<le> c)"

lemma peer_keys_loop_all:
  "distinct (acc @ ks) \<Longrightarrow> (case cap of None \<Rightarrow> True | Some c \<Rightarrow> length (acc @ ks) \<le> c) \<Longrightarrow> peer_keys_loop cap ks acc = acc @ ks"
  by (induction cap ks acc rule: peer_keys_loop.induct)
    (auto simp: try_insert_key_def has_room_def split: option.splits if_splits)

lemma length_map_insert: "length (map_insert k v m) = (if map_of m k = None then Suc (length m) else length m)"
  by (induction k v m rule: map_insert.induct) auto

lemma update_outcome:
  assumes "update_peer_in_state K c ps = Ret (r, ps')"
  shows "ps' = ps \<or> (\<exists>p t. peer_by_key (pc_public_key c) ps \<noteq> None \<and> ps' = (put_peer (pc_public_key c) p ps)\<lparr>ps_by_ip := t\<rparr>)"
  using assms by (auto simp: update_peer_in_state_def Let_def run_bind_def split: run.splits sum.splits option.splits)

lemma add_outcome:
  assumes "add_peer_to_state K C now priv stamper c ps g = Ret (r, ps', g')"
  shows "ps' = ps \<or> (has_room (cap_peers K) (length (ps_peers ps)) \<and> length (ps_peers ps') = Suc (length (ps_peers ps)))"
proof (cases "peer_by_key (pc_public_key c) ps")
  case None
  then have "map_of (ps_peers ps) (pc_public_key c) = None" by (simp add: peer_by_key_def)
  with assms None show ?thesis
    by (auto simp: add_peer_to_state_def Let_def run_bind_def insert_storage_law [OF None] length_map_insert
        split: run.splits sum.splits if_splits)
qed (use assms in \<open>simp add: add_peer_to_state_def\<close>)

lemma peers_fit_steps:
  assumes "peers_fit K ps"
  shows "add_peer_to_state K C now priv stamper c ps g = Ret (r, ps', g') \<Longrightarrow> peers_fit K ps'"
    "update_peer_in_state K c ps = Ret (r2, ps2) \<Longrightarrow> peers_fit K ps2"
    "peers_fit K (remove_peer_from_state key ps)"
proof -
  show "peers_fit K ps'" if "add_peer_to_state K C now priv stamper c ps g = Ret (r, ps', g')"
    using add_outcome [OF that] assms by (auto simp: peers_fit_def has_room_def split: option.splits)
  show "peers_fit K ps2" if "update_peer_in_state K c ps = Ret (r2, ps2)"
    using update_outcome [OF that] assms
    by (auto simp: peers_fit_def put_peer_def length_map_insert peer_by_key_def split: option.splits)
  show "peers_fit K (remove_peer_from_state key ps)"
    using assms by (auto simp: remove_peer_from_state_def remove_peer_storage_def peers_fit_def map_remove_def
        split: option.splits intro: order_trans [OF length_filter_le])
qed

lemma handle_peer_update_step:
  assumes inv: "peers_inv ps" "peers_fit K ps" and wf: "command_wf command" and iss: "issued g0 n g ps" "n + draws command \<le> PERIOD"
  shows "\<exists>r ps' g'. handle_peer_update K C now priv stamper command ps g = Ret (r, ps', g') \<and> peers_inv ps' \<and> peers_fit K ps' \<and>
    (issued g0 n g' ps' \<or> draws command = 1 \<and> issued g0 (Suc n) g' ps') \<and> command_spec K command (peers_view ps) r (peers_view ps')"
proof (cases command)
  case (Add c)
  with wf iss(2) have "config_wf c" and n: "n < PERIOD" by simp_all
  from add_law [OF inv(1) this(1) iss(1) n, of K C now priv stamper] obtain r ps' g' where
    A: "add_peer_to_state K C now priv stamper c ps g = Ret (r, ps', g')" "peers_inv ps'" "issued g0 n g' ps' \<or> issued g0 (Suc n) g' ps'"
      "case peers_view ps (pc_public_key c) of
         Some _ \<Rightarrow> r = Inl PeerAlreadyExists \<and> ps' = ps
       | None \<Rightarrow> (case r of Inl e \<Rightarrow> ps' = ps \<and> refusal K (peers_view ps) c e | Inr x \<Rightarrow> x = NoOutput \<and> peers_view ps' = (peers_view ps)(pc_public_key c \<mapsto> config_view c))"
    by blast
  then have "command_spec K command (peers_view ps) r (peers_view ps')"
    using Add installed_apart [OF A(2), of "peers_view ps" c] by (auto simp: command_spec_def installs_def split: option.splits sum.splits)
  with A peers_fit_steps(1) [OF inv(2) A(1)] Add show ?thesis by (simp add: handle_peer_update_def)
next
  case (Update c)
  with wf have "config_wf c" by simp
  from update_law [OF inv(1) this, of K] obtain r ps' where
    A: "update_peer_in_state K c ps = Ret (r, ps')" "peers_inv ps'"
      "case peers_view ps (pc_public_key c) of
         None \<Rightarrow> r = Inl PeerNotFound \<and> ps' = ps
       | Some _ \<Rightarrow> (case r of Inl e \<Rightarrow> ps' = ps \<and> refusal K (peers_view ps) c e | Inr x \<Rightarrow> x = NoOutput \<and> peers_view ps' = (peers_view ps)(pc_public_key c \<mapsto> config_view c))"
    by blast
  have "ps_by_idx ps' = ps_by_idx ps"
    using update_outcome [OF A(1)] by (auto simp: put_peer_def)
  then have "issued g0 n g ps'" using iss(1) by (simp add: issued_def)
  moreover have "command_spec K command (peers_view ps) r (peers_view ps')"
    using Update A(3) installed_apart [OF A(2), of "peers_view ps" c]
    by (auto simp: command_spec_def installs_def split: option.splits sum.splits)
  ultimately show ?thesis using A(1,2) peers_fit_steps(2) [OF inv(2) A(1)] Update by (simp add: handle_peer_update_def)
next
  case (Remove key)
  have "issued g0 n g (remove_peer_from_state key ps)" using iss(1) remove_law(3) [OF inv(1)] unfolding issued_def by blast
  with Remove remove_law [OF inv(1)] peers_fit_steps(3) [OF inv(2)] show ?thesis
    by (simp add: handle_peer_update_def command_spec_def)
next
  case (Get key)
  with inv iss show ?thesis
    by (auto simp: handle_peer_update_def command_spec_def peers_view_def peer_view_of_def peer_info_def split: option.split)
next
  case List
  have "peer_keys K ps = map fst (ps_peers ps)"
    using peer_keys_loop_all [of "[]" "map fst (ps_peers ps)" "cap_peers K"] peers_invD(1) [OF inv(1)] inv(2)
    by (auto simp: peer_keys_def peers_fit_def split: option.splits)
  moreover have "set (map fst (ps_peers ps)) = dom (peers_view ps)"
    by (auto simp: peers_view_def peer_by_key_def dom_def domIff dom_map_of_conv_image_fst [symmetric])
  ultimately show ?thesis using List inv iss peers_invD(1) [OF inv(1)]
    by (auto simp: handle_peer_update_def command_spec_def)
next
  case NoCommand
  with inv iss show ?thesis by (auto simp: handle_peer_update_def command_spec_def)
qed

fun run_commands :: "caps \<Rightarrow> crypto \<Rightarrow> bytes \<Rightarrow> TimeStamper \<Rightarrow> (instant \<times> Command) list \<Rightarrow> PeerState \<Rightarrow> IndexGenerator \<Rightarrow>
    ((DeviceError + CommandOutput) list \<times> PeerState \<times> IndexGenerator) run" where
  "run_commands K C priv stamper [] ps g = Ret ([], ps, g)"
| "run_commands K C priv stamper ((now, c) # cs) ps g =
     run_bind (handle_peer_update K C now priv stamper c ps g) (\<lambda>(r, ps1, g1).
     run_bind (run_commands K C priv stamper cs ps1 g1) (\<lambda>(rs, ps2, g2). Ret (r # rs, ps2, g2)))"

lemma run_commands_spec:
  assumes "peers_inv ps" "peers_fit K ps" "issued g0 n g ps" "n + (\<Sum>x\<leftarrow>cs. draws (snd x)) \<le> PERIOD" "\<forall>x \<in> set cs. command_wf (snd x)"
  shows "\<exists>rs ps' g'. run_commands K C priv stamper cs ps g = Ret (rs, ps', g') \<and> peers_inv ps' \<and>
    spec_run K (map snd cs) (peers_view ps) rs (peers_view ps')"
  using assms
proof (induction cs arbitrary: ps g n)
  case (Cons x cs)
  obtain now c where x: "x = (now, c)" by (cases x)
  have "command_wf c" "n + draws c \<le> PERIOD" using Cons.prems(4,5) x by auto
  from handle_peer_update_step [OF Cons.prems(1,2) this(1) Cons.prems(3) this(2), of C now priv stamper]
  obtain r ps1 g1 where s: "handle_peer_update K C now priv stamper c ps g = Ret (r, ps1, g1)" "peers_inv ps1" "peers_fit K ps1"
      "issued g0 n g1 ps1 \<or> draws c = 1 \<and> issued g0 (Suc n) g1 ps1" "command_spec K c (peers_view ps) r (peers_view ps1)"
    by blast
  obtain m where m: "issued g0 m g1 ps1" "m + (\<Sum>x\<leftarrow>cs. draws (snd x)) \<le> PERIOD" using s(4) Cons.prems(4) x by auto
  from Cons.IH [OF s(2,3) m] Cons.prems(5) obtain rs ps' g' where
    "run_commands K C priv stamper cs ps1 g1 = Ret (rs, ps', g')" "peers_inv ps'" "spec_run K (map snd cs) (peers_view ps1) rs (peers_view ps')"
    by auto
  with s(1,5) x show ?case by auto
qed simp

section \<open>Lookups\<close>

lemma best_match_exists: "best_match m a \<noteq> None \<longleftrightarrow> (\<exists>k. key_matches k a \<and> m k \<noteq> None)"
proof
  assume "\<exists>k. key_matches k a \<and> m k \<noteq> None"
  moreover have "key_len k \<le> 128" if "key_matches k a" for k
    using that by (cases k; cases a) (auto dest!: prefix_length_le)
  ultimately obtain k where k: "key_matches k a" "m k \<noteq> None"
      "\<And>k'. key_matches k' a \<Longrightarrow> m k' \<noteq> None \<Longrightarrow> key_len k' \<le> key_len k"
    using ex_has_greatest_nat [of "\<lambda>k. key_matches k a \<and> m k \<noteq> None" _ key_len 129] by (metis less_Suc_eq_le eval_nat_numeral(3) semiring_norm(26-28))
  then obtain d where d: "m k = Some d" by blast
  have "best_match m a = Some d"
    unfolding best_match_Some_iff using k(1) d k(3) by (metis linorder_not_less)
  then show "best_match m a \<noteq> None" by simp
qed (auto simp: best_match_Some_iff)

lemma is_allowed_ip_law:
  assumes "allowed_ips_wf (pr_allowed_ips p)"
  shows "is_allowed_ip a p = Ret (\<exists>n. key_matches n a \<and> allowed_ips_map (pr_allowed_ips p) n \<noteq> None)"
  using allowed.find_law [OF assms, of a] best_match_exists [of "allowed_ips_map (pr_allowed_ips p)" a]
  by (simp add: is_allowed_ip_def from_option_def)

lemma route_lookup:
  assumes inv: "peers_inv ps"
  shows "\<exists>r. allowed_ips_find a (ps_by_ip ps) = Some r \<and>
    (\<forall>k. r = Some k \<longleftrightarrow> (\<exists>p. peer_by_key k ps = Some p \<and> is_allowed_ip a p = Ret True))"
proof -
  note I = peers_invD [OF inv]
  let ?m = "allowed_ips_map (ps_by_ip ps)"
  have "best_match ?m a = Some k \<longleftrightarrow> (\<exists>n. key_matches n a \<and> ?m n = Some k)" for k
  proof
    assume "\<exists>n. key_matches n a \<and> ?m n = Some k"
    then obtain n where n: "key_matches n a" "?m n = Some k" by blast
    have "?m n' = None" if "key_matches n' a" "key_len n < key_len n'" for n'
      using I(6) n that unfolding no_overlap_def by (metis option.distinct(1) less_irrefl)
    with n show "best_match ?m a = Some k" unfolding best_match_Some_iff by blast
  qed (auto simp: best_match_Some_iff)
  also have "\<And>k. (\<exists>n. key_matches n a \<and> ?m n = Some k) \<longleftrightarrow> (\<exists>p. peer_by_key k ps = Some p \<and> is_allowed_ip a p = Ret True)"
    using I(3,7) is_allowed_ip_law by (fastforce simp: owns_def peer_ok_def)
  finally show ?thesis using allowed.find_law [OF I(5), of a] by simp
qed

lemma allocate_keeps_prefix:
  assumes "allocate_local_index h = (i, h')"
  shows "i = next_local_index h" "drop_bit 8 (next_local_index h') = drop_bit 8 i"
proof -
  show i: "i = next_local_index h" using assms by (auto simp: allocate_local_index_def Let_def)
  have "next_local_index h' = (i AND NOT (mask 8)) OR ucast ((ucast i :: u8) + 1)"
    using assms by (auto simp: allocate_local_index_def Let_def mask_eq_exp_minus_1)
  then show "drop_bit 8 (next_local_index h') = drop_bit 8 i"
    by (intro bit_word_eqI) (auto simp: bit_drop_bit_eq bit_or_iff bit_and_iff bit_not_iff bit_mask_iff bit_ucast_iff dest: bit_imp_le_length)
qed

lemma put_tunnel_inv:
  assumes inv: "peers_inv ps" and p: "peer_by_key k ps = Some p"
    and t: "drop_bit 8 (next_local_index (tn_handshake t)) = pr_index p"
  shows "peers_inv (put_peer k (p\<lparr>pr_tunnel := t, pr_endpoint := e\<rparr>) ps)"
proof -
  let ?p = "p\<lparr>pr_tunnel := t, pr_endpoint := e\<rparr>"
  let ?ps = "put_peer k ?p ps"
  note I = peers_invD [OF inv]
  have by_key: "peer_by_key j ?ps = (if j = k then Some ?p else peer_by_key j ps)" for j by (simp add: view_more)
  have "peer_ok ?p" using I(3) [OF p] t by (simp add: peer_ok_def)
  moreover have "owns ?ps j n = owns ps j n" for j n using p by (auto simp: owns_def by_key)
  moreover have "(\<exists>q. peer_by_key j ?ps = Some q \<and> pr_index q = i) \<longleftrightarrow> (\<exists>q. peer_by_key j ps = Some q \<and> pr_index q = i)" for i j
    using p by (auto simp: by_key)
  moreover have "ps_by_ip ?ps = ps_by_ip ps" "ps_by_idx ?ps = ps_by_idx ps" "distinct (map fst (ps_peers ?ps))"
    using distinct_map_insert [OF I(1)] by (simp_all add: put_peer_def)
  ultimately show ?thesis unfolding peers_inv_def using I by_key by simp
qed

section \<open>Properties\<close>

text \<open>C6. The command queue implements its specification: from a new device with a seeded index generator, every
  sequence of commands with at most \<open>PERIOD\<close> additions, any number of others among them, runs without
  a panic, and each answer and the peers it leaves are what the specification of the commands
  demands. An addition or update of a peer is refused only for a reason, as an overlap only when its
  networks share an address with each other or with those of another peer and for capacity only when the
  tables lack the room; in every other case it installs the configuration, and it installs none with a
  shared address. A refused command changes nothing, and the three tables of the device agree at the end.\<close>

theorem commands_refine:
  assumes "initialize next_u32 rng index_generator_new = Some (g, rng')" and "(\<Sum>x\<leftarrow>cs. draws (snd x)) \<le> PERIOD"
    and "\<forall>x \<in> set cs. command_wf (snd x)"
  shows "\<exists>rs ps g'. run_commands K C priv stamper cs peer_state_new g = Ret (rs, ps, g') \<and> peers_inv ps \<and>
    spec_run K (map snd cs) Map.empty rs (peers_view ps)"
proof -
  have g: "ready g" "ig_remaining g = LFSR_MAX" using initialize_ready [OF assms(1)] by simp_all
  then have "issued g 0 g peer_state_new" by (simp add: issued_def peer_state_new_def)
  moreover have "peers_fit K peer_state_new" by (simp add: peers_fit_def peer_state_new_def split: option.split)
  moreover have "peers_view peer_state_new = Map.empty" by (simp add: fun_eq_iff peers_view_def peer_by_key_def peer_state_new_def)
  ultimately show ?thesis
    using run_commands_spec [OF peers_inv_new, of K g 0 g cs C priv stamper] assms(2,3) by simp
qed

definition sample_config :: PeerConfig where
  "sample_config = \<lparr>pc_public_key = replicate 32 7, pc_endpoint = Some (SocketV4 0x0A000001 51820), pc_allowed_ips = [sample_net],
     pc_keepalive = Some 25, pc_relay = None\<rparr>"

text \<open>A peer is added, a second one is refused for its address, and the first is removed.\<close>

theorem commands_refine_witness:
  "\<exists>g rs ps g'. run_commands \<lparr>cap_peers = None, cap_routes = None, cap_allowed = None\<rparr> sample_crypto [1] (timestamper_new 0 0)
     [(0, Add sample_config), (5, Add (sample_config\<lparr>pc_public_key := [8]\<rparr>)), (6, Remove (replicate 32 7)), (7, List)] peer_state_new g =
       Ret (rs, ps, g') \<and> peers_inv ps \<and> rs = [Inr NoOutput, Inl AllowedIPOverlap, Inr NoOutput, Inr (KeysOutput [])]"
proof -
  let ?K = "\<lparr>cap_peers = None, cap_routes = None, cap_allowed = None\<rparr>"
  let ?c = "sample_config\<lparr>pc_public_key := [8]\<rparr>"
  let ?cs = "[(0, Add sample_config), (5, Add ?c), (6, Remove (replicate 32 7)), (7, List)]"
  obtain g rng' where g: "initialize (\<lambda>r. (r, r + 1)) (5 :: u32) index_generator_new = Some (g, rng')"
    using initialize_example by blast
  have "\<forall>x \<in> set ?cs. command_wf (snd x)" by (simp add: config_wf_def sample_config_def sample_net_def word_le_nat_alt)
  from commands_refine [OF g _ this, of ?K sample_crypto "[1]" "timestamper_new 0 0"] obtain rs ps g' where
    r: "run_commands ?K sample_crypto [1] (timestamper_new 0 0) ?cs peer_state_new g = Ret (rs, ps, g')" "peers_inv ps"
      "spec_run ?K (map snd ?cs) Map.empty rs (peers_view ps)" by (auto simp: PERIOD_def)
  obtain r1 rs1 where rs1: "rs = r1 # rs1" using r(3) by (cases rs) simp_all
  obtain r2 rs2 where rs2: "rs1 = r2 # rs2" using r(3) rs1 by (cases rs1) auto
  obtain r3 rs3 where rs3: "rs2 = r3 # rs3" using r(3) rs1 rs2 by (cases rs2) auto
  obtain r4 rs4 where rs4: "rs3 = r4 # rs4" using r(3) rs1 rs2 rs3 by (cases rs3) auto
  have "rs4 = []" using r(3) unfolding rs1 rs2 rs3 rs4 by (cases rs4) auto
  then obtain m1 m2 m3 m4 where m: "command_spec ?K (Add sample_config) Map.empty r1 m1" "command_spec ?K (Add ?c) m1 r2 m2"
    "command_spec ?K (Remove (replicate 32 7)) m2 r3 m3" "command_spec ?K List m3 r4 m4"
    using r(3) unfolding rs1 rs2 rs3 rs4 by auto
  have n: "config_nets sample_config = {ipnet_key sample_net}" "config_nets ?c = {ipnet_key sample_net}"
    "pv_networks (config_view sample_config) = {ipnet_key sample_net}" "pc_public_key sample_config = replicate 32 7"
    by (simp_all add: config_nets_def config_view_def sample_config_def)
  have "config_apart Map.empty sample_config" "config_room ?K Map.empty sample_config"
    by (simp_all add: config_apart_def config_room_def n spread_def total_nets_def TABLE_ROOM_def has_room_def)
      (simp add: sample_config_def)
  then have 1: "r1 = Inr NoOutput" "m1 = [replicate 32 7 \<mapsto> config_view sample_config]"
    using m(1) by (auto simp: command_spec_def installs_def refusal_def n split: sum.splits)
  have "\<not> apart (ipnet_key sample_net) (ipnet_key sample_net)" using net_has_address [of sample_net] by (auto simp: apart_def sample_net_def word_le_nat_alt)
  moreover have neq: "[8] \<noteq> replicate 32 (7 :: u8)" by (auto dest: arg_cong [where f = length])
  ultimately have "\<not> config_apart m1 ?c" by (auto simp: config_apart_def n 1 far_def neq [symmetric])
  moreover have "config_room ?K m1 ?c" by (simp add: config_room_def total_nets_def 1 n TABLE_ROOM_def has_room_def) (simp add: sample_config_def)
  ultimately have 2: "r2 = Inl AllowedIPOverlap" "m2 = m1"
    using m(2) by (auto simp: command_spec_def installs_def refusal_def 1 neq split: sum.splits)
  have 3: "r3 = Inr NoOutput" "m3 = Map.empty" using m(3) by (auto simp: command_spec_def 1 2)
  then have "r4 = Inr (KeysOutput [])" using m(4) by (auto simp: command_spec_def)
  with r 1 2 3 \<open>rs4 = []\<close> show ?thesis by (auto simp: rs1 rs2 rs3 rs4)
qed

text \<open>Outgoing routing and incoming filtering agree: in a device whose tables agree, an address is routed to a peer exactly
  when it is in one of the networks allowed for that peer, so to at most one.\<close>

theorem routes_match_allowed_ips:
  assumes "peers_inv ps"
  shows "\<exists>r. allowed_ips_find a (ps_by_ip ps) = Some r \<and>
    (\<forall>k. r = Some k \<longleftrightarrow> (\<exists>p. peer_by_key k ps = Some p \<and> is_allowed_ip a p = Ret True))"
  by (rule route_lookup [OF assms])

theorem routes_match_allowed_ips_witness:
  "\<exists>r. allowed_ips_find (AddrV4 1) (ps_by_ip peer_state_new) = Some r \<and>
    (\<forall>k. r = Some k \<longleftrightarrow> (\<exists>p. peer_by_key k peer_state_new = Some p \<and> is_allowed_ip (AddrV4 1) p = Ret True))"
  by (rule routes_match_allowed_ips [OF peers_inv_new])

text \<open>The session indices lead back: whatever local index the handshake of a peer hands out, a packet addressed
  to that index is given to that peer, and the tables still agree afterwards.\<close>

theorem session_index_finds_peer:
  assumes "peers_inv ps" and "peer_by_key k ps = Some p" and "allocate_local_index (tn_handshake (pr_tunnel p)) = (i, h)"
  shows "peer_key_by_index i ps = Some k \<and>
    peers_inv (put_peer k (p\<lparr>pr_tunnel := (pr_tunnel p)\<lparr>tn_handshake := h\<rparr>\<rparr>) ps)"
proof -
  note I = peers_invD [OF assms(1)]
  note a = allocate_keeps_prefix [OF assms(3)]
  have i: "drop_bit 8 i = pr_index p" using I(3) [OF assms(2)] a(1) by (simp add: peer_ok_def)
  with I(4) [of "pr_index p" k] assms(2) have "peer_key_by_index i ps = Some k" by (simp add: peer_key_by_index_def)
  moreover have "peers_inv (put_peer k (p\<lparr>pr_tunnel := (pr_tunnel p)\<lparr>tn_handshake := h\<rparr>, pr_endpoint := pr_endpoint p\<rparr>) ps)"
    by (rule put_tunnel_inv [OF assms(1,2)]) (use a(2) i in simp)
  ultimately show ?thesis by simp
qed

definition sample_gen :: IndexGenerator where
  "sample_gen = \<lparr>ig_lfsr = 5, ig_remaining = LFSR_MAX, ig_mask = 6\<rparr>"

definition no_caps :: caps where
  "no_caps = \<lparr>cap_peers = None, cap_routes = None, cap_allowed = None\<rparr>"

lemma sample_gen_issued: "issued sample_gen 0 sample_gen peer_state_new"
  using initialize_ready [OF initialize_example] by (simp add: issued_def sample_gen_def peer_state_new_def)

lemma sample_added:
  "\<exists>ps g p. add_peer_to_state no_caps sample_crypto 0 [1] (timestamper_new 0 0) (sample_config\<lparr>pc_allowed_ips := []\<rparr>)
     peer_state_new sample_gen = Ret (Inr NoOutput, ps, g) \<and> peers_inv ps \<and> peer_by_key (replicate 32 7) ps = Some p \<and>
     pr_tunnel p = tunn_new sample_crypto 0 [1] (replicate 32 7) (Some 25) (pr_index p) (timestamper_new 0 0) \<and>
     ps_peers ps = [(replicate 32 7, p)]"
proof -
  let ?c = "sample_config\<lparr>pc_allowed_ips := []\<rparr>"
  have it: "allowed_ips_iter (allowed_ips_new :: unit AllowedIPs) = Some []"
    by (simp add: allowed_ips_iter_def allowed_ips_new_def trie_new_def trie_iter_def node_new_def)
  have eq: "\<exists>ps g p. add_peer_to_state no_caps sample_crypto 0 [1] (timestamper_new 0 0) ?c peer_state_new sample_gen =
      Ret (Inr NoOutput, ps, g) \<and> peer_by_key (replicate 32 7) ps = Some p \<and> ps_peers ps = [(replicate 32 7, p)] \<and>
      pr_tunnel p = tunn_new sample_crypto 0 [1] (replicate 32 7) (Some 25) (pr_index p) (timestamper_new 0 0)"
    by (simp add: add_peer_to_state_def peer_by_key_def peer_state_new_def new_index_def sample_gen_def LFSR_MAX_def peer_new_def
        allowed_ips_from_slice_def allowed_ips_try_from_iter_def rebuilt_peers_by_ip_with_def insert_table_def it
        insert_peer_storage_def try_insert_entry_def has_room_def no_caps_def sample_config_def Let_def)
  have "config_wf ?c" by (simp add: config_wf_def)
  from add_law [OF peers_inv_new this sample_gen_issued, of no_caps sample_crypto 0 "[1]" "timestamper_new 0 0"] eq show ?thesis
    by (auto simp: PERIOD_def)
qed

theorem session_index_finds_peer_witness:
  "\<exists>ps p i h. peer_by_key (replicate 32 7) ps = Some p \<and> allocate_local_index (tn_handshake (pr_tunnel p)) = (i, h) \<and>
     peer_key_by_index i ps = Some (replicate 32 7)"
proof -
  obtain ps p where p: "peers_inv ps" "peer_by_key (replicate 32 7) ps = Some p" using sample_added by blast
  obtain i h where a: "allocate_local_index (tn_handshake (pr_tunnel p)) = (i, h)" by fastforce
  from session_index_finds_peer [OF p a] p(2) a show ?thesis by blast
qed

end
