(* ===== verification/Device.thy ===== *)
theory Device
  imports Peers
begin

text \<open>
  The event loop of a device (\<^verbatim>\<open>device.rs\<close>): packets from the inner interface, datagrams from the
  socket, the timer tick and the command queue. A handler returns what it sends, in order, and the
  new device. The clock, the ephemeral secrets, the buffers, the packet pool and the forwarding
  authorizer are arguments; \<open>eph n\<close> is the secret drawn at the \<open>n\<close>-th place of the handler that may
  draw one. Sending is not modelled further: an error of the socket or the interface is only logged
  by the source. One reading of the clock stands for those of one handler.
\<close>

section \<open>State\<close>

definition HANDSHAKE_RATE_LIMIT :: u64 where "HANDSHAKE_RATE_LIMIT = 100"
definition MAX_ITR :: nat where "MAX_ITR = 100"

datatype GenericAuthorizer = AllowAll | RejectAll

definition generic_authorize :: "GenericAuthorizer \<Rightarrow> bytes \<Rightarrow> bytes \<Rightarrow> bool" where
  "generic_authorize a source destination = (case a of AllowAll \<Rightarrow> True | RejectAll \<Rightarrow> False)"

record 'p env =
  ev_caps :: caps
  ev_crypto :: crypto
  ev_pool :: "'p pool_ops"
  ev_authorize :: "bytes \<Rightarrow> bytes \<Rightarrow> bool"
  ev_dst :: bytes
  ev_plain :: bytes
  ev_relay :: bytes

record 'p device =
  dv_private :: bytes
  dv_public :: bytes
  dv_rate_limiter :: RateLimiter
  dv_peers :: PeerState
  dv_pool :: 'p
  dv_gen :: IndexGenerator
  dv_stamper :: TimeStamper
  dv_ticks :: u8

datatype device_output = UdpSend bytes SocketAddr | NicSend bytes bytes | Completion "DeviceError + CommandOutput"

type_synonym 'p handled = "(device_output list \<times> 'p device) run"

section \<open>Endpoints\<close>

fun socket_ip :: "SocketAddr \<Rightarrow> IpAddr" where
  "socket_ip (SocketV4 a _) = AddrV4 a" | "socket_ip (SocketV6 a _ _ _) = AddrV6 a"

text \<open>An IPv4-mapped address is \<^verbatim>\<open>::ffff:a.b.c.d\<close>.\<close>

fun normalize_socket_addr :: "SocketAddr \<Rightarrow> SocketAddr" where
  "normalize_socket_addr (SocketV4 a p) = SocketV4 a p"
| "normalize_socket_addr (SocketV6 a p fl sc) =
     (if drop_bit 32 a = 0xffff then SocketV4 (ucast a) p else SocketV6 a p fl sc)"

section \<open>Sending\<close>

fun drop_queues :: "'p pool_ops \<Rightarrow> instant \<Rightarrow> (bytes \<times> Peer) list \<Rightarrow> 'p \<Rightarrow> (nat \<times> (bytes \<times> Peer) list \<times> 'p) run" where
  "drop_queues P now [] pool = Ret (0, [], pool)"
| "drop_queues P now ((k, p) # rest) pool =
     run_bind (from_option (drop_expired_queued_packets P now (pr_tunnel p) pool)) (\<lambda>(n, t, pool1).
     run_bind (drop_queues P now rest pool1) (\<lambda>(m, rest', pool2).
     Ret (n + m, (k, p\<lparr>pr_tunnel := t\<rparr>) # rest', pool2)))"

definition drop_expired_packet_queues :: "'p pool_ops \<Rightarrow> instant \<Rightarrow> PeerState \<Rightarrow> 'p \<Rightarrow> (PeerState \<times> 'p) run" where
  "drop_expired_packet_queues P now ps pool =
     run_bind (drop_queues P now (ps_peers ps) pool) (\<lambda>(n, peers, pool1). Ret (ps\<lparr>ps_peers := peers\<rparr>, pool1))"

text \<open>The outer packet of a relayed one: \<open>encapsulate_relay\<close> on the tunnel of the relay, and its endpoint.\<close>

definition send_through ::
  "'p env \<Rightarrow> instant \<Rightarrow> bytes \<Rightarrow> bytes \<Rightarrow> Peer \<Rightarrow> bytes \<Rightarrow> PeerState \<Rightarrow> 'p \<Rightarrow> ((bytes \<times> SocketAddr) option \<times> PeerState \<times> 'p) run" where
  "send_through E now eph relay_key relay_peer plaintext ps pool =
     run_bind (encapsulate_relay (ev_crypto E) (ev_pool E) now eph plaintext (ev_relay E) (pr_tunnel relay_peer) pool) (\<lambda>(r, t, pool1).
     let ps1 = put_peer relay_key (relay_peer\<lparr>pr_tunnel := t\<rparr>) ps in
     case r of
       WriteToNetwork packet \<Rightarrow> Ret (map_option (Pair packet) (pr_endpoint relay_peer), ps1, pool1)
     | Done \<Rightarrow> Ret (None, ps1, pool1)
     | Err _ \<Rightarrow> Ret (None, ps1, pool1)
     | _ \<Rightarrow> Panic)"

definition prepare_packet_to_peer_via_relay ::
  "'p env \<Rightarrow> instant \<Rightarrow> bytes \<Rightarrow> bytes \<Rightarrow> bytes \<Rightarrow> bytes \<Rightarrow> PeerState \<Rightarrow> 'p \<Rightarrow> ((bytes \<times> SocketAddr) option \<times> PeerState \<times> 'p) run" where
  "prepare_packet_to_peer_via_relay E now eph destination_key relay_key packet ps pool =
     (case build_envelope (ev_plain E) destination_key packet of
        Inl _ \<Rightarrow> Ret (None, ps, pool)
      | Inr relay_plaintext \<Rightarrow>
          run_bind (drop_expired_packet_queues (ev_pool E) now ps pool) (\<lambda>(ps1, pool1).
          case peer_by_key relay_key ps1 of
            None \<Rightarrow> Ret (None, ps1, pool1)
          | Some relay_peer \<Rightarrow> send_through E now eph relay_key relay_peer relay_plaintext ps1 pool1))"

definition prepare_packet_to_peer ::
  "'p env \<Rightarrow> instant \<Rightarrow> bytes \<Rightarrow> bytes \<Rightarrow> bytes \<Rightarrow> PeerState \<Rightarrow> 'p \<Rightarrow> ((bytes \<times> SocketAddr) option \<times> PeerState \<times> 'p) run" where
  "prepare_packet_to_peer E now eph destination_key packet ps pool =
     (case peer_by_key destination_key ps of
        None \<Rightarrow> Ret (None, ps, pool)
      | Some peer \<Rightarrow>
          (case pr_relay peer of
             Some relay_key \<Rightarrow> prepare_packet_to_peer_via_relay E now eph destination_key relay_key packet ps pool
           | None \<Rightarrow> Ret (map_option (Pair packet) (pr_endpoint peer), ps, pool)))"

definition send_pending_packet :: "(bytes \<times> SocketAddr) option \<Rightarrow> device_output list" where
  "send_pending_packet pending = (case pending of Some (packet, addr) \<Rightarrow> [UdpSend packet addr] | None \<Rightarrow> [])"

section \<open>Packets from the interface\<close>

definition handle_tun_packet :: "'p env \<Rightarrow> instant \<Rightarrow> (nat \<Rightarrow> bytes) \<Rightarrow> bytes \<Rightarrow> 'p device \<Rightarrow> 'p handled" where
  "handle_tun_packet E now eph src d =
     (case dst_address src of
        None \<Rightarrow> Ret ([], d)
      | Some dst_addr \<Rightarrow>
          run_bind (from_option (allowed_ips_find dst_addr (ps_by_ip (dv_peers d)))) (\<lambda>route.
          case route of
            None \<Rightarrow> Ret ([], d)
          | Some key \<Rightarrow>
              run_bind (drop_expired_packet_queues (ev_pool E) now (dv_peers d) (dv_pool d)) (\<lambda>(ps, pool).
              case peer_by_key key ps of
                None \<Rightarrow> Ret ([], d\<lparr>dv_peers := ps, dv_pool := pool\<rparr>)
              | Some peer \<Rightarrow>
                  run_bind (encapsulate (ev_crypto E) (ev_pool E) now (eph 0) src (ev_dst E) (pr_tunnel peer) pool) (\<lambda>(r, t, pool1).
                  let ps1 = put_peer key (peer\<lparr>pr_tunnel := t\<rparr>) ps in
                  case r of
                    Done \<Rightarrow> Ret ([], d\<lparr>dv_peers := ps1, dv_pool := pool1\<rparr>)
                  | Err _ \<Rightarrow> Ret ([], d\<lparr>dv_peers := ps1, dv_pool := pool1\<rparr>)
                  | WriteToNetwork packet \<Rightarrow>
                      run_bind (prepare_packet_to_peer E now (eph 1) key packet ps1 pool1) (\<lambda>(pending, ps2, pool2).
                      Ret (send_pending_packet pending, d\<lparr>dv_peers := ps2, dv_pool := pool2\<rparr>))
                  | _ \<Rightarrow> Panic))))"

section \<open>Datagrams\<close>

text \<open>The peer a verified packet belongs to.\<close>

definition packet_peer :: "crypto \<Rightarrow> bytes \<Rightarrow> bytes \<Rightarrow> Packet \<Rightarrow> PeerState \<Rightarrow> bytes option run" where
  "packet_peer C priv pub packet ps = (case packet of
     PHandshakeInit p \<Rightarrow>
       run_bind (parse_handshake_anon C priv pub p) (\<lambda>r. Ret (case r of
         Inl _ \<Rightarrow> None | Inr key \<Rightarrow> if peer_by_key key ps = None then None else Some key))
   | PHandshakeResponse p \<Rightarrow> Ret (peer_key_by_index (hr_receiver_idx p) ps)
   | PCookieReply p \<Rightarrow> Ret (peer_key_by_index (cr_receiver_idx p) ps)
   | PData p \<Rightarrow> Ret (peer_key_by_index (d_receiver_idx p) ps)
   | PRelayData p \<Rightarrow> Ret (peer_key_by_index (d_receiver_idx p) ps))"

text \<open>Forwarding the envelope of an authenticated relay packet from \<open>peer_key\<close>.\<close>

definition forward_envelope ::
  "'p env \<Rightarrow> instant \<Rightarrow> bytes \<Rightarrow> bytes \<Rightarrow> Envelope \<Rightarrow> PeerState \<Rightarrow> 'p \<Rightarrow> ((bytes \<times> SocketAddr) option \<times> PeerState \<times> 'p) run" where
  "forward_envelope E now eph peer_key envelope ps pool =
     (case validate_inner_packet (envelope_inner_packet envelope) of
        Inl _ \<Rightarrow> Ret (None, ps, pool)
      | Inr _ \<Rightarrow>
          let destination_key = envelope_destination envelope in
          if \<not> ev_authorize E peer_key destination_key then Ret (None, ps, pool)
          else
            (case peer_by_key destination_key ps of
               None \<Rightarrow> Ret (None, ps, pool)
             | Some destination \<Rightarrow>
                 (case pr_relay destination of
                    Some next_relay_key \<Rightarrow>
                      run_bind (drop_expired_packet_queues (ev_pool E) now ps pool) (\<lambda>(ps1, pool1).
                      case peer_by_key next_relay_key ps1 of
                        None \<Rightarrow> Ret (None, ps1, pool1)
                      | Some relay_peer \<Rightarrow>
                          (case decrement_hop_limit envelope of
                             Inl _ \<Rightarrow> Ret (None, ps1, pool1)
                           | Inr envelope' \<Rightarrow> send_through E now eph next_relay_key relay_peer (env_bytes envelope') ps1 pool1))
                  | None \<Rightarrow>
                      Ret (map_option (Pair (envelope_inner_packet envelope)) (pr_endpoint destination), ps, pool))))"

definition handle_relay_packet ::
  "'p env \<Rightarrow> instant \<Rightarrow> (nat \<Rightarrow> bytes) \<Rightarrow> bytes \<Rightarrow> Peer \<Rightarrow> Packet \<Rightarrow> 'p device \<Rightarrow> 'p handled" where
  "handle_relay_packet E now eph key peer packet d =
     run_bind (handle_verified_relay_packet (ev_crypto E) (length (ev_dst E)) packet (pr_tunnel peer)) (\<lambda>(r, t).
     let ps = put_peer key (peer\<lparr>pr_tunnel := t\<rparr>) (dv_peers d) in
     case r of
       Inl _ \<Rightarrow> Ret ([], d\<lparr>dv_peers := ps\<rparr>)
     | Inr plaintext \<Rightarrow>
         (case envelope_parse plaintext of
            Inl _ \<Rightarrow> Ret ([], d\<lparr>dv_peers := ps\<rparr>)
          | Inr envelope \<Rightarrow>
              run_bind (forward_envelope E now (eph 0) key envelope ps (dv_pool d)) (\<lambda>(pending, ps1, pool1).
              Ret (send_pending_packet pending, d\<lparr>dv_peers := ps1, dv_pool := pool1\<rparr>))))"

fun flush_queued_packets ::
  "nat \<Rightarrow> 'p env \<Rightarrow> instant \<Rightarrow> (nat \<Rightarrow> bytes) \<Rightarrow> bytes \<Rightarrow> 'p device \<Rightarrow> 'p handled" where
  "flush_queued_packets 0 E now eph key d = Ret ([], d)"
| "flush_queued_packets (Suc n) E now eph key d =
     (case peer_by_key key (dv_peers d) of
        None \<Rightarrow> Ret ([], d)
      | Some peer \<Rightarrow>
          run_bind (flush_queued_packet (ev_crypto E) (ev_pool E) (ev_dst E) (pr_tunnel peer) (dv_pool d)) (\<lambda>(r, t, pool1).
          let ps1 = put_peer key (peer\<lparr>pr_tunnel := t\<rparr>) (dv_peers d) in
          case r of
            WriteToNetwork packet \<Rightarrow>
              run_bind (prepare_packet_to_peer E now (eph n) key packet ps1 pool1) (\<lambda>(pending, ps2, pool2).
              run_bind (flush_queued_packets n E now eph key (d\<lparr>dv_peers := ps2, dv_pool := pool2\<rparr>)) (\<lambda>(out, d').
              Ret (send_pending_packet pending @ out, d')))
          | _ \<Rightarrow> Ret ([], d\<lparr>dv_peers := ps1, dv_pool := pool1\<rparr>)))"

text \<open>A packet for the interface is delivered when its source is allowed for the peer.\<close>

definition deliver :: "bytes \<Rightarrow> IpAddr \<Rightarrow> bytes \<Rightarrow> Peer \<Rightarrow> 'p device \<Rightarrow> 'p handled" where
  "deliver packet addr key peer d =
     run_bind (is_allowed_ip addr peer) (\<lambda>allowed. Ret (if allowed then [NicSend packet key] else [], d))"

definition handle_peer_packet ::
  "'p env \<Rightarrow> instant \<Rightarrow> (nat \<Rightarrow> bytes) \<Rightarrow> bytes \<Rightarrow> Peer \<Rightarrow> Packet \<Rightarrow> SocketAddr \<Rightarrow> 'p device \<Rightarrow> 'p handled" where
  "handle_peer_packet E now eph key peer packet src_addr d =
     run_bind (handle_verified_packet (ev_crypto E) now (eph 0) (ev_dst E) packet (pr_tunnel peer)) (\<lambda>(r, t).
     let peer1 = peer\<lparr>pr_tunnel := t\<rparr>;
         peer2 = (if (case r of Err _ \<Rightarrow> False | _ \<Rightarrow> True) \<and> pr_endpoint peer1 \<noteq> Some src_addr then set_endpoint src_addr peer1 else peer1);
         d1 = d\<lparr>dv_peers := put_peer key peer2 (dv_peers d)\<rparr>
     in case r of
          Done \<Rightarrow> Ret ([], d1)
        | Err _ \<Rightarrow> Ret ([], d1)
        | WriteToNetwork pkt \<Rightarrow>
            run_bind (prepare_packet_to_peer E now (eph 1) key pkt (dv_peers d1) (dv_pool d1)) (\<lambda>(pending, ps2, pool2).
            run_bind (flush_queued_packets MAX_ITR E now (\<lambda>n. eph (n + 2)) key (d1\<lparr>dv_peers := ps2, dv_pool := pool2\<rparr>)) (\<lambda>(out, d2).
            Ret (send_pending_packet pending @ out, d2)))
        | WriteToInterfaceV4 pkt a \<Rightarrow> deliver pkt (AddrV4 a) key peer2 d1
        | WriteToInterfaceV6 pkt a \<Rightarrow> deliver pkt (AddrV6 a) key peer2 d1)"

definition handle_udp_packet ::
  "'p env \<Rightarrow> instant \<Rightarrow> (nat \<Rightarrow> bytes) \<Rightarrow> bytes \<Rightarrow> SocketAddr \<Rightarrow> 'p device \<Rightarrow> 'p handled" where
  "handle_udp_packet E now eph packet src_addr d =
     (case verify_packet (ev_crypto E) now (Some (socket_ip src_addr)) packet (length (ev_dst E)) (dv_rate_limiter d) of
        (Inl r, rl) \<Rightarrow> Ret (case r of WriteToNetwork cookie \<Rightarrow> [UdpSend cookie src_addr] | _ \<Rightarrow> [], d\<lparr>dv_rate_limiter := rl\<rparr>)
      | (Inr parsed, rl) \<Rightarrow>
          run_bind (packet_peer (ev_crypto E) (dv_private d) (dv_public d) parsed (dv_peers d)) (\<lambda>peer_key.
          case peer_key of
            None \<Rightarrow> Ret ([], d\<lparr>dv_rate_limiter := rl\<rparr>)
          | Some key \<Rightarrow>
              run_bind (drop_expired_packet_queues (ev_pool E) now (dv_peers d) (dv_pool d)) (\<lambda>(ps, pool).
              let d1 = d\<lparr>dv_rate_limiter := rl, dv_peers := ps, dv_pool := pool\<rparr> in
              case peer_by_key key ps of
                None \<Rightarrow> Ret ([], d1)
              | Some peer \<Rightarrow>
                  (case parsed of
                     PRelayData _ \<Rightarrow> handle_relay_packet E now eph key peer parsed d1
                   | _ \<Rightarrow> handle_peer_packet E now eph key peer parsed src_addr d1))))"

section \<open>The timer tick\<close>

fun tick_peers :: "'p env \<Rightarrow> instant \<Rightarrow> (nat \<Rightarrow> bytes) \<Rightarrow> bytes list \<Rightarrow> 'p device \<Rightarrow> 'p handled" where
  "tick_peers E now eph [] d = Ret ([], d)"
| "tick_peers E now eph (key # keys) d =
     run_bind (drop_expired_packet_queues (ev_pool E) now (dv_peers d) (dv_pool d)) (\<lambda>(ps, pool).
     run_bind (case peer_by_key key ps of
         None \<Rightarrow> Ret ([], d\<lparr>dv_peers := ps, dv_pool := pool\<rparr>)
       | Some peer \<Rightarrow>
           run_bind (update_timers (ev_crypto E) (ev_pool E) now (eph 0) (ev_dst E) (pr_tunnel peer) pool) (\<lambda>(r, t, pool1).
           let ps1 = put_peer key (peer\<lparr>pr_tunnel := t\<rparr>) ps in
           case r of
             Done \<Rightarrow> Ret ([], d\<lparr>dv_peers := ps1, dv_pool := pool1\<rparr>)
           | Err _ \<Rightarrow> Ret ([], d\<lparr>dv_peers := ps1, dv_pool := pool1\<rparr>)
           | WriteToNetwork packet \<Rightarrow>
               run_bind (prepare_packet_to_peer E now (eph 1) key packet ps1 pool1) (\<lambda>(pending, ps2, pool2).
               Ret (send_pending_packet pending, d\<lparr>dv_peers := ps2, dv_pool := pool2\<rparr>))
           | _ \<Rightarrow> Panic)) (\<lambda>(out, d1).
     run_bind (tick_peers E now (\<lambda>n. eph (n + 2)) keys d1) (\<lambda>(out', d2). Ret (out @ out', d2))))"

definition handle_timer_tick :: "'p env \<Rightarrow> instant \<Rightarrow> (nat \<Rightarrow> bytes) \<Rightarrow> 'p device \<Rightarrow> 'p handled" where
  "handle_timer_tick E now eph d = tick_peers E now eph (peer_keys (ev_caps E) (dv_peers d)) d"

section \<open>The event loop\<close>

fun add_peers ::
  "caps \<Rightarrow> crypto \<Rightarrow> instant \<Rightarrow> bytes \<Rightarrow> TimeStamper \<Rightarrow> PeerConfig list \<Rightarrow> PeerState \<Rightarrow> IndexGenerator \<Rightarrow>
     (DeviceError + (PeerState \<times> IndexGenerator)) run" where
  "add_peers K C now priv stamper [] ps g = Ret (Inr (ps, g))"
| "add_peers K C now priv stamper (c # cs) ps g =
     run_bind (add_peer_to_state K C now priv stamper c ps g) (\<lambda>(r, ps1, g1). case r of
       Inl e \<Rightarrow> Ret (Inl e) | Inr _ \<Rightarrow> add_peers K C now priv stamper cs ps1 g1)"

text \<open>The generator is the one \<open>initialize\<close> returned, the secrets are those \<open>rate_limiter_new\<close> takes.\<close>

definition device_new ::
  "caps \<Rightarrow> crypto \<Rightarrow> instant \<Rightarrow> bytes \<Rightarrow> PeerConfig list \<Rightarrow> TimeStamper \<Rightarrow> IndexGenerator \<Rightarrow> bytes \<Rightarrow> bytes \<Rightarrow> 'p \<Rightarrow>
     (DeviceError + 'p device) run" where
  "device_new K C now priv peers stamper g secret_key nonce_key pool =
     run_bind (add_peers K C now priv stamper peers peer_state_new g) (\<lambda>r. case r of
       Inl e \<Rightarrow> Ret (Inl e)
     | Inr (ps, g1) \<Rightarrow> Ret (Inr \<lparr>dv_private = priv, dv_public = public_key C priv,
         dv_rate_limiter = rate_limiter_new C now (public_key C priv) HANDSHAKE_RATE_LIMIT secret_key nonce_key,
         dv_peers = ps, dv_pool = pool, dv_gen = g1, dv_stamper = stamper, dv_ticks = 0\<rparr>))"

datatype event = TunRecv bytes | UdpRecv bytes SocketAddr | Tick | CommandRecv Command

definition device_step :: "'p env \<Rightarrow> instant \<Rightarrow> (nat \<Rightarrow> bytes) \<Rightarrow> event \<Rightarrow> 'p device \<Rightarrow> 'p handled" where
  "device_step E now eph ev d = (case ev of
     TunRecv packet \<Rightarrow> handle_tun_packet E now eph packet d
   | UdpRecv packet endpoint \<Rightarrow> handle_udp_packet E now eph packet (normalize_socket_addr endpoint) d
   | Tick \<Rightarrow>
       run_bind (handle_timer_tick E now eph d) (\<lambda>(out, d1).
       let ticks = dv_ticks d1 + 1 in
       Ret (out, if ticks \<ge> 4 then d1\<lparr>dv_ticks := 0, dv_rate_limiter := reset_count now (dv_rate_limiter d1)\<rparr>
                 else d1\<lparr>dv_ticks := ticks\<rparr>))
   | CommandRecv command \<Rightarrow>
       run_bind (handle_peer_update (ev_caps E) (ev_crypto E) now (dv_private d) (dv_stamper d) command (dv_peers d) (dv_gen d))
         (\<lambda>(completion, ps, g). Ret ([Completion completion], d\<lparr>dv_peers := ps, dv_gen := g\<rparr>)))"

section \<open>Indices of a tunnel\<close>

text \<open>Every operation of a tunnel but \<open>set_persistent_keepalive\<close> leaves the prefix of its indices and its keepalive interval alone.\<close>

definition hs_prefix :: "Handshake \<Rightarrow> u32" where
  "hs_prefix h = drop_bit 8 (next_local_index h)"

abbreviation tn_ident :: "Tunn \<Rightarrow> u32 \<times> nat" where
  "tn_ident t \<equiv> (hs_prefix (tn_handshake t), keepalive_secs (tn_timers t))"

lemma keepalive_secs_timers [simp]:
  "keepalive_secs (timers_clear now ts) = keepalive_secs ts" "keepalive_secs (tick_timers n ts) = keepalive_secs ts"
  by (simp_all add: timers_clear_def tick_timers_def Let_def split: TimerName.split)

lemma tn_ident_ticks [simp]:
  "keepalive_secs (tn_timers (timer_tick n t)) = keepalive_secs (tn_timers t)"
  "keepalive_secs (tn_timers (timer_tick_session_established b i t)) = keepalive_secs (tn_timers t)"
  "keepalive_secs (tn_timers (after_sending src t)) = keepalive_secs (tn_timers t)"
  "keepalive_secs (tn_timers (set_current_session i t)) = keepalive_secs (tn_timers t)"
  by (simp_all add: timer_tick_def timer_tick_session_established_def after_sending_def set_current_session_def Let_def)

lemma hs_prefix_cong: "next_local_index h = next_local_index h' \<Longrightarrow> hs_prefix h = hs_prefix h'"
  by (simp add: hs_prefix_def)

lemma hs_prefix_update [simp]:
  "hs_prefix (h\<lparr>previous := a\<rparr>) = hs_prefix h" "hs_prefix (h\<lparr>hs_state := b\<rparr>) = hs_prefix h"
  "hs_prefix (h\<lparr>cookies := c\<rparr>) = hs_prefix h" "hs_prefix (h\<lparr>last_handshake_timestamp := d\<rparr>) = hs_prefix h"
  "hs_prefix (h\<lparr>last_rtt := e\<rparr>) = hs_prefix h"
  by (simp_all add: hs_prefix_def)

lemma hs_prefix_allocate [simp]: "hs_prefix (snd (allocate_local_index h)) = hs_prefix h"
  by (cases "allocate_local_index h") (auto simp: hs_prefix_def allocate_keeps_prefix(2) dest: allocate_keeps_prefix(1))

lemma append_macs_prefix [simp]: "hs_prefix (snd (append_mac1_and_mac2 C i msg h)) = hs_prefix h"
  by (simp add: append_mac1_and_mac2_def Let_def)

lemmas prefix_splits = Let_def case_prod_beta

lemmas aead_any = run_all_trivial [where r = "aead_chacha20_open C n k i d a" for C n k i d a]
  run_all_trivial [where r = "aead_chacha20_seal C k i d a" for C k i d a]
  run_all_trivial [where r = "format_packet_data C d dst s" for C d dst s]
  run_all_trivial [where r = "format_packet_data_with_type C ty d dst s" for C ty d dst s]

lemma format_initiation_prefix: "run_all (\<lambda>(r, h'). hs_prefix h' = hs_prefix h) (format_handshake_initiation C now eph n stamper h)"
  unfolding format_handshake_initiation_def by (auto simp: prefix_splits intro!: aead_any)

lemma format_response_prefix: "run_all (\<lambda>(r, h'). hs_prefix h' = hs_prefix h) (format_handshake_response C eph n h)"
  unfolding format_handshake_response_def by (auto simp: prefix_splits intro!: aead_any split: HandshakeState.split)

lemma receive_initiation_prefix:
  "run_all (\<lambda>(r, h'). hs_prefix h' = hs_prefix h) (receive_handshake_initialization C eph n p h)"
proof -
  have f: "run_all (\<lambda>(r, h'). hs_prefix h' = hs_prefix h)
      (format_handshake_response C eph n (h\<lparr>last_handshake_timestamp := a, previous := b, hs_state := c\<rparr>))" for a b c
    by (rule run_all_mono [OF format_response_prefix]) auto
  show ?thesis unfolding receive_handshake_initialization_def
    by (auto simp: prefix_splits intro!: aead_any f split: sum.split)
qed

lemma receive_response_prefix: "run_all (\<lambda>(r, h'). hs_prefix h' = hs_prefix h) (receive_handshake_response C now p h)"
  unfolding receive_handshake_response_def by (auto simp: prefix_splits intro!: aead_any split: option.split sum.split)

lemma receive_cookie_prefix: "run_all (\<lambda>(r, h'). hs_prefix h' = hs_prefix h) (receive_cookie_reply C p h)"
  unfolding receive_cookie_reply_def by (auto simp: prefix_splits split: option.split)

lemma initiation_prefix: "run_all (\<lambda>(r, t'). tn_ident t' = tn_ident t) (tunn_format_handshake_initiation C now eph n f t)"
proof -
  have "run_all (\<lambda>(r, h'). hs_prefix h' = hs_prefix (tn_handshake t)) (format_handshake_initiation C now eph n s (tn_handshake t))" for s
    using format_initiation_prefix .
  then show ?thesis unfolding tunn_format_handshake_initiation_def
    by (auto simp: prefix_splits intro!: run_all_mono [OF format_initiation_prefix] split: sum.split)
qed

lemma handshake_init_prefix: "run_all (\<lambda>(r, t'). tn_ident t' = tn_ident t) (handle_handshake_init C eph n p t)"
  unfolding handle_handshake_init_def
  by (auto simp: prefix_splits timer_tick_session_established_def intro!: run_all_mono [OF receive_initiation_prefix] split: sum.split)

lemma handshake_response_prefix: "run_all (\<lambda>(r, t'). tn_ident t' = tn_ident t) (handle_handshake_response C now dst p t)"
  unfolding handle_handshake_response_def
  by (auto simp: prefix_splits timer_tick_session_established_def intro!: run_all_mono [OF receive_response_prefix] aead_any
      split: sum.split option.split)

lemma cookie_reply_prefix: "run_all (\<lambda>(r, t'). tn_ident t' = tn_ident t) (handle_cookie_reply C p t)"
  unfolding handle_cookie_reply_def
  by (auto simp: prefix_splits intro!: run_all_mono [OF receive_cookie_prefix] split: sum.split)

lemma encrypt_prefix: "run_all (\<lambda>(r, t'). tn_handshake t' = tn_handshake t \<and> tn_timers t' = tn_timers t) (encrypt_current C ty src dst t)"
  unfolding encrypt_current_def by (auto simp: prefix_splits intro!: aead_any split: option.split)

lemma from_option_all: "run_all Q (from_option r) \<longleftrightarrow> (\<forall>x. r = Some x \<longrightarrow> Q x)"
  by (cases r) (simp_all add: from_option_def)

lemma queue_prefix:
  fixes t :: Tunn
  shows "queue_packet P now ty d t pool = Some (t1, pool1) \<Longrightarrow> tn_handshake t1 = tn_handshake t \<and> tn_timers t1 = tn_timers t"
    "dequeue_packet P t pool = Some (r, t1, pool1) \<Longrightarrow> tn_handshake t1 = tn_handshake t \<and> tn_timers t1 = tn_timers t"
    "clear_packet_queue P t pool = Some (t1, pool1) \<Longrightarrow> tn_handshake t1 = tn_handshake t \<and> tn_timers t1 = tn_timers t"
    "requeue_packet P h t pool = Some (t1, pool1) \<Longrightarrow> tn_handshake t1 = tn_handshake t \<and> tn_timers t1 = tn_timers t"
    "drop_expired_queued_packets P now t pool = Some (n, t1, pool1) \<Longrightarrow> tn_handshake t1 = tn_handshake t \<and> tn_timers t1 = tn_timers t"
  using queue_packet_more [of P now ty d t pool t1 pool1] dequeue_packet_more [of P t pool r t1 pool1]
    clear_packet_queue_more [of P t pool t1 pool1] drop_expired_more [of P now None "packet_queue_head t" 0 t pool "(n, t1, pool1)"]
    tunn_more(2,5) [of t1 t]
  by (auto simp: drop_expired_queued_packets_def requeue_packet_def Let_def split: if_splits bind_splits option.splits)

lemma encapsulate_prefix: "run_all (\<lambda>(r, t', p'). tn_ident t' = tn_ident t) (encapsulate_with_type C P now eph ty src dst t pool)"
  unfolding encapsulate_with_type_def
  by (auto simp: prefix_splits from_option_all dest!: queue_prefix
      intro!: run_all_mono [OF encrypt_prefix] run_all_mono [OF initiation_prefix] split: option.split)

lemma flush_prefix: "run_all (\<lambda>(r, t', p'). tn_ident t' = tn_ident t) (flush_queued_packet C P dst t pool)"
  unfolding flush_queued_packet_def
  by (auto simp: prefix_splits from_option_all dest!: queue_prefix intro!: run_all_mono [OF encrypt_prefix] split: option.split)

lemma decrypt_prefix: "run_all (\<lambda>(r, t'). tn_ident t' = tn_ident t) (decrypt_raw_data C n p t)"
  unfolding decrypt_raw_data_def
  by (auto simp: prefix_splits intro!: run_all_trivial split: option.split sum.split)

lemma verified_prefix: "run_all (\<lambda>(r, t'). tn_ident t' = tn_ident t) (handle_verified_packet C now eph dst packet t)"
proof -
  have "tn_ident (snd (validate_decapsulated_packet p t)) = tn_ident t" for p t
    by (simp add: validate_decapsulated_packet_def Let_def split: TunnResult.split)
  then have "run_all (\<lambda>(r, t'). tn_ident t' = tn_ident t) (handle_data C n p t)" for n p
    unfolding handle_data_def by (auto simp: prefix_splits intro!: run_all_mono [OF decrypt_prefix] split: sum.split)
  then have "run_all (\<lambda>(r, t'). tn_ident t' = tn_ident t) (case packet of
      PHandshakeInit p \<Rightarrow> handle_handshake_init C eph (length dst) p t
    | PHandshakeResponse p \<Rightarrow> handle_handshake_response C now dst p t
    | PCookieReply p \<Rightarrow> handle_cookie_reply C p t
    | PData p \<Rightarrow> handle_data C (length dst) p t
    | PRelayData _ \<Rightarrow> Ret (Inl InvalidPacket, t))"
    using handshake_init_prefix handshake_response_prefix cookie_reply_prefix by (simp split: Packet.split)
  then show ?thesis
    unfolding handle_verified_packet_def by (rule run_all_bindI) auto
qed

lemma verified_relay_prefix: "run_all (\<lambda>(r, t'). tn_ident t' = tn_ident t) (handle_verified_relay_packet C n packet t)"
  unfolding handle_verified_relay_packet_def using decrypt_prefix by (auto split: Packet.split)

lemma clear_all_prefix: "run_all (\<lambda>(t', p'). tn_ident t' = tn_ident t) (clear_all P now t pool)"
  unfolding clear_all_def by (auto simp: from_option_all dest!: queue_prefix)

lemma session_timers_prefix: "run_all (\<lambda>t'. tn_ident t' = tn_ident t) (update_session_timers now t)"
proof -
  have one: "run_all (\<lambda>t'. tn_ident t' = tn_ident u) (update_session_timer now i u)" for i u
    unfolding update_session_timer_def by (auto intro!: run_all_trivial)
  have "run_all (\<lambda>t'. tn_ident t' = tn_ident t) (update_session_timers_upto now n t)" for n
    by (induction n) (auto elim!: run_all_mono intro!: run_all_mono [OF one])
  then show ?thesis by (simp add: update_session_timers_def)
qed

lemma idle_timers_keepalive: "run_all (\<lambda>(a, b, ts'). keepalive_secs ts' = keepalive_secs ts) (idle_timers now v ts)"
  unfolding idle_timers_def by (auto simp: Let_def intro!: run_all_trivial [where r = "dur_sub a b" for a b])

lemma update_timers_prefix: "run_all (\<lambda>(r, t', p'). tn_ident t' = tn_ident t) (update_timers C P now eph dst t pool)"
proof -
  have ex: "run_all (\<lambda>x. tn_ident (fst x) = tn_ident t)
      (clear_all P now (u\<lparr>tn_handshake := set_expired (tn_handshake u)\<rparr>) pool)" if "tn_ident u = tn_ident t" for u
    by (rule run_all_mono [OF clear_all_prefix]) (use that in \<open>auto simp: set_expired_def\<close>)
  have ini: "run_all (\<lambda>x. tn_ident (snd x) = tn_ident t) (tunn_format_handshake_initiation C now eph n f u)"
    if "tn_ident u = tn_ident t" for u n f
    by (rule run_all_mono [OF initiation_prefix]) (use that in auto)
  have enc: "run_all (\<lambda>(r, t', p'). tn_ident t' = tn_ident t) (encapsulate C P now eph src dst u pool)"
    if "tn_ident u = tn_ident t" for u src
    unfolding encapsulate_def by (rule run_all_mono [OF encapsulate_prefix]) (use that in auto)
  have cl: "run_all (\<lambda>u. tn_ident u = tn_ident t) (if has_cookie (tn_handshake t2) then
      run_bind (dur_sub a b) (\<lambda>d. Ret (if d \<ge> COOKIE_EXPIRATION_TIME then t2\<lparr>tn_handshake := clear_cookie (tn_handshake t2)\<rparr> else t2)) else Ret t2)"
    if "tn_ident t2 = tn_ident t" for t2 a b
    using that by (auto simp: clear_cookie_def intro!: run_all_trivial)
  show ?thesis
    unfolding update_timers_def Let_def
    apply (rule run_all_bindI [OF session_timers_prefix], rule run_all_ifI)
     apply simp
    apply (rule run_all_bindI [OF cl])
     apply simp
    apply (rule run_all_bindI [where R = "\<lambda>_. True"], simp)
    apply (auto simp: case_prod_beta intro!: ex [unfolded prod.inject] ini [unfolded prod.inject] enc [unfolded prod.inject] run_all_trivial [where r = "dur_sub a b" for a b]
        run_all_mono [OF idle_timers_keepalive] split: option.split)
    done
qed

section \<open>The tables of the device\<close>

text \<open>Dropping expired packets changes nothing of a peer but the queue of its tunnel.\<close>

definition only_queue :: "Peer \<Rightarrow> Peer \<Rightarrow> bool" where
  "only_queue p q \<longleftrightarrow> (\<exists>t. packet_queue.more t = packet_queue.more (pr_tunnel p) \<and> q = p\<lparr>pr_tunnel := t\<rparr>)"

lemma only_queueD:
  assumes "only_queue p q"
  shows "\<exists>t. tn_ident t = tn_ident (pr_tunnel p) \<and> q = p\<lparr>pr_tunnel := t\<rparr>" "tn_sessions (pr_tunnel q) = tn_sessions (pr_tunnel p)"
    "tn_current (pr_tunnel q) = tn_current (pr_tunnel p)"
proof -
  from assms obtain t where t: "packet_queue.more t = packet_queue.more (pr_tunnel p)" "q = p\<lparr>pr_tunnel := t\<rparr>" by (auto simp: only_queue_def)
  note m = tunn_more [OF t(1)]
  show "\<exists>t. tn_ident t = tn_ident (pr_tunnel p) \<and> q = p\<lparr>pr_tunnel := t\<rparr>" using t(2) m(2,5) by (intro exI [of _ t]) simp
  show "tn_sessions (pr_tunnel q) = tn_sessions (pr_tunnel p)" "tn_current (pr_tunnel q) = tn_current (pr_tunnel p)"
    using t(2) m(3,4) by simp_all
qed

text \<open>What is configured of a peer: handlers of packets leave it alone.\<close>

definition peer_conf :: "Peer \<Rightarrow> unit AllowedIPs \<times> bytes option \<times> nat" where
  "peer_conf p = (pr_allowed_ips p, pr_relay p, keepalive_secs (tn_timers (pr_tunnel p)))"

definition same_peers :: "PeerState \<Rightarrow> PeerState \<Rightarrow> bool" where
  "same_peers ps ps' \<longleftrightarrow> peers_inv ps' \<and> map fst (ps_peers ps') = map fst (ps_peers ps) \<and> ps_by_ip ps' = ps_by_ip ps \<and> ps_by_idx ps' = ps_by_idx ps \<and>
     (\<forall>k. map_option peer_conf (peer_by_key k ps') = map_option peer_conf (peer_by_key k ps))"

lemma same_peers_ips: "same_peers ps ps' \<Longrightarrow> map_option pr_allowed_ips (peer_by_key k ps') = map_option pr_allowed_ips (peer_by_key k ps)"
  by (cases "peer_by_key k ps"; cases "peer_by_key k ps'") (auto simp: same_peers_def peer_conf_def dest!: spec [of _ k])

lemma same_peers_refl: "peers_inv ps \<Longrightarrow> same_peers ps ps"
  by (simp add: same_peers_def)

lemma same_peers_trans: "same_peers a b \<Longrightarrow> same_peers b c \<Longrightarrow> same_peers a c"
  by (simp add: same_peers_def)

lemma same_peers_put:
  assumes "same_peers ps ps1" "peer_by_key k ps1 = Some p" "tn_ident t = tn_ident (pr_tunnel p)"
  shows "same_peers ps (put_peer k (p\<lparr>pr_tunnel := t\<rparr>) ps1)" "same_peers ps (put_peer k (p\<lparr>pr_tunnel := t, pr_endpoint := e\<rparr>) ps1)"
proof -
  have inv: "peers_inv ps1" using assms(1) by (simp add: same_peers_def)
  have t: "drop_bit 8 (next_local_index (tn_handshake t)) = pr_index p"
    using peers_invD(3) [OF inv assms(2)] assms(3) by (simp add: peer_ok_def hs_prefix_def)
  have same: "map_option peer_conf (peer_by_key k ps) = Some (peer_conf p)"
    using assms(1,2) unfolding same_peers_def by (metis option.simps(9))
  have "k \<in> fst ` set (ps_peers ps1)"
    using assms(2) by (auto simp: peer_by_key_def dest!: map_of_SomeD intro: rev_image_eqI)
  then have keys: "map fst (map_insert k q (ps_peers ps1)) = map fst (ps_peers ps1)" for q by (simp add: keys_map_insert)
  have put: "same_peers ps (put_peer k (p\<lparr>pr_tunnel := t, pr_endpoint := e\<rparr>) ps1)" for e
    using put_tunnel_inv [OF inv assms(2) t, of e] assms(1) same
    by (auto simp: same_peers_def view_more) (use assms(3) in \<open>simp_all add: put_peer_def keys peer_conf_def\<close>)
  from put show "same_peers ps (put_peer k (p\<lparr>pr_tunnel := t, pr_endpoint := e\<rparr>) ps1)" .
  from put [of "pr_endpoint p"] show "same_peers ps (put_peer k (p\<lparr>pr_tunnel := t\<rparr>) ps1)" by simp
qed

lemma drop_queue_more: "drop_expired_queued_packets P now t pool = Some (n, t1, pool1) \<Longrightarrow> packet_queue.more t1 = packet_queue.more t"
  using drop_expired_more [of P now None "packet_queue_head t" 0 t pool "(n, t1, pool1)"] by (simp add: drop_expired_queued_packets_def)

lemma drop_queues_frame:
  "run_all (\<lambda>(n, peers', pool'). list_all2 (\<lambda>x y. fst y = fst x \<and> only_queue (snd x) (snd y)) peers peers') (drop_queues P now peers pool)"
proof (induction peers arbitrary: pool)
  case (Cons x peers)
  obtain k p where x: "x = (k, p)" by (cases x)
  show ?case unfolding x
    by (auto simp: from_option_all case_prod_beta only_queue_def dest!: drop_queue_more intro!: run_all_mono [OF Cons.IH])
qed simp

lemma list_all2_map_of:
  assumes "list_all2 (\<lambda>x y. fst y = fst x \<and> R (snd x) (snd y)) xs ys"
  shows "rel_option R (map_of xs k) (map_of ys k)" "map fst ys = map fst xs"
  using assms by (induction xs ys rule: list_all2_induct) auto

lemma drop_expired_same:
  assumes "peers_inv ps"
  shows "run_all (\<lambda>(ps', pool'). same_peers ps ps') (drop_expired_packet_queues P now ps pool)"
proof -
  have *: "same_peers ps (ps\<lparr>ps_peers := peers'\<rparr>)" if l: "list_all2 (\<lambda>x y. fst y = fst x \<and> only_queue (snd x) (snd y)) (ps_peers ps) peers'" for peers'
  proof -
    let ?ps = "ps\<lparr>ps_peers := peers'\<rparr>"
    note I = peers_invD [OF assms]
    have rel: "rel_option only_queue (peer_by_key k ps) (peer_by_key k ?ps)" for k
      using list_all2_map_of(1) [OF l, of k] by (simp add: peer_by_key_def)
    have cases: "peer_by_key k ps = None \<and> peer_by_key k ?ps = None \<or>
        (\<exists>p t. peer_by_key k ps = Some p \<and> tn_ident t = tn_ident (pr_tunnel p) \<and> peer_by_key k ?ps = Some (p\<lparr>pr_tunnel := t\<rparr>))" for k
      using rel [of k] by (cases "peer_by_key k ps"; cases "peer_by_key k ?ps") (auto dest: only_queueD(1))
    have "peer_ok q" if "peer_by_key k ?ps = Some q" for k q
      using cases [of k] that I(3) by (auto simp: peer_ok_def hs_prefix_def)
    moreover have "owns ?ps k n = owns ps k n" for k n using cases [of k] by (auto simp: owns_def)
    moreover have "(\<exists>q. peer_by_key k ?ps = Some q \<and> pr_index q = i) \<longleftrightarrow> (\<exists>q. peer_by_key k ps = Some q \<and> pr_index q = i)" for k i
      using cases [of k] by auto
    moreover have "distinct (map fst peers')" using list_all2_map_of(2) [OF l] I(1) by simp
    ultimately have "peers_inv ?ps" unfolding peers_inv_def using I by simp
    moreover have "map_option peer_conf (peer_by_key k ?ps) = map_option peer_conf (peer_by_key k ps)" for k
      using cases [of k] by (auto simp: peer_conf_def)
    ultimately show ?thesis using list_all2_map_of(2) [OF l] by (simp add: same_peers_def)
  qed
  show ?thesis
    unfolding drop_expired_packet_queues_def
    by (rule run_all_bindI [OF drop_queues_frame]) (simp add: case_prod_beta *)
qed

lemma drop_expired_after:
  assumes "same_peers ps ps1"
  shows "run_all (\<lambda>(ps', pool'). same_peers ps ps') (drop_expired_packet_queues P now ps1 pool)"
proof -
  have "peers_inv ps1" using assms by (simp add: same_peers_def)
  from drop_expired_same [OF this] show ?thesis
    by (rule run_all_mono) (auto intro: same_peers_trans [OF assms])
qed

lemma send_through_same:
  assumes "same_peers ps ps1" "peer_by_key k ps1 = Some p"
  shows "run_all (\<lambda>(pending, ps', pool'). same_peers ps ps') (send_through E now eph k p plain ps1 pool)"
  unfolding send_through_def encapsulate_relay_def
  by (rule run_all_bindI [OF encapsulate_prefix])
    (auto simp: Let_def intro!: same_peers_put(1) [OF assms] split: TunnResult.split)

lemma via_relay_same:
  assumes "same_peers ps ps1"
  shows "run_all (\<lambda>(pending, ps', pool'). same_peers ps ps') (prepare_packet_to_peer_via_relay E now eph dk rk packet ps1 pool)"
proof -
  have "run_all (\<lambda>(pending, ps', pool'). same_peers ps ps') (run_bind (drop_expired_packet_queues (ev_pool E) now ps1 pool) (\<lambda>(ps2, pool1).
      case peer_by_key rk ps2 of None \<Rightarrow> Ret (None, ps2, pool1)
      | Some relay_peer \<Rightarrow> send_through E now eph rk relay_peer plain ps2 pool1))" for plain
    by (rule run_all_bindI [OF drop_expired_after [OF assms]])
      (auto intro: send_through_same split: option.split)
  with assms show ?thesis by (simp add: prepare_packet_to_peer_via_relay_def split: sum.split)
qed

lemma prepare_same:
  assumes "same_peers ps ps1"
  shows "run_all (\<lambda>(pending, ps', pool'). same_peers ps ps') (prepare_packet_to_peer E now eph dk packet ps1 pool)"
  using assms by (auto simp: prepare_packet_to_peer_def intro: via_relay_same [OF assms] split: option.split)

lemma forward_same:
  assumes "same_peers ps ps1"
  shows "run_all (\<lambda>(pending, ps', pool'). same_peers ps ps') (forward_envelope E now eph key envelope ps1 pool)"
proof -
  have "run_all (\<lambda>(pending, ps', pool'). same_peers ps ps') (run_bind (drop_expired_packet_queues (ev_pool E) now ps1 pool) (\<lambda>(ps2, pool1).
      case peer_by_key rk ps2 of None \<Rightarrow> Ret (None, ps2, pool1)
      | Some relay_peer \<Rightarrow> (case decrement_hop_limit envelope of
          Inl _ \<Rightarrow> Ret (None, ps2, pool1)
        | Inr envelope' \<Rightarrow> send_through E now eph rk relay_peer (env_bytes envelope') ps2 pool1)))" for rk
    by (rule run_all_bindI [OF drop_expired_after [OF assms]])
      (auto intro: send_through_same split: option.split sum.split)
  with assms show ?thesis by (simp add: forward_envelope_def Let_def split: sum.split option.split)
qed

text \<open>A handler of packets changes no table but through the tunnels and endpoints of the peers, and gives to the interface
  only packets whose source address is allowed for the peer they came from.\<close>

definition keeps_tables :: "'p device \<Rightarrow> 'p device \<Rightarrow> bool" where
  "keeps_tables d d' \<longleftrightarrow> same_peers (dv_peers d) (dv_peers d') \<and> dv_gen d' = dv_gen d"

fun no_nic :: "device_output \<Rightarrow> bool" where
  "no_nic (NicSend _ _) = False" | "no_nic _ = True"

fun nic_ok :: "PeerState \<Rightarrow> device_output \<Rightarrow> bool" where
  "nic_ok ps (NicSend packet key) \<longleftrightarrow>
     (\<exists>a p. src_address packet = Some a \<and> peer_by_key key ps = Some p \<and> is_allowed_ip a p = Ret True)"
| "nic_ok ps _ \<longleftrightarrow> True"

definition quiet :: "'p device \<Rightarrow> device_output list \<times> 'p device \<Rightarrow> bool" where
  "quiet d x \<longleftrightarrow> keeps_tables d (snd x) \<and> list_all no_nic (fst x)"

lemma no_nic_ok: "list_all no_nic out \<Longrightarrow> list_all (nic_ok ps) out"
  by (induction out) (auto elim: no_nic.elims)

lemma pending_no_nic [simp]: "list_all no_nic (send_pending_packet pending)"
  by (simp add: send_pending_packet_def split: option.split prod.split)

lemma quiet_peers [simp]:
  "quiet d (out, d\<lparr>dv_peers := ps, dv_pool := pool\<rparr>) \<longleftrightarrow> same_peers (dv_peers d) ps \<and> list_all no_nic out"
  "quiet d (out, d\<lparr>dv_peers := ps\<rparr>) \<longleftrightarrow> same_peers (dv_peers d) ps \<and> list_all no_nic out"
  by (simp_all add: quiet_def keeps_tables_def)

lemma quiet_after:
  assumes "same_peers (dv_peers d) (dv_peers d1)" "dv_gen d1 = dv_gen d" "quiet d1 x"
  shows "quiet d x"
  using assms by (auto simp: quiet_def keeps_tables_def intro: same_peers_trans)

text \<open>The outputs of two parts of a handler.\<close>

lemma quiet_append:
  assumes "run_all (quiet d1) r" "same_peers (dv_peers d) (dv_peers d1)" "dv_gen d1 = dv_gen d" "list_all no_nic out1"
  shows "run_all (quiet d) (run_bind r (\<lambda>(out, d'). Ret (out1 @ out, d')))"
  using assms by (cases r) (auto simp: quiet_def keeps_tables_def intro: same_peers_trans)

lemma send_quiet:
  assumes "same_peers (dv_peers d) ps"
  shows "run_all (quiet d) (run_bind (prepare_packet_to_peer E now eph key packet ps pool) (\<lambda>(pending, ps2, pool2).
    Ret (send_pending_packet pending, d\<lparr>dv_peers := ps2, dv_pool := pool2\<rparr>)))"
  by (rule run_all_bindI [OF prepare_same [OF assms]]) auto

lemma flush_quiet:
  assumes "peers_inv (dv_peers d)"
  shows "run_all (quiet d) (flush_queued_packets n E now eph key d)"
  using assms
proof (induction n arbitrary: d)
  case (Suc n)
  note refl = same_peers_refl [OF Suc.prems]
  have step: "run_all (quiet d) (run_bind (prepare_packet_to_peer E now (eph n) key packet ps1 pool1) (\<lambda>(pending, ps2, pool2).
      run_bind (flush_queued_packets n E now eph key (d\<lparr>dv_peers := ps2, dv_pool := pool2\<rparr>)) (\<lambda>(out, d'). Ret (send_pending_packet pending @ out, d'))))"
    if s: "same_peers (dv_peers d) ps1" for packet ps1 pool1
    by (rule run_all_bindI [OF prepare_same [OF s]], simp only: split_beta)
      (rule quiet_append [OF Suc.IH], auto simp: same_peers_def)
  show ?case
  proof (cases "peer_by_key key (dv_peers d)")
    case (Some p)
    then show ?thesis
      by (simp only: flush_queued_packets.simps option.case)
        (rule run_all_bindI [OF flush_prefix], auto simp: Let_def
          intro!: same_peers_put(1) [OF refl] step [simplified] split: TunnResult.split)
  qed (use refl in \<open>simp add: quiet_def keeps_tables_def\<close>)
qed (simp add: quiet_def keeps_tables_def same_peers_refl)

lemma tun_quiet:
  assumes "peers_inv (dv_peers d)"
  shows "run_all (quiet d) (handle_tun_packet E now eph src d)"
proof -
  note refl = same_peers_refl [OF assms]
  have enc: "run_all (\<lambda>(r, t', p'). tn_ident t' = tn_ident t) (encapsulate C P now eph src dst t pool)" for C P eph dst t pool
    unfolding encapsulate_def by (rule encapsulate_prefix)
  have "quiet d ([], d)" using refl by (simp add: quiet_def keeps_tables_def)
  moreover have "run_all (quiet d) (run_bind (encapsulate C P now (eph 0) src dst (pr_tunnel peer) pool) (\<lambda>(r, t, pool1).
      let ps1 = put_peer key (peer\<lparr>pr_tunnel := t\<rparr>) ps in
      case r of
        Done \<Rightarrow> Ret ([], d\<lparr>dv_peers := ps1, dv_pool := pool1\<rparr>)
      | Err _ \<Rightarrow> Ret ([], d\<lparr>dv_peers := ps1, dv_pool := pool1\<rparr>)
      | WriteToNetwork packet \<Rightarrow>
          run_bind (prepare_packet_to_peer E now (eph 1) key packet ps1 pool1) (\<lambda>(pending, ps2, pool2).
          Ret (send_pending_packet pending, d\<lparr>dv_peers := ps2, dv_pool := pool2\<rparr>))
      | _ \<Rightarrow> Panic))" if "same_peers (dv_peers d) ps" "peer_by_key key ps = Some peer" for C P dst peer pool key ps
    by (rule run_all_bindI [OF enc]) (auto simp: Let_def intro!: same_peers_put(1) [OF that] send_quiet [simplified] split: TunnResult.split)
  ultimately show ?thesis
    unfolding handle_tun_packet_def
    by (auto simp del: run_all_simps(3) intro!: run_all_bindI [OF run_all_trivial, where R = "\<lambda>_. True"]
        run_all_bindI [OF drop_expired_after [OF refl]] split: option.split)
qed

lemma relay_quiet:
  assumes "peers_inv (dv_peers d)" "peer_by_key key (dv_peers d) = Some peer"
  shows "run_all (quiet d) (handle_relay_packet E now eph key peer packet d)"
proof -
  note put = same_peers_put(1) [OF same_peers_refl [OF assms(1)] assms(2)]
  have fwd: "run_all (quiet d) (run_bind (forward_envelope E now (eph 0) key envelope ps pool) (\<lambda>(pending, ps1, pool1).
      Ret (send_pending_packet pending, d\<lparr>dv_peers := ps1, dv_pool := pool1\<rparr>)))" if "same_peers (dv_peers d) ps" for envelope ps pool
    by (rule run_all_bindI [OF forward_same [OF that]]) auto
  show ?thesis
    unfolding handle_relay_packet_def
    by (rule run_all_bindI [OF verified_relay_prefix]) (auto simp: Let_def intro!: put fwd [simplified] split: sum.split)
qed

lemma interface_source:
  "validate_ip_packet packet = WriteToInterfaceV4 out a \<Longrightarrow> src_address out = Some (AddrV4 a)"
  "validate_ip_packet packet = WriteToInterfaceV6 out b \<Longrightarrow> src_address out = Some (AddrV6 b)"
proof -
  assume "validate_ip_packet packet = WriteToInterfaceV4 out a"
  then have "validate_ip_packet out = WriteToInterfaceV4 out a" unfolding validate_v4_iff by simp
  then show "src_address out = Some (AddrV4 a)" by (auto simp: validate_ip_packet_def split: if_splits option.splits IpAddr.splits)
next
  assume "validate_ip_packet packet = WriteToInterfaceV6 out b"
  then have "validate_ip_packet out = WriteToInterfaceV6 out b" unfolding validate_v6_iff by simp
  then show "src_address out = Some (AddrV6 b)" by (auto simp: validate_ip_packet_def split: if_splits option.splits IpAddr.splits)
qed

text \<open>What a tunnel asks to write to the interface carries its own source address.\<close>

fun source_ok :: "TunnResult \<Rightarrow> bool" where
  "source_ok (WriteToInterfaceV4 packet a) \<longleftrightarrow> src_address packet = Some (AddrV4 a)"
| "source_ok (WriteToInterfaceV6 packet a) \<longleftrightarrow> src_address packet = Some (AddrV6 a)"
| "source_ok _ \<longleftrightarrow> True"

lemma verified_source: "run_all (\<lambda>(r, t'). source_ok r) (handle_verified_packet C now eph dst packet t)"
proof -
  have "source_ok (fst (validate_decapsulated_packet p t))" for p t
    using interface_source by (auto simp: validate_decapsulated_packet_def Let_def split: TunnResult.split)
  then have data: "run_all (\<lambda>(r, t'). \<forall>res. r = Inr res \<longrightarrow> source_ok res) (handle_data C n p t)" for n p
    unfolding handle_data_def by (auto simp: case_prod_beta intro!: run_all_trivial split: sum.split)
  have init: "run_all (\<lambda>(r, t'). \<forall>res. r = Inr res \<longrightarrow> source_ok res) (handle_handshake_init C eph n p t)" for n p
    unfolding handle_handshake_init_def by (auto simp: prefix_splits intro!: run_all_trivial split: sum.split)
  have resp: "run_all (\<lambda>(r, t'). \<forall>res. r = Inr res \<longrightarrow> source_ok res) (handle_handshake_response C now dst p t)" for p
    unfolding handle_handshake_response_def by (auto simp: prefix_splits intro!: run_all_trivial split: sum.split option.split)
  have cookie: "run_all (\<lambda>(r, t'). \<forall>res. r = Inr res \<longrightarrow> source_ok res) (handle_cookie_reply C p t)" for p
    unfolding handle_cookie_reply_def by (auto simp: prefix_splits intro!: run_all_trivial split: sum.split)
  have "run_all (\<lambda>(r, t'). \<forall>res. r = Inr res \<longrightarrow> source_ok res) (case packet of
      PHandshakeInit p \<Rightarrow> handle_handshake_init C eph (length dst) p t
    | PHandshakeResponse p \<Rightarrow> handle_handshake_response C now dst p t
    | PCookieReply p \<Rightarrow> handle_cookie_reply C p t
    | PData p \<Rightarrow> handle_data C (length dst) p t
    | PRelayData _ \<Rightarrow> Ret (Inl InvalidPacket, t))"
    using data init resp cookie by (auto split: Packet.split)
  then show ?thesis
    unfolding handle_verified_packet_def by (rule run_all_bindI) (auto split: sum.split)
qed

definition delivered :: "'p device \<Rightarrow> device_output list \<times> 'p device \<Rightarrow> bool" where
  "delivered d x \<longleftrightarrow> keeps_tables d (snd x) \<and> list_all (nic_ok (dv_peers d)) (fst x)"

lemma quiet_delivered: "run_all (quiet d) r \<Longrightarrow> run_all (delivered d) r"
  by (erule run_all_mono) (auto simp: quiet_def delivered_def no_nic_ok)

lemma run_all_conj: "run_all Q r \<Longrightarrow> run_all R r \<Longrightarrow> run_all (\<lambda>x. Q x \<and> R x) r"
  by (cases r) auto

lemma reply_quiet:
  assumes "same_peers (dv_peers d) (dv_peers d1)" "dv_gen d1 = dv_gen d"
  shows "run_all (quiet d) (run_bind (prepare_packet_to_peer E now eph1 key pkt (dv_peers d1) (dv_pool d1)) (\<lambda>(pending, ps2, pool2).
    run_bind (flush_queued_packets n E now eph2 key (d1\<lparr>dv_peers := ps2, dv_pool := pool2\<rparr>)) (\<lambda>(out, d2).
    Ret (send_pending_packet pending @ out, d2))))"
  by (rule run_all_bindI [OF prepare_same [OF assms(1)]], simp only: split_beta)
    (rule quiet_append [OF flush_quiet], use assms(2) in \<open>auto simp: same_peers_def\<close>)

lemma peer_packet_delivered:
  assumes "peers_inv (dv_peers d)" "peer_by_key key (dv_peers d) = Some peer"
  shows "run_all (delivered d) (handle_peer_packet E now eph key peer packet src_addr d)"
proof -
  note refl = same_peers_refl [OF assms(1)]
  define peer2 where "peer2 r t = (let peer1 = peer\<lparr>pr_tunnel := t\<rparr> in
    if (case r of Err _ \<Rightarrow> False | _ \<Rightarrow> True) \<and> pr_endpoint peer1 \<noteq> Some src_addr then set_endpoint src_addr peer1 else peer1)" for r t
  have put: "same_peers (dv_peers d) (put_peer key (peer2 r t) (dv_peers d))" if "tn_ident t = tn_ident (pr_tunnel peer)" for r t
    using same_peers_put [OF refl assms(2) that] unfolding peer2_def Let_def set_endpoint_def by simp
  have allowed: "is_allowed_ip a (peer2 r t) = is_allowed_ip a peer" for a r t
    by (simp add: peer2_def Let_def set_endpoint_def is_allowed_ip_def)
  have deliver: "run_all (delivered d) (deliver pkt a key (peer2 r t) (d\<lparr>dv_peers := put_peer key (peer2 r t) (dv_peers d)\<rparr>))"
    if "tn_ident t = tn_ident (pr_tunnel peer)" "src_address pkt = Some a" for pkt a r t
    using put [OF that(1)] that(2) assms(2)
    by (cases "is_allowed_ip a peer") (auto simp: deliver_def allowed delivered_def keeps_tables_def)
  have reply: "run_all (delivered d) (run_bind (prepare_packet_to_peer E now eph1 key pkt (put_peer key (peer2 r t) (dv_peers d)) (dv_pool d)) (\<lambda>(pending, ps2, pool2).
      run_bind (flush_queued_packets n E now eph2 key (d\<lparr>dv_peers := ps2, dv_pool := pool2\<rparr>)) (\<lambda>(out, d2).
      Ret (send_pending_packet pending @ out, d2))))" if "tn_ident t = tn_ident (pr_tunnel peer)" for eph1 eph2 pkt n r t
    using quiet_delivered [OF reply_quiet [of d "d\<lparr>dv_peers := put_peer key (peer2 r t) (dv_peers d)\<rparr>"]] put [OF that] by simp
  have same: "delivered d ([], d\<lparr>dv_peers := put_peer key (peer2 r t) (dv_peers d)\<rparr>)" if "tn_ident t = tn_ident (pr_tunnel peer)" for r t
    using put [OF that] by (simp add: delivered_def keeps_tables_def)
  show ?thesis
    unfolding handle_peer_packet_def Let_def peer2_def [symmetric, unfolded Let_def]
    by (rule run_all_bindI [OF run_all_conj [OF verified_prefix verified_source]])
      (auto simp del: run_all_simps(3) intro!: same deliver reply split: TunnResult.split)
qed

lemma nic_ok_same:
  assumes "same_peers ps ps'" "nic_ok ps' x"
  shows "nic_ok ps x"
proof (cases x)
  case (NicSend packet key)
  with assms(2) obtain a p where p: "src_address packet = Some a" "peer_by_key key ps' = Some p" "is_allowed_ip a p = Ret True" by auto
  from assms(1) p(2) obtain q where "peer_by_key key ps = Some q" "pr_allowed_ips q = pr_allowed_ips p"
    using same_peers_ips [OF assms(1), of key] by (cases "peer_by_key key ps") auto
  with p NicSend show ?thesis by (auto simp: is_allowed_ip_def)
qed auto

lemma delivered_after:
  assumes "run_all (delivered d1) r" "same_peers (dv_peers d) (dv_peers d1)" "dv_gen d1 = dv_gen d"
  shows "run_all (delivered d) r"
  using assms(1)
proof (rule run_all_mono)
  fix x assume "delivered d1 x"
  with assms(2,3) show "delivered d x"
    by (auto simp: delivered_def keeps_tables_def list_all_iff intro: nic_ok_same same_peers_trans)
qed

lemma udp_delivered:
  assumes "peers_inv (dv_peers d)"
  shows "run_all (delivered d) (handle_udp_packet E now eph packet src_addr d)"
proof -
  note refl = same_peers_refl [OF assms]
  have none: "delivered d (out, d\<lparr>dv_rate_limiter := rl\<rparr>)" if "list_all no_nic out" for out rl
    using refl no_nic_ok [OF that] by (simp add: delivered_def keeps_tables_def)
  have step: "run_all (delivered d) (let d1 = d\<lparr>dv_rate_limiter := rl, dv_peers := ps, dv_pool := pool\<rparr> in
      case peer_by_key key ps of
        None \<Rightarrow> Ret ([], d1)
      | Some peer \<Rightarrow>
          (case parsed of
             PRelayData _ \<Rightarrow> handle_relay_packet E now eph key peer parsed d1
           | _ \<Rightarrow> handle_peer_packet E now eph key peer parsed src_addr d1))" if s: "same_peers (dv_peers d) ps" for rl ps pool key parsed
  proof -
    let ?d = "d\<lparr>dv_rate_limiter := rl, dv_peers := ps, dv_pool := pool\<rparr>"
    have inv: "peers_inv (dv_peers ?d)" using s by (simp add: same_peers_def)
    have "run_all (delivered ?d) (handle_relay_packet E now eph key peer q ?d)"
        "run_all (delivered ?d) (handle_peer_packet E now eph key peer q src_addr ?d)" if "peer_by_key key ps = Some peer" for peer q
      using quiet_delivered [OF relay_quiet [OF inv]] peer_packet_delivered [OF inv] that by simp_all
    then have "run_all (delivered ?d) (case peer_by_key key ps of
        None \<Rightarrow> Ret ([], ?d)
      | Some peer \<Rightarrow>
          (case parsed of
             PRelayData _ \<Rightarrow> handle_relay_packet E now eph key peer parsed ?d
           | _ \<Rightarrow> handle_peer_packet E now eph key peer parsed src_addr ?d))"
      using same_peers_refl [OF inv] by (simp add: delivered_def keeps_tables_def split: option.split Packet.split)
    from delivered_after [OF this] s show ?thesis by (simp add: Let_def)
  qed
  show ?thesis
    unfolding handle_udp_packet_def
    by (auto simp del: run_all_simps(3) intro!: none step run_all_bindI [OF run_all_trivial, where R = "\<lambda>_. True"]
        run_all_bindI [OF drop_expired_after [OF refl]] split: prod.split sum.split option.split TunnResult.split)
qed

lemma tick_quiet:
  assumes "peers_inv (dv_peers d)"
  shows "run_all (quiet d) (tick_peers E now eph keys d)"
  using assms
proof (induction keys arbitrary: d eph)
  case (Cons key keys)
  note refl = same_peers_refl [OF Cons.prems]
  have one: "run_all (quiet d) (case peer_by_key key ps of
         None \<Rightarrow> Ret ([], d\<lparr>dv_peers := ps, dv_pool := pool\<rparr>)
       | Some peer \<Rightarrow>
           run_bind (update_timers (ev_crypto E) (ev_pool E) now (eph 0) (ev_dst E) (pr_tunnel peer) pool) (\<lambda>(r, t, pool1).
           let ps1 = put_peer key (peer\<lparr>pr_tunnel := t\<rparr>) ps in
           case r of
             Done \<Rightarrow> Ret ([], d\<lparr>dv_peers := ps1, dv_pool := pool1\<rparr>)
           | Err _ \<Rightarrow> Ret ([], d\<lparr>dv_peers := ps1, dv_pool := pool1\<rparr>)
           | WriteToNetwork packet \<Rightarrow>
               run_bind (prepare_packet_to_peer E now (eph 1) key packet ps1 pool1) (\<lambda>(pending, ps2, pool2).
               Ret (send_pending_packet pending, d\<lparr>dv_peers := ps2, dv_pool := pool2\<rparr>))
           | _ \<Rightarrow> Panic))" if s: "same_peers (dv_peers d) ps" for ps pool
  proof (cases "peer_by_key key ps")
    case (Some peer)
    show ?thesis unfolding Some option.case
      by (rule run_all_bindI [OF update_timers_prefix])
        (auto simp: Let_def intro!: same_peers_put(1) [OF s Some] send_quiet [simplified] split: TunnResult.split)
  qed (use s in simp)
  have rest: "run_all (quiet d) (run_bind (tick_peers E now (\<lambda>n. eph (n + 2)) keys d1) (\<lambda>(out', d2). Ret (out @ out', d2)))"
    if "quiet d (out, d1)" for out d1
    by (rule quiet_append [OF Cons.IH]) (use that in \<open>auto simp: quiet_def keeps_tables_def same_peers_def\<close>)
  show ?case
    unfolding tick_peers.simps
    by (rule run_all_bindI [OF drop_expired_after [OF refl]], simp only: split_beta)
      (rule run_all_bindI [OF one], auto simp del: run_all_simps(3) add_2_eq_Suc' intro!: rest)
qed (simp add: quiet_def keeps_tables_def same_peers_refl)

section \<open>Runs of the device\<close>

text \<open>The number of indices an event may draw.\<close>

fun event_cost :: "event \<Rightarrow> nat" where
  "event_cost (CommandRecv c) = draws c" | "event_cost _ = 0"

fun event_wf :: "event \<Rightarrow> bool" where
  "event_wf (CommandRecv c) = command_wf c" | "event_wf _ = True"

text \<open>The states of a device after any sequence of events from a new one, with a bound on the indices drawn.\<close>

inductive reachable :: "('r \<Rightarrow> u32 \<times> 'r) \<Rightarrow> 'p env \<Rightarrow> nat \<Rightarrow> 'p device \<Rightarrow> bool" for next_u32 E where
  new: "initialize next_u32 rng index_generator_new = Some (g, rng') \<Longrightarrow> list_all config_wf peers \<Longrightarrow>
    device_new (ev_caps E) (ev_crypto E) now priv peers stamper g secret_key nonce_key pool = Ret (Inr d) \<Longrightarrow>
    reachable next_u32 E (length peers) d"
| event: "reachable next_u32 E n d \<Longrightarrow> event_wf ev \<Longrightarrow> device_step E now eph ev d = Ret (out, d') \<Longrightarrow> reachable next_u32 E (n + event_cost ev) d'"

definition device_inv :: "caps \<Rightarrow> nat \<Rightarrow> 'p device \<Rightarrow> bool" where
  "device_inv K n d \<longleftrightarrow> peers_inv (dv_peers d) \<and> peers_fit K (dv_peers d) \<and> (\<exists>g0 m. m \<le> n \<and> issued g0 m (dv_gen d) (dv_peers d))"

lemma keeps_device_inv: "keeps_tables d d' \<Longrightarrow> device_inv K n d \<Longrightarrow> device_inv K n d'"
  by (auto simp: device_inv_def keeps_tables_def same_peers_def peers_fit_def issued_def dest: map_eq_imp_length_eq split: option.splits)

lemma add_peers_inv:
  assumes "add_peers K C now priv stamper cs ps g = Ret (Inr (ps', g'))" "list_all config_wf cs"
    and "peers_inv ps" "peers_fit K ps" "issued g0 m g ps" "m + length cs \<le> PERIOD"
  shows "peers_inv ps' \<and> peers_fit K ps' \<and> (\<exists>m'. m' \<le> m + length cs \<and> issued g0 m' g' ps')"
  using assms
proof (induction cs arbitrary: ps g m)
  case (Cons c cs)
  from add_law [OF Cons.prems(3) _ Cons.prems(5), of c K C now priv stamper] Cons.prems(2,6) obtain r ps1 g1 where
    a: "add_peer_to_state K C now priv stamper c ps g = Ret (r, ps1, g1)" "peers_inv ps1" "issued g0 m g1 ps1 \<or> issued g0 (Suc m) g1 ps1"
    by auto
  then obtain m1 where m1: "issued g0 m1 g1 ps1" "m1 \<le> Suc m" by auto
  have "add_peers K C now priv stamper cs ps1 g1 = Ret (Inr (ps', g'))" using Cons.prems(1) a(1) by (simp split: sum.splits)
  from Cons.IH [OF this _ a(2) peers_fit_steps(1) [OF Cons.prems(4) a(1)] m1(1)] Cons.prems(2,6) m1(2) obtain m'
    where "peers_inv ps'" "peers_fit K ps'" "m' \<le> m1 + length cs" "issued g0 m' g' ps'" by auto
  with m1(2) show ?case by (auto intro!: exI [of _ m'])
qed auto

lemma device_step_delivers:
  assumes "peers_inv (dv_peers d)" "\<forall>c. ev \<noteq> CommandRecv c"
  shows "run_all (delivered d) (device_step E now eph ev d)"
proof -
  have tick: "run_all (delivered d) (run_bind (handle_timer_tick E now eph d) (\<lambda>(out, d1).
      let ticks = dv_ticks d1 + 1 in
      Ret (out, if ticks \<ge> 4 then d1\<lparr>dv_ticks := 0, dv_rate_limiter := reset_count now (dv_rate_limiter d1)\<rparr>
                else d1\<lparr>dv_ticks := ticks\<rparr>)))"
    unfolding handle_timer_tick_def
    by (rule run_all_bindI [OF quiet_delivered [OF tick_quiet [OF assms(1)]]]) (auto simp: Let_def delivered_def keeps_tables_def)
  show ?thesis
    using assms(2) quiet_delivered [OF tun_quiet [OF assms(1)]] udp_delivered [OF assms(1)] tick
    by (cases ev) (simp_all add: device_step_def)
qed

lemma device_step_inv:
  assumes "device_inv (ev_caps E) n d" "event_wf ev" "n + event_cost ev \<le> PERIOD" "device_step E now eph ev d = Ret (out, d')"
  shows "device_inv (ev_caps E) (n + event_cost ev) d'"
proof (cases "\<exists>c. ev = CommandRecv c")
  case True
  then obtain c where c: "ev = CommandRecv c" ..
  from assms(1) obtain g0 m where m: "m \<le> n" "issued g0 m (dv_gen d) (dv_peers d)" and
    inv: "peers_inv (dv_peers d)" "peers_fit (ev_caps E) (dv_peers d)" by (auto simp: device_inv_def)
  from handle_peer_update_step [OF inv _ m(2), of c "ev_crypto E" now "dv_private d" "dv_stamper d"] assms(2,3) m(1) c obtain r ps g where
    "handle_peer_update (ev_caps E) (ev_crypto E) now (dv_private d) (dv_stamper d) c (dv_peers d) (dv_gen d) = Ret (r, ps, g)"
    "peers_inv ps" "peers_fit (ev_caps E) ps" "issued g0 m g ps \<or> draws c = 1 \<and> issued g0 (Suc m) g ps" by auto
  moreover from this(4) m(1) have "\<exists>m'. m' \<le> n + draws c \<and> issued g0 m' g ps" by (elim disjE) (auto intro: trans_le_add1)
  then obtain m' where "m' \<le> n + draws c" "issued g0 m' g ps" by blast
  ultimately show ?thesis using assms(4) c by (auto simp: device_step_def device_inv_def intro!: exI [of _ g0] exI [of _ m'])
next
  case False
  then have "event_cost ev = 0" by (cases ev) auto
  moreover have "keeps_tables d d'"
    using run_allD [OF device_step_delivers assms(4)] False assms(1) by (auto simp: device_inv_def delivered_def)
  ultimately show ?thesis using keeps_device_inv assms(1) by auto
qed

lemma reachable_inv: "reachable next_u32 E n d \<Longrightarrow> n \<le> PERIOD \<Longrightarrow> device_inv (ev_caps E) n d"
proof (induction rule: reachable.induct)
  case (new rng g rng' peers now priv stamper secret_key nonce_key pool d)
  have g: "ready g" "ig_remaining g = LFSR_MAX" using initialize_ready [OF new(1)] by simp_all
  then have "issued g 0 g peer_state_new" by (simp add: issued_def peer_state_new_def)
  moreover have "peers_fit (ev_caps E) peer_state_new" by (simp add: peers_fit_def peer_state_new_def split: option.split)
  moreover obtain ps g1 where "add_peers (ev_caps E) (ev_crypto E) now priv stamper peers peer_state_new g = Ret (Inr (ps, g1))"
      "dv_peers d = ps" "dv_gen d = g1"
    using new(3) by (auto simp: device_new_def run_bind_def split: run.splits sum.splits)
  ultimately show ?case
    using add_peers_inv [OF _ new(2) peers_inv_new, of "ev_caps E" "ev_crypto E" now priv stamper g ps g1 g 0] new.prems by (auto simp: device_inv_def)
next
  case (event n d ev now eph out d')
  then show ?case using device_step_inv [of E n d ev now eph out d'] by simp
qed

end
