(* ===== verification/Command_Client.thy ===== *)
theory Command_Client
  imports Device
begin

text \<open>
  The client of a device (\<^verbatim>\<open>DeviceClient\<close> and \<^verbatim>\<open>CommandClient\<close> of \<^verbatim>\<open>device.rs\<close>): the interface the
  control plane relies on, as a record of operations and a locale with its laws, and the client
  over the command queue, which meets it. Here a command is one step of
  the event loop and its completion the answer, of a device that runs; \<^verbatim>\<open>Command_Channel\<close> has the channel
  between them, shows that it behaves like this, and has the error of a device that is gone.
\<close>

section \<open>The interface\<close>

record 'd client_ops =
  cl_add :: "PeerConfig \<Rightarrow> 'd \<Rightarrow> ((DeviceError + unit) \<times> 'd) run"
  cl_update :: "PeerConfig \<Rightarrow> 'd \<Rightarrow> ((DeviceError + unit) \<times> 'd) run"
  cl_remove :: "bytes \<Rightarrow> 'd \<Rightarrow> ((DeviceError + unit) \<times> 'd) run"
  cl_get :: "bytes \<Rightarrow> 'd \<Rightarrow> ((DeviceError + PeerInfo) \<times> 'd) run"
  cl_list :: "'d \<Rightarrow> ((DeviceError + bytes list) \<times> 'd) run"

text \<open>What the control plane knows of an installed peer: all but the endpoint, which follows the traffic.\<close>

definition core_view :: "PeerConfig \<Rightarrow> peer_view" where
  "core_view c = (config_view c)\<lparr>pv_endpoint := None\<rparr>"

text \<open>A device that can still take \<open>n\<close> additions, and any number of other commands. A failed command changes nothing, and no network belongs to two peers.\<close>

locale device_client =
  fixes X :: "'d client_ops" and dinv :: "nat \<Rightarrow> 'd \<Rightarrow> bool" and view :: "'d \<Rightarrow> bytes \<Rightarrow> peer_view option"
  assumes add_ok: "dinv (Suc n) d \<Longrightarrow> config_wf c \<Longrightarrow> \<exists>r d'. cl_add X c d = Ret (r, d') \<and> dinv n d' \<and>
      (if isl r then view d' = view d else view d (pc_public_key c) = None \<and> view d' = (view d)(pc_public_key c \<mapsto> core_view c))"
    and update_ok: "dinv n d \<Longrightarrow> config_wf c \<Longrightarrow> \<exists>r d'. cl_update X c d = Ret (r, d') \<and> dinv n d' \<and>
      (if isl r then view d' = view d else view d (pc_public_key c) \<noteq> None \<and> view d' = (view d)(pc_public_key c \<mapsto> core_view c))"
    and remove_ok: "dinv n d \<Longrightarrow> \<exists>d'. cl_remove X k d = Ret (Inr (), d') \<and> dinv n d' \<and> view d' = (view d)(k := None)"
    and get_ok: "dinv n d \<Longrightarrow> \<exists>r d'. cl_get X k d = Ret (r, d') \<and> dinv n d' \<and> view d' = view d \<and> (isl r \<longleftrightarrow> view d k = None)"
    and list_ok: "dinv n d \<Longrightarrow> \<exists>ks d'. cl_list X d = Ret (Inr ks, d') \<and> dinv n d' \<and> view d' = view d \<and> distinct ks \<and> set ks = dom (view d)"
    and exclusive: "dinv n d \<Longrightarrow> view d k1 = Some v1 \<Longrightarrow> view d k2 = Some v2 \<Longrightarrow> x \<in> pv_networks v1 \<Longrightarrow> x \<in> pv_networks v2 \<Longrightarrow> k1 = k2"

section \<open>The client over the command queue\<close>

definition execute :: "'p env \<Rightarrow> instant \<Rightarrow> Command \<Rightarrow> 'p device \<Rightarrow> ((DeviceError + CommandOutput) \<times> 'p device) run" where
  "execute E now command d = run_bind (device_step E now (\<lambda>_. []) (CommandRecv command) d) (\<lambda>(out, d').
     case out of [Completion r] \<Rightarrow> Ret (r, d') | _ \<Rightarrow> Panic)"

definition done_unit :: "DeviceError + CommandOutput \<Rightarrow> DeviceError + unit" where
  "done_unit r = (case r of Inl e \<Rightarrow> Inl e | Inr _ \<Rightarrow> Inr ())"

definition client_add_peer :: "'p env \<Rightarrow> instant \<Rightarrow> PeerConfig \<Rightarrow> 'p device \<Rightarrow> ((DeviceError + unit) \<times> 'p device) run" where
  "client_add_peer E now c d = run_bind (execute E now (Add c) d) (\<lambda>(r, d'). Ret (done_unit r, d'))"

definition client_update_peer :: "'p env \<Rightarrow> instant \<Rightarrow> PeerConfig \<Rightarrow> 'p device \<Rightarrow> ((DeviceError + unit) \<times> 'p device) run" where
  "client_update_peer E now c d = run_bind (execute E now (Update c) d) (\<lambda>(r, d'). Ret (done_unit r, d'))"

definition client_remove_peer :: "'p env \<Rightarrow> instant \<Rightarrow> bytes \<Rightarrow> 'p device \<Rightarrow> ((DeviceError + unit) \<times> 'p device) run" where
  "client_remove_peer E now k d = run_bind (execute E now (Remove k) d) (\<lambda>(r, d'). Ret (done_unit r, d'))"

definition client_get_peer :: "'p env \<Rightarrow> instant \<Rightarrow> bytes \<Rightarrow> 'p device \<Rightarrow> ((DeviceError + PeerInfo) \<times> 'p device) run" where
  "client_get_peer E now k d = run_bind (execute E now (Get k) d) (\<lambda>(r, d').
     Ret (case r of Inl e \<Rightarrow> Inl e | Inr (InfoOutput i) \<Rightarrow> Inr i | Inr _ \<Rightarrow> Inl Io, d'))"

definition client_list_peers :: "'p env \<Rightarrow> instant \<Rightarrow> 'p device \<Rightarrow> ((DeviceError + bytes list) \<times> 'p device) run" where
  "client_list_peers E now d = run_bind (execute E now List d) (\<lambda>(r, d').
     Ret (case r of Inl e \<Rightarrow> Inl e | Inr (KeysOutput ks) \<Rightarrow> Inr ks | Inr _ \<Rightarrow> Inl Io, d'))"

definition command_client :: "'p env \<Rightarrow> instant \<Rightarrow> 'p device client_ops" where
  "command_client E now = \<lparr>cl_add = client_add_peer E now, cl_update = client_update_peer E now, cl_remove = client_remove_peer E now,
     cl_get = client_get_peer E now, cl_list = client_list_peers E now\<rparr>"

section \<open>The client meets the interface\<close>

definition can_take :: "'p env \<Rightarrow> nat \<Rightarrow> 'p device \<Rightarrow> bool" where
  "can_take E n d \<longleftrightarrow> n \<le> PERIOD \<and> device_inv (ev_caps E) (PERIOD - n) d"

definition installed :: "'p device \<Rightarrow> bytes \<Rightarrow> peer_view option" where
  "installed d k = map_option (\<lambda>v. v\<lparr>pv_endpoint := None\<rparr>) (peers_view (dv_peers d) k)"

lemma execute_step:
  assumes "can_take E (draws c + n) d" "command_wf c"
  shows "\<exists>r d'. execute E now c d = Ret (r, d') \<and> can_take E n d' \<and>
    command_spec (ev_caps E) c (peers_view (dv_peers d)) r (peers_view (dv_peers d'))"
proof -
  let ?m = "PERIOD - (draws c + n)"
  from assms(1) obtain g0 m where m: "m \<le> ?m" "issued g0 m (dv_gen d) (dv_peers d)" "draws c + n \<le> PERIOD" and
    inv: "peers_inv (dv_peers d)" "peers_fit (ev_caps E) (dv_peers d)" by (auto simp: can_take_def device_inv_def)
  then have "m + draws c \<le> PERIOD" by simp
  from handle_peer_update_step [OF inv assms(2) m(2) this, of "ev_crypto E" now "dv_private d" "dv_stamper d"] obtain r ps g where
    h: "handle_peer_update (ev_caps E) (ev_crypto E) now (dv_private d) (dv_stamper d) c (dv_peers d) (dv_gen d) = Ret (r, ps, g)"
    "command_spec (ev_caps E) c (peers_view (dv_peers d)) r (peers_view ps)" by blast
  let ?d' = "d\<lparr>dv_peers := ps, dv_gen := g\<rparr>"
  have step: "device_step E now (\<lambda>_. []) (CommandRecv c) d = Ret ([Completion r], ?d')" using h(1) by (simp add: device_step_def)
  have "device_inv (ev_caps E) (?m + event_cost (CommandRecv c)) ?d'"
    by (rule device_step_inv [OF _ _ _ step]) (use assms m(3) in \<open>simp_all add: can_take_def\<close>)
  moreover have "?m + event_cost (CommandRecv c) = PERIOD - n" using m(3) by simp
  ultimately show ?thesis using step h(2) m(3) by (auto simp: execute_def can_take_def)
qed

lemma installed_upd:
  "peers_view (dv_peers d') = (peers_view (dv_peers d))(k \<mapsto> config_view c) \<Longrightarrow> installed d' = (installed d)(k \<mapsto> core_view c)"
  "peers_view (dv_peers d') = (peers_view (dv_peers d))(k := None) \<Longrightarrow> installed d' = (installed d)(k := None)"
  "peers_view (dv_peers d') = peers_view (dv_peers d) \<Longrightarrow> installed d' = installed d"
  by (auto simp: fun_eq_iff installed_def core_view_def)

lemma installed_dom: "installed d k = None \<longleftrightarrow> peers_view (dv_peers d) k = None" "dom (installed d) = dom (peers_view (dv_peers d))"
  by (auto simp: installed_def)

interpretation command: device_client "command_client E now" "can_take E" installed
proof (unfold_locales, goal_cases)
  case (1 n d c)
  from execute_step [of E "Add c" n d now] 1 obtain r d' where e: "execute E now (Add c) d = Ret (r, d')" "can_take E n d'"
      "command_spec (ev_caps E) (Add c) (peers_view (dv_peers d)) r (peers_view (dv_peers d'))" by auto
  then show ?case
    by (auto simp: command_client_def client_add_peer_def done_unit_def command_spec_def installs_def installed_dom
        intro!: installed_upd split: sum.splits if_splits)
next
  case (2 n d c)
  from execute_step [of E "Update c" n d now] 2 obtain r d' where e: "execute E now (Update c) d = Ret (r, d')" "can_take E n d'"
      "command_spec (ev_caps E) (Update c) (peers_view (dv_peers d)) r (peers_view (dv_peers d'))" by auto
  then show ?case
    by (auto simp: command_client_def client_update_peer_def done_unit_def command_spec_def installs_def installed_dom
        intro!: installed_upd split: sum.splits if_splits)
next
  case (3 n d k)
  from execute_step [of E "Remove k" n d now] 3 obtain r d' where e: "execute E now (Remove k) d = Ret (r, d')" "can_take E n d'"
      "command_spec (ev_caps E) (Remove k) (peers_view (dv_peers d)) r (peers_view (dv_peers d'))" by auto
  then show ?case by (auto simp: command_client_def client_remove_peer_def done_unit_def command_spec_def intro!: installed_upd)
next
  case (4 n d k)
  from execute_step [of E "Get k" n d now] 4 obtain r d' where e: "execute E now (Get k) d = Ret (r, d')" "can_take E n d'"
      "command_spec (ev_caps E) (Get k) (peers_view (dv_peers d)) r (peers_view (dv_peers d'))" by auto
  then show ?case
    by (auto simp: command_client_def client_get_peer_def command_spec_def installed_dom intro!: installed_upd split: option.splits)
next
  case (5 n d)
  from execute_step [of E List n d now] 5 obtain r d' where e: "execute E now List d = Ret (r, d')" "can_take E n d'"
      "command_spec (ev_caps E) List (peers_view (dv_peers d)) r (peers_view (dv_peers d'))" by auto
  then show ?case by (auto simp: command_client_def client_list_peers_def command_spec_def installed_dom intro!: installed_upd)
next
  case (6 n d k1 v1 k2 v2 x)
  then have inv: "peers_inv (dv_peers d)" by (simp add: can_take_def device_inv_def)
  have "owns (dv_peers d) k1 x" "owns (dv_peers d) k2 x" using 6 by (auto simp: installed_def peers_view_def peer_view_of_def owns_def)
  then show ?case using peers_invD(7) [OF inv, of x k1] peers_invD(7) [OF inv, of x k2] by simp
qed

text \<open>Packets and timers change neither what is installed nor how many commands the device can still take.\<close>

lemma same_peers_installed: "same_peers (dv_peers d) (dv_peers d') \<Longrightarrow> installed d' = installed d"
proof
  fix k assume "same_peers (dv_peers d) (dv_peers d')"
  then have "map_option peer_conf (peer_by_key k (dv_peers d')) = map_option peer_conf (peer_by_key k (dv_peers d))" by (simp add: same_peers_def)
  then show "installed d' k = installed d k"
    by (cases "peer_by_key k (dv_peers d)"; cases "peer_by_key k (dv_peers d')")
      (simp_all add: installed_def peers_view_def peer_view_of_def peer_conf_def persistent_keepalive_def)
qed

definition is_command :: "event \<Rightarrow> bool" where
  "is_command ev = (case ev of CommandRecv _ \<Rightarrow> True | _ \<Rightarrow> False)"

lemma traffic_keeps:
  assumes "can_take E n d" "\<not> is_command ev" "device_step E now eph ev d = Ret (out, d')"
  shows "can_take E n d' \<and> installed d' = installed d"
proof -
  have inv: "device_inv (ev_caps E) (PERIOD - n) d" "n \<le> PERIOD" using assms(1) by (simp_all add: can_take_def)
  have other: "\<forall>c. ev \<noteq> CommandRecv c" using assms(2) by (auto simp: is_command_def)
  from inv(1) have "peers_inv (dv_peers d)" by (simp add: device_inv_def)
  from run_allD [OF device_step_delivers [OF this other] assms(3)] have k: "keeps_tables d d'" by (simp add: delivered_def)
  then show ?thesis using keeps_device_inv [OF k inv(1)] inv(2) same_peers_installed [of d d'] by (simp add: can_take_def keeps_tables_def)
qed

end
