(* ===== verification/Peer_Health.thy ===== *)
theory Peer_Health
  imports Bounded Ipnet "HOL-Library.Code_Target_Nat"
begin

text \<open>
  The route-health state machine of one peer (\<^verbatim>\<open>control/peer_health.rs\<close>): the suspicion score of
  each route with its decay, the choice of a route to fail over to or to probe, and the handler
  \<open>observe\<close> that folds one sample of the packet counters into the state. The clock is an argument.
  An \<^verbatim>\<open>i8\<close> is an \<open>int\<close> with its saturation written out, a saturating \<^verbatim>\<open>u8\<close> or \<^verbatim>\<open>u32\<close> counter
  a \<open>nat\<close> with its maximum. The capacity of the table of routes is an argument, as in
  \<^verbatim>\<open>bounded.rs\<close>.
\<close>

section \<open>Constants\<close>

definition POLICY_FAILURE_SCORE :: int where "POLICY_FAILURE_SCORE = 4"
definition UNHEALTHY_SCORE_DELTA :: int where "UNHEALTHY_SCORE_DELTA = 2"
definition HEALTHY_SCORE_DELTA :: int where "HEALTHY_SCORE_DELTA = 1"
definition MIN_POLICY_SWITCH_INTERVAL :: duration where "MIN_POLICY_SWITCH_INTERVAL = 120 * SECOND"
definition INITIAL_FAILOVER_GRACE :: duration where "INITIAL_FAILOVER_GRACE = 15 * SECOND"
definition MAX_SWITCH_BACKOFF_SHIFT :: nat where "MAX_SWITCH_BACKOFF_SHIFT = 3"
definition SWITCH_BACKOFF_RESET_INTERVAL :: duration where "SWITCH_BACKOFF_RESET_INTERVAL = 600 * SECOND"
definition RECOVERY_PROBE_INTERVAL :: duration where "RECOVERY_PROBE_INTERVAL = 120 * SECOND"
definition POLICY_FAILURE_DECAY_INTERVAL :: duration where "POLICY_FAILURE_DECAY_INTERVAL = 600 * SECOND"
definition MAX_HEALTH_JITTER :: duration where "MAX_HEALTH_JITTER = 15 * SECOND"
definition INBOUND_SILENCE_TIMEOUT :: duration where "INBOUND_SILENCE_TIMEOUT = 25 * SECOND"

lemmas health_consts = POLICY_FAILURE_SCORE_def UNHEALTHY_SCORE_DELTA_def HEALTHY_SCORE_DELTA_def
  MIN_POLICY_SWITCH_INTERVAL_def INITIAL_FAILOVER_GRACE_def MAX_SWITCH_BACKOFF_SHIFT_def
  SWITCH_BACKOFF_RESET_INTERVAL_def RECOVERY_PROBE_INTERVAL_def POLICY_FAILURE_DECAY_INTERVAL_def
  INBOUND_SILENCE_TIMEOUT_def

section \<open>State\<close>

datatype RouteKey = DirectRoute "SocketAddr option" | RelayRoute bytes

datatype SwitchReason = Failover | RecoveryProbe | RecoveryFailed

datatype HealthDecision = Stay | Switch nat SwitchReason | PeerInactive | NoViablePolicy

datatype PeerLiveness = LivenessUnknown | Reachable | LikelyInactive

datatype PolicyState = PolicyUnknown | PolicyHealthy | PolicySuspect | PolicyFailed

record PolicyHealth =
  suspicion :: int
  consecutive_failures :: nat
  last_success :: "instant option"
  last_failure :: "instant option"
  pol_state :: PolicyState

record PolicyHealthEntry =
  pe_route :: RouteKey
  pe_health :: PolicyHealth

record PeerHealth =
  ph_active_policy :: nat
  ph_liveness :: PeerLiveness
  consecutive_peer_failures :: nat
  last_switch :: instant
  switch_count :: nat
  next_recovery_attempt_at :: instant
  last_tx_packets :: nat
  last_rx_packets :: nat
  last_inbound_at :: "instant option"
  has_observed_stats :: bool
  policy_health :: "PolicyHealthEntry list"
  recovery_fallback :: "nat option"
  ph_jitter :: duration

datatype Sample = Healthy | Unhealthy | Idle

text \<open>The counters of \<^verbatim>\<open>PeerStats\<close> that the state machine reads.\<close>

record PeerStats =
  st_tx_packets :: nat
  st_rx_packets :: nat

section \<open>The score of one route\<close>

definition sat_i8 :: "int \<Rightarrow> int" where "sat_i8 x = max (- 128) (min 127 x)"

definition sat_inc :: "nat \<Rightarrow> nat \<Rightarrow> nat" where "sat_inc w n = min (2 ^ w - 1) (n + 1)"

definition policy_health_new :: PolicyHealth where
  "policy_health_new = \<lparr>suspicion = 0, consecutive_failures = 0, last_success = None, last_failure = None,
     pol_state = PolicyUnknown\<rparr>"

definition record_success :: "instant \<Rightarrow> PolicyHealth \<Rightarrow> PolicyHealth" where
  "record_success now p = p\<lparr>suspicion := max (sat_i8 (suspicion p - HEALTHY_SCORE_DELTA)) 0,
     consecutive_failures := 0, last_success := Some now, pol_state := PolicyHealthy\<rparr>"

definition record_failure :: "instant \<Rightarrow> PolicyHealth \<Rightarrow> PolicyHealth" where
  "record_failure now p =
     (let s = min (sat_i8 (suspicion p + UNHEALTHY_SCORE_DELTA)) POLICY_FAILURE_SCORE
      in p\<lparr>suspicion := s, consecutive_failures := sat_inc 8 (consecutive_failures p), last_failure := Some now,
           pol_state := (if s \<ge> POLICY_FAILURE_SCORE then PolicyFailed else PolicySuspect)\<rparr>)"

definition is_failed :: "PolicyHealth \<Rightarrow> bool" where
  "is_failed p \<longleftrightarrow> suspicion p \<ge> POLICY_FAILURE_SCORE \<or> pol_state p = PolicyFailed"

function decay_loop :: "instant \<Rightarrow> int \<Rightarrow> instant \<Rightarrow> int \<times> instant" where
  "decay_loop now s anchor =
     (if s > 0 \<and> now - anchor \<ge> POLICY_FAILURE_DECAY_INTERVAL
      then decay_loop now (max (sat_i8 (s - HEALTHY_SCORE_DELTA)) 0) (anchor + POLICY_FAILURE_DECAY_INTERVAL)
      else (s, anchor))"
  by pat_completeness auto
termination by (relation "measure (\<lambda>(_, s, _). nat s)") (auto simp: sat_i8_def HEALTHY_SCORE_DELTA_def)

declare decay_loop.simps [simp del]

definition decay :: "instant \<Rightarrow> PolicyHealth \<Rightarrow> PolicyHealth" where
  "decay now p = (case last_failure p of
     None \<Rightarrow> p
   | Some anchor \<Rightarrow>
       if suspicion p = 0 then p
       else let (s, anchor') = decay_loop now (suspicion p) anchor in
         if s = 0 then p\<lparr>suspicion := s, last_failure := None, pol_state := PolicyUnknown\<rparr>
         else p\<lparr>suspicion := s, last_failure := Some anchor',
                pol_state := (if s \<ge> POLICY_FAILURE_SCORE then PolicyFailed else PolicySuspect)\<rparr>)"

definition policy_health_entry_new :: "RouteKey \<Rightarrow> PolicyHealthEntry" where
  "policy_health_entry_new route = \<lparr>pe_route = route, pe_health = policy_health_new\<rparr>"

section \<open>The peer\<close>

definition jitter_from_rng :: "u64 \<Rightarrow> duration" where
  "jitter_from_rng r =
     (let max_secs = MAX_HEALTH_JITTER div SECOND
      in if max_secs = 0 then 0 else (unat r mod (max_secs + 1)) * SECOND)"

definition new_with_jitter :: "nat \<Rightarrow> instant \<Rightarrow> duration \<Rightarrow> PeerHealth" where
  "new_with_jitter active now jitter =
     \<lparr>ph_active_policy = active, ph_liveness = LivenessUnknown, consecutive_peer_failures = 0, last_switch = now,
      switch_count = 0, next_recovery_attempt_at = now + RECOVERY_PROBE_INTERVAL + jitter,
      last_tx_packets = 0, last_rx_packets = 0, last_inbound_at = None, has_observed_stats = False,
      policy_health = [], recovery_fallback = None, ph_jitter = jitter\<rparr>"

definition new_with_rng :: "nat \<Rightarrow> instant \<Rightarrow> u64 \<Rightarrow> PeerHealth" where
  "new_with_rng active now r = new_with_jitter active now (jitter_from_rng r)"

definition get_policy :: "nat \<Rightarrow> PeerHealth \<Rightarrow> PolicyHealth option" where
  "get_policy i h = (if i < length (policy_health h) then Some (pe_health (policy_health h ! i)) else None)"

definition active_route :: "PeerHealth \<Rightarrow> RouteKey option" where
  "active_route h = (if ph_active_policy h < length (policy_health h)
     then Some (pe_route (policy_health h ! ph_active_policy h)) else None)"

definition entry_for :: "PolicyHealthEntry list \<Rightarrow> RouteKey \<Rightarrow> PolicyHealthEntry" where
  "entry_for entries route = (case find (\<lambda>e. pe_route e = route) entries of
     Some e \<Rightarrow> e | None \<Rightarrow> policy_health_entry_new route)"

definition push_dropping :: "nat option \<Rightarrow> 'a list \<Rightarrow> 'a \<Rightarrow> 'a list" where
  "push_dropping cap xs x = (case try_push cap ''policy health'' x xs of Inl _ \<Rightarrow> xs | Inr ys \<Rightarrow> ys)"

definition sync_policies :: "nat option \<Rightarrow> nat \<Rightarrow> RouteKey list \<Rightarrow> PeerHealth \<Rightarrow> PeerHealth" where
  "sync_policies cap active routes h =
     h\<lparr>policy_health := foldl (push_dropping cap) [] (map (entry_for (policy_health h)) routes),
       ph_active_policy := min active (length routes - 1),
       recovery_fallback := (case recovery_fallback h of
          Some f \<Rightarrow> if f \<ge> length routes then None else Some f | None \<Rightarrow> None)\<rparr>"

definition sync_active_policy :: "nat \<Rightarrow> PeerHealth \<Rightarrow> PeerHealth" where
  "sync_active_policy active h = h\<lparr>ph_active_policy := active\<rparr>"

definition reset_policy_state :: "PeerHealth \<Rightarrow> PeerHealth" where
  "reset_policy_state h = h\<lparr>policy_health := [], recovery_fallback := None\<rparr>"

definition inbound_silence :: "instant \<Rightarrow> PeerHealth \<Rightarrow> duration" where
  "inbound_silence now h = now - (case last_inbound_at h of Some t \<Rightarrow> t | None \<Rightarrow> last_switch h)"

definition classify :: "PeerStats \<Rightarrow> instant \<Rightarrow> PeerHealth \<Rightarrow> Sample" where
  "classify stats now h =
     (let received_more = st_rx_packets stats > last_rx_packets h;
          sent_more = st_tx_packets stats > last_tx_packets h
      in if received_more then Healthy
         else if sent_more \<and> inbound_silence now h \<ge> INBOUND_SILENCE_TIMEOUT then Unhealthy
         else Idle)"

definition has_activity :: "PeerStats \<Rightarrow> bool" where
  "has_activity stats \<longleftrightarrow> st_tx_packets stats > 0 \<or> st_rx_packets stats > 0"

definition schedule_next_recovery_attempt :: "instant \<Rightarrow> PeerHealth \<Rightarrow> PeerHealth" where
  "schedule_next_recovery_attempt now h = h\<lparr>next_recovery_attempt_at := now + RECOVERY_PROBE_INTERVAL + ph_jitter h\<rparr>"

definition record_activity :: "instant \<Rightarrow> PeerHealth \<Rightarrow> PeerHealth" where
  "record_activity now h = schedule_next_recovery_attempt now h"

definition recovery_attempt_due :: "instant \<Rightarrow> PeerHealth \<Rightarrow> bool" where
  "recovery_attempt_due now h \<longleftrightarrow> now \<ge> next_recovery_attempt_at h"

definition update_policy :: "nat \<Rightarrow> (PolicyHealth \<Rightarrow> PolicyHealth) \<Rightarrow> PeerHealth \<Rightarrow> PeerHealth" where
  "update_policy i f h = (if i < length (policy_health h)
     then h\<lparr>policy_health := (policy_health h)[i := (policy_health h ! i)\<lparr>pe_health := f (pe_health (policy_health h ! i))\<rparr>]\<rparr>
     else h)"

definition record_sample :: "nat \<Rightarrow> Sample \<Rightarrow> instant \<Rightarrow> PeerHealth \<Rightarrow> PeerHealth" where
  "record_sample policy sample now h = (case sample of
     Healthy \<Rightarrow> record_activity now
       ((update_policy policy (record_success now) h)\<lparr>ph_liveness := Reachable, consecutive_peer_failures := 0\<rparr>)
   | Unhealthy \<Rightarrow> update_policy policy (record_failure now)
       (h\<lparr>consecutive_peer_failures := sat_inc 8 (consecutive_peer_failures h)\<rparr>)
   | Idle \<Rightarrow> h)"

definition policy_failed :: "nat \<Rightarrow> PeerHealth \<Rightarrow> bool" where
  "policy_failed i h = (case get_policy i h of Some p \<Rightarrow> is_failed p | None \<Rightarrow> False)"

definition has_any_route_success :: "PeerHealth \<Rightarrow> bool" where
  "has_any_route_success h = list_ex (\<lambda>e. last_success (pe_health e) \<noteq> None) (policy_health h)"

definition policy_rank :: "PeerHealth \<Rightarrow> nat \<Rightarrow> int \<times> nat" where
  "policy_rank h i = (case get_policy i h of Some p \<Rightarrow> suspicion p | None \<Rightarrow> 0, i)"

definition best_failover_policy :: "nat \<Rightarrow> nat \<Rightarrow> PeerHealth \<Rightarrow> nat option" where
  "best_failover_policy active count h =
     min_by_key (policy_rank h)
       (filter (\<lambda>i. case get_policy i h of None \<Rightarrow> True | Some p \<Rightarrow> \<not> is_failed p) (filter (\<lambda>i. i \<noteq> active) [0..<count]))"

definition active_fallback_validated :: "nat \<Rightarrow> PeerHealth \<Rightarrow> bool" where
  "active_fallback_validated active h = (case get_policy active h of
     None \<Rightarrow> False
   | Some p \<Rightarrow> (case last_success p of None \<Rightarrow> False | Some t \<Rightarrow> t \<ge> last_switch h))"

definition best_recovery_policy :: "nat \<Rightarrow> PeerHealth \<Rightarrow> nat option" where
  "best_recovery_policy active h =
     (if active = 0 then None
      else min_by_key (policy_rank h)
        (filter (\<lambda>i. \<not> policy_failed i h \<or> active_fallback_validated active h) [0..<active]))"

definition current_switch_cooldown :: "PeerHealth \<Rightarrow> duration" where
  "current_switch_cooldown h =
     (if switch_count h = 0 then INITIAL_FAILOVER_GRACE + ph_jitter h
      else let shift = min (switch_count h - 1) MAX_SWITCH_BACKOFF_SHIFT
        in MIN_POLICY_SWITCH_INTERVAL * 2 ^ shift + ph_jitter h)"

definition cooldown_elapsed :: "instant \<Rightarrow> PeerHealth \<Rightarrow> bool" where
  "cooldown_elapsed now h \<longleftrightarrow> now - last_switch h \<ge> current_switch_cooldown h"

definition switch_to :: "nat \<Rightarrow> instant \<Rightarrow> bool \<Rightarrow> PeerHealth \<Rightarrow> PeerHealth" where
  "switch_to policy now recovery_probe h =
     (let prev = ph_active_policy h;
          count = (if now - last_switch h \<ge> SWITCH_BACKOFF_RESET_INTERVAL then 0 else switch_count h)
      in schedule_next_recovery_attempt now
           (h\<lparr>switch_count := sat_inc 32 count, ph_active_policy := policy, last_switch := now, last_inbound_at := None,
              recovery_fallback := (if recovery_probe then Some prev else None)\<rparr>))"

definition decide_recovery_probe ::
  "nat \<Rightarrow> bool \<Rightarrow> bool \<Rightarrow> instant \<Rightarrow> PeerHealth \<Rightarrow> HealthDecision \<times> PeerHealth" where
  "decide_recovery_probe active sent_more recovery_due now h =
     (if \<not> sent_more \<or> \<not> recovery_due then (Stay, h)
      else case best_recovery_policy active h of
        Some next_policy \<Rightarrow> (Switch next_policy RecoveryProbe, switch_to next_policy now True h)
      | None \<Rightarrow> (Stay, h))"

text \<open>\<^verbatim>\<open>recovery_fallback.take()\<close> empties the field even when the fallback is not used.\<close>

definition decide_after_unhealthy ::
  "nat \<Rightarrow> nat \<Rightarrow> bool \<Rightarrow> bool \<Rightarrow> instant \<Rightarrow> PeerHealth \<Rightarrow> HealthDecision \<times> PeerHealth" where
  "decide_after_unhealthy active count sent_more recovery_due now h0 =
     (let fallback = recovery_fallback h0; h = h0\<lparr>recovery_fallback := None\<rparr> in
      case (case fallback of Some f \<Rightarrow> if f < count \<and> f \<noteq> active then Some f else None | None \<Rightarrow> None) of
        Some f \<Rightarrow> (Switch f RecoveryFailed, switch_to f now False h)
      | None \<Rightarrow>
          if \<not> cooldown_elapsed now h then (Stay, h)
          else (case decide_recovery_probe active sent_more recovery_due now h of
            (Stay, h1) \<Rightarrow>
              if policy_failed active h1 then
                (case best_failover_policy active count h1 of
                   Some next_policy \<Rightarrow> (Switch next_policy Failover, switch_to next_policy now False h1)
                 | None \<Rightarrow>
                     if \<not> has_any_route_success h1 \<and> consecutive_peer_failures h1 > 2
                     then (PeerInactive, h1\<lparr>ph_liveness := LikelyInactive\<rparr>)
                     else (NoViablePolicy, h1))
              else (Stay, h1)
          | (d, h1) \<Rightarrow> (d, h1)))"

definition first_sample :: "PeerStats \<Rightarrow> instant \<Rightarrow> PeerHealth \<Rightarrow> PeerHealth" where
  "first_sample stats now h =
     (let h1 = h\<lparr>has_observed_stats := True, last_tx_packets := st_tx_packets stats, last_rx_packets := st_rx_packets stats,
              last_inbound_at := (if st_rx_packets stats > 0 then Some now else last_inbound_at h)\<rparr>
      in if has_activity stats then record_activity now h1 else h1)"

text \<open>The counters of the sample are stored, and every route decays, before the sample is recorded.\<close>

definition fold_counters :: "PeerStats \<Rightarrow> instant \<Rightarrow> PeerHealth \<Rightarrow> PeerHealth" where
  "fold_counters stats now h =
     h\<lparr>last_inbound_at := (if st_rx_packets stats > last_rx_packets h then Some now else last_inbound_at h),
       last_tx_packets := st_tx_packets stats, last_rx_packets := st_rx_packets stats,
       policy_health := map (\<lambda>e. e\<lparr>pe_health := decay now (pe_health e)\<rparr>) (policy_health h)\<rparr>"

definition observe :: "nat option \<Rightarrow> PeerStats \<Rightarrow> RouteKey list \<Rightarrow> instant \<Rightarrow> PeerHealth \<Rightarrow> HealthDecision \<times> PeerHealth" where
  "observe cap stats routes now h0 =
     (let h = sync_policies cap (ph_active_policy h0) routes h0 in
      if length routes \<le> 1 then (Stay, h)
      else if \<not> has_observed_stats h then (Stay, first_sample stats now h)
      else
        let sent_more = st_tx_packets stats > last_tx_packets h;
            recovery_was_due = recovery_attempt_due now h;
            sample = classify stats now h;
            active = ph_active_policy h;
            h1 = record_sample active sample now (fold_counters stats now h)
        in case sample of
             Healthy \<Rightarrow> decide_recovery_probe active sent_more recovery_was_due now (h1\<lparr>recovery_fallback := None\<rparr>)
           | Idle \<Rightarrow> (Stay, h1)
           | Unhealthy \<Rightarrow> decide_after_unhealthy active (length routes) sent_more recovery_was_due now h1)"

section \<open>Invariants\<close>

definition policy_ok :: "PolicyHealth \<Rightarrow> bool" where
  "policy_ok p \<longleftrightarrow> 0 \<le> suspicion p \<and> suspicion p \<le> POLICY_FAILURE_SCORE \<and>
     (pol_state p = PolicyFailed \<longleftrightarrow> suspicion p = POLICY_FAILURE_SCORE) \<and>
     (suspicion p > 0 \<longrightarrow> last_failure p \<noteq> None) \<and> consecutive_failures p \<le> 255"

definition policies_ok :: "PeerHealth \<Rightarrow> bool" where
  "policies_ok h \<longleftrightarrow> (\<forall>e \<in> set (policy_health h). policy_ok (pe_health e))"

text \<open>What every sample keeps: the scores are in range, a probe is not due before its interval has
  passed since the last switch, and a tentative route has not received anything yet.\<close>

definition health_inv :: "PeerHealth \<Rightarrow> bool" where
  "health_inv h \<longleftrightarrow> policies_ok h \<and>
     last_switch h + RECOVERY_PROBE_INTERVAL + ph_jitter h \<le> next_recovery_attempt_at h \<and>
     (recovery_fallback h \<noteq> None \<longrightarrow> last_inbound_at h = None \<and> has_observed_stats h) \<and>
     consecutive_peer_failures h \<le> 255 \<and> switch_count h \<le> 2 ^ 32 - 1"

section \<open>Lemmas on scores\<close>

lemma policy_ok_new [simp]: "policy_ok policy_health_new"
  by (simp add: policy_ok_def policy_health_new_def health_consts)

lemma record_success_ok [simp]: "policy_ok p \<Longrightarrow> policy_ok (record_success now p)"
  by (auto simp: policy_ok_def record_success_def health_consts sat_i8_def)

lemma record_failure_ok [simp]: "policy_ok p \<Longrightarrow> policy_ok (record_failure now p)"
  by (auto simp: policy_ok_def record_failure_def health_consts sat_i8_def sat_inc_def Let_def)

lemma is_failed_score: "policy_ok p \<Longrightarrow> is_failed p \<longleftrightarrow> suspicion p = POLICY_FAILURE_SCORE"
  by (auto simp: policy_ok_def is_failed_def)

lemma decay_loop_closed:
  assumes "0 \<le> s" "s \<le> 127"
  shows "decay_loop now s anchor =
    (let k = min (nat s) ((now - anchor) div POLICY_FAILURE_DECAY_INTERVAL)
     in (s - int k, anchor + k * POLICY_FAILURE_DECAY_INTERVAL))"
  using assms
proof (induction now s anchor rule: decay_loop.induct)
  case (1 now s anchor)
  let ?I = "POLICY_FAILURE_DECAY_INTERVAL"
  have I: "0 < ?I" by (simp add: POLICY_FAILURE_DECAY_INTERVAL_def SECOND_def)
  show ?case
  proof (cases "s > 0 \<and> now - anchor \<ge> ?I")
    case True
    have s': "max (sat_i8 (s - HEALTHY_SCORE_DELTA)) 0 = s - 1"
      using 1(2,3) True by (simp add: sat_i8_def HEALTHY_SCORE_DELTA_def)
    have d: "(now - anchor) div ?I = Suc ((now - (anchor + ?I)) div ?I)"
      using True I by (simp add: div_if [of "now - anchor"])
    have n: "nat s = Suc (nat (s - 1))" using conjunct1 [OF True] by linarith
    show ?thesis
      using 1(1) [OF True] 1(2,3) True
      by (subst decay_loop.simps) (simp add: s' d n Let_def)
  next
    case False
    then have "min (nat s) ((now - anchor) div ?I) = 0" by auto
    then show ?thesis unfolding decay_loop.simps [of now s anchor] if_not_P [OF False] by (simp add: Let_def)
  qed
qed

lemma decay_closed:
  assumes "policy_ok p" "last_failure p = Some t" "suspicion p > 0"
  shows "decay now p =
    (let k = min (nat (suspicion p)) ((now - t) div POLICY_FAILURE_DECAY_INTERVAL); s = suspicion p - int k
     in if s = 0 then p\<lparr>suspicion := 0, last_failure := None, pol_state := PolicyUnknown\<rparr>
        else p\<lparr>suspicion := s, last_failure := Some (t + k * POLICY_FAILURE_DECAY_INTERVAL),
               pol_state := (if s \<ge> POLICY_FAILURE_SCORE then PolicyFailed else PolicySuspect)\<rparr>)"
proof -
  have "0 \<le> suspicion p" "suspicion p \<le> 127" using assms(1) by (simp_all add: policy_ok_def health_consts)
  note decay_loop_closed [OF this]
  then show ?thesis using assms(2,3) by (simp add: decay_def Let_def)
qed

lemma decay_ok [simp]: assumes "policy_ok p" shows "policy_ok (decay now p)"
proof (cases "last_failure p")
  case None
  with assms show ?thesis by (simp add: decay_def)
next
  case (Some t)
  show ?thesis
  proof (cases "suspicion p > 0")
    case True
    from decay_closed [OF assms Some True, of now] assms True show ?thesis
      by (auto simp: policy_ok_def Let_def)
  next
    case False
    with assms have "suspicion p = 0" by (simp add: policy_ok_def)
    with assms Some show ?thesis by (simp add: decay_def)
  qed
qed

lemma decay_last_success [simp]: "last_success (decay now p) = last_success p"
  by (simp add: decay_def Let_def split: option.split prod.split)

lemma decay_suspicion_le: assumes "policy_ok p" shows "suspicion (decay now p) \<le> suspicion p"
proof (cases "last_failure p")
  case None
  then show ?thesis by (simp add: decay_def)
next
  case (Some t)
  show ?thesis
  proof (cases "suspicion p > 0")
    case True
    from decay_closed [OF assms Some True, of now] show ?thesis by (simp add: Let_def)
  next
    case False
    with assms have "suspicion p = 0" by (simp add: policy_ok_def)
    with Some show ?thesis by (simp add: decay_def)
  qed
qed

section \<open>Lemmas on the peer\<close>

lemma foldl_push: "foldl (push_dropping cap) ys xs = ys @ (case cap of None \<Rightarrow> xs | Some c \<Rightarrow> take (c - length ys) xs)"
proof (induction xs arbitrary: ys)
  case Nil
  show ?case by (cases cap) simp_all
next
  case (Cons x xs)
  show ?case
  proof (cases "has_room cap (length ys)")
    case True
    then have "c - length ys = Suc (c - Suc (length ys))" if "cap = Some c" for c
      using that by (simp add: has_room_def)
    with True Cons show ?thesis by (cases cap) (simp_all add: push_dropping_def try_push_def)
  next
    case False
    then obtain c where "cap = Some c" "c \<le> length ys" by (cases cap) (simp_all add: has_room_def)
    with False Cons [of ys] show ?thesis by (simp add: push_dropping_def try_push_def)
  qed
qed

lemma entry_for_ok: "\<forall>e \<in> set es. policy_ok (pe_health e) \<Longrightarrow> policy_ok (pe_health (entry_for es r))"
  by (auto simp: entry_for_def policy_health_entry_new_def find_Some_iff split: option.split)

lemma sync_policies_ok: assumes "policies_ok h" shows "policies_ok (sync_policies cap a routes h)"
proof -
  have "\<forall>e \<in> set (map (entry_for (policy_health h)) routes). policy_ok (pe_health e)"
    using assms entry_for_ok by (auto simp: policies_ok_def)
  then show ?thesis
    by (auto simp: policies_ok_def sync_policies_def foldl_push take_map dest: in_set_takeD split: option.splits)
qed

lemma sync_policies_simps [simp]:
  "last_switch (sync_policies cap a routes h) = last_switch h"
  "switch_count (sync_policies cap a routes h) = switch_count h"
  "ph_jitter (sync_policies cap a routes h) = ph_jitter h"
  "next_recovery_attempt_at (sync_policies cap a routes h) = next_recovery_attempt_at h"
  "last_inbound_at (sync_policies cap a routes h) = last_inbound_at h"
  "has_observed_stats (sync_policies cap a routes h) = has_observed_stats h"
  "consecutive_peer_failures (sync_policies cap a routes h) = consecutive_peer_failures h"
  "last_rx_packets (sync_policies cap a routes h) = last_rx_packets h"
  "last_tx_packets (sync_policies cap a routes h) = last_tx_packets h"
  "ph_active_policy (sync_policies cap a routes h) = min a (length routes - 1)"
  by (simp_all add: sync_policies_def)

lemma sync_policies_inv: "health_inv h \<Longrightarrow> health_inv (sync_policies cap a routes h)"
  using sync_policies_ok [of h] by (auto simp: health_inv_def sync_policies_def split: option.splits)

lemma update_policy_ok:
  assumes "policies_ok h" "\<And>p. policy_ok p \<Longrightarrow> policy_ok (f p)"
  shows "policies_ok (update_policy i f h)"
  using assms by (auto simp: policies_ok_def update_policy_def dest!: subsetD [OF set_update_subset_insert])

lemma update_policy_simps [simp]:
  "last_switch (update_policy i f h) = last_switch h"
  "switch_count (update_policy i f h) = switch_count h"
  "ph_jitter (update_policy i f h) = ph_jitter h"
  "next_recovery_attempt_at (update_policy i f h) = next_recovery_attempt_at h"
  "last_inbound_at (update_policy i f h) = last_inbound_at h"
  "has_observed_stats (update_policy i f h) = has_observed_stats h"
  "consecutive_peer_failures (update_policy i f h) = consecutive_peer_failures h"
  "last_rx_packets (update_policy i f h) = last_rx_packets h"
  "last_tx_packets (update_policy i f h) = last_tx_packets h"
  "recovery_fallback (update_policy i f h) = recovery_fallback h"
  "ph_active_policy (update_policy i f h) = ph_active_policy h"
  by (simp_all add: update_policy_def)

lemma policies_ok_cong: "policy_health h = policy_health h' \<Longrightarrow> policies_ok h = policies_ok h'"
  by (simp add: policies_ok_def)

lemmas record_defs = record_sample_def record_activity_def schedule_next_recovery_attempt_def

lemma record_sample_simps [simp]:
  "last_switch (record_sample a smp now h) = last_switch h"
  "switch_count (record_sample a smp now h) = switch_count h"
  "ph_jitter (record_sample a smp now h) = ph_jitter h"
  "last_inbound_at (record_sample a smp now h) = last_inbound_at h"
  "has_observed_stats (record_sample a smp now h) = has_observed_stats h"
  "last_rx_packets (record_sample a smp now h) = last_rx_packets h"
  "last_tx_packets (record_sample a smp now h) = last_tx_packets h"
  "recovery_fallback (record_sample a smp now h) = recovery_fallback h"
  "ph_active_policy (record_sample a smp now h) = ph_active_policy h"
  by (simp_all add: record_defs split: Sample.split)

lemma fold_counters_simps [simp]:
  "last_switch (fold_counters stats now h) = last_switch h"
  "switch_count (fold_counters stats now h) = switch_count h"
  "ph_jitter (fold_counters stats now h) = ph_jitter h"
  "next_recovery_attempt_at (fold_counters stats now h) = next_recovery_attempt_at h"
  "has_observed_stats (fold_counters stats now h) = has_observed_stats h"
  "last_rx_packets (fold_counters stats now h) = st_rx_packets stats"
  "last_tx_packets (fold_counters stats now h) = st_tx_packets stats"
  "recovery_fallback (fold_counters stats now h) = recovery_fallback h"
  "ph_active_policy (fold_counters stats now h) = ph_active_policy h"
  "consecutive_peer_failures (fold_counters stats now h) = consecutive_peer_failures h"
  by (simp_all add: fold_counters_def)

lemma switch_to_simps [simp]:
  "last_switch (switch_to n now pr h) = now"
  "ph_jitter (switch_to n now pr h) = ph_jitter h"
  "last_inbound_at (switch_to n now pr h) = None"
  "has_observed_stats (switch_to n now pr h) = has_observed_stats h"
  "last_rx_packets (switch_to n now pr h) = last_rx_packets h"
  "last_tx_packets (switch_to n now pr h) = last_tx_packets h"
  "ph_active_policy (switch_to n now pr h) = n"
  "policy_health (switch_to n now pr h) = policy_health h"
  "consecutive_peer_failures (switch_to n now pr h) = consecutive_peer_failures h"
  "next_recovery_attempt_at (switch_to n now pr h) = now + RECOVERY_PROBE_INTERVAL + ph_jitter h"
  "recovery_fallback (switch_to n now pr h) = (if pr then Some (ph_active_policy h) else None)"
  by (simp_all add: switch_to_def schedule_next_recovery_attempt_def Let_def)

lemma switch_to_count: "0 < switch_count (switch_to n now pr h) \<and> switch_count (switch_to n now pr h) \<le> 2 ^ 32 - 1"
  by (simp add: switch_to_def schedule_next_recovery_attempt_def Let_def sat_inc_def)

lemma switch_to_inv: "policies_ok h \<Longrightarrow> has_observed_stats h \<Longrightarrow> consecutive_peer_failures h \<le> 255 \<Longrightarrow>
    health_inv (switch_to n now pr h)"
  using switch_to_count [of n now pr h] by (simp add: health_inv_def policies_ok_def)

text \<open>The state the decision is taken in: the sample is recorded against the active route.\<close>

definition recorded :: "PeerStats \<Rightarrow> instant \<Rightarrow> PeerHealth \<Rightarrow> PeerHealth" where
  "recorded stats now h = record_sample (ph_active_policy h) (classify stats now h) now (fold_counters stats now h)"

lemma recorded_simps [simp]:
  "last_switch (recorded stats now h) = last_switch h"
  "switch_count (recorded stats now h) = switch_count h"
  "ph_jitter (recorded stats now h) = ph_jitter h"
  "has_observed_stats (recorded stats now h) = has_observed_stats h"
  "last_rx_packets (recorded stats now h) = st_rx_packets stats"
  "last_tx_packets (recorded stats now h) = st_tx_packets stats"
  "recovery_fallback (recorded stats now h) = recovery_fallback h"
  "ph_active_policy (recorded stats now h) = ph_active_policy h"
  by (simp_all add: recorded_def)

lemma recorded_inbound: "last_inbound_at (recorded stats now h) =
    (if st_rx_packets stats > last_rx_packets h then Some now else last_inbound_at h)"
  by (simp add: recorded_def fold_counters_def)

lemma recorded_policies_ok: assumes "policies_ok h" shows "policies_ok (recorded stats now h)"
proof -
  have f: "policies_ok (fold_counters stats now h)" using assms by (simp add: policies_ok_def fold_counters_def)
  show ?thesis
  proof (cases "classify stats now h")
    case Healthy
    have "policies_ok (update_policy (ph_active_policy h) (record_success now) (fold_counters stats now h))"
      by (rule update_policy_ok [OF f]) simp
    then show ?thesis by (simp add: recorded_def Healthy record_defs policies_ok_def)
  next
    case Unhealthy
    show ?thesis unfolding recorded_def Unhealthy record_sample_def Sample.case
      by (rule update_policy_ok) (use f in \<open>simp_all add: policies_ok_def\<close>)
  qed (use f in \<open>simp add: recorded_def record_sample_def\<close>)
qed

lemma recorded_inv:
  assumes "health_inv h" "last_switch h \<le> now"
  shows "policies_ok (recorded stats now h)" "consecutive_peer_failures (recorded stats now h) \<le> 255"
    "last_switch h + RECOVERY_PROBE_INTERVAL + ph_jitter h \<le> next_recovery_attempt_at (recorded stats now h)"
  using assms recorded_policies_ok [of h stats now]
  by (auto simp: health_inv_def recorded_def record_defs sat_inc_def split: Sample.split)

lemma health_inv_no_fallback:
  "policies_ok h \<Longrightarrow> last_switch h + RECOVERY_PROBE_INTERVAL + ph_jitter h \<le> next_recovery_attempt_at h \<Longrightarrow>
   consecutive_peer_failures h \<le> 255 \<Longrightarrow> switch_count h \<le> 2 ^ 32 - 1 \<Longrightarrow> health_inv (h\<lparr>recovery_fallback := None\<rparr>)"
  by (simp add: health_inv_def policies_ok_def)

section \<open>Outcomes of the decisions\<close>

lemma decide_recovery_probe_cases:
  assumes "decide_recovery_probe a sent due now h = (d, h')"
  obtains "d = Stay" "h' = h"
  | n where "d = Switch n RecoveryProbe" "h' = switch_to n now True h" "sent" "due" "n < a" "best_recovery_policy a h = Some n"
proof -
  have "n < a" if "best_recovery_policy a h = Some n" for n
    using that by (auto simp: best_recovery_policy_def dest!: min_by_key_Some split: if_splits)
  with assms that show ?thesis by (auto simp: decide_recovery_probe_def split: if_splits option.splits)
qed

lemma best_failover_policy_Some:
  assumes "best_failover_policy a count h = Some n"
  shows "n < count" "n \<noteq> a" "\<not> policy_failed n h"
    "\<And>i. i < count \<Longrightarrow> i \<noteq> a \<Longrightarrow> \<not> policy_failed i h \<Longrightarrow> policy_rank h n \<le> policy_rank h i"
  using min_by_key_Some [OF assms [unfolded best_failover_policy_def]]
  by (auto simp: policy_failed_def split: option.splits)

lemma best_failover_policy_exists:
  assumes "i < count" "i \<noteq> a" "\<not> policy_failed i h"
  shows "\<exists>n. best_failover_policy a count h = Some n"
  unfolding best_failover_policy_def
  by (rule min_by_key_exists [of i]) (use assms in \<open>auto simp: policy_failed_def split: option.splits\<close>)

lemma decide_after_unhealthy_cases:
  assumes "decide_after_unhealthy a count sent due now h0 = (d, h')"
  defines "h \<equiv> h0\<lparr>recovery_fallback := None\<rparr>"
  obtains (failed_probe) f where "recovery_fallback h0 = Some f" "f < count" "f \<noteq> a" "d = Switch f RecoveryFailed" "h' = switch_to f now False h"
  | (probe) n where "cooldown_elapsed now h" "d = Switch n RecoveryProbe" "h' = switch_to n now True h" "sent" "due" "n < a"
  | (failover) n where "cooldown_elapsed now h" "d = Switch n Failover" "h' = switch_to n now False h" "n < count" "n \<noteq> a"
      "policy_failed a h" "\<not> policy_failed n h"
  | (inactive) "d = PeerInactive" "h' = h\<lparr>ph_liveness := LikelyInactive\<rparr>" "policy_failed a h"
  | (stuck) "d = NoViablePolicy" "h' = h" "policy_failed a h"
  | (stay) "d = Stay" "h' = h"
proof (cases "case recovery_fallback h0 of Some f \<Rightarrow> if f < count \<and> f \<noteq> a then Some f else None | None \<Rightarrow> None")
  case (Some f)
  then show ?thesis
    using assms(1) failed_probe unfolding decide_after_unhealthy_def Let_def h_def
    by (auto split: option.splits if_splits)
next
  case None
  note A = assms(1) [unfolded decide_after_unhealthy_def Let_def None option.case h_def [symmetric]]
  show ?thesis
  proof (cases "cooldown_elapsed now h")
    case False
    with A stay show ?thesis by auto
  next
    case cd: True
    obtain d1 h1 where p: "decide_recovery_probe a sent due now h = (d1, h1)" by fastforce
    show ?thesis
    proof (rule decide_recovery_probe_cases [OF p])
      assume "d1 = Stay" "h1 = h"
      with A cd p show ?thesis
        using failover inactive stuck stay best_failover_policy_Some [of a count h]
        by (auto split: if_splits option.splits)
    next
      fix n assume "d1 = Switch n RecoveryProbe" "h1 = switch_to n now True h" "sent" "due" "n < a"
      with A cd p probe show ?thesis by auto
    qed
  qed
qed

section \<open>One sample\<close>

text \<open>The least time between the previous switch and one for the given reason.\<close>

definition switch_gap :: "PeerHealth \<Rightarrow> SwitchReason \<Rightarrow> duration" where
  "switch_gap h r = (case r of
     Failover \<Rightarrow> current_switch_cooldown h
   | RecoveryProbe \<Rightarrow> RECOVERY_PROBE_INTERVAL + ph_jitter h
   | RecoveryFailed \<Rightarrow> INBOUND_SILENCE_TIMEOUT)"

definition switch_post :: "nat \<Rightarrow> instant \<Rightarrow> PeerHealth \<Rightarrow> HealthDecision \<Rightarrow> PeerHealth \<Rightarrow> bool" where
  "switch_post count now h d h' = (case d of
     Switch n r \<Rightarrow> n < count \<and> n \<noteq> min (ph_active_policy h) (count - 1) \<and> ph_active_policy h' = n \<and>
       last_switch h' = now \<and> 0 < switch_count h' \<and> switch_gap h r \<le> now - last_switch h \<and>
       (r = Failover \<longrightarrow> \<not> policy_failed n h') \<and> (r = RecoveryProbe \<longrightarrow> n < min (ph_active_policy h) (count - 1))
   | _ \<Rightarrow> ph_active_policy h' = min (ph_active_policy h) (count - 1) \<and>
       last_switch h' = last_switch h \<and> switch_count h' = switch_count h)"

lemma cooldown_cong: "switch_count h = switch_count h' \<Longrightarrow> ph_jitter h = ph_jitter h' \<Longrightarrow>
    current_switch_cooldown h = current_switch_cooldown h'"
  by (simp add: current_switch_cooldown_def)

lemma policy_failed_cong: "policy_health h = policy_health h' \<Longrightarrow> policy_failed i h = policy_failed i h'"
  by (simp add: policy_failed_def get_policy_def)

lemma observe_few_routes:
  "length routes \<le> 1 \<Longrightarrow> observe cap stats routes now h = (Stay, sync_policies cap (ph_active_policy h) routes h)"
  by (simp add: observe_def Let_def)

lemma observe_first:
  "1 < length routes \<Longrightarrow> \<not> has_observed_stats h \<Longrightarrow>
   observe cap stats routes now h = (Stay, first_sample stats now (sync_policies cap (ph_active_policy h) routes h))"
  by (simp add: observe_def Let_def)

lemma observe_later:
  assumes "1 < length routes" "has_observed_stats h"
  shows "observe cap stats routes now h =
    (let s = sync_policies cap (ph_active_policy h) routes h; a = ph_active_policy s;
         sent = st_tx_packets stats > last_tx_packets s; due = recovery_attempt_due now s
     in case classify stats now s of
          Healthy \<Rightarrow> decide_recovery_probe a sent due now ((recorded stats now s)\<lparr>recovery_fallback := None\<rparr>)
        | Idle \<Rightarrow> (Stay, recorded stats now s)
        | Unhealthy \<Rightarrow> decide_after_unhealthy a (length routes) sent due now (recorded stats now s))"
  using assms by (simp add: observe_def Let_def recorded_def split: Sample.split)

lemma observe_step_later:
  assumes inv: "health_inv h" and clock: "last_switch h \<le> now" and routes: "1 < length routes" "has_observed_stats h"
    and obs: "observe cap stats routes now h = (d, h')"
  shows "health_inv h' \<and> ph_jitter h' = ph_jitter h \<and> switch_post (length routes) now h d h'"
proof -
  define s where "s = sync_policies cap (ph_active_policy h) routes h"
  define r where "r = recorded stats now s"
  define a where "a = ph_active_policy s"
  have s: "health_inv s" "last_switch s = last_switch h" "switch_count s = switch_count h" "ph_jitter s = ph_jitter h"
      "has_observed_stats s" "last_switch s \<le> now"
    using sync_policies_inv [OF inv] routes(2) clock by (simp_all add: s_def)
  have a: "a = min (ph_active_policy h) (length routes - 1)" "a < length routes"
    using routes(1) by (auto simp: a_def s_def)
  note ri = recorded_inv [OF s(1,6), of stats, folded r_def]
  have r: "policies_ok r" "consecutive_peer_failures r \<le> 255" "ph_jitter r = ph_jitter h" "has_observed_stats r"
      "last_switch r = last_switch h" "switch_count r = switch_count h" "ph_active_policy r = a"
      "last_switch h + RECOVERY_PROBE_INTERVAL + ph_jitter h \<le> next_recovery_attempt_at r"
    using ri s by (simp_all add: r_def a_def)
  have bound: "switch_count h \<le> 2 ^ 32 - 1" using inv by (simp add: health_inv_def)
  have n: "health_inv (r\<lparr>recovery_fallback := None\<rparr>)"
    by (rule health_inv_no_fallback) (use r bound in simp_all)
  have sw: "health_inv (switch_to n now pr (r\<lparr>recovery_fallback := None\<rparr>))" for n pr
    by (rule switch_to_inv) (use r in \<open>simp_all add: policies_ok_def\<close>)
  have due: "switch_gap h RecoveryProbe \<le> now - last_switch h" if "recovery_attempt_due now s"
    using that s(1,2,4) by (simp add: switch_gap_def recovery_attempt_due_def health_inv_def) linarith
  have cd: "switch_gap h Failover \<le> now - last_switch h" if "cooldown_elapsed now (r\<lparr>recovery_fallback := None\<rparr>)"
    using that cooldown_cong [of "r\<lparr>recovery_fallback := None\<rparr>" h] r(3,5,6)
    by (simp add: switch_gap_def cooldown_elapsed_def)
  note O = obs [unfolded observe_later [OF routes] Let_def, folded s_def, folded a_def r_def]
  have "min (ph_active_policy h) (length routes - Suc 0) = a" using a(1) by simp
  note post = switch_post_def this
  show ?thesis
  proof (cases "classify stats now s")
    case Healthy
    with O have "decide_recovery_probe a (st_tx_packets stats > last_tx_packets s) (recovery_attempt_due now s) now
      (r\<lparr>recovery_fallback := None\<rparr>) = (d, h')" by simp
    then show ?thesis
    proof (cases rule: decide_recovery_probe_cases)
      case 1
      with n r show ?thesis by (simp add: post)
    next
      case (2 m)
      with sw r a(2) due switch_to_count show ?thesis by (simp add: post)
    qed
  next
    case Idle
    with O have dh: "d = Stay" "h' = r" by simp_all
    have "recovery_fallback r \<noteq> None \<longrightarrow> last_inbound_at r = None"
      using s(1) Idle by (auto simp: r_def recorded_inbound health_inv_def classify_def Let_def split: if_splits)
    with r bound have "health_inv r" by (simp add: health_inv_def)
    with dh r show ?thesis by (simp add: post)
  next
    case Unhealthy
    have silence: "INBOUND_SILENCE_TIMEOUT \<le> now - last_switch h" if "recovery_fallback s \<noteq> None"
      using Unhealthy that s(1,2) by (auto simp: classify_def Let_def inbound_silence_def health_inv_def split: if_splits)
    from Unhealthy O have "decide_after_unhealthy a (length routes) (st_tx_packets stats > last_tx_packets s)
      (recovery_attempt_due now s) now r = (d, h')" by simp
    then show ?thesis
    proof (cases rule: decide_after_unhealthy_cases)
      case (failed_probe f)
      with sw r silence switch_to_count show ?thesis by (simp add: post r_def switch_gap_def)
    next
      case (probe m)
      with sw r a(2) due switch_to_count show ?thesis by (simp add: post)
    next
      case (failover m)
      then have "\<not> policy_failed m h'" using policy_failed_cong [of h' "r\<lparr>recovery_fallback := None\<rparr>" m] by simp
      with failover sw r cd switch_to_count show ?thesis by (simp add: post)
    next
      case inactive
      with n r show ?thesis by (simp add: post health_inv_def policies_ok_def)
    next
      case stuck
      with n r show ?thesis by (simp add: post)
    next
      case stay
      with n r show ?thesis by (simp add: post)
    qed
  qed
qed

lemma first_sample_simps [simp]:
  "last_switch (first_sample stats now h) = last_switch h"
  "switch_count (first_sample stats now h) = switch_count h"
  "ph_jitter (first_sample stats now h) = ph_jitter h"
  "policy_health (first_sample stats now h) = policy_health h"
  "ph_active_policy (first_sample stats now h) = ph_active_policy h"
  "recovery_fallback (first_sample stats now h) = recovery_fallback h"
  "consecutive_peer_failures (first_sample stats now h) = consecutive_peer_failures h"
  "has_observed_stats (first_sample stats now h)"
  "last_rx_packets (first_sample stats now h) = st_rx_packets stats"
  "last_inbound_at (first_sample stats now h) = (if st_rx_packets stats > 0 then Some now else last_inbound_at h)"
  by (simp_all add: first_sample_def record_activity_def schedule_next_recovery_attempt_def Let_def)

lemma first_sample_recovery: "next_recovery_attempt_at (first_sample stats now h) =
    (if has_activity stats then now + RECOVERY_PROBE_INTERVAL + ph_jitter h else next_recovery_attempt_at h)"
  by (simp add: first_sample_def record_activity_def schedule_next_recovery_attempt_def Let_def)

lemma observe_step:
  assumes inv: "health_inv h" and clock: "last_switch h \<le> now"
    and obs: "observe cap stats routes now h = (d, h')"
  shows "health_inv h' \<and> ph_jitter h' = ph_jitter h \<and> switch_post (length routes) now h d h'"
proof (cases "1 < length routes")
  case False
  with obs observe_few_routes [of routes cap stats now h] sync_policies_inv [OF inv]
  show ?thesis by (auto simp: switch_post_def)
next
  case True
  note routes = True
  show ?thesis
  proof (cases "has_observed_stats h")
    case False
    let ?s = "sync_policies cap (ph_active_policy h) routes h"
    from obs observe_first [OF routes False] have "d = Stay" "h' = first_sample stats now ?s" by simp_all
    moreover have "health_inv (first_sample stats now ?s)"
      using sync_policies_inv [OF inv, of cap "ph_active_policy h" routes] clock False
      by (auto simp: health_inv_def policies_ok_def first_sample_recovery)
    ultimately show ?thesis by (simp add: switch_post_def)
  next
    case True
    from observe_step_later [OF inv clock routes True obs] show ?thesis .
  qed
qed

section \<open>Runs of samples\<close>

type_synonym health_sample = "PeerStats \<times> RouteKey list \<times> instant"

fun observe_all :: "nat option \<Rightarrow> health_sample list \<Rightarrow> PeerHealth \<Rightarrow> HealthDecision list \<times> PeerHealth" where
  "observe_all cap [] h = ([], h)"
| "observe_all cap ((stats, routes, now) # ss) h =
     (let (d, h1) = observe cap stats routes now h; (ds, h2) = observe_all cap ss h1 in (d # ds, h2))"

abbreviation sample_time :: "health_sample \<Rightarrow> instant" where "sample_time s \<equiv> snd (snd s)"
abbreviation sample_rx :: "health_sample \<Rightarrow> nat" where "sample_rx s \<equiv> st_rx_packets (fst s)"

lemma observe_all_Cons:
  assumes "observe cap stats routes now h = (d, h1)"
  shows "fst (observe_all cap ((stats, routes, now) # ss) h) = d # fst (observe_all cap ss h1)"
    "snd (observe_all cap ((stats, routes, now) # ss) h) = snd (observe_all cap ss h1)"
  using assms by (simp_all add: case_prod_beta Let_def)

declare observe_all.simps(2) [simp del]

lemma new_with_jitter_inv: "health_inv (new_with_jitter a now j)"
  by (simp add: health_inv_def policies_ok_def new_with_jitter_def)

lemma switch_post_last: "switch_post count now h d h' \<Longrightarrow> last_switch h \<le> now \<Longrightarrow>
    last_switch h \<le> last_switch h' \<and> last_switch h' \<le> now"
  by (cases d) (auto simp: switch_post_def)

text \<open>The reasons and their least distances once a first switch has been made.\<close>

definition later_gap :: "duration \<Rightarrow> SwitchReason \<Rightarrow> duration" where
  "later_gap j r = (if r = RecoveryFailed then INBOUND_SILENCE_TIMEOUT else MIN_POLICY_SWITCH_INTERVAL + j)"

lemma later_gap_le: "0 < switch_count h \<Longrightarrow> later_gap (ph_jitter h) r \<le> switch_gap h r"
  by (cases r) (auto simp: later_gap_def switch_gap_def current_switch_cooldown_def Let_def health_consts)

lemma switch_after:
  assumes "health_inv h" "0 < switch_count h" "sorted (last_switch h # map sample_time ss)"
    "j < length ss" "fst (observe_all cap ss h) ! j = Switch n r"
  shows "later_gap (ph_jitter h) r \<le> sample_time (ss ! j) - last_switch h"
  using assms
proof (induction ss arbitrary: h j)
  case (Cons s ss)
  obtain stats routes now where s: "s = (stats, routes, now)" by (cases s)
  obtain d h1 where o: "observe cap stats routes now h = (d, h1)" by fastforce
  have clock: "last_switch h \<le> now" using Cons.prems(3) s by simp
  note step = observe_step [OF Cons.prems(1) clock o]
  note last = switch_post_last [OF step [THEN conjunct2, THEN conjunct2] clock]
  show ?case
  proof (cases j)
    case 0
    with Cons.prems(5) s o have "d = Switch n r" by (simp add: observe_all_Cons)
    with step later_gap_le [OF Cons.prems(2), of r] 0 s show ?thesis by (simp add: switch_post_def)
  next
    case (Suc k)
    have count: "0 < switch_count h1" using step Cons.prems(2) by (cases d) (auto simp: switch_post_def)
    have sorted: "sorted (last_switch h1 # map sample_time ss)"
      using Cons.prems(3) last s by fastforce
    have "later_gap (ph_jitter h1) r \<le> sample_time (ss ! k) - last_switch h1"
      by (rule Cons.IH [OF _ count sorted]) (use step Cons.prems(4,5) Suc s o in \<open>simp_all add: observe_all_Cons\<close>)
    with step last Suc show ?thesis by (simp, linarith)
  qed
qed simp

lemma switch_spacing:
  assumes "health_inv h" "sorted (last_switch h # map sample_time ss)" "i < j" "j < length ss"
    "fst (observe_all cap ss h) ! i = Switch m q" "fst (observe_all cap ss h) ! j = Switch n r"
  shows "later_gap (ph_jitter h) r \<le> sample_time (ss ! j) - sample_time (ss ! i)"
  using assms
proof (induction ss arbitrary: h i j)
  case (Cons s ss)
  obtain stats routes now where s: "s = (stats, routes, now)" by (cases s)
  obtain d h1 where o: "observe cap stats routes now h = (d, h1)" by fastforce
  have clock: "last_switch h \<le> now" using Cons.prems(2) s by simp
  note step = observe_step [OF Cons.prems(1) clock o]
  note last = switch_post_last [OF step [THEN conjunct2, THEN conjunct2] clock]
  have sorted: "sorted (last_switch h1 # map sample_time ss)" using Cons.prems(2) last s by fastforce
  obtain k where j: "j = Suc k" using Cons.prems(3) by (cases j) auto
  show ?case
  proof (cases i)
    case 0
    with Cons.prems(5) s o have "d = Switch m q" by (simp add: observe_all_Cons)
    with step have h1: "last_switch h1 = now" "0 < switch_count h1" "health_inv h1" "ph_jitter h1 = ph_jitter h"
      by (simp_all add: switch_post_def)
    have "later_gap (ph_jitter h1) r \<le> sample_time (ss ! k) - last_switch h1"
      by (rule switch_after [OF h1(3,2) sorted]) (use Cons.prems(4,6) j s o in \<open>simp_all add: observe_all_Cons\<close>)
    with h1 0 j s show ?thesis by simp
  next
    case (Suc l)
    have "later_gap (ph_jitter h1) r \<le> sample_time (ss ! k) - sample_time (ss ! l)"
      by (rule Cons.IH [OF _ sorted]) (use step Cons.prems(3-6) Suc j s o in \<open>simp_all add: observe_all_Cons\<close>)
    with step Suc j show ?thesis by simp
  qed
qed simp

section \<open>A route that keeps receiving\<close>

definition inbound_anchor :: "PeerHealth \<Rightarrow> instant" where
  "inbound_anchor h = (case last_inbound_at h of Some t \<Rightarrow> t | None \<Rightarrow> last_switch h)"

text \<open>The receive counter has grown between any two samples that are the silence window apart.\<close>

definition steady_inbound :: "(instant \<times> nat) list \<Rightarrow> bool" where
  "steady_inbound obs \<longleftrightarrow> (\<forall>i j. i < j \<and> j < length obs \<and> INBOUND_SILENCE_TIMEOUT \<le> fst (obs ! j) - fst (obs ! i) \<longrightarrow>
     snd (obs ! i) < snd (obs ! j))"

definition unblamed :: "PeerHealth \<Rightarrow> bool" where
  "unblamed h \<longleftrightarrow> (\<forall>e \<in> set (policy_health h). suspicion (pe_health e) = 0)"

definition seen_by :: "(instant \<times> nat) list \<Rightarrow> PeerHealth \<Rightarrow> bool" where
  "seen_by past h \<longleftrightarrow> (\<exists>(t, x) \<in> set past. t \<le> inbound_anchor h \<and> last_rx_packets h \<le> x)"

lemma seen_byI: "(t, x) \<in> set past \<Longrightarrow> t \<le> inbound_anchor h \<Longrightarrow> last_rx_packets h \<le> x \<Longrightarrow> seen_by past h"
  by (auto simp: seen_by_def)

lemma seen_by_more: "seen_by past h \<Longrightarrow> inbound_anchor h' = inbound_anchor h \<Longrightarrow> last_rx_packets h' \<le> last_rx_packets h \<Longrightarrow>
    seen_by (past @ rest) h'"
proof -
  assume "seen_by past h" and h: "inbound_anchor h' = inbound_anchor h" "last_rx_packets h' \<le> last_rx_packets h"
  then obtain t x where "(t, x) \<in> set past" "t \<le> inbound_anchor h" "last_rx_packets h \<le> x" by (auto simp: seen_by_def)
  with h show ?thesis by (intro seen_byI [of t x]) auto
qed

lemma steady_not_unhealthy:
  assumes "steady_inbound (past @ (now, st_rx_packets stats) # rest)" "seen_by past h"
  shows "classify stats now h \<noteq> Unhealthy"
proof
  assume "classify stats now h = Unhealthy"
  then have u: "st_rx_packets stats \<le> last_rx_packets h" "INBOUND_SILENCE_TIMEOUT \<le> now - inbound_anchor h"
    by (auto simp: classify_def inbound_silence_def inbound_anchor_def Let_def split: if_splits)
  obtain i where i: "i < length past" "fst (past ! i) \<le> inbound_anchor h" "last_rx_packets h \<le> snd (past ! i)"
    using assms(2) by (auto simp: seen_by_def in_set_conv_nth)
  have "snd (past ! i) < st_rx_packets stats"
    using assms(1) [unfolded steady_inbound_def, rule_format, of i "length past"] i(1,2) u(2)
    by (simp add: nth_append)
  with i(3) u(1) show False by simp
qed

lemma unblamed_sync: "unblamed h \<Longrightarrow> unblamed (sync_policies cap a routes h)"
proof -
  assume u: "unblamed h"
  have "suspicion (pe_health (entry_for (policy_health h) r)) = 0" for r
    using u by (auto simp: unblamed_def entry_for_def policy_health_entry_new_def policy_health_new_def find_Some_iff
        split: option.split)
  then show ?thesis
    by (auto simp: unblamed_def sync_policies_def foldl_push take_map dest: in_set_takeD split: option.splits)
qed

lemma unblamed_recorded:
  assumes "unblamed h" "classify stats now h \<noteq> Unhealthy"
  shows "unblamed (recorded stats now h)"
proof -
  have d: "suspicion (decay now p) = 0" if "suspicion p = 0" for p
    using that by (simp add: decay_def split: option.split)
  have f: "unblamed (fold_counters stats now h)" using assms(1) d by (simp add: unblamed_def fold_counters_def)
  have "unblamed (update_policy a (record_success now) g)" if "unblamed g" for a g
    using that by (auto simp: unblamed_def update_policy_def record_success_def sat_i8_def health_consts
        dest!: subsetD [OF set_update_subset_insert])
  from this [OF f] f assms(2) show ?thesis
    by (auto simp: recorded_def record_defs unblamed_def split: Sample.split)
qed

lemma unblamed_cong: "policy_health h = policy_health h' \<Longrightarrow> unblamed h = unblamed h'"
  by (simp add: unblamed_def)

lemma steady_step:
  assumes u: "unblamed h" and seen: "seen_by past h" and st: "steady_inbound (past @ (now, st_rx_packets stats) # rest)"
    and obs: "observe cap stats routes now h = (d, h')"
  shows "unblamed h' \<and> seen_by (past @ [(now, st_rx_packets stats)]) h' \<and> (d = Stay \<or> (\<exists>n. d = Switch n RecoveryProbe))"
proof -
  define s where "s = sync_policies cap (ph_active_policy h) routes h"
  have us: "unblamed s" using unblamed_sync [OF u] by (simp add: s_def)
  have anchor: "inbound_anchor s = inbound_anchor h" "last_rx_packets s = last_rx_packets h"
    by (simp_all add: s_def inbound_anchor_def split: option.split)
  have seen_s: "seen_by past s" using seen anchor by (simp add: seen_by_def)
  note now_seen = seen_byI [of now "st_rx_packets stats" "past @ [(now, st_rx_packets stats)]"]
  consider "length routes \<le> 1" | "1 < length routes" "\<not> has_observed_stats h" | "1 < length routes" "has_observed_stats h"
    by linarith
  then show ?thesis
  proof cases
    case 1
    with obs observe_few_routes [OF 1] have "d = Stay" "h' = s" by (simp_all add: s_def)
    with us seen_by_more [OF seen_s] show ?thesis by simp
  next
    case 2
    from obs observe_first [OF 2] have dh: "d = Stay" "h' = first_sample stats now s" by (simp_all add: s_def)
    have "seen_by (past @ [(now, st_rx_packets stats)]) h'"
    proof (cases "st_rx_packets stats > 0")
      case True
      with dh show ?thesis by (intro now_seen) (simp_all add: inbound_anchor_def)
    next
      case False
      with dh show ?thesis by (intro seen_by_more [OF seen_s]) (simp_all add: inbound_anchor_def split: option.split)
    qed
    with us dh show ?thesis by (simp add: unblamed_def)
  next
    case 3
    have nu: "classify stats now s \<noteq> Unhealthy" by (rule steady_not_unhealthy [OF st seen_s])
    note ur = unblamed_recorded [OF us nu]
    note O = obs [unfolded observe_later [OF 3] Let_def, folded s_def]
    show ?thesis
    proof (cases "classify stats now s")
      case Healthy
      then have grew: "st_rx_packets stats > last_rx_packets s" by (auto simp: classify_def Let_def split: if_splits)
      let ?r = "(recorded stats now s)\<lparr>recovery_fallback := None\<rparr>"
      from Healthy O have "decide_recovery_probe (ph_active_policy s) (st_tx_packets stats > last_tx_packets s)
        (recovery_attempt_due now s) now ?r = (d, h')" by simp
      then show ?thesis
      proof (cases rule: decide_recovery_probe_cases)
        case 1
        with ur grew show ?thesis
          using now_seen [of h'] by (simp add: unblamed_def inbound_anchor_def recorded_inbound)
      next
        case (2 n)
        with ur show ?thesis using now_seen [of h'] by (simp add: unblamed_def inbound_anchor_def)
      qed
    next
      case Idle
      then have less: "\<not> st_rx_packets stats > last_rx_packets s" by (auto simp: classify_def Let_def split: if_splits)
      from Idle O have dh: "d = Stay" "h' = recorded stats now s" by simp_all
      have "seen_by (past @ [(now, st_rx_packets stats)]) h'"
        by (rule seen_by_more [OF seen_s]) (use dh less in \<open>simp_all add: inbound_anchor_def recorded_inbound split: option.split\<close>)
      with dh ur show ?thesis by simp
    qed (use nu in simp)
  qed
qed

lemma steady_run:
  assumes "unblamed h" "seen_by past h" "steady_inbound (past @ map (\<lambda>s. (sample_time s, sample_rx s)) ss)"
  shows "unblamed (snd (observe_all cap ss h)) \<and>
    (\<forall>d \<in> set (fst (observe_all cap ss h)). d = Stay \<or> (\<exists>n. d = Switch n RecoveryProbe))"
  using assms
proof (induction ss arbitrary: h past)
  case (Cons s ss)
  obtain stats routes now where s: "s = (stats, routes, now)" by (cases s)
  obtain d h1 where o: "observe cap stats routes now h = (d, h1)" by fastforce
  have "steady_inbound (past @ (now, st_rx_packets stats) # map (\<lambda>s. (sample_time s, sample_rx s)) ss)"
    using Cons.prems(3) s by simp
  from steady_step [OF Cons.prems(1,2) this o] Cons.IH [of h1 "past @ [(now, st_rx_packets stats)]"] Cons.prems(3) s
  show ?case by (simp add: observe_all_Cons [OF o])
qed simp

section \<open>A route that stays silent\<close>

definition fits :: "nat option \<Rightarrow> nat \<Rightarrow> bool" where
  "fits cap n = (case cap of None \<Rightarrow> True | Some c \<Rightarrow> n \<le> c)"

lemma sync_same_routes:
  assumes "map pe_route (policy_health h) = routes" "distinct routes" "fits cap (length routes)"
  shows "policy_health (sync_policies cap a routes h) = policy_health h"
proof -
  have "entry_for (policy_health h) (pe_route e) = e" if "e \<in> set (policy_health h)" for e
  proof -
    have "find (\<lambda>f. pe_route f = pe_route e) (policy_health h) \<noteq> None" using that by (auto simp: find_None_iff)
    then obtain f where f: "find (\<lambda>f. pe_route f = pe_route e) (policy_health h) = Some f" by blast
    then have "f \<in> set (policy_health h)" "pe_route f = pe_route e" by (auto simp: find_Some_iff in_set_conv_nth)
    moreover have "inj_on pe_route (set (policy_health h))" using assms(1,2) distinct_map by metis
    ultimately have "f = e" using that by (auto dest: inj_onD)
    with f show ?thesis by (simp add: entry_for_def)
  qed
  then have "map (entry_for (policy_health h)) routes = policy_health h"
    unfolding assms(1) [symmetric] by (simp add: map_idI)
  moreover have "length (policy_health h) = length routes" using assms(1) by (metis length_map)
  ultimately show ?thesis using assms(3) by (auto simp: sync_policies_def foldl_push fits_def split: option.splits)
qed

lemma get_policy_cong: "policy_health h = policy_health h' \<Longrightarrow> get_policy i h = get_policy i h'"
  by (simp add: get_policy_def)

lemma recorded_unhealthy:
  assumes "classify stats now h = Unhealthy"
  shows "map pe_route (policy_health (recorded stats now h)) = map pe_route (policy_health h)"
    "get_policy i (recorded stats now h) =
      map_option (\<lambda>p. if i = ph_active_policy h then record_failure now (decay now p) else decay now p) (get_policy i h)"
proof -
  let ?e = "map (\<lambda>e. e\<lparr>pe_health := decay now (pe_health e)\<rparr>) (policy_health h)"
  let ?a = "ph_active_policy h"
  have eq: "policy_health (recorded stats now h) = (if ?a < length ?e
      then ?e[?a := (?e ! ?a)\<lparr>pe_health := record_failure now (pe_health (?e ! ?a))\<rparr>] else ?e)"
    using assms by (simp add: recorded_def record_sample_def update_policy_def fold_counters_def)
  show "map pe_route (policy_health (recorded stats now h)) = map pe_route (policy_health h)"
    unfolding eq by (auto simp: list_eq_iff_nth_eq nth_list_update)
  show "get_policy i (recorded stats now h) =
      map_option (\<lambda>p. if i = ?a then record_failure now (decay now p) else decay now p) (get_policy i h)"
    unfolding get_policy_def eq by (auto simp: nth_list_update)
qed

lemma not_failed_after_decay: "policy_ok p \<Longrightarrow> \<not> is_failed p \<Longrightarrow> \<not> is_failed (decay now p)"
proof -
  assume p: "policy_ok p" "\<not> is_failed p"
  then have "suspicion p < POLICY_FAILURE_SCORE" by (simp add: is_failed_def)
  with decay_suspicion_le [OF p(1), of now] is_failed_score [OF decay_ok [OF p(1)], of now] show ?thesis by simp
qed

lemma silent_sample:
  assumes inv: "health_inv h" and obsd: "has_observed_stats h" and routes: "1 < length routes" "distinct routes" "fits cap (length routes)"
    and same: "map pe_route (policy_health h) = routes"
    and sample: "st_rx_packets stats \<le> last_rx_packets h" "last_tx_packets h < st_tx_packets stats"
    and silent: "INBOUND_SILENCE_TIMEOUT \<le> inbound_silence now h" and cd: "cooldown_elapsed now h"
    and obs: "observe cap stats routes now h = (d, h')" and stays: "\<forall>n r. d \<noteq> Switch n r"
  defines "a \<equiv> min (ph_active_policy h) (length routes - 1)"
  shows "map pe_route (policy_health h') = routes" "ph_active_policy h' = a"
    "\<And>i. get_policy i h' = map_option (\<lambda>p. if i = a then record_failure now (decay now p) else decay now p) (get_policy i h)"
    "last_inbound_at h' = last_inbound_at h" "last_switch h' = last_switch h" "switch_count h' = switch_count h" "ph_jitter h' = ph_jitter h"
    "last_rx_packets h' = st_rx_packets stats" "last_tx_packets h' = st_tx_packets stats" "has_observed_stats h'"
    "policy_failed a h' \<longrightarrow> (\<forall>i < length routes. i \<noteq> a \<longrightarrow> policy_failed i h')"
proof -
  define s where "s = sync_policies cap (ph_active_policy h) routes h"
  define r where "r = recorded stats now s"
  have ps: "policy_health s = policy_health h" using sync_same_routes [OF same routes(2,3)] by (simp add: s_def)
  have as: "ph_active_policy s = a" by (simp add: s_def a_def)
  have sil: "inbound_silence now s = inbound_silence now h" by (simp add: s_def inbound_silence_def split: option.split)
  have cl: "classify stats now s = Unhealthy"
    using sample silent sil by (simp add: classify_def Let_def s_def)
  note rec = recorded_unhealthy [OF cl, folded r_def]
  note O = obs [unfolded observe_later [OF routes(1) obsd] Let_def, folded s_def, unfolded cl Sample.case as, folded r_def]
  have gp: "get_policy i (r\<lparr>recovery_fallback := None\<rparr>) =
      map_option (\<lambda>p. if i = a then record_failure now (decay now p) else decay now p) (get_policy i h)" for i
    using get_policy_cong [of "r\<lparr>recovery_fallback := None\<rparr>" r i] rec(2) [of i] get_policy_cong [OF ps, of i] as by simp
  have pf: "policy_failed i (r\<lparr>recovery_fallback := None\<rparr>) = policy_failed i r" for i by (rule policy_failed_cong) simp
  have cdr: "cooldown_elapsed now (r\<lparr>recovery_fallback := None\<rparr>)"
    using cd cooldown_cong [of "r\<lparr>recovery_fallback := None\<rparr>" h] by (simp add: cooldown_elapsed_def r_def s_def)
  have out: "h' = r\<lparr>recovery_fallback := None\<rparr> \<or> h' = r\<lparr>recovery_fallback := None, ph_liveness := LikelyInactive\<rparr>"
    using O stays by (elim decide_after_unhealthy_cases) auto
  have no: "\<not> policy_failed a r \<or> best_failover_policy a (length routes) (r\<lparr>recovery_fallback := None\<rparr>) = None"
  proof (rule ccontr)
    assume "\<not> ?thesis"
    then obtain n where "policy_failed a r" "best_failover_policy a (length routes) (r\<lparr>recovery_fallback := None\<rparr>) = Some n" by auto
    with O stays cdr pf show False
      by (auto simp: decide_after_unhealthy_def Let_def split: option.splits if_splits prod.splits HealthDecision.splits
          elim!: decide_recovery_probe_cases)
  qed
  show "map pe_route (policy_health h') = routes" using out rec(1) ps same by auto
  show "ph_active_policy h' = a" using out as by (auto simp: r_def)
  show gph: "get_policy i h' = map_option (\<lambda>p. if i = a then record_failure now (decay now p) else decay now p) (get_policy i h)" for i
  proof -
    have "policy_health h' = policy_health (r\<lparr>recovery_fallback := None\<rparr>)" using out by auto
    from get_policy_cong [OF this, of i] gp [of i] show ?thesis by simp
  qed
  have "\<not> st_rx_packets stats > last_rx_packets h" using sample(1) by simp
  then show "last_inbound_at h' = last_inbound_at h" using out by (auto simp: r_def recorded_inbound s_def)
  show "last_switch h' = last_switch h" "switch_count h' = switch_count h" "ph_jitter h' = ph_jitter h"
    "last_rx_packets h' = st_rx_packets stats" "last_tx_packets h' = st_tx_packets stats" "has_observed_stats h'"
    using out obsd by (auto simp: r_def s_def)
  have "policy_failed i h' = policy_failed i (r\<lparr>recovery_fallback := None\<rparr>)" for i
    using gph gp by (simp add: policy_failed_def)
  then show "policy_failed a h' \<longrightarrow> (\<forall>i < length routes. i \<noteq> a \<longrightarrow> policy_failed i h')"
    using no pf best_failover_policy_exists [of _ "length routes" a "r\<lparr>recovery_fallback := None\<rparr>"] by (metis option.distinct(1))
qed

lemma failure_score:
  assumes "policy_ok p" "policy_ok q" "q = record_failure t1 (decay t1 p)" "t2 - t1 < POLICY_FAILURE_DECAY_INTERVAL"
  shows "is_failed (record_failure t2 (decay t2 q))"
proof -
  have q: "2 \<le> suspicion q" "last_failure q = Some t1"
    using decay_ok [OF assms(1), of t1] assms(3)
    by (auto simp: record_failure_def policy_ok_def health_consts sat_i8_def Let_def)
  have "decay t2 q = q\<lparr>suspicion := suspicion q, last_failure := Some t1,
      pol_state := (if suspicion q \<ge> POLICY_FAILURE_SCORE then PolicyFailed else PolicySuspect)\<rparr>"
    using decay_closed [OF assms(2) q(2), of t2] q(1) assms(4) by (simp add: Let_def)
  then have "suspicion (decay t2 q) = suspicion q" by simp
  with q(1) assms(2) show ?thesis
    by (auto simp: is_failed_def record_failure_def Let_def sat_i8_def health_consts policy_ok_def)
qed

lemma silent_route_switches:
  assumes inv: "health_inv h" and obsd: "has_observed_stats h" and clock: "last_switch h \<le> t1" "t1 \<le> t2"
    "t2 - t1 < POLICY_FAILURE_DECAY_INTERVAL"
    and routes: "1 < length routes" "distinct routes" "fits cap (length routes)"
    and same: "map pe_route (policy_health h) = routes"
    and rx: "st_rx_packets s1 \<le> last_rx_packets h" "st_rx_packets s2 \<le> st_rx_packets s1"
    and tx: "last_tx_packets h < st_tx_packets s1" "st_tx_packets s1 < st_tx_packets s2"
    and silent: "INBOUND_SILENCE_TIMEOUT \<le> inbound_silence t1 h" and cd: "cooldown_elapsed t1 h"
    and alt: "i < length routes" "i \<noteq> min (ph_active_policy h) (length routes - 1)" "\<not> policy_failed i h"
  shows "\<exists>n r. Switch n r \<in> set (fst (observe_all cap [(s1, routes, t1), (s2, routes, t2)] h))"
proof (rule ccontr)
  assume no: "\<not> ?thesis"
  define a where "a = min (ph_active_policy h) (length routes - 1)"
  obtain d1 h1 where o1: "observe cap s1 routes t1 h = (d1, h1)" by fastforce
  obtain d2 h2 where o2: "observe cap s2 routes t2 h1 = (d2, h2)" by fastforce
  from no have d: "\<forall>n r. d1 \<noteq> Switch n r" "\<forall>n r. d2 \<noteq> Switch n r"
    by (auto simp: observe_all_Cons [OF o1] observe_all_Cons [OF o2])
  note A = silent_sample [OF inv obsd routes same rx(1) tx(1) silent cd o1 d(1), folded a_def]
  have inv1: "health_inv h1" using observe_step [OF inv clock(1) o1] by simp
  have rt1: "map pe_route (policy_health h1) = routes" by (rule A(1))
  have rx2: "st_rx_packets s2 \<le> last_rx_packets h1" "last_tx_packets h1 < st_tx_packets s2"
    using rx(2) tx(2) A(8,9) by simp_all
  have sil2: "INBOUND_SILENCE_TIMEOUT \<le> inbound_silence t2 h1"
    using silent A(4,5) clock(2) by (auto simp: inbound_silence_def split: option.splits)
  have cd2: "cooldown_elapsed t2 h1"
    using cd cooldown_cong [OF A(6,7)] A(5) clock(2) by (simp add: cooldown_elapsed_def)
  have a1: "min (ph_active_policy h1) (length routes - 1) = a" using A(2) by (simp add: a_def)
  note B = silent_sample [OF inv1 A(10) routes rt1 rx2 sil2 cd2 o2 d(2), unfolded a1]
  have "length (policy_health h) = length routes" using same by (metis length_map)
  moreover have "a < length routes" using routes(1) by (auto simp: a_def)
  ultimately obtain p where p: "get_policy a h = Some p" "policy_ok p"
    using inv by (simp add: get_policy_def health_inv_def policies_ok_def)
  have ok1: "policy_ok (record_failure t1 (decay t1 p))" using p(2) by simp
  have "get_policy a h2 = Some (record_failure t2 (decay t2 (record_failure t1 (decay t1 p))))"
    using B(3) [of a] A(3) [of a] p(1) by simp
  with failure_score [OF p(2) ok1 refl clock(3)] have "policy_failed a h2" by (simp add: policy_failed_def)
  with B(11) alt(1,2) have "policy_failed i h2" by (simp add: a_def)
  moreover obtain q where q: "get_policy i h = Some q" "policy_ok q" "\<not> is_failed q"
    using alt(1,3) inv \<open>length (policy_health h) = length routes\<close>
    by (simp add: get_policy_def health_inv_def policies_ok_def policy_failed_def)
  then have "get_policy i h2 = Some (decay t2 (decay t1 q))" using B(3) [of i] A(3) [of i] alt(2) by (simp add: a_def)
  ultimately have "is_failed (decay t2 (decay t1 q))" by (simp add: policy_failed_def)
  moreover have "\<not> is_failed (decay t2 (decay t1 q))"
    using not_failed_after_decay [OF decay_ok [OF q(2)]] not_failed_after_decay [OF q(2,3)] by blast
  ultimately show False by contradiction
qed

lemma sync_policies_routes:
  "fits cap (length routes) \<Longrightarrow> map pe_route (policy_health (sync_policies cap a routes h)) = routes"
proof -
  have "pe_route (entry_for es r) = r" for es r
    by (auto simp: entry_for_def policy_health_entry_new_def find_Some_iff split: option.split)
  then have "map pe_route (map (entry_for (policy_health h)) routes) = routes" by (simp add: comp_def)
  then show "fits cap (length routes) \<Longrightarrow> ?thesis" by (auto simp: sync_policies_def foldl_push fits_def split: option.splits)
qed

lemma recorded_routes: "map pe_route (policy_health (recorded stats now h)) = map pe_route (policy_health h)"
proof -
  have "map pe_route (policy_health (update_policy i f g)) = map pe_route (policy_health g)" for i f g
    by (auto simp: update_policy_def list_eq_iff_nth_eq nth_list_update)
  then show ?thesis by (simp add: recorded_def record_defs fold_counters_def comp_def split: Sample.split)
qed

lemma active_route_nth:
  assumes "map pe_route (policy_health h) = routes" "ph_active_policy h < length routes"
  shows "active_route h = Some (routes ! ph_active_policy h)"
  using assms(2) unfolding assms(1) [symmetric] by (simp add: active_route_def)

text \<open>A probe remembers the route it came from, and starts with nothing received.\<close>

lemma probe_state:
  assumes "observe cap stats routes now h0 = (Switch n RecoveryProbe, h)"
  defines "a \<equiv> min (ph_active_policy h0) (length routes - 1)"
  shows "1 < length routes \<and> n < a \<and> a < length routes \<and> has_observed_stats h \<and> recovery_fallback h = Some a \<and> ph_active_policy h = n \<and>
    last_switch h = now \<and> last_inbound_at h = None \<and> last_rx_packets h = st_rx_packets stats \<and> last_tx_packets h = st_tx_packets stats \<and>
    map pe_route (policy_health h) = map pe_route (policy_health (sync_policies cap (ph_active_policy h0) routes h0))"
proof -
  let ?s = "sync_policies cap (ph_active_policy h0) routes h0"
  have l: "1 < length routes" using assms(1) by (cases "1 < length routes") (simp_all add: observe_few_routes not_less)
  have o: "has_observed_stats h0" using assms(1) l observe_first by fastforce
  let ?r = "(recorded stats now ?s)\<lparr>recovery_fallback := None\<rparr>"
  have "h = switch_to n now True ?r \<and> n < a"
  proof (cases "classify stats now ?s")
    case Healthy
    then have "decide_recovery_probe a (last_tx_packets ?s < st_tx_packets stats) (recovery_attempt_due now ?s) now ?r = (Switch n RecoveryProbe, h)"
      using assms(1) unfolding observe_later [OF l o] by (simp add: Let_def a_def)
    then show ?thesis by (rule decide_recovery_probe_cases) simp_all
  next
    case Unhealthy
    then have "decide_after_unhealthy a (length routes) (last_tx_packets ?s < st_tx_packets stats) (recovery_attempt_due now ?s) now (recorded stats now ?s)
        = (Switch n RecoveryProbe, h)"
      using assms(1) unfolding observe_later [OF l o] by (simp add: Let_def a_def)
    then show ?thesis by (rule decide_after_unhealthy_cases) simp_all
  next
    case Idle
    then show ?thesis using assms(1) unfolding observe_later [OF l o] by (simp add: Let_def)
  qed
  moreover have "map pe_route (policy_health ?r) = map pe_route (policy_health ?s)" using recorded_routes [of stats now ?s] by simp
  moreover have "a < length routes" using l by (auto simp: a_def)
  ultimately show ?thesis using l o by (simp add: a_def)
qed

text \<open>A probe that stays silent, after the table of routes was synced again.\<close>

lemma silent_probe:
  assumes "1 < length routes" "has_observed_stats h" "recovery_fallback h = Some f" "f < length routes" "n < length routes"
    and "last_inbound_at h = None" "last_switch h + INBOUND_SILENCE_TIMEOUT \<le> now"
    and "st_rx_packets stats \<le> last_rx_packets h" "last_tx_packets h < st_tx_packets stats" "fits cap (length routes)"
    and "observe cap stats routes now (sync_policies cap n routes h) = (d, h')"
  shows "if n = f then \<forall>m. d \<noteq> Switch m RecoveryFailed
    else d = Switch f RecoveryFailed \<and> active_route h' = Some (routes ! f)"
proof -
  let ?s = "sync_policies cap n routes h"
  let ?t = "sync_policies cap (ph_active_policy ?s) routes ?s"
  have n: "min n (length routes - 1) = n" using assms(5) by simp
  have t: "classify stats now ?t = Unhealthy" "ph_active_policy ?t = n" "recovery_fallback (recorded stats now ?t) = Some f"
    using assms(3-9) n by (simp_all add: classify_def inbound_silence_def sync_policies_def [of _ _ _ h] sync_policies_def)
  have ok: "has_observed_stats ?s" using assms(2) by simp
  have "decide_after_unhealthy n (length routes) (last_tx_packets ?t < st_tx_packets stats) (recovery_attempt_due now ?t) now (recorded stats now ?t) = (d, h')"
    using assms(11) t(1) n unfolding observe_later [OF assms(1) ok] by (simp add: Let_def)
  then obtain sent due where o: "decide_after_unhealthy n (length routes) sent due now (recorded stats now ?t) = (d, h')" by blast
  show ?thesis
  proof (cases "n = f")
    case True
    then show ?thesis using o t(3) by (auto elim: decide_after_unhealthy_cases)
  next
    case False
    then have d: "d = Switch f RecoveryFailed" "h' = switch_to f now False ((recorded stats now ?t)\<lparr>recovery_fallback := None\<rparr>)"
      using o t(3) assms(4) by (auto simp: decide_after_unhealthy_def Let_def)
    have "map pe_route (policy_health h') = routes"
      using d(2) recorded_routes [of stats now ?t] sync_policies_routes [OF assms(10)] by simp
    then have "active_route h' = Some (routes ! f)" using active_route_nth [of h' routes] d(2) assms(4) by simp
    with d(1) False show ?thesis by simp
  qed
qed

section \<open>Properties\<close>

text \<open>A sample keeps the state of the peer well-formed, and its decision is sound: a switch goes to another
  existing route, which becomes the active one, a failover only to a route that has not failed and a
  probe only to a preferred one; the least distance from the previous switch is kept; without a
  switch the route stays, clamped to the routes there are.\<close>

theorem observe_sound:
  assumes "health_inv h" and "last_switch h \<le> now" and "observe cap stats routes now h = (d, h')"
  shows "health_inv h' \<and> switch_post (length routes) now h d h'"
  using observe_step [OF assms] by simp

definition sample_route :: "nat \<Rightarrow> RouteKey" where
  "sample_route n = RelayRoute [of_nat n]"

definition sample_stats :: "nat \<Rightarrow> nat \<Rightarrow> PeerStats" where
  "sample_stats tx rx = \<lparr>st_tx_packets = tx, st_rx_packets = rx\<rparr>"

theorem observe_sound_witness:
  "let (d, h') = observe None (sample_stats 5 0) [sample_route 0, sample_route 1] SECOND (new_with_jitter 0 0 0)
   in health_inv h' \<and> switch_post 2 SECOND (new_with_jitter 0 0 0) d h'"
proof -
  have c: "last_switch (new_with_jitter 0 0 0) \<le> SECOND" by (simp add: new_with_jitter_def)
  obtain d h' where o: "observe None (sample_stats 5 0) [sample_route 0, sample_route 1] SECOND (new_with_jitter 0 0 0) = (d, h')"
    by fastforce
  from observe_sound [OF new_with_jitter_inv c o] o show ?thesis by (simp add: numeral_2_eq_2)
qed

text \<open>C19. A peer does not flap: over any run of samples in the order of time, with routes that may change, a failover
  or a probe comes at least 120 seconds and the jitter after every earlier switch, and the return
  from a probe at least 25 seconds after it.\<close>

theorem switches_are_spaced:
  assumes "sorted (t0 # map sample_time ss)" and "i < j" and "j < length ss"
    and "fst (observe_all cap ss (new_with_jitter a t0 jitter)) ! i = Switch m q"
    and "fst (observe_all cap ss (new_with_jitter a t0 jitter)) ! j = Switch n r"
  shows "(if r = RecoveryFailed then 25 * SECOND else 120 * SECOND + jitter) \<le> sample_time (ss ! j) - sample_time (ss ! i)"
proof -
  have "last_switch (new_with_jitter a t0 jitter) = t0" "ph_jitter (new_with_jitter a t0 jitter) = jitter"
    by (simp_all add: new_with_jitter_def)
  with switch_spacing [OF new_with_jitter_inv _ assms(2-5)] assms(1) show ?thesis
    by (simp add: later_gap_def INBOUND_SILENCE_TIMEOUT_def MIN_POLICY_SWITCH_INTERVAL_def cong: if_cong)
qed

definition sample_run :: "health_sample list" where
  "sample_run = map (\<lambda>(tx, t). (sample_stats tx 0, map sample_route [0, 1, 2], t * SECOND))
     [(1, 5), (2, 30), (3, 35), (4, 60), (5, 65), (6, 160)]"

lemma sample_run_decisions:
  "fst (observe_all None sample_run (new_with_jitter 0 0 0)) =
     [Stay, Stay, Switch 1 Failover, Stay, Stay, Switch 2 Failover]"
  by code_simp

theorem switches_are_spaced_witness:
  "120 * SECOND \<le> sample_time (sample_run ! 5) - sample_time (sample_run ! 2)"
proof -
  have "sorted (0 # map sample_time sample_run)" by (simp add: sample_run_def SECOND_def)
  from switches_are_spaced [OF this, of 2 5 None 0 0 1 Failover 2 Failover] show ?thesis
    by (simp add: sample_run_decisions) (simp add: sample_run_def)
qed

text \<open>C21. A route that works is never blamed: when the receive counter grows within every 25 seconds, however often it is
  sampled, no route gets a suspicion, and every decision is to stay or to probe a preferred route.\<close>

theorem steady_inbound_never_blamed:
  assumes "steady_inbound ((t0, 0) # map (\<lambda>s. (sample_time s, sample_rx s)) ss)"
  shows "unblamed (snd (observe_all cap ss (new_with_jitter a t0 jitter))) \<and>
    (\<forall>d \<in> set (fst (observe_all cap ss (new_with_jitter a t0 jitter))). d = Stay \<or> (\<exists>n. d = Switch n RecoveryProbe))"
proof -
  have "unblamed (new_with_jitter a t0 jitter)" "seen_by [(t0, 0)] (new_with_jitter a t0 jitter)"
    by (simp_all add: unblamed_def seen_by_def new_with_jitter_def inbound_anchor_def)
  from steady_run [OF this] assms show ?thesis by simp
qed

theorem steady_inbound_never_blamed_witness:
  "unblamed (snd (observe_all None
     [(sample_stats 1 1, map sample_route [0, 1], 5 * SECOND), (sample_stats 2 1, map sample_route [0, 1], 20 * SECOND),
      (sample_stats 3 2, map sample_route [0, 1], 30 * SECOND)] (new_with_jitter 0 0 0)))"
proof -
  have "steady_inbound ((0, 0) # map (\<lambda>s. (sample_time s, sample_rx s))
     [(sample_stats 1 1, map sample_route [0, 1], 5 * SECOND), (sample_stats 2 1, map sample_route [0, 1], 20 * SECOND),
      (sample_stats 3 2, map sample_route [0, 1], 30 * SECOND)])"
    by (auto simp: steady_inbound_def less_Suc_eq sample_stats_def SECOND_def INBOUND_SILENCE_TIMEOUT_def)
  from steady_inbound_never_blamed [OF this] show ?thesis by simp
qed

text \<open>C20. A dead route is left: when packets go out and none come in past the silence window and the cooldown, two samples
  in a row make the peer switch, if it has another route that has not failed.\<close>

theorem dead_route_is_left:
  assumes "health_inv h" and "has_observed_stats h" and "last_switch h \<le> t1" and "t1 \<le> t2"
    and "t2 - t1 < POLICY_FAILURE_DECAY_INTERVAL"
    and "1 < length routes" and "distinct routes" and "fits cap (length routes)"
    and "map pe_route (policy_health h) = routes"
    and "st_rx_packets s1 \<le> last_rx_packets h" and "st_rx_packets s2 \<le> st_rx_packets s1"
    and "last_tx_packets h < st_tx_packets s1" and "st_tx_packets s1 < st_tx_packets s2"
    and "INBOUND_SILENCE_TIMEOUT \<le> inbound_silence t1 h" and "cooldown_elapsed t1 h"
    and "i < length routes" and "i \<noteq> min (ph_active_policy h) (length routes - 1)" and "\<not> policy_failed i h"
  shows "\<exists>n r. Switch n r \<in> set (fst (observe_all cap [(s1, routes, t1), (s2, routes, t2)] h))"
  by (rule silent_route_switches [OF assms])

theorem dead_route_is_left_witness:
  "let routes = map sample_route [0, 1];
       h = snd (observe_all None [(sample_stats 1 0, routes, 5 * SECOND)] (new_with_jitter 0 0 0))
   in \<exists>n r. Switch n r \<in> set (fst (observe_all None
        [(sample_stats 2 0, routes, 30 * SECOND), (sample_stats 3 0, routes, 35 * SECOND)] h))"
proof -
  let ?routes = "map sample_route [0, 1]"
  let ?h = "snd (observe_all None [(sample_stats 1 0, ?routes, 5 * SECOND)] (new_with_jitter 0 0 0))"
  have h: "health_inv ?h" "has_observed_stats ?h" "last_switch ?h \<le> 30 * SECOND" "30 * SECOND \<le> 35 * SECOND"
      "35 * SECOND - 30 * SECOND < POLICY_FAILURE_DECAY_INTERVAL"
      "1 < length ?routes" "distinct ?routes" "fits None (length ?routes)" "map pe_route (policy_health ?h) = ?routes"
    by code_simp+
  have s: "st_rx_packets (sample_stats 2 0) \<le> last_rx_packets ?h"
      "st_rx_packets (sample_stats 3 0) \<le> st_rx_packets (sample_stats 2 0)"
      "last_tx_packets ?h < st_tx_packets (sample_stats 2 0)" "st_tx_packets (sample_stats 2 0) < st_tx_packets (sample_stats 3 0)"
      "INBOUND_SILENCE_TIMEOUT \<le> inbound_silence (30 * SECOND) ?h" "cooldown_elapsed (30 * SECOND) ?h"
      "1 < length ?routes" "1 \<noteq> min (ph_active_policy ?h) (length ?routes - 1)" "\<not> policy_failed 1 ?h"
    by code_simp+
  from dead_route_is_left [OF h s] show ?thesis by (simp only: Let_def)
qed

text \<open>C34. The fallback of a probe is an index, and an update that reorders the routes does not move it. A peer that
  probes route \<open>n\<close> from route \<open>a\<close> keeps the probed route over any reordering that moves the route it came
  from; when the probe then stays silent, it never falls back on that route: it switches to whatever
  route took the place \<open>a\<close>, or, when that is the probed route itself, does not fall back at all.\<close>

theorem reordered_fallback_is_another_route:
  assumes "observe cap s1 routes t1 h0 = (Switch n RecoveryProbe, h)" and "a = min (ph_active_policy h0) (length routes - 1)"
    and "distinct routes" and "distinct routes'" and "set routes' = set routes" and "fits cap (length routes)"
    and "n' < length routes'" and "routes' ! n' = routes ! n" and "routes' ! a \<noteq> routes ! a"
    and "t1 + INBOUND_SILENCE_TIMEOUT \<le> t2"
    and "st_rx_packets s2 \<le> st_rx_packets s1" and "st_tx_packets s1 < st_tx_packets s2"
    and "observe cap s2 routes' t2 (sync_policies cap n' routes' h) = (d, h')"
  shows "active_route h = Some (routes ! n) \<and> recovery_fallback h = Some a \<and>
    (if n' = a then \<forall>m. d \<noteq> Switch m RecoveryFailed
     else d = Switch a RecoveryFailed \<and> active_route h' = Some (routes' ! a) \<and> routes' ! a \<noteq> routes ! a)"
proof -
  have len: "length routes' = length routes" using assms(3-5) distinct_card by metis
  from probe_state [OF assms(1)] assms(2) have h: "n < a" "a < length routes" "1 < length routes" "has_observed_stats h"
      "recovery_fallback h = Some a" "ph_active_policy h = n" "last_switch h = t1" "last_inbound_at h = None"
      "last_rx_packets h = st_rx_packets s1" "last_tx_packets h = st_tx_packets s1" "map pe_route (policy_health h) = map pe_route (policy_health (sync_policies cap (ph_active_policy h0) routes h0))"
    by auto
  have r: "map pe_route (policy_health h) = routes" using h(11) sync_policies_routes [OF assms(6)] by simp
  have "active_route h = Some (routes ! n)" using active_route_nth [OF r] h(1,2,6) by simp
  moreover have "t1 + INBOUND_SILENCE_TIMEOUT \<le> t2 \<Longrightarrow> last_switch h + INBOUND_SILENCE_TIMEOUT \<le> t2" using h(7) by simp
  ultimately show ?thesis
    using silent_probe [of routes' h a n' t2 s2 cap d h'] h(2-5,8-10) len assms(6,7,9-13) by (simp split: if_splits)
qed

text \<open>Three routes, a probe of the first from the second, and the last two swapped.\<close>

theorem reordered_fallback_is_another_route_witness:
  "\<exists>d h'. observe None (sample_stats 3 2) (map sample_route [0, 2, 1]) (160 * SECOND)
       (sync_policies None 0 (map sample_route [0, 2, 1])
         (snd (observe None (sample_stats 2 2) (map sample_route [0, 1, 2]) (130 * SECOND)
           (snd (observe None (sample_stats 1 1) (map sample_route [0, 1, 2]) (5 * SECOND) (new_with_jitter 1 0 0)))))) = (d, h') \<and>
     d = Switch 1 RecoveryFailed \<and> active_route h' = Some (sample_route 2)"
proof -
  let ?routes = "map sample_route [0, 1, 2]" and ?routes' = "map sample_route [0, 2, 1]"
  define h0 where "h0 = snd (observe None (sample_stats 1 1) ?routes (5 * SECOND) (new_with_jitter 1 0 0))"
  obtain d1 h where o: "observe None (sample_stats 2 2) ?routes (130 * SECOND) h0 = (d1, h)" by fastforce
  have "fst (observe None (sample_stats 2 2) ?routes (130 * SECOND) h0) = Switch 0 RecoveryProbe" unfolding h0_def by code_simp
  with o have o1: "observe None (sample_stats 2 2) ?routes (130 * SECOND) h0 = (Switch 0 RecoveryProbe, h)" by simp
  have a: "1 = min (ph_active_policy h0) (length ?routes - 1)" unfolding h0_def by code_simp
  have r: "distinct ?routes" "distinct ?routes'" "set ?routes' = set ?routes" "fits None (length ?routes)" "0 < length ?routes'"
      "?routes' ! 0 = ?routes ! 0" "?routes' ! 1 \<noteq> ?routes ! 1" "130 * SECOND + INBOUND_SILENCE_TIMEOUT \<le> 160 * SECOND"
      "st_rx_packets (sample_stats 3 2) \<le> st_rx_packets (sample_stats 2 2)" "st_tx_packets (sample_stats 2 2) < st_tx_packets (sample_stats 3 2)"
    by (auto simp: sample_route_def sample_stats_def fits_def SECOND_def INBOUND_SILENCE_TIMEOUT_def)
  obtain d h' where o2: "observe None (sample_stats 3 2) ?routes' (160 * SECOND) (sync_policies None 0 ?routes' h) = (d, h')" by fastforce
  have "snd (observe None (sample_stats 2 2) ?routes (130 * SECOND) h0) = h" by (simp only: o snd_conv)
  moreover from reordered_fallback_is_another_route [OF o1 a r(1-10) o2] have "d = Switch 1 RecoveryFailed" "active_route h' = Some (sample_route 2)"
    by simp_all
  ultimately show ?thesis using o2 unfolding h0_def by (simp only:) blast
qed

end
