(* ===== verification/Route_Policy.thy ===== *)
theory Route_Policy
  imports Peers Peer_Health
begin

text \<open>
  From a network map to the peers wanted on the device (the types of \<^verbatim>\<open>types/v1alpha1/net_map.rs\<close>
  and the pure part of \<^verbatim>\<open>control/reconciler.rs\<close>): routes become route policies, duplicates are
  collapsed, the policies are sorted by priority and one of the best is selected. Capacities are
  arguments; a \<^verbatim>\<open>usize\<close> has 64 bits. Policies of equal priority keep their order when sorted,
  which the source leaves open; no lemma depends on it.
\<close>

section \<open>The network map\<close>

datatype RouteKind = KindDirect "SocketAddr option" | KindRelay int

record Route =
  rt_priority :: u16
  rt_kind :: RouteKind

record MapPeer =
  mp_id :: int
  mp_public_key :: bytes
  mp_tunnel_ip :: "IpAddr option"
  mp_is_directory :: bool
  mp_routes :: "Route list"

record NetworkMap =
  nm_updated_at :: int
  nm_peers :: "MapPeer list"

section \<open>Policies\<close>

datatype RoutePolicy = DirectPolicy "SocketAddr option" u16 | RelayPolicy bytes u16

datatype ReconcileError = DeviceFailed DeviceError | CapacityExceeded string | FetchNetworkMap

record control_caps =
  cc_peers :: "nat option"
  cc_allowed :: "nat option"
  cc_routes :: "nat option"

definition capacity :: "CapacityError + 'a \<Rightarrow> ReconcileError + 'a" where
  "capacity r = (case r of Inl e \<Rightarrow> Inl (CapacityExceeded (cap_context e)) | Inr x \<Rightarrow> Inr x)"

fun policy_priority :: "RoutePolicy \<Rightarrow> u16" where
  "policy_priority (DirectPolicy _ p) = p" | "policy_priority (RelayPolicy _ p) = p"

fun set_priority :: "u16 \<Rightarrow> RoutePolicy \<Rightarrow> RoutePolicy" where
  "set_priority p (DirectPolicy e _) = DirectPolicy e p" | "set_priority p (RelayPolicy r _) = RelayPolicy r p"

fun same_route :: "RoutePolicy \<Rightarrow> RoutePolicy \<Rightarrow> bool" where
  "same_route (DirectPolicy a _) (DirectPolicy b _) \<longleftrightarrow> a = b"
| "same_route (RelayPolicy a _) (RelayPolicy b _) \<longleftrightarrow> a = b"
| "same_route _ _ \<longleftrightarrow> False"

fun route_key :: "RoutePolicy \<Rightarrow> RouteKey" where
  "route_key (DirectPolicy e _) = DirectRoute e" | "route_key (RelayPolicy r _) = RelayRoute r"

text \<open>\<^verbatim>\<open>iter_mut().find(..)\<close> with the change of the policy found; \<open>None\<close> when there is none.\<close>

fun collapse :: "RoutePolicy \<Rightarrow> RoutePolicy list \<Rightarrow> RoutePolicy list option" where
  "collapse p [] = None"
| "collapse p (e # es) =
     (if same_route e p
      then Some ((if policy_priority p < policy_priority e then set_priority (policy_priority p) e else e) # es)
      else map_option (Cons e) (collapse p es))"

fun dedupe_loop :: "nat option \<Rightarrow> RoutePolicy list \<Rightarrow> RoutePolicy list \<Rightarrow> ReconcileError + RoutePolicy list" where
  "dedupe_loop cap [] deduped = Inr deduped"
| "dedupe_loop cap (p # ps) deduped = (case collapse p deduped of
     Some deduped' \<Rightarrow> dedupe_loop cap ps deduped'
   | None \<Rightarrow> (case capacity (try_push cap ''route policies'' p deduped) of
       Inl e \<Rightarrow> Inl e | Inr deduped' \<Rightarrow> dedupe_loop cap ps deduped'))"

definition dedupe_and_sort_policies :: "nat option \<Rightarrow> RoutePolicy list \<Rightarrow> ReconcileError + RoutePolicy list" where
  "dedupe_and_sort_policies cap policies = (case dedupe_loop cap policies [] of
     Inl e \<Rightarrow> Inl e | Inr deduped \<Rightarrow> Inr (sort_key policy_priority deduped))"

fun expand_routes :: "nat option \<Rightarrow> NetworkMap \<Rightarrow> MapPeer \<Rightarrow> Route list \<Rightarrow> RoutePolicy list \<Rightarrow> ReconcileError + RoutePolicy list" where
  "expand_routes cap m destination [] policies = Inr policies"
| "expand_routes cap m destination (r # rs) policies = (case rt_kind r of
     KindDirect endpoint \<Rightarrow>
       (case capacity (try_push cap ''route policies'' (DirectPolicy endpoint (rt_priority r)) policies) of
          Inl e \<Rightarrow> Inl e | Inr policies' \<Rightarrow> expand_routes cap m destination rs policies')
   | KindRelay i \<Rightarrow>
       (case find (\<lambda>p. mp_id p = i) (nm_peers m) of
          None \<Rightarrow> expand_routes cap m destination rs policies
        | Some relay \<Rightarrow>
            if mp_public_key relay = mp_public_key destination then expand_routes cap m destination rs policies
            else (case capacity (try_push cap ''route policies'' (RelayPolicy (mp_public_key relay) (rt_priority r)) policies) of
              Inl e \<Rightarrow> Inl e | Inr policies' \<Rightarrow> expand_routes cap m destination rs policies')))"

definition route_policies_for_peer :: "nat option \<Rightarrow> NetworkMap \<Rightarrow> MapPeer \<Rightarrow> ReconcileError + RoutePolicy list" where
  "route_policies_for_peer cap m destination = (case expand_routes cap m destination (mp_routes destination) [] of
     Inl e \<Rightarrow> Inl e
   | Inr policies \<Rightarrow>
       (case (if policies = [] then capacity (try_push cap ''route policies'' (DirectPolicy None 0) policies) else Inr policies) of
          Inl e \<Rightarrow> Inl e | Inr policies' \<Rightarrow> dedupe_and_sort_policies cap policies'))"

definition random_below :: "('r \<Rightarrow> u64 \<times> 'r) \<Rightarrow> 'r \<Rightarrow> nat \<Rightarrow> nat \<times> 'r" where
  "random_below next_u64 rng n = (if n = 0 then (0, rng) else case next_u64 rng of (x, rng') \<Rightarrow> (unat x mod n, rng'))"

definition initial_policy_index :: "('r \<Rightarrow> u64 \<times> 'r) \<Rightarrow> 'r \<Rightarrow> RoutePolicy list \<Rightarrow> nat \<times> 'r" where
  "initial_policy_index next_u64 rng policies =
     (if policies = [] then (0, rng)
      else
        let best_priority = Min (set (map policy_priority policies));
            candidates = filter (\<lambda>i. policy_priority (policies ! i) = best_priority) [0..<length policies]
        in case random_below next_u64 rng (length candidates) of
             (chosen, rng') \<Rightarrow> (if chosen < length candidates then candidates ! chosen else 0, rng'))"

fun route_keys_loop :: "nat option \<Rightarrow> RoutePolicy list \<Rightarrow> RouteKey list \<Rightarrow> ReconcileError + RouteKey list" where
  "route_keys_loop cap [] routes = Inr routes"
| "route_keys_loop cap (p # ps) routes = (case capacity (try_push cap ''route keys'' (route_key p) routes) of
     Inl e \<Rightarrow> Inl e | Inr routes' \<Rightarrow> route_keys_loop cap ps routes')"

definition route_keys_for_policies :: "nat option \<Rightarrow> RoutePolicy list \<Rightarrow> ReconcileError + RouteKey list" where
  "route_keys_for_policies cap policies = route_keys_loop cap policies []"

section \<open>Desired peers\<close>

record DesiredPeer =
  dp_public_key :: bytes
  dp_allowed_ips :: "IpAddr list"
  dp_keepalive :: "u16 option"
  dp_policies :: "RoutePolicy list"
  dp_active_route :: "RouteKey option"
  dp_active_policy :: nat

definition active_policy_index :: "DesiredPeer \<Rightarrow> nat" where
  "active_policy_index p = min (dp_active_policy p) (length (dp_policies p) - 1)"

definition get_at :: "nat \<Rightarrow> 'a list \<Rightarrow> 'a option" where
  "get_at i xs = (if i < length xs then Some (xs ! i) else None)"

definition set_active_policy :: "nat \<Rightarrow> DesiredPeer \<Rightarrow> DesiredPeer" where
  "set_active_policy i p =
     (let a = min i (length (dp_policies p) - 1)
      in p\<lparr>dp_active_policy := a, dp_active_route := map_option route_key (get_at a (dp_policies p))\<rparr>)"

fun direct_endpoint :: "RoutePolicy \<Rightarrow> SocketAddr option" where
  "direct_endpoint (DirectPolicy e _) = e" | "direct_endpoint (RelayPolicy _ _) = None"

definition preferred_direct_endpoint :: "DesiredPeer \<Rightarrow> SocketAddr option" where
  "preferred_direct_endpoint p =
     (case find (\<lambda>q. direct_endpoint q \<noteq> None) (dp_policies p) of None \<Rightarrow> None | Some q \<Rightarrow> direct_endpoint q)"

text \<open>\<^verbatim>\<open>IpNet::new(ip, host_prefix).expect(..)\<close>, which never fails.\<close>

fun host_net :: "IpAddr \<Rightarrow> IpNet" where
  "host_net (AddrV4 a) = NetV4 \<lparr>v4_addr = a, v4_prefix_len = 32\<rparr>"
| "host_net (AddrV6 a) = NetV6 \<lparr>v6_addr = a, v6_prefix_len = 128\<rparr>"

lemma host_net_new: "ipnet_new ip (case ip of AddrV4 _ \<Rightarrow> 32 | AddrV6 _ \<Rightarrow> 128) = Inr (host_net ip)"
  by (cases ip) (simp_all add: ipnet_new_def ipv4net_new_def ipv6net_new_def)

definition config_for_policy :: "nat \<Rightarrow> u16 option \<Rightarrow> DesiredPeer \<Rightarrow> PeerConfig" where
  "config_for_policy i keepalive p =
     (let (endpoint, relay) = (case get_at i (dp_policies p) of
            Some (DirectPolicy e _) \<Rightarrow> (e, None)
          | Some (RelayPolicy r _) \<Rightarrow> (preferred_direct_endpoint p, Some r)
          | None \<Rightarrow> (None, None))
      in \<lparr>pc_public_key = dp_public_key p, pc_endpoint = endpoint, pc_allowed_ips = map host_net (dp_allowed_ips p),
          pc_keepalive = keepalive, pc_relay = relay\<rparr>)"

definition dp_config :: "DesiredPeer \<Rightarrow> PeerConfig" where
  "dp_config p = config_for_policy (active_policy_index p) (dp_keepalive p) p"

fun directory_loop :: "nat option \<Rightarrow> MapPeer list \<Rightarrow> MapPeer list \<Rightarrow> ReconcileError + MapPeer list" where
  "directory_loop cap [] directories = Inr directories"
| "directory_loop cap (p # ps) directories =
     (if mp_is_directory p
      then (case capacity (try_push cap ''directory peers'' p directories) of
        Inl e \<Rightarrow> Inl e | Inr directories' \<Rightarrow> directory_loop cap ps directories')
      else directory_loop cap ps directories)"

definition directory_servers_from_map :: "nat option \<Rightarrow> NetworkMap \<Rightarrow> ReconcileError + MapPeer list" where
  "directory_servers_from_map cap m = directory_loop cap (nm_peers m) []"

type_synonym desired_map = "(bytes \<times> DesiredPeer) list"

definition desired_peer :: "MapPeer \<Rightarrow> IpAddr list \<Rightarrow> RoutePolicy list \<Rightarrow> nat \<Rightarrow> DesiredPeer" where
  "desired_peer p allowed_ips policies active =
     \<lparr>dp_public_key = mp_public_key p, dp_allowed_ips = allowed_ips, dp_keepalive = (if mp_is_directory p then Some 25 else None),
      dp_policies = policies, dp_active_route = map_option route_key (get_at active policies), dp_active_policy = active\<rparr>"

fun desired_loop :: "control_caps \<Rightarrow> ('r \<Rightarrow> u64 \<times> 'r) \<Rightarrow> NetworkMap \<Rightarrow> MapPeer list \<Rightarrow> 'r \<Rightarrow> desired_map \<Rightarrow>
    (ReconcileError + desired_map) \<times> 'r" where
  "desired_loop K next_u64 m [] rng desired = (Inr desired, rng)"
| "desired_loop K next_u64 m (p # ps) rng desired =
     (case (case mp_tunnel_ip p of None \<Rightarrow> Inr [] | Some ip \<Rightarrow> capacity (try_push (cc_allowed K) ''allowed IPs'' ip [])) of
        Inl e \<Rightarrow> (Inl e, rng)
      | Inr allowed_ips \<Rightarrow>
          (case route_policies_for_peer (cc_routes K) m p of
             Inl e \<Rightarrow> (Inl e, rng)
           | Inr policies \<Rightarrow>
               if policies = [] then desired_loop K next_u64 m ps rng desired
               else (case initial_policy_index next_u64 rng policies of (active, rng') \<Rightarrow>
                 (case capacity (try_insert_entry (cc_peers K) ''desired peers'' (mp_public_key p)
                    (desired_peer p allowed_ips policies active) desired) of
                    Inl e \<Rightarrow> (Inl e, rng')
                  | Inr desired' \<Rightarrow> desired_loop K next_u64 m ps rng' desired'))))"

definition desired_peers_from_map ::
  "control_caps \<Rightarrow> ('r \<Rightarrow> u64 \<times> 'r) \<Rightarrow> NetworkMap \<Rightarrow> 'r \<Rightarrow> (ReconcileError + desired_map) \<times> 'r" where
  "desired_peers_from_map K next_u64 m rng = desired_loop K next_u64 m (nm_peers m) rng []"

section \<open>Normalized policies\<close>

text \<open>One policy per route, with the best of its priorities, the best first.\<close>

definition normal_policies :: "RoutePolicy list \<Rightarrow> RoutePolicy list \<Rightarrow> bool" where
  "normal_policies ps out \<longleftrightarrow> distinct (map route_key out) \<and> route_key ` set out = route_key ` set ps \<and>
     (\<forall>q \<in> set out. q \<in> set ps \<and> (\<forall>p \<in> set ps. route_key p = route_key q \<longrightarrow> policy_priority q \<le> policy_priority p))"

lemma same_route_key: "same_route a b \<longleftrightarrow> route_key a = route_key b"
  by (cases a; cases b) auto

lemma set_priority_simps [simp]: "route_key (set_priority n p) = route_key p" "policy_priority (set_priority n p) = n"
  by (cases p; simp)+

lemma policy_eqI: "route_key p = route_key q \<Longrightarrow> policy_priority p = policy_priority q \<Longrightarrow> p = q"
  by (cases p; cases q) auto

lemma capacity_simps [simp]:
  "capacity (Inr x) = Inr x" "capacity r = Inr x \<longleftrightarrow> r = Inr x" "capacity (Inl e) = Inl (CapacityExceeded (cap_context e))"
  by (auto simp: capacity_def split: sum.split)

lemma collapse_None: "collapse p es = None \<longleftrightarrow> route_key p \<notin> route_key ` set es"
  by (induction es) (auto simp: same_route_key)

lemma collapse_Some:
  "collapse p es = Some es' \<Longrightarrow> distinct (map route_key es) \<Longrightarrow> map route_key es' = map route_key es \<and>
     (\<forall>q' \<in> set es'. (route_key q' \<noteq> route_key p \<longrightarrow> q' \<in> set es) \<and> (route_key q' = route_key p \<longrightarrow>
        (\<exists>q \<in> set es. route_key q = route_key p \<and> policy_priority q' = min (policy_priority p) (policy_priority q))))"
proof (induction es arbitrary: es')
  case (Cons e es)
  show ?case
  proof (cases "same_route e p")
    case True
    then have k: "route_key e = route_key p" by (simp add: same_route_key)
    from True Cons.prems(1) have es': "es' = (if policy_priority p < policy_priority e then set_priority (policy_priority p) e else e) # es" by auto
    have "route_key p \<notin> route_key ` set es" using Cons.prems(2) k by simp
    then have "route_key q \<noteq> route_key p" if "q \<in> set es" for q using that by (metis imageI)
    then show ?thesis using k by (auto simp: es' min_def)
  next
    case False
    then obtain es1 where es1: "collapse p es = Some es1" "es' = e # es1" using Cons.prems(1) by auto
    with Cons.IH [OF es1(1)] Cons.prems(2) False show ?thesis by (auto simp: same_route_key)
  qed
qed simp

lemma normal_collapse:
  assumes "normal_policies ps es" "collapse p es = Some es'"
  shows "normal_policies (ps @ [p]) es'"
proof -
  have d: "distinct (map route_key es)" using assms(1) by (simp add: normal_policies_def)
  note c = collapse_Some [OF assms(2) d]
  have keys: "route_key ` set es' = route_key ` set es" using c by (metis list.set_map)
  have in_p: "route_key p \<in> route_key ` set es" using collapse_None [of p es] assms(2) by auto
  have "q' \<in> set (ps @ [p]) \<and> (\<forall>x \<in> set (ps @ [p]). route_key x = route_key q' \<longrightarrow> policy_priority q' \<le> policy_priority x)" if q': "q' \<in> set es'" for q'
  proof (cases "route_key q' = route_key p")
    case False
    then have "q' \<in> set es" using c q' by blast
    with assms(1) False show ?thesis by (auto simp: normal_policies_def)
  next
    case True
    then obtain q where q: "q \<in> set es" "route_key q = route_key p" "policy_priority q' = min (policy_priority p) (policy_priority q)"
      using c q' by blast
    have "q' = p \<or> q' = q" using policy_eqI [of q' p] policy_eqI [of q' q] True q by (auto simp: min_def split: if_splits)
    moreover have "q \<in> set ps" "\<forall>x \<in> set ps. route_key x = route_key q \<longrightarrow> policy_priority q \<le> policy_priority x"
      using assms(1) q(1) by (auto simp: normal_policies_def)
    ultimately show ?thesis using q True by (auto simp: min_def split: if_splits)
  qed
  then show ?thesis using c d keys in_p assms(1) unfolding normal_policies_def by auto
qed

lemma normal_push:
  assumes "normal_policies ps es" "collapse p es = None"
  shows "normal_policies (ps @ [p]) (es @ [p])"
  using assms(1) assms(2) [unfolded collapse_None] unfolding normal_policies_def by (auto simp: image_iff)

lemma normal_card: "normal_policies ps es \<Longrightarrow> card (route_key ` set ps) = length es"
  unfolding normal_policies_def by (metis distinct_card length_map list.set_map)

lemma dedupe_loop_spec:
  assumes "normal_policies seen es" "fits cap (length es)"
  shows "case dedupe_loop cap ps es of
      Inl e \<Rightarrow> e = CapacityExceeded ''route policies'' \<and> \<not> fits cap (card (route_key ` set (seen @ ps)))
    | Inr out \<Rightarrow> normal_policies (seen @ ps) out \<and> fits cap (card (route_key ` set (seen @ ps)))"
  using assms
proof (induction ps arbitrary: es seen)
  case Nil
  then show ?case using normal_card by simp
next
  case (Cons p ps)
  show ?case
  proof (cases "collapse p es")
    case (Some es')
    have "length es' = length es"
      using collapse_Some [OF Some] Cons.prems(1) unfolding normal_policies_def by (metis length_map)
    with Cons.IH [OF normal_collapse [OF Cons.prems(1) Some], unfolded append_assoc append_Cons append_Nil] Cons.prems(2) Some show ?thesis by simp
  next
    case None
    note push = normal_push [OF Cons.prems(1) None]
    show ?thesis
    proof (cases "has_room cap (length es)")
      case True
      then have "fits cap (length (es @ [p]))" by (auto simp: has_room_def fits_def split: option.splits)
      from Cons.IH [OF push this, unfolded append_assoc append_Cons append_Nil] True None show ?thesis by (simp add: try_push_def)
    next
      case False
      have "card (route_key ` set (seen @ [p])) \<le> card (route_key ` set (seen @ p # ps))" by (intro card_mono) auto
      then have "Suc (length es) \<le> card (route_key ` set (seen @ p # ps))" using normal_card [OF push] by simp
      with False None show ?thesis by (auto simp: try_push_def has_room_def fits_def split: option.splits)
    qed
  qed
qed

lemma normal_sort: "normal_policies ps es \<Longrightarrow> normal_policies ps (sort_key f es)"
  unfolding normal_policies_def distinct_map by (simp add: inj_on_def)

lemma dedupe_and_sort_spec:
  "case dedupe_and_sort_policies cap ps of
     Inl e \<Rightarrow> e = CapacityExceeded ''route policies'' \<and> \<not> fits cap (card (route_key ` set ps))
   | Inr out \<Rightarrow> normal_policies ps out \<and> sorted (map policy_priority out) \<and> fits cap (card (route_key ` set ps))"
proof -
  have "normal_policies [] []" "fits cap (length ([] :: RoutePolicy list))" by (auto simp: normal_policies_def fits_def split: option.split)
  from dedupe_loop_spec [OF this, of ps] show ?thesis
    by (auto simp: dedupe_and_sort_policies_def normal_sort split: sum.splits)
qed

text \<open>The policies of one route: none when the relay is unknown or is the destination.\<close>

definition policies_of :: "NetworkMap \<Rightarrow> MapPeer \<Rightarrow> Route \<Rightarrow> RoutePolicy list" where
  "policies_of m destination r = (case rt_kind r of
     KindDirect endpoint \<Rightarrow> [DirectPolicy endpoint (rt_priority r)]
   | KindRelay i \<Rightarrow> (case find (\<lambda>p. mp_id p = i) (nm_peers m) of
       None \<Rightarrow> []
     | Some relay \<Rightarrow> if mp_public_key relay = mp_public_key destination then [] else [RelayPolicy (mp_public_key relay) (rt_priority r)]))"

definition advertised :: "NetworkMap \<Rightarrow> MapPeer \<Rightarrow> RoutePolicy list" where
  "advertised m p = (let ps = concat (map (policies_of m p) (mp_routes p)) in if ps = [] then [DirectPolicy None 0] else ps)"

lemma expand_routes_eq:
  "expand_routes cap m d rs acc = Inr out \<Longrightarrow> out = acc @ concat (map (policies_of m d) rs)"
proof (induction cap m d rs acc rule: expand_routes.induct)
  case (2 cap m d r rs acc)
  show ?case
  proof (cases "rt_kind r")
    case (KindDirect e)
    with 2 show ?thesis by (auto simp: policies_of_def try_push_Inr split: sum.splits)
  next
    case (KindRelay i)
    show ?thesis
    proof (cases "find (\<lambda>p. mp_id p = i) (nm_peers m)")
      case None
      with 2 KindRelay show ?thesis by (simp add: policies_of_def)
    next
      case (Some relay)
      with 2 KindRelay show ?thesis by (auto simp: policies_of_def try_push_Inr split: sum.splits if_splits)
    qed
  qed
qed simp

lemma route_policies_spec:
  assumes "route_policies_for_peer cap m p = Inr out"
  shows "normal_policies (advertised m p) out \<and> sorted (map policy_priority out) \<and> out \<noteq> []"
proof -
  obtain ps where ps: "expand_routes cap m p (mp_routes p) [] = Inr ps" using assms by (auto simp: route_policies_for_peer_def split: sum.splits)
  have eq: "ps = concat (map (policies_of m p) (mp_routes p))" using expand_routes_eq [OF ps] by simp
  have "dedupe_and_sort_policies cap (advertised m p) = Inr out"
  proof (cases "ps = []")
    case True
    then have "advertised m p = [DirectPolicy None 0]" unfolding advertised_def eq [symmetric] by simp
    with assms ps True show ?thesis by (auto simp: route_policies_for_peer_def try_push_Inr split: sum.splits)
  next
    case False
    then have "advertised m p = ps" unfolding advertised_def eq [symmetric] by simp
    with assms ps False show ?thesis by (auto simp: route_policies_for_peer_def)
  qed
  then have n: "normal_policies (advertised m p) out" "sorted (map policy_priority out)"
    using dedupe_and_sort_spec [of cap "advertised m p"] by simp_all
  have "advertised m p \<noteq> []" by (simp add: advertised_def Let_def)
  with n show ?thesis by (auto simp: normal_policies_def)
qed

text \<open>The selected policy is one of the best.\<close>

lemma initial_policy_best:
  assumes "initial_policy_index next_u64 rng ps = (i, rng')" "ps \<noteq> []"
  shows "i < length ps \<and> (\<forall>q \<in> set ps. policy_priority (ps ! i) \<le> policy_priority q)"
proof -
  let ?best = "Min (set (map policy_priority ps))"
  let ?c = "filter (\<lambda>i. policy_priority (ps ! i) = ?best) [0..<length ps]"
  have "?best \<in> set (map policy_priority ps)" using assms(2) by (intro Min_in) auto
  then obtain j where "j < length ps" "policy_priority (ps ! j) = ?best" by (auto simp: in_set_conv_nth)
  then have "j \<in> set ?c" by simp
  then have ne: "length ?c \<noteq> 0" by (metis length_0_conv length_pos_if_in_set less_irrefl)
  obtain chosen rng1 where r: "random_below next_u64 rng (length ?c) = (chosen, rng1)" "chosen < length ?c"
    using ne by (cases "next_u64 rng") (simp add: random_below_def)
  then have "i = ?c ! chosen" using assms by (auto simp: initial_policy_index_def Let_def)
  then have "i \<in> set ?c" using r(2) nth_mem by blast
  then show ?thesis by (auto intro: Min_le)
qed

section \<open>The desired peers of a map\<close>

text \<open>What a peer of the map asks for.\<close>

definition wanted :: "NetworkMap \<Rightarrow> MapPeer \<Rightarrow> DesiredPeer \<Rightarrow> bool" where
  "wanted m p d \<longleftrightarrow> dp_public_key d = mp_public_key p \<and> dp_allowed_ips d = (case mp_tunnel_ip p of None \<Rightarrow> [] | Some ip \<Rightarrow> [ip]) \<and>
     dp_keepalive d = (if mp_is_directory p then Some 25 else None) \<and>
     normal_policies (advertised m p) (dp_policies d) \<and> sorted (map policy_priority (dp_policies d)) \<and>
     dp_active_policy d < length (dp_policies d) \<and> dp_active_route d = Some (route_key (dp_policies d ! dp_active_policy d)) \<and>
     (\<forall>q \<in> set (dp_policies d). policy_priority (dp_policies d ! dp_active_policy d) \<le> policy_priority q)"

lemma desired_peer_wanted:
  assumes "route_policies_for_peer cap m p = Inr policies" "initial_policy_index next_u64 rng policies = (active, rng')"
    and "allowed_ips = (case mp_tunnel_ip p of None \<Rightarrow> [] | Some ip \<Rightarrow> [ip])"
  shows "wanted m p (desired_peer p allowed_ips policies active)"
  using route_policies_spec [OF assms(1)] initial_policy_best [OF assms(2)] assms(3)
  by (auto simp: wanted_def desired_peer_def get_at_def)

lemma desired_loop_step:
  assumes "desired_loop K next_u64 m (p # ps) rng desired = (Inr out, rng')"
  shows "\<exists>d rng1. wanted m p d \<and> desired_loop K next_u64 m ps rng1 (map_insert (mp_public_key p) d desired) = (Inr out, rng')"
proof -
  from assms obtain ips policies where a: "(case mp_tunnel_ip p of None \<Rightarrow> Inr [] | Some ip \<Rightarrow> capacity (try_push (cc_allowed K) ''allowed IPs'' ip [])) = Inr ips"
      "route_policies_for_peer (cc_routes K) m p = Inr policies"
    by (auto split: sum.splits)
  have ips: "ips = (case mp_tunnel_ip p of None \<Rightarrow> [] | Some ip \<Rightarrow> [ip])" using a(1) by (auto simp: try_push_Inr split: option.splits)
  have ne: "policies \<noteq> []" using route_policies_spec [OF a(2)] by simp
  obtain active rng1 where i: "initial_policy_index next_u64 rng policies = (active, rng1)" by fastforce
  from assms obtain desired' where "try_insert_entry (cc_peers K) ''desired peers'' (mp_public_key p) (desired_peer p ips policies active) desired = Inr desired'"
      "desired_loop K next_u64 m ps rng1 desired' = (Inr out, rng')"
    by (auto simp: a i ne split: sum.splits)
  with desired_peer_wanted [OF a(2) i ips] show ?thesis by (auto simp: try_insert_entry_Inr)
qed

text \<open>A later peer with the key of an earlier one replaces it.\<close>

definition last_with_key :: "bytes \<Rightarrow> MapPeer list \<Rightarrow> MapPeer option" where
  "last_with_key k ps = find (\<lambda>p. mp_public_key p = k) (rev ps)"

lemma last_with_key_simps [simp]:
  "last_with_key k [] = None"
  "last_with_key k (p # ps) = (case last_with_key k ps of Some q \<Rightarrow> Some q | None \<Rightarrow> if mp_public_key p = k then Some p else None)"
proof -
  have "find P (xs @ [x]) = (case find P xs of Some q \<Rightarrow> Some q | None \<Rightarrow> if P x then Some x else None)" for P and xs :: "MapPeer list" and x
    by (induction xs) auto
  then show "last_with_key k (p # ps) = (case last_with_key k ps of Some q \<Rightarrow> Some q | None \<Rightarrow> if mp_public_key p = k then Some p else None)"
    by (simp add: last_with_key_def)
qed (simp add: last_with_key_def)

lemma desired_loop_spec:
  assumes "desired_loop K next_u64 m ps rng desired = (Inr out, rng')"
  shows "(distinct (map fst desired) \<longrightarrow> distinct (map fst out)) \<and>
    (case last_with_key k ps of None \<Rightarrow> map_of out k = map_of desired k | Some p \<Rightarrow> \<exists>d. map_of out k = Some d \<and> wanted m p d)"
  using assms
proof (induction ps arbitrary: rng desired)
  case (Cons p ps)
  from desired_loop_step [OF Cons.prems] obtain d rng1 where d: "wanted m p d"
      "desired_loop K next_u64 m ps rng1 (map_insert (mp_public_key p) d desired) = (Inr out, rng')" by blast
  from Cons.IH [OF d(2)] d(1) show ?case by (auto simp: distinct_map_insert split: option.splits)
qed simp

section \<open>Properties\<close>

text \<open>C17. The desired peers are the map: the desired set, when it fits, has exactly one entry for each key of the map, that of
  the last peer with that key; it has the tunnel address and keepalive of the peer, one policy for
  each usable route with the best priority the map gives that route, the best first, and selects a
  policy of the best priority, whatever the random choice; a peer without usable routes gets one
  direct policy without an endpoint.\<close>

theorem desired_peers_exact:
  assumes "desired_peers_from_map K next_u64 m rng = (Inr desired, rng')"
  shows "distinct (map fst desired) \<and>
    (case last_with_key k (nm_peers m) of
       None \<Rightarrow> map_of desired k = None
     | Some p \<Rightarrow> \<exists>d. map_of desired k = Some d \<and> wanted m p d)"
  using desired_loop_spec [OF assms [unfolded desired_peers_from_map_def], of k] by (auto split: option.splits)

definition sample_map :: NetworkMap where
  "sample_map = \<lparr>nm_updated_at = 1, nm_peers =
     [\<lparr>mp_id = 1, mp_public_key = [1], mp_tunnel_ip = Some (AddrV4 0x0A000001), mp_is_directory = True,
       mp_routes = [\<lparr>rt_priority = 5, rt_kind = KindRelay 2\<rparr>, \<lparr>rt_priority = 3, rt_kind = KindDirect None\<rparr>, \<lparr>rt_priority = 1, rt_kind = KindRelay 2\<rparr>]\<rparr>,
      \<lparr>mp_id = 2, mp_public_key = [2], mp_tunnel_ip = None, mp_is_directory = False, mp_routes = []\<rparr>]\<rparr>"

theorem desired_peers_exact_witness:
  "\<exists>desired d. desired_peers_from_map \<lparr>cc_peers = Some 2, cc_allowed = Some 1, cc_routes = Some 3\<rparr> (\<lambda>r. (r, r)) sample_map 5 = (Inr desired, 5) \<and>
    map_of desired [1] = Some d \<and> dp_policies d = [RelayPolicy [2] 1, DirectPolicy None 3] \<and> wanted sample_map (nm_peers sample_map ! 0) d"
proof -
  obtain desired where d: "desired_peers_from_map \<lparr>cc_peers = Some 2, cc_allowed = Some 1, cc_routes = Some 3\<rparr> (\<lambda>r. (r, r)) sample_map 5 = (Inr desired, 5)"
      "map_option dp_policies (map_of desired [1]) = Some [RelayPolicy [2] 1, DirectPolicy None 3]"
    by (simp add: desired_peers_from_map_def sample_map_def route_policies_for_peer_def try_push_def has_room_def dedupe_and_sort_policies_def
        initial_policy_index_def random_below_def try_insert_entry_def desired_peer_def Let_def)
  have "last_with_key [1] (nm_peers sample_map) = Some (nm_peers sample_map ! 0)" by (simp add: sample_map_def)
  with desired_peers_exact [OF d(1), of "[1]"] obtain x where "map_of desired [1] = Some x" "wanted sample_map (nm_peers sample_map ! 0) x"
    by auto
  with d show ?thesis by auto
qed

end
