(* ===== verification/Reconciler.thy ===== *)
theory Reconciler
  imports Command_Client Route_Policy
begin

text \<open>
  The reconciler of the control plane (\<^verbatim>\<open>control/reconciler.rs\<close>): the map pass, which brings the
  peers of a device in line with a network map, and the health pass, which samples the peers and
  switches routes. The device client, the fingerprint function (the FNV hash of another crate), the
  random numbers, the clock and the fetched maps are arguments. An error ends a pass early, with
  the state reached so far, as in the source.
\<close>

section \<open>State\<close>

definition MAP_RECONCILE_INTERVAL :: duration where "MAP_RECONCILE_INTERVAL = 60 * SECOND"
definition PEER_HEALTH_INTERVAL :: duration where "PEER_HEALTH_INTERVAL = 5 * SECOND"

record 'd PeerReconciler =
  rc_client :: 'd
  rc_directories :: "MapPeer list"
  rc_desired :: desired_map
  rc_health :: "(bytes \<times> PeerHealth) list"
  rc_fingerprints :: "(bytes \<times> u64) list"
  rc_last_applied :: "int option"

definition reconciler_new :: "'d \<Rightarrow> MapPeer list \<Rightarrow> 'd PeerReconciler" where
  "reconciler_new client directories = \<lparr>rc_client = client, rc_directories = directories, rc_desired = [], rc_health = [],
     rc_fingerprints = [], rc_last_applied = None\<rparr>"

text \<open>What the passes are given: the capacities, the client, the fingerprints and the source of random numbers.\<close>

record ('d, 'r) control_env =
  ce_caps :: control_caps
  ce_client :: "'d client_ops"
  ce_fingerprint :: "PeerConfig \<Rightarrow> u64"
  ce_next_u64 :: "'r \<Rightarrow> u64 \<times> 'r"

type_synonym ('d, 'r, 'a) pass = "((ReconcileError + 'a) \<times> 'd PeerReconciler \<times> 'r) run"

section \<open>The map pass\<close>

fun position :: "('a \<Rightarrow> bool) \<Rightarrow> 'a list \<Rightarrow> nat option" where
  "position P [] = None"
| "position P (x # xs) = (if P x then Some 0 else map_option Suc (position P xs))"

definition or_else :: "'a option \<Rightarrow> 'a option \<Rightarrow> 'a option" where
  "or_else a b = (case a of Some x \<Rightarrow> Some x | None \<Rightarrow> b)"

definition carry_forward_peer ::
  "nat option \<Rightarrow> desired_map \<Rightarrow> bytes \<Rightarrow> DesiredPeer \<Rightarrow> PeerHealth \<Rightarrow> DesiredPeer \<times> PeerHealth" where
  "carry_forward_peer cap old key peer health =
     (let old_active_policy = ph_active_policy health;
          old_active_route = or_else (active_route health)
            (or_else (Option.bind (map_of old key) dp_active_route)
              (map_option route_key (Option.bind (map_of old key) (\<lambda>p. get_at old_active_policy (dp_policies p)))));
          new_active_policy = (case Option.bind old_active_route (\<lambda>route. position (\<lambda>p. route_key p = route) (dp_policies peer)) of
            Some i \<Rightarrow> i | None \<Rightarrow> 0);
          peer' = set_active_policy new_active_policy peer
      in (peer', case route_keys_for_policies cap (dp_policies peer') of
            Inr routes \<Rightarrow> sync_policies cap new_active_policy routes health
          | Inl _ \<Rightarrow> sync_active_policy new_active_policy (reset_policy_state health)))"

fun carry_forward_active_policies ::
  "nat option \<Rightarrow> desired_map \<Rightarrow> desired_map \<Rightarrow> (bytes \<times> PeerHealth) list \<Rightarrow> desired_map \<times> (bytes \<times> PeerHealth) list" where
  "carry_forward_active_policies cap old [] health = ([], health)"
| "carry_forward_active_policies cap old ((key, peer) # rest) health = (case map_of health key of
     None \<Rightarrow> (case carry_forward_active_policies cap old rest health of (rest', health') \<Rightarrow> ((key, peer) # rest', health'))
   | Some h \<Rightarrow> (case carry_forward_peer cap old key peer h of (peer', h') \<Rightarrow>
       (case carry_forward_active_policies cap old rest (map_insert key h' health) of (rest', health') \<Rightarrow> ((key, peer') # rest', health'))))"

fun remove_vanished_peers :: "('d, 'r) control_env \<Rightarrow> bytes list \<Rightarrow> desired_map \<Rightarrow> 'd PeerReconciler \<Rightarrow>
    ((ReconcileError + unit) \<times> 'd PeerReconciler) run" where
  "remove_vanished_peers V [] desired rc = Ret (Inr (), rc)"
| "remove_vanished_peers V (key # keys) desired rc =
     (if map_of desired key \<noteq> None then remove_vanished_peers V keys desired rc
      else run_bind (cl_remove (ce_client V) key (rc_client rc)) (\<lambda>(r, d). case r of
        Inl e \<Rightarrow> Ret (Inl (DeviceFailed e), rc\<lparr>rc_client := d\<rparr>)
      | Inr _ \<Rightarrow> remove_vanished_peers V keys desired
          (rc\<lparr>rc_client := d, rc_health := map_remove key (rc_health rc), rc_fingerprints := map_remove key (rc_fingerprints rc)\<rparr>)))"

definition track_active_policy :: "('d, 'r) control_env \<Rightarrow> bytes \<Rightarrow> nat \<Rightarrow> RouteKey list \<Rightarrow> instant \<Rightarrow> 'd PeerReconciler \<Rightarrow> 'r \<Rightarrow>
    (ReconcileError + unit) \<times> 'd PeerReconciler \<times> 'r" where
  "track_active_policy V key active routes now rc rng = (case map_of (rc_health rc) key of
     Some h \<Rightarrow> (Inr (), rc\<lparr>rc_health := map_insert key (sync_policies (cc_routes (ce_caps V)) active routes h) (rc_health rc)\<rparr>, rng)
   | None \<Rightarrow> (case ce_next_u64 V rng of (x, rng') \<Rightarrow>
       (case capacity (try_insert_entry (cc_peers (ce_caps V)) ''peer health'' key
          (sync_policies (cc_routes (ce_caps V)) active routes (new_with_rng active now x)) (rc_health rc)) of
          Inl e \<Rightarrow> (Inl e, rc, rng') | Inr health \<Rightarrow> (Inr (), rc\<lparr>rc_health := health\<rparr>, rng'))))"

text \<open>Writing the configuration of a desired peer, with the fingerprint kept.\<close>

definition record_fingerprint :: "('d, 'r) control_env \<Rightarrow> bytes \<Rightarrow> PeerConfig \<Rightarrow> 'd PeerReconciler \<Rightarrow> (ReconcileError + unit) \<times> 'd PeerReconciler" where
  "record_fingerprint V key config rc =
     (case capacity (try_insert_entry (cc_peers (ce_caps V)) ''peer config fingerprints'' key (ce_fingerprint V config) (rc_fingerprints rc)) of
        Inl e \<Rightarrow> (Inl e, rc) | Inr fps \<Rightarrow> (Inr (), rc\<lparr>rc_fingerprints := fps\<rparr>))"

definition write_peer :: "('d, 'r) control_env \<Rightarrow> (PeerConfig \<Rightarrow> 'd \<Rightarrow> ((DeviceError + unit) \<times> 'd) run) \<Rightarrow> bytes \<Rightarrow> PeerConfig \<Rightarrow>
    'd PeerReconciler \<Rightarrow> ((ReconcileError + unit) \<times> 'd PeerReconciler) run" where
  "write_peer V op key config rc = run_bind (op config (rc_client rc)) (\<lambda>(r, d). case r of
     Inl e \<Rightarrow> Ret (Inl (DeviceFailed e), rc\<lparr>rc_client := d\<rparr>)
   | Inr _ \<Rightarrow> Ret (record_fingerprint V key config (rc\<lparr>rc_client := d\<rparr>)))"

definition apply_peer :: "('d, 'r) control_env \<Rightarrow> bytes list \<Rightarrow> bytes \<Rightarrow> DesiredPeer \<Rightarrow> 'd PeerReconciler \<Rightarrow>
    ((ReconcileError + unit) \<times> 'd PeerReconciler) run" where
  "apply_peer V actual key peer rc =
     (let config = dp_config peer in
      if key \<in> set actual
      then if map_of (rc_fingerprints rc) key \<noteq> Some (ce_fingerprint V config)
           then write_peer V (cl_update (ce_client V)) key config rc
           else Ret (Inr (), rc)
      else write_peer V (cl_add (ce_client V)) key config rc)"

text \<open>The body of the loop over the desired peers.\<close>

definition apply_one :: "('d, 'r) control_env \<Rightarrow> bytes list \<Rightarrow> bytes \<Rightarrow> DesiredPeer \<Rightarrow> instant \<Rightarrow> 'd PeerReconciler \<Rightarrow> 'r \<Rightarrow> ('d, 'r, unit) pass" where
  "apply_one V actual key peer now rc rng =
     run_bind (apply_peer V actual key peer rc) (\<lambda>(r, rc1). case r of
       Inl e \<Rightarrow> Ret (Inl e, rc1, rng)
     | Inr _ \<Rightarrow> (case route_keys_for_policies (cc_routes (ce_caps V)) (dp_policies peer) of
         Inl e \<Rightarrow> Ret (Inl e, rc1, rng)
       | Inr routes \<Rightarrow> Ret (track_active_policy V key (active_policy_index peer) routes now rc1 rng)))"

fun apply_desired_peers :: "('d, 'r) control_env \<Rightarrow> bytes list \<Rightarrow> desired_map \<Rightarrow> instant \<Rightarrow> 'd PeerReconciler \<Rightarrow> 'r \<Rightarrow> ('d, 'r, unit) pass" where
  "apply_desired_peers V actual [] now rc rng = Ret (Inr (), rc, rng)"
| "apply_desired_peers V actual ((key, peer) # rest) now rc rng =
     run_bind (apply_one V actual key peer now rc rng) (\<lambda>(r, rc1, rng1). case r of
       Inl e \<Rightarrow> Ret (Inl e, rc1, rng1)
     | Inr _ \<Rightarrow> apply_desired_peers V actual rest now rc1 rng1)"

text \<open>The end of the pass: the applied state is recorded.\<close>

definition commit_map :: "('d, 'r) control_env \<Rightarrow> NetworkMap \<Rightarrow> desired_map \<Rightarrow> (ReconcileError + unit) \<times> 'd PeerReconciler \<times> 'r \<Rightarrow> ('d, 'r, bool) pass" where
  "commit_map V m desired = (\<lambda>(r, rc, rng). case r of
     Inl e \<Rightarrow> Ret (Inl e, rc, rng)
   | Inr _ \<Rightarrow> (case directory_servers_from_map (cc_peers (ce_caps V)) m of
       Inl e \<Rightarrow> Ret (Inl e, rc, rng)
     | Inr directories \<Rightarrow>
         Ret (Inr True, rc\<lparr>rc_directories := directories, rc_desired := desired, rc_last_applied := Some (nm_updated_at m)\<rparr>, rng)))"

definition reconcile_network_map :: "('d, 'r) control_env \<Rightarrow> instant \<Rightarrow> NetworkMap \<Rightarrow> 'd PeerReconciler \<Rightarrow> 'r \<Rightarrow> ('d, 'r, bool) pass" where
  "reconcile_network_map V now m rc rng =
     (if (case rc_last_applied rc of Some t \<Rightarrow> nm_updated_at m \<le> t | None \<Rightarrow> False) then Ret (Inr False, rc, rng)
      else case desired_peers_from_map (ce_caps V) (ce_next_u64 V) m rng of
        (Inl e, rng1) \<Rightarrow> Ret (Inl e, rc, rng1)
      | (Inr desired0, rng1) \<Rightarrow>
          (case carry_forward_active_policies (cc_routes (ce_caps V)) (rc_desired rc) desired0 (rc_health rc) of (desired, health) \<Rightarrow>
             let rc1 = rc\<lparr>rc_health := health\<rparr> in
             run_bind (cl_list (ce_client V) (rc_client rc1)) (\<lambda>(r, d). let rc2 = rc1\<lparr>rc_client := d\<rparr> in case r of
               Inl e \<Rightarrow> Ret (Inl (DeviceFailed e), rc2, rng1)
             | Inr actual \<Rightarrow>
                 run_bind (remove_vanished_peers V actual desired rc2) (\<lambda>(r, rc3). case r of
                   Inl e \<Rightarrow> Ret (Inl e, rc3, rng1)
                 | Inr _ \<Rightarrow> run_bind (apply_desired_peers V actual desired now rc3 rng1) (commit_map V m desired)))))"

text \<open>The fetcher's answer is an argument.\<close>

definition fetch_and_reconcile_network_map ::
  "('d, 'r) control_env \<Rightarrow> instant \<Rightarrow> 'e + NetworkMap \<Rightarrow> 'd PeerReconciler \<Rightarrow> 'r \<Rightarrow> ('d, 'r, unit) pass" where
  "fetch_and_reconcile_network_map V now fetched rc rng = (case fetched of
     Inl _ \<Rightarrow> Ret (Inl FetchNetworkMap, rc, rng)
   | Inr m \<Rightarrow> run_bind (reconcile_network_map V now m rc rng) (\<lambda>(r, rc', rng'). Ret (case r of Inl e \<Rightarrow> Inl e | Inr _ \<Rightarrow> Inr (), rc', rng')))"

section \<open>The health pass\<close>

definition apply_active_policy :: "('d, 'r) control_env \<Rightarrow> bytes \<Rightarrow> nat \<Rightarrow> 'd PeerReconciler \<Rightarrow> ((ReconcileError + unit) \<times> 'd PeerReconciler) run" where
  "apply_active_policy V key i rc = (case map_of (rc_desired rc) key of
     None \<Rightarrow> Ret (Inr (), rc)
   | Some peer \<Rightarrow>
       (let peer' = set_active_policy i peer
        in write_peer V (cl_update (ce_client V)) key (dp_config peer') (rc\<lparr>rc_desired := map_insert key peer' (rc_desired rc)\<rparr>)))"

definition peer_stats_of :: "PeerInfo \<Rightarrow> PeerStats" where
  "peer_stats_of info = \<lparr>st_tx_packets = pi_tx_packets info, st_rx_packets = pi_rx_packets info\<rparr>"

text \<open>The match on the decision: a switch is installed, and rolled back when the device refuses it.\<close>

definition act_on_decision :: "('d, 'r) control_env \<Rightarrow> bytes \<Rightarrow> DesiredPeer \<Rightarrow> PeerHealth \<Rightarrow> HealthDecision \<Rightarrow> 'd PeerReconciler \<Rightarrow> 'r \<Rightarrow> ('d, 'r, unit) pass" where
  "act_on_decision V key peer previous_health decision rc rng = (case decision of
     Switch next_policy reason \<Rightarrow>
       run_bind (apply_active_policy V key next_policy rc) (\<lambda>(r, rc1). case r of
         Inr _ \<Rightarrow> Ret (Inr (), rc1, rng)
       | Inl err \<Rightarrow>
           (case capacity (try_insert_entry (cc_peers (ce_caps V)) ''peer health'' key previous_health (rc_health rc1)) of
              Inl e \<Rightarrow> Ret (Inl e, rc1, rng)
            | Inr health \<Rightarrow> Ret (Inl err, rc1\<lparr>rc_health := health,
                rc_desired := (case map_of (rc_desired rc1) key of
                  None \<Rightarrow> rc_desired rc1
                | Some p \<Rightarrow> map_insert key (set_active_policy (active_policy_index peer) p) (rc_desired rc1))\<rparr>, rng)))
   | _ \<Rightarrow> Ret (Inr (), rc, rng))"

text \<open>The body of the loop for a peer with several policies.\<close>

definition sample_peer_health :: "('d, 'r) control_env \<Rightarrow> bytes \<Rightarrow> DesiredPeer \<Rightarrow> RouteKey list \<Rightarrow> instant \<Rightarrow> 'd PeerReconciler \<Rightarrow> 'r \<Rightarrow> ('d, 'r, unit) pass" where
  "sample_peer_health V key peer routes now rc rng =
     run_bind (cl_get (ce_client V) key (rc_client rc)) (\<lambda>(r, d). let rc0 = rc\<lparr>rc_client := d\<rparr> in case r of
       Inl e \<Rightarrow> Ret (Inl (DeviceFailed e), rc0, rng)
     | Inr info \<Rightarrow>
         (case track_active_policy V key (active_policy_index peer) routes now rc0 rng of (t, rc1, rng1) \<Rightarrow>
            (case t of
               Inl e \<Rightarrow> Ret (Inl e, rc1, rng1)
             | Inr _ \<Rightarrow>
                 (case map_of (rc_health rc1) key of
                    None \<Rightarrow> Panic
                  | Some previous_health \<Rightarrow>
                      (case observe (cc_routes (ce_caps V)) (peer_stats_of info) routes now previous_health of (decision, health) \<Rightarrow>
                         act_on_decision V key peer previous_health decision (rc1\<lparr>rc_health := map_insert key health (rc_health rc1)\<rparr>) rng1)))))"

fun health_keys :: "nat option \<Rightarrow> bytes list \<Rightarrow> bytes list \<Rightarrow> ReconcileError + bytes list" where
  "health_keys cap [] keys = Inr keys"
| "health_keys cap (k # ks) keys = (case capacity (try_push cap ''peer health keys'' k keys) of
     Inl e \<Rightarrow> Inl e | Inr keys' \<Rightarrow> health_keys cap ks keys')"

fun health_loop :: "('d, 'r) control_env \<Rightarrow> bytes list \<Rightarrow> instant \<Rightarrow> 'd PeerReconciler \<Rightarrow> 'r \<Rightarrow> ('d, 'r, unit) pass" where
  "health_loop V [] now rc rng = Ret (Inr (), rc, rng)"
| "health_loop V (key # keys) now rc rng = (case map_of (rc_desired rc) key of
     None \<Rightarrow> health_loop V keys now rc rng
   | Some peer \<Rightarrow> (case route_keys_for_policies (cc_routes (ce_caps V)) (dp_policies peer) of
       Inl e \<Rightarrow> Ret (Inl e, rc, rng)
     | Inr routes \<Rightarrow>
         if length (dp_policies peer) \<le> 1 then health_loop V keys now rc rng
         else run_bind (sample_peer_health V key peer routes now rc rng) (\<lambda>(r, rc', rng').
           case r of Inl e \<Rightarrow> Ret (Inl e, rc', rng') | Inr _ \<Rightarrow> health_loop V keys now rc' rng')))"

definition reconcile_peer_health_at :: "('d, 'r) control_env \<Rightarrow> instant \<Rightarrow> 'd PeerReconciler \<Rightarrow> 'r \<Rightarrow> ('d, 'r, unit) pass" where
  "reconcile_peer_health_at V now rc rng = (case health_keys (cc_peers (ce_caps V)) (map fst (rc_desired rc)) [] of
     Inl e \<Rightarrow> Ret (Inl e, rc, rng) | Inr keys \<Rightarrow> health_loop V keys now rc rng)"

section \<open>The control loop\<close>

text \<open>Both timers; errors are logged and dropped.\<close>

datatype 'e control_event = MapTick "'e + NetworkMap" | HealthTick

definition control_step :: "('d, 'r) control_env \<Rightarrow> instant \<Rightarrow> 'e control_event \<Rightarrow> 'd PeerReconciler \<Rightarrow> 'r \<Rightarrow> ('d PeerReconciler \<times> 'r) run" where
  "control_step V now ev rc rng = (case ev of
     MapTick fetched \<Rightarrow> run_bind (fetch_and_reconcile_network_map V now fetched rc rng) (\<lambda>(r, rc', rng'). Ret (rc', rng'))
   | HealthTick \<Rightarrow> run_bind (reconcile_peer_health_at V now rc rng) (\<lambda>(r, rc', rng'). Ret (rc', rng')))"

section \<open>Passes that return\<close>

definition returns :: "('a \<Rightarrow> bool) \<Rightarrow> 'a run \<Rightarrow> bool" where
  "returns Q r = (case r of Ret x \<Rightarrow> Q x | Panic \<Rightarrow> False)"

lemma returns_simps [simp]: "returns Q (Ret x) = Q x" "\<not> returns Q Panic"
  by (simp_all add: returns_def)

lemma returns_bindI: "returns R r \<Longrightarrow> (\<And>x. R x \<Longrightarrow> returns Q (f x)) \<Longrightarrow> returns Q (run_bind r f)"
  by (cases r) simp_all

lemma returns_mono: "returns R r \<Longrightarrow> (\<And>x. R x \<Longrightarrow> Q x) \<Longrightarrow> returns Q r"
  by (cases r) simp_all

lemma returnsD: "returns Q r \<Longrightarrow> \<exists>x. r = Ret x \<and> Q x"
  by (cases r) simp_all

section \<open>Lemmas on configurations\<close>

lemma host_net_wf [simp]: "ipnet_wf (host_net ip)"
  by (cases ip) (simp_all add: word_le_nat_alt)

lemma dp_config_simps [simp]: "pc_public_key (dp_config p) = dp_public_key p" "config_wf (dp_config p)"
  by (auto simp: dp_config_def config_for_policy_def config_wf_def split: prod.splits)

lemma set_active_policy_simps [simp]: "dp_public_key (set_active_policy i p) = dp_public_key p" "dp_policies (set_active_policy i p) = dp_policies p"
    "active_policy_index (set_active_policy i p) = min i (length (dp_policies p) - 1)"
  by (simp_all add: set_active_policy_def active_policy_index_def Let_def)

text \<open>The configuration depends on the selected policy only through its index.\<close>

lemma dp_config_cong: "dp_public_key p = dp_public_key q \<Longrightarrow> dp_allowed_ips p = dp_allowed_ips q \<Longrightarrow> dp_keepalive p = dp_keepalive q \<Longrightarrow>
    dp_policies p = dp_policies q \<Longrightarrow> active_policy_index p = active_policy_index q \<Longrightarrow> dp_config p = dp_config q"
  unfolding dp_config_def config_for_policy_def preferred_direct_endpoint_def by (simp only:)

lemma dp_config_back: "dp_config (set_active_policy (active_policy_index p) (set_active_policy i p)) = dp_config p"
  by (rule dp_config_cong) (simp_all add: set_active_policy_def active_policy_index_def Let_def)

lemma route_keys_loop_eq: "route_keys_loop cap ps acc = Inr out \<Longrightarrow> out = acc @ map route_key ps"
  by (induction ps arbitrary: acc) (fastforce simp: try_push_Inr split: sum.splits)+

lemma route_keys_eq: "route_keys_for_policies cap ps = Inr out \<Longrightarrow> out = map route_key ps"
  using route_keys_loop_eq [of cap ps "[]"] by (simp add: route_keys_for_policies_def)

lemma health_keys_eq: "health_keys cap ks acc = Inr keys \<Longrightarrow> keys = acc @ ks"
  by (induction ks arbitrary: acc) (fastforce simp: try_push_Inr split: sum.splits)+

section \<open>What the reconciler knows of the device\<close>

text \<open>A fingerprint kept for an installed peer is that of the configuration installed.\<close>

definition tracked :: "(PeerConfig \<Rightarrow> u64) \<Rightarrow> (bytes \<Rightarrow> peer_view option) \<Rightarrow> (bytes \<times> u64) list \<Rightarrow> bool" where
  "tracked fp v fps \<longleftrightarrow> (\<forall>k f. map_of fps k = Some f \<longrightarrow> v k = None \<or> (\<exists>c. fp c = f \<and> v k = Some (core_view c)))"

text \<open>A configuration is in force when its fingerprint is kept and a configuration with that fingerprint is installed.\<close>

definition in_force :: "(PeerConfig \<Rightarrow> u64) \<Rightarrow> (bytes \<Rightarrow> peer_view option) \<Rightarrow> (bytes \<times> u64) list \<Rightarrow> bytes \<Rightarrow> PeerConfig \<Rightarrow> bool" where
  "in_force fp v fps k c \<longleftrightarrow> map_of fps k = Some (fp c) \<and> (\<exists>c'. fp c' = fp c \<and> v k = Some (core_view c'))"

definition health_ok :: "instant \<Rightarrow> (bytes \<times> PeerHealth) list \<Rightarrow> bool" where
  "health_ok now hs \<longleftrightarrow> (\<forall>k h. map_of hs k = Some h \<longrightarrow> health_inv h \<and> last_switch h \<le> now)"

definition follows :: "(bytes \<times> PeerHealth) list \<Rightarrow> bytes \<Rightarrow> DesiredPeer \<Rightarrow> bool" where
  "follows hs k p \<longleftrightarrow> (\<exists>h. map_of hs k = Some h \<and> ph_active_policy h = active_policy_index p)"

definition same_at :: "('d \<Rightarrow> bytes \<Rightarrow> peer_view option) \<Rightarrow> bytes \<Rightarrow> 'd PeerReconciler \<Rightarrow> 'd PeerReconciler \<Rightarrow> bool" where
  "same_at view k rc rc' \<longleftrightarrow> view (rc_client rc') k = view (rc_client rc) k \<and>
     map_of (rc_fingerprints rc') k = map_of (rc_fingerprints rc) k \<and> map_of (rc_health rc') k = map_of (rc_health rc) k"

lemma same_at_refl [simp]: "same_at view k rc rc"
  by (simp add: same_at_def)

lemma same_at_trans: "same_at view k a b \<Longrightarrow> same_at view k b c \<Longrightarrow> same_at view k a c"
  by (simp add: same_at_def)

lemma same_at_in_force: "same_at view k rc rc' \<Longrightarrow>
    in_force fp (view (rc_client rc')) (rc_fingerprints rc') k c = in_force fp (view (rc_client rc)) (rc_fingerprints rc) k c"
  by (simp add: same_at_def in_force_def)

lemma same_at_follows: "same_at view k rc rc' \<Longrightarrow> follows (rc_health rc') k p = follows (rc_health rc) k p"
  by (simp add: same_at_def follows_def)

lemma health_ok_insert: "health_ok now hs \<Longrightarrow> health_inv h \<Longrightarrow> last_switch h \<le> now \<Longrightarrow> health_ok now (map_insert k h hs)"
  by (simp add: health_ok_def)

lemma new_with_rng_ok [simp]: "health_inv (new_with_rng a now x)" "last_switch (new_with_rng a now x) = now"
  by (simp_all add: new_with_rng_def new_with_jitter_inv) (simp add: new_with_jitter_def)

lemma track_active_policy_ok:
  assumes "track_active_policy V key a routes now rc rng = (t, rc', rng')" "health_ok now (rc_health rc)"
  shows "\<exists>hs. rc' = rc\<lparr>rc_health := hs\<rparr> \<and> health_ok now hs \<and> (\<forall>k. k \<noteq> key \<longrightarrow> map_of hs k = map_of (rc_health rc) k) \<and>
    (case t of Inl _ \<Rightarrow> hs = rc_health rc \<and> map_of hs key = None | Inr _ \<Rightarrow>
       \<exists>h. map_of hs key = Some h \<and> ph_active_policy h = min a (length routes - 1))"
proof (cases "map_of (rc_health rc) key")
  case (Some h)
  then have "health_inv h" "last_switch h \<le> now" using assms(2) by (auto simp: health_ok_def)
  with assms Some show ?thesis by (auto simp: track_active_policy_def intro!: health_ok_insert sync_policies_inv)
next
  case None
  with assms show ?thesis
    by (cases "ce_next_u64 V rng")
      (auto simp: track_active_policy_def try_insert_entry_Inr intro!: health_ok_insert sync_policies_inv split: sum.splits)
qed

definition knows :: "('d \<Rightarrow> bytes \<Rightarrow> peer_view option) \<Rightarrow> ('d, 'r) control_env \<Rightarrow> instant \<Rightarrow> 'd PeerReconciler \<Rightarrow> bool" where
  "knows view V now rc \<longleftrightarrow> tracked (ce_fingerprint V) (view (rc_client rc)) (rc_fingerprints rc) \<and> health_ok now (rc_health rc)"

definition has_config :: "('d \<Rightarrow> bytes \<Rightarrow> peer_view option) \<Rightarrow> ('d, 'r) control_env \<Rightarrow> 'd PeerReconciler \<Rightarrow> bytes \<Rightarrow> PeerConfig \<Rightarrow> bool" where
  "has_config view V rc k c \<longleftrightarrow> in_force (ce_fingerprint V) (view (rc_client rc)) (rc_fingerprints rc) k c"

text \<open>The outcome of a write to one peer: an error leaves the peer as it was, or without a fingerprint.\<close>

definition wrote :: "('d \<Rightarrow> bytes \<Rightarrow> peer_view option) \<Rightarrow> ('d, 'r) control_env \<Rightarrow> bytes \<Rightarrow> PeerConfig \<Rightarrow> 'd PeerReconciler \<Rightarrow> ReconcileError + unit \<Rightarrow> 'd PeerReconciler \<Rightarrow> bool" where
  "wrote view V key c rc r rc' \<longleftrightarrow> (\<exists>d fps. rc' = rc\<lparr>rc_client := d, rc_fingerprints := fps\<rparr>) \<and>
     (\<forall>k. k \<noteq> key \<longrightarrow> same_at view k rc rc') \<and>
     (case r of Inr _ \<Rightarrow> has_config view V rc' key c
      | Inl _ \<Rightarrow> same_at view key rc rc' \<or> map_of (rc_fingerprints rc) key = None \<and> map_of (rc_fingerprints rc') key = None)"

lemma wrote_knows: assumes "wrote view V key c rc r rc'" "knows view V now rc" shows "knows view V now rc'"
proof -
  have h: "rc_health rc' = rc_health rc" using assms(1) by (auto simp: wrote_def)
  have "view (rc_client rc') k = None \<or> (\<exists>c. ce_fingerprint V c = f \<and> view (rc_client rc') k = Some (core_view c))"
    if f: "map_of (rc_fingerprints rc') k = Some f" for k f
  proof (cases "same_at view k rc rc'")
    case True
    with f assms(2) show ?thesis by (auto simp: knows_def tracked_def same_at_def)
  next
    case False
    then have k: "k = key" using assms(1) by (auto simp: wrote_def)
    with assms(1) f False have "has_config view V rc' key c" by (auto simp: wrote_def split: sum.splits)
    with f k show ?thesis by (auto simp: has_config_def in_force_def)
  qed
  then show ?thesis using assms(2) h by (auto simp: knows_def tracked_def)
qed

text \<open>A desired peer is settled when its configuration is in force and its health follows its policy.\<close>

definition settled :: "('d \<Rightarrow> bytes \<Rightarrow> peer_view option) \<Rightarrow> ('d, 'r) control_env \<Rightarrow> 'd PeerReconciler \<Rightarrow> bytes \<Rightarrow> DesiredPeer \<Rightarrow> bool" where
  "settled view V rc k p \<longleftrightarrow> has_config view V rc k (dp_config p) \<and> follows (rc_health rc) k p"

definition same_plan :: "'d PeerReconciler \<Rightarrow> 'd PeerReconciler \<Rightarrow> bool" where
  "same_plan rc rc' \<longleftrightarrow> rc_desired rc' = rc_desired rc \<and> rc_directories rc' = rc_directories rc \<and> rc_last_applied rc' = rc_last_applied rc"

lemma same_at_settled: "same_at view k rc rc' \<Longrightarrow> settled view V rc' k p = settled view V rc k p"
  by (simp add: settled_def has_config_def same_at_in_force same_at_follows)

text \<open>The keys of a desired map are those of its peers, and every peer has a policy.\<close>

definition plan_ok :: "desired_map \<Rightarrow> bool" where
  "plan_ok desired \<longleftrightarrow> distinct (map fst desired) \<and> (\<forall>(k, p) \<in> set desired. dp_public_key p = k \<and> dp_policies p \<noteq> [])"

lemma plan_ok_simps [simp]: "plan_ok []"
    "plan_ok ((k, p) # rest) \<longleftrightarrow> k \<notin> fst ` set rest \<and> dp_public_key p = k \<and> dp_policies p \<noteq> [] \<and> plan_ok rest"
  by (auto simp: plan_ok_def)

lemma active_policy_less: "dp_policies p \<noteq> [] \<Longrightarrow> active_policy_index p < length (dp_policies p)"
  by (cases "dp_policies p") (simp_all add: active_policy_index_def min_def)

lemma track_follows:
  assumes "track_active_policy V key (active_policy_index p) routes now rc rng = (t, rc', rng')" "health_ok now (rc_health rc)"
    and "route_keys_for_policies cap (dp_policies p) = Inr routes" "dp_policies p \<noteq> []"
  shows "\<exists>hs. rc' = rc\<lparr>rc_health := hs\<rparr> \<and> health_ok now hs \<and> (\<forall>k. k \<noteq> key \<longrightarrow> map_of hs k = map_of (rc_health rc) k) \<and>
    (if isl t then hs = rc_health rc else follows hs key p)"
  using track_active_policy_ok [OF assms(1,2)] route_keys_eq [OF assms(3)] active_policy_less [OF assms(4)]
  by (cases t) (auto simp: follows_def min_def)

section \<open>The desired map\<close>

lemma keys_map_insert_set: "fst ` set (map_insert k v m) = insert k (fst ` set m)"
  by (induction k v m rule: map_insert.induct) auto

lemma plan_ok_insert: "plan_ok m \<Longrightarrow> dp_public_key p = k \<Longrightarrow> dp_policies p \<noteq> [] \<Longrightarrow> plan_ok (map_insert k p m)"
  by (induction k p m rule: map_insert.induct) (auto simp: keys_map_insert_set)

lemma plan_ok_lookup: "plan_ok m \<Longrightarrow> map_of m k = Some p \<Longrightarrow> dp_public_key p = k \<and> dp_policies p \<noteq> []"
  by (auto simp: plan_ok_def dest: map_of_SomeD)

lemma desired_loop_plan:
  "desired_loop K next_u64 m ps rng desired = (Inr out, rng') \<Longrightarrow> plan_ok desired \<Longrightarrow> plan_ok out \<and> length out \<le> length ps + length desired"
proof (induction ps arbitrary: rng desired)
  case (Cons p ps)
  from desired_loop_step [OF Cons.prems(1)] obtain d rng1 where d: "wanted m p d"
      "desired_loop K next_u64 m ps rng1 (map_insert (mp_public_key p) d desired) = (Inr out, rng')" by blast
  have "plan_ok (map_insert (mp_public_key p) d desired)" using d(1) Cons.prems(2) by (auto intro!: plan_ok_insert simp: wanted_def)
  from Cons.IH [OF d(2) this] show ?case using length_map_insert [of "mp_public_key p" d desired] by (simp split: if_splits)
qed simp

text \<open>A policy carried forward changes the selection and nothing else.\<close>

definition reselected :: "DesiredPeer \<Rightarrow> DesiredPeer \<Rightarrow> bool" where
  "reselected p p' \<longleftrightarrow> p' = p \<or> (\<exists>i. p' = set_active_policy i p)"

lemma reselected_simps: "reselected p p' \<Longrightarrow> dp_public_key p' = dp_public_key p \<and> dp_policies p' = dp_policies p"
  by (auto simp: reselected_def)

lemma carry_forward_peer_ok:
  assumes "carry_forward_peer cap old key peer h = (peer', h')" "health_inv h" "last_switch h \<le> now"
  shows "reselected peer peer' \<and> health_inv h' \<and> last_switch h' \<le> now"
proof -
  have "health_inv (sync_active_policy i (reset_policy_state h))" for i
    using assms(2) by (simp add: health_inv_def policies_ok_def sync_active_policy_def reset_policy_state_def)
  moreover have "last_switch (sync_active_policy i (reset_policy_state h)) = last_switch h" for i
    by (simp add: sync_active_policy_def reset_policy_state_def)
  ultimately show ?thesis using assms
    by (auto simp: carry_forward_peer_def Let_def reselected_def sync_policies_inv split: sum.splits)
qed

lemma carry_forward_ok:
  "carry_forward_active_policies cap old desired hs = (desired', hs') \<Longrightarrow> health_ok now hs \<Longrightarrow>
    list_all2 (\<lambda>(k, p) (k', p'). k' = k \<and> reselected p p') desired desired' \<and> health_ok now hs'"
proof (induction cap old desired hs arbitrary: desired' hs' rule: carry_forward_active_policies.induct)
  case (2 cap old key peer rest hs)
  show ?case
  proof (cases "map_of hs key")
    case None
    with 2 show ?thesis by (fastforce simp: reselected_def split: prod.splits)
  next
    case (Some h)
    obtain p' h' where c: "carry_forward_peer cap old key peer h = (p', h')" by fastforce
    have "health_inv h" "last_switch h \<le> now" using 2(4) Some by (auto simp: health_ok_def)
    note ok = carry_forward_peer_ok [OF c this]
    then have "health_ok now (map_insert key h' hs)" using 2(4) health_ok_insert by blast
    moreover obtain ds hs1 where r: "carry_forward_active_policies cap old rest (map_insert key h' hs) = (ds, hs1)" by fastforce
    ultimately show ?thesis using 2(2) [OF Some c [symmetric] r] 2(3) Some c ok by auto
  qed
qed auto

lemma reselected_plan:
  "list_all2 (\<lambda>(k, p) (k', p'). k' = k \<and> reselected p p') desired desired' \<Longrightarrow> map fst desired' = map fst desired \<and>
    (plan_ok desired \<longrightarrow> plan_ok desired') \<and> rel_option reselected (map_of desired k) (map_of desired' k)"
proof (induction rule: list_all2_induct)
  case (Cons x xs y ys)
  then have "fst ` set ys = fst ` set xs" by (metis list.set_map)
  with Cons show ?case by (cases x; cases y) (auto dest: reselected_simps)
qed simp

text \<open>A peer of the map, with its routes as in the map and any of its policies selected.\<close>

definition planned :: "NetworkMap \<Rightarrow> MapPeer \<Rightarrow> DesiredPeer \<Rightarrow> bool" where
  "planned m p d \<longleftrightarrow> (\<exists>d0. wanted m p d0 \<and> reselected d0 d)"

definition plan_of :: "NetworkMap \<Rightarrow> desired_map \<Rightarrow> bool" where
  "plan_of m desired \<longleftrightarrow> (\<forall>k. case last_with_key k (nm_peers m) of
     None \<Rightarrow> map_of desired k = None | Some p \<Rightarrow> \<exists>d. map_of desired k = Some d \<and> planned m p d)"

lemma plan_of_map:
  assumes "desired_peers_from_map K next_u64 m rng = (Inr desired0, rng1)"
    and "carry_forward_active_policies cap old desired0 hs = (desired, hs')" "health_ok now hs"
  shows "plan_ok desired \<and> plan_of m desired \<and> health_ok now hs' \<and> length desired \<le> length (nm_peers m)"
proof -
  note loop = assms(1) [unfolded desired_peers_from_map_def]
  have d0: "plan_ok desired0" "length desired0 \<le> length (nm_peers m)" using desired_loop_plan [OF loop] by simp_all
  from carry_forward_ok [OF assms(2,3)] have c: "list_all2 (\<lambda>(k, p) (k', p'). k' = k \<and> reselected p p') desired0 desired" "health_ok now hs'" by simp_all
  have "case last_with_key k (nm_peers m) of None \<Rightarrow> map_of desired k = None | Some p \<Rightarrow> \<exists>d. map_of desired k = Some d \<and> planned m p d" for k
  proof (cases "last_with_key k (nm_peers m)")
    case None
    with desired_loop_spec [OF loop, of k] reselected_plan [OF c(1), of k] show ?thesis by simp
  next
    case (Some p)
    with desired_loop_spec [OF loop, of k] obtain d where "map_of desired0 k = Some d" "wanted m p d" by auto
    with Some reselected_plan [OF c(1), of k] show ?thesis by (auto simp: planned_def option_rel_Some1)
  qed
  then show ?thesis using d0 c reselected_plan [OF c(1)] list_all2_lengthD [OF c(1)] by (auto simp: plan_of_def)
qed

text \<open>The three views agree: the device has exactly the desired peers, and every desired peer is settled.\<close>

definition coherent :: "('d \<Rightarrow> bytes \<Rightarrow> peer_view option) \<Rightarrow> ('d, 'r) control_env \<Rightarrow> 'd PeerReconciler \<Rightarrow> bool" where
  "coherent view V rc \<longleftrightarrow> plan_ok (rc_desired rc) \<and> dom (view (rc_client rc)) = fst ` set (rc_desired rc) \<and>
     (\<forall>(k, p) \<in> set (rc_desired rc). settled view V rc k p)"

definition map_outcome :: "('d \<Rightarrow> bytes \<Rightarrow> peer_view option) \<Rightarrow> ('d, 'r) control_env \<Rightarrow> NetworkMap \<Rightarrow> 'd PeerReconciler \<Rightarrow>
    ReconcileError + bool \<Rightarrow> 'd PeerReconciler \<Rightarrow> bool" where
  "map_outcome view V m rc r rc' = (case r of
     Inl _ \<Rightarrow> same_plan rc rc'
   | Inr applied \<Rightarrow> if applied then coherent view V rc' \<and> plan_of m (rc_desired rc') \<and> rc_last_applied rc' = Some (nm_updated_at m)
       else rc' = rc \<and> (\<exists>t. rc_last_applied rc = Some t \<and> nm_updated_at m \<le> t))"

section \<open>The map pass over any client\<close>

context device_client
begin

lemma write_peer_ok:
  assumes op: "\<exists>r d'. op c (rc_client rc) = Ret (r, d') \<and> dinv n d' \<and>
      (if isl r then view d' = view (rc_client rc) else view d' = (view (rc_client rc))(key \<mapsto> core_view c))"
  shows "returns (\<lambda>(r, rc'). dinv n (rc_client rc') \<and> wrote view V key c rc r rc') (write_peer V op key c rc)"
proof -
  from op obtain r d' where o: "op c (rc_client rc) = Ret (r, d')" "dinv n d'"
    "if isl r then view d' = view (rc_client rc) else view d' = (view (rc_client rc))(key \<mapsto> core_view c)" by blast
  show ?thesis
  proof (cases r)
    case (Inl e)
    with o show ?thesis by (auto simp: write_peer_def wrote_def same_at_def intro!: exI [of _ "rc_fingerprints rc"])
  next
    case (Inr u)
    then have v: "view d' = (view (rc_client rc))(key \<mapsto> core_view c)" using o(3) by simp
    show ?thesis
    proof (cases "record_fingerprint V key c (rc\<lparr>rc_client := d'\<rparr>)")
      case (Pair t rc')
      then consider (full) "isl t" "rc' = rc\<lparr>rc_client := d'\<rparr>" "map_of (rc_fingerprints rc) key = None"
        | (kept) "t = Inr ()" "rc' = rc\<lparr>rc_client := d', rc_fingerprints := map_insert key (ce_fingerprint V c) (rc_fingerprints rc)\<rparr>"
        by (auto simp: record_fingerprint_def try_insert_entry_def split: if_splits)
      then have "wrote view V key c rc t rc'"
      proof cases
        case full
        then show ?thesis using v by (cases t) (auto simp: wrote_def same_at_def intro!: exI [of _ "rc_fingerprints rc"])
      next
        case kept
        then show ?thesis using v by (auto simp: wrote_def same_at_def has_config_def in_force_def)
      qed
      moreover have "rc_client rc' = d'" using Pair by (auto simp: record_fingerprint_def split: sum.splits)
      ultimately show ?thesis using o Inr Pair by (simp add: write_peer_def)
    qed
  qed
qed

lemma apply_peer_ok:
  assumes "ce_client V = X" "dinv (Suc n) (rc_client rc)" "knows view V now rc" "dp_public_key peer = key"
    and "key \<in> set actual \<longrightarrow> view (rc_client rc) key \<noteq> None"
  shows "returns (\<lambda>(r, rc'). (\<exists>j \<ge> n. dinv j (rc_client rc')) \<and> wrote view V key (dp_config peer) rc r rc') (apply_peer V actual key peer rc)"
proof -
  let ?Q = "\<lambda>(r, rc'). (\<exists>j \<ge> n. dinv j (rc_client rc')) \<and> wrote view V key (dp_config peer) rc r rc'"
  have "returns ?Q (write_peer V (cl_add X) key (dp_config peer) rc)"
    using add_ok [OF assms(2), of "dp_config peer"] assms(4) by (intro returns_mono [OF write_peer_ok [where n = n]]) (auto split: if_splits)
  moreover have "returns ?Q (write_peer V (cl_update X) key (dp_config peer) rc)"
    using update_ok [OF assms(2), of "dp_config peer"] assms(4)
    by (intro returns_mono [OF write_peer_ok [where n = "Suc n"]]) (auto split: if_splits intro: exI [of _ "Suc n"])
  ultimately have w: "returns ?Q (write_peer V op key (dp_config peer) rc)" if "op = cl_add X \<or> op = cl_update X" for op
    using that by blast
  have "returns ?Q (Ret (Inr (), rc))" if f: "key \<in> set actual" "map_of (rc_fingerprints rc) key = Some (ce_fingerprint V (dp_config peer))"
  proof -
    have "has_config view V rc key (dp_config peer)"
      using assms(3,5) f by (fastforce simp: knows_def tracked_def has_config_def in_force_def)
    then show ?thesis using assms(2)
      by (auto simp: wrote_def intro!: exI [of _ "rc_client rc"] exI [of _ "rc_fingerprints rc"] exI [of _ "Suc n"])
  qed
  with w assms(1) show ?thesis by (auto simp: apply_peer_def Let_def)
qed

text \<open>What applying a list of desired peers leaves.\<close>

definition applied :: "('d, 'r) control_env \<Rightarrow> nat \<Rightarrow> instant \<Rightarrow> desired_map \<Rightarrow> 'd PeerReconciler \<Rightarrow> ReconcileError + unit \<Rightarrow> 'd PeerReconciler \<Rightarrow> bool" where
  "applied V n now desired rc r rc' \<longleftrightarrow> (\<exists>j \<ge> n. dinv j (rc_client rc')) \<and> knows view V now rc' \<and> same_plan rc rc' \<and>
     (\<forall>k. k \<notin> fst ` set desired \<longrightarrow> same_at view k rc rc') \<and> (\<not> isl r \<longrightarrow> (\<forall>(k, p) \<in> set desired. settled view V rc' k p))"

lemma applied_wrote:
  assumes "wrote view V key (dp_config p) rc r rc1" "knows view V now rc" "j \<ge> n" "dinv j (rc_client rc1)"
  shows "applied V n now [(key, p)] rc (Inl e) rc1"
  using assms wrote_knows [OF assms(1,2)] by (auto simp: applied_def wrote_def same_plan_def)

lemma applied_track:
  assumes w: "wrote view V key (dp_config p) rc (Inr ()) rc1" "knows view V now rc" "j \<ge> n" "dinv j (rc_client rc1)"
    and t: "track_active_policy V key (active_policy_index p) routes now rc1 rng = (t, rc2, rng')"
    and p: "route_keys_for_policies cap (dp_policies p) = Inr routes" "dp_policies p \<noteq> []"
  shows "applied V n now [(key, p)] rc t rc2"
proof -
  have k: "knows view V now rc1" using wrote_knows [OF w(1,2)] .
  then have "health_ok now (rc_health rc1)" by (simp add: knows_def)
  from track_follows [OF t this p] obtain hs where hs: "rc2 = rc1\<lparr>rc_health := hs\<rparr>" "health_ok now hs"
    "\<forall>k. k \<noteq> key \<longrightarrow> map_of hs k = map_of (rc_health rc1) k" "if isl t then hs = rc_health rc1 else follows hs key p" by blast
  have "\<forall>k. k \<noteq> key \<longrightarrow> same_at view k rc rc2" using w(1) hs(1,3) by (auto simp: wrote_def same_at_def)
  moreover have "has_config view V rc2 key (dp_config p)" using w(1) hs(1) by (simp add: wrote_def has_config_def)
  moreover have "knows view V now rc2" using k hs by (simp add: knows_def)
  ultimately show ?thesis using w hs by (auto simp: applied_def settled_def wrote_def same_plan_def)
qed

lemma applied_Cons:
  assumes "applied V m now [(key, p)] rc (Inr ()) rc1" "applied V n now rest rc1 r rc2" "key \<notin> fst ` set rest"
  shows "applied V n now ((key, p) # rest) rc r rc2"
proof -
  have k: "same_at view key rc1 rc2" using assms(2,3) by (simp add: applied_def)
  have "same_at view k rc rc2" if "k \<notin> fst ` set ((key, p) # rest)" for k
    using assms(1,2) that same_at_trans [of view k rc rc1 rc2] by (auto simp: applied_def)
  moreover have "settled view V rc2 key p" using assms(1) same_at_settled [OF k, of V p] by (simp add: applied_def)
  ultimately show ?thesis using assms(1,2) by (auto simp: applied_def same_plan_def)
qed

lemma applied_stop: "applied V m now [(key, p)] rc r rc1 \<Longrightarrow> isl r \<Longrightarrow> n \<le> m \<Longrightarrow> applied V n now ((key, p) # rest) rc r rc1"
  by (auto simp: applied_def intro: le_trans)

lemma applied_mono: "applied V m now desired rc r rc' \<Longrightarrow> n \<le> m \<Longrightarrow> applied V n now desired rc r rc'"
  by (auto simp: applied_def intro: le_trans)

lemma apply_one_ok:
  assumes "ce_client V = X" "dinv (Suc n) (rc_client rc)" "knows view V now rc" "dp_public_key p = key" "dp_policies p \<noteq> []"
    and "key \<in> set actual \<longrightarrow> view (rc_client rc) key \<noteq> None"
  shows "returns (\<lambda>(r, rc', rng'). applied V n now [(key, p)] rc r rc') (apply_one V actual key p now rc rng)"
  unfolding apply_one_def
proof (rule returns_bindI [OF apply_peer_ok [OF assms(1-4,6)]], clarify)
  fix r rc1 j
  assume j: "j \<ge> n" "dinv j (rc_client rc1)" and w: "wrote view V key (dp_config p) rc r rc1"
  show "returns (\<lambda>(r, rc', rng'). applied V n now [(key, p)] rc r rc') (case r of
       Inl e \<Rightarrow> Ret (Inl e, rc1, rng)
     | Inr _ \<Rightarrow> (case route_keys_for_policies (cc_routes (ce_caps V)) (dp_policies p) of
         Inl e \<Rightarrow> Ret (Inl e, rc1, rng)
       | Inr routes \<Rightarrow> Ret (track_active_policy V key (active_policy_index p) routes now rc1 rng)))"
  proof (cases "isl r \<or> isl (route_keys_for_policies (cc_routes (ce_caps V)) (dp_policies p))")
    case True
    then show ?thesis using applied_wrote [OF w assms(3) j] by (auto split: sum.splits)
  next
    case False
    then obtain routes where r: "r = Inr ()" "route_keys_for_policies (cc_routes (ce_caps V)) (dp_policies p) = Inr routes"
      by (metis isl_def old.unit.exhaust sum.exhaust_sel)
    obtain t rc2 rng' where t: "track_active_policy V key (active_policy_index p) routes now rc1 rng = (t, rc2, rng')"
      by (metis prod_cases3)
    show ?thesis using applied_track [OF _ assms(3) j t r(2) assms(5)] w r t by simp
  qed
qed

lemma apply_desired_ok:
  assumes "ce_client V = X" "plan_ok desired" "knows view V now rc" "dinv (length desired + n) (rc_client rc)"
    and "\<forall>k \<in> set actual \<inter> fst ` set desired. view (rc_client rc) k \<noteq> None"
  shows "returns (\<lambda>(r, rc', rng'). applied V n now desired rc r rc') (apply_desired_peers V actual desired now rc rng)"
  using assms(2-)
proof (induction desired arbitrary: rc rng n)
  case Nil
  then show ?case by (auto simp: applied_def same_plan_def)
next
  case (Cons e rest)
  obtain key p where e: "e = (key, p)" by force
  let ?m = "length rest + n"
  have p: "dp_public_key p = key" "dp_policies p \<noteq> []" "key \<notin> fst ` set rest" "plan_ok rest" using Cons.prems(1) e by auto
  have d: "dinv (Suc ?m) (rc_client rc)" and a: "key \<in> set actual \<longrightarrow> view (rc_client rc) key \<noteq> None"
    using Cons.prems(3,4) e by simp_all
  show ?case unfolding e apply_desired_peers.simps
  proof (rule returns_bindI [OF apply_one_ok [OF assms(1) d Cons.prems(2) p(1,2) a]], clarify)
    fix r rc1 rng1
    assume one: "applied V ?m now [(key, p)] rc r rc1"
    show "returns (\<lambda>(r, rc', rng'). applied V n now ((key, p) # rest) rc r rc') (case r of
       Inl e \<Rightarrow> Ret (Inl e, rc1, rng1) | Inr _ \<Rightarrow> apply_desired_peers V actual rest now rc1 rng1)"
    proof (cases r)
      case (Inl e)
      then show ?thesis using applied_stop [OF one, of n rest] by simp
    next
      case (Inr u)
      from one obtain i where i: "i \<ge> ?m" "dinv i (rc_client rc1)" "knows view V now rc1" by (auto simp: applied_def)
      have "view (rc_client rc1) k = view (rc_client rc) k" if "k \<in> fst ` set rest" for k
        using one that p(3) by (auto simp: applied_def same_at_def)
      then have v: "\<forall>k \<in> set actual \<inter> fst ` set rest. view (rc_client rc1) k \<noteq> None" using Cons.prems(4) by (auto simp: e)
      have "dinv (length rest + (i - length rest)) (rc_client rc1)" "n \<le> i - length rest" using i by simp_all
      note rest = Cons.IH [OF p(4) i(3) this(1) v, of rng1] and mono = applied_mono [OF _ this(2)]
      have "returns (\<lambda>(r, rc', rng'). applied V n now ((key, p) # rest) rc r rc') (apply_desired_peers V actual rest now rc1 rng1)"
        using one Inr by (intro returns_mono [OF rest]) (auto intro!: applied_Cons [OF _ mono p(3)])
      then show ?thesis by (simp add: Inr)
    qed
  qed
qed

definition removed :: "('d, 'r) control_env \<Rightarrow> nat \<Rightarrow> instant \<Rightarrow> bytes list \<Rightarrow> desired_map \<Rightarrow> 'd PeerReconciler \<Rightarrow> 'd PeerReconciler \<Rightarrow> bool" where
  "removed V n now keys desired rc rc' \<longleftrightarrow> (\<exists>j \<ge> n. dinv j (rc_client rc')) \<and> knows view V now rc' \<and> same_plan rc rc' \<and>
     view (rc_client rc') = (\<lambda>k. if k \<in> set keys \<and> map_of desired k = None then None else view (rc_client rc) k) \<and>
     (\<forall>k. map_of desired k \<noteq> None \<longrightarrow> same_at view k rc rc')"

lemma remove_vanished_ok:
  assumes "ce_client V = X" "knows view V now rc" "dinv n (rc_client rc)"
  shows "returns (\<lambda>(r, rc'). r = Inr () \<and> removed V n now keys desired rc rc') (remove_vanished_peers V keys desired rc)"
  using assms(2-)
proof (induction keys arbitrary: rc)
  case Nil
  then show ?case by (auto simp: same_plan_def removed_def)
next
  case (Cons key keys)
  show ?case
  proof (cases "map_of desired key = None")
    case False
    have "removed V n now (key # keys) desired rc rc'" if "removed V n now keys desired rc rc'" for rc'
      using that False by (auto simp: removed_def fun_eq_iff)
    then show ?thesis using returns_mono [OF Cons.IH [OF Cons.prems]] False by (simp add: case_prod_beta)
  next
    case True
    from remove_ok [OF Cons.prems(2), of key] obtain d' where r: "cl_remove X key (rc_client rc) = Ret (Inr (), d')" "dinv n d'"
      "view d' = (view (rc_client rc))(key := None)" by blast
    let ?rc = "rc\<lparr>rc_client := d', rc_health := map_remove key (rc_health rc), rc_fingerprints := map_remove key (rc_fingerprints rc)\<rparr>"
    have k: "knows view V now ?rc" using Cons.prems(1) r(3) by (auto simp: knows_def tracked_def health_ok_def)
    have "removed V n now (key # keys) desired rc rc'" if "removed V n now keys desired ?rc rc'" for rc'
    proof -
      have "same_at view k rc rc'" if "map_of desired k \<noteq> None" for k
        using that \<open>removed V n now keys desired ?rc rc'\<close> True r(3) by (cases "k = key") (auto simp: removed_def same_at_def)
      then show ?thesis using that True r(3) by (auto simp: removed_def fun_eq_iff same_plan_def)
    qed
    with returns_mono [OF Cons.IH [OF k]] r True assms(1) show ?thesis by (simp add: case_prod_beta)
  qed
qed

lemma applied_coherent:
  assumes "applied V n now desired rc (Inr ()) rc'" "plan_ok desired" "dom (view (rc_client rc)) \<subseteq> fst ` set desired" "rc_desired rc'' = desired"
    and "rc_client rc'' = rc_client rc'" "rc_fingerprints rc'' = rc_fingerprints rc'" "rc_health rc'' = rc_health rc'"
  shows "coherent view V rc''"
proof -
  have s: "\<forall>(k, p) \<in> set desired. settled view V rc' k p" "\<forall>k. k \<notin> fst ` set desired \<longrightarrow> view (rc_client rc') k = view (rc_client rc) k"
    using assms(1) by (auto simp: applied_def same_at_def)
  have "view (rc_client rc') k \<noteq> None \<longleftrightarrow> k \<in> fst ` set desired" for k
  proof (cases "k \<in> fst ` set desired")
    case True
    then show ?thesis using s(1) by (fastforce simp: settled_def has_config_def in_force_def)
  next
    case False
    then show ?thesis using s(2) assms(3) by (auto simp: domIff)
  qed
  then show ?thesis using s(1) assms(2,4-) by (auto simp: coherent_def settled_def has_config_def)
qed

lemma reconcile_returnsI:
  assumes V: "ce_client V = X" and k: "knows view V now rc"
    and d: "dinv (length (nm_peers m) + n) (rc_client rc)"
    and stale: "\<And>t. rc_last_applied rc = Some t \<Longrightarrow> nm_updated_at m \<le> t \<Longrightarrow> Q (Inr False, rc, rng)"
    and failed: "\<And>e rng'. desired_peers_from_map (ce_caps V) (ce_next_u64 V) m rng = (Inl e, rng') \<Longrightarrow> Q (Inl e, rc, rng')"
    and writes: "\<And>actual desired rc1 rc2 rng1. plan_ok desired \<Longrightarrow> plan_of m desired \<Longrightarrow> set actual = dom (view (rc_client rc)) \<Longrightarrow>
      same_plan rc rc1 \<Longrightarrow> rc_fingerprints rc1 = rc_fingerprints rc \<Longrightarrow> view (rc_client rc1) = view (rc_client rc) \<Longrightarrow>
      removed V (length desired + n) now actual desired rc1 rc2 \<Longrightarrow>
      returns Q (run_bind (apply_desired_peers V actual desired now rc2 rng1) (commit_map V m desired))"
  shows "returns Q (reconcile_network_map V now m rc rng)"
proof (cases "case rc_last_applied rc of Some t \<Rightarrow> nm_updated_at m \<le> t | None \<Rightarrow> False")
  case True
  then show ?thesis using stale by (auto simp: reconcile_network_map_def split: option.splits)
next
  case fresh: False
  obtain x rng1 where x: "desired_peers_from_map (ce_caps V) (ce_next_u64 V) m rng = (x, rng1)" by fastforce
  show ?thesis
  proof (cases x)
    case (Inl e)
    then show ?thesis using failed fresh x by (simp add: reconcile_network_map_def)
  next
    case (Inr desired0)
    obtain desired hs where c: "carry_forward_active_policies (cc_routes (ce_caps V)) (rc_desired rc) desired0 (rc_health rc) = (desired, hs)" by fastforce
    from plan_of_map [OF x [unfolded Inr] c] k have p: "plan_ok desired" "plan_of m desired" "health_ok now hs" "length desired \<le> length (nm_peers m)"
      by (auto simp: knows_def)
    from list_ok [OF d] obtain actual d1 where l: "cl_list X (rc_client rc) = Ret (Inr actual, d1)"
        "dinv (length (nm_peers m) + n) d1" "view d1 = view (rc_client rc)"
        "distinct actual" "set actual = dom (view (rc_client rc))" by blast
    let ?rc = "rc\<lparr>rc_health := hs, rc_client := d1\<rparr>"
    have k1: "knows view V now ?rc" using k p(3) l(3) by (simp add: knows_def)
    have d1: "dinv (length (nm_peers m) + n) (rc_client ?rc)" using l(2) by simp
    have "returns Q (run_bind (remove_vanished_peers V actual desired ?rc) (\<lambda>(r, rc3). case r of
       Inl e \<Rightarrow> Ret (Inl e, rc3, rng1) | Inr _ \<Rightarrow> run_bind (apply_desired_peers V actual desired now rc3 rng1) (commit_map V m desired)))"
    proof (rule returns_bindI [OF remove_vanished_ok [OF V k1 d1]], clarify)
      fix rc2
      assume r: "removed V (length (nm_peers m) + n) now actual desired ?rc rc2"
      then have "removed V (length desired + n) now actual desired ?rc rc2" using p(4) by (auto simp: removed_def intro: le_trans [OF add_le_mono1])
      from writes [OF p(1,2) l(5) _ _ _ this] l(3)
      show "returns Q (case Inr () of Inl e \<Rightarrow> Ret (Inl e, rc2, rng1) | Inr _ \<Rightarrow> run_bind (apply_desired_peers V actual desired now rc2 rng1) (commit_map V m desired))"
        by (simp add: same_plan_def)
    qed
    then show ?thesis using fresh x Inr c l(1) V by (simp add: reconcile_network_map_def Let_def)
  qed
qed

text \<open>The removal leaves the desired peers and a device that can take the writes.\<close>

lemma removed_ready:
  assumes "removed V (length desired + n) now actual desired rc rc1" "set actual = dom (view (rc_client rc))"
  shows "\<exists>n' \<ge> n. dinv (length desired + n') (rc_client rc1)" "knows view V now rc1" "dom (view (rc_client rc1)) \<subseteq> fst ` set desired"
    "\<forall>k \<in> set actual \<inter> fst ` set desired. view (rc_client rc1) k \<noteq> None"
proof -
  from assms(1) obtain j where j: "length desired + n \<le> j" "dinv j (rc_client rc1)" by (auto simp: removed_def)
  then show "\<exists>n' \<ge> n. dinv (length desired + n') (rc_client rc1)" by (intro exI [of _ "j - length desired"]) simp
  show "knows view V now rc1" using assms(1) by (simp add: removed_def)
  show "dom (view (rc_client rc1)) \<subseteq> fst ` set desired" "\<forall>k \<in> set actual \<inter> fst ` set desired. view (rc_client rc1) k \<noteq> None"
    using assms by (auto simp: removed_def map_of_eq_None_iff split: if_splits)
qed

lemma reconcile_ok:
  assumes V: "ce_client V = X" and k: "knows view V now rc"
    and d: "dinv (length (nm_peers m) + n) (rc_client rc)"
  shows "returns (\<lambda>(r, rc', rng'). (\<exists>j \<ge> n. dinv j (rc_client rc')) \<and> knows view V now rc' \<and> map_outcome view V m rc r rc')
    (reconcile_network_map V now m rc rng)"
proof -
  have j: "\<exists>j \<ge> n. dinv j (rc_client rc)" using d by (intro exI [of _ "length (nm_peers m) + n"]) simp
  show ?thesis
  proof (rule reconcile_returnsI [OF V k d], goal_cases)
    case (3 actual desired rc1 rc2 rng1)
    have "set actual = dom (view (rc_client rc1))" using 3(3,6) by simp
    note ready = removed_ready [OF 3(7) this]
    from ready(1) obtain n' where n': "n \<le> n'" "dinv (length desired + n') (rc_client rc2)" by blast
    show ?case
    proof (rule returns_bindI [OF apply_desired_ok [OF V 3(1) ready(2) n'(2) ready(4)]], clarify)
      fix r rc3 rng3
      assume a: "applied V n' now desired rc2 r rc3"
      then have b: "\<exists>j \<ge> n. dinv j (rc_client rc3)" "knows view V now rc3" "same_plan rc rc3"
        using applied_mono [OF a n'(1)] 3(4,7) by (auto simp: applied_def removed_def same_plan_def)
      have "coherent view V (rc3\<lparr>rc_directories := ds, rc_desired := desired, rc_last_applied := t\<rparr>)" if "r = Inr ()" for ds t
        using a that by (intro applied_coherent [OF _ 3(1) ready(3)]) simp_all
      with b 3(2) show "returns (\<lambda>(r, rc', rng'). (\<exists>j \<ge> n. dinv j (rc_client rc')) \<and> knows view V now rc' \<and> map_outcome view V m rc r rc')
          (commit_map V m desired (r, rc3, rng3))" by (auto simp: commit_map_def map_outcome_def knows_def split: sum.splits)
    qed
  qed (use j k in \<open>auto simp: map_outcome_def same_plan_def\<close>)
qed

text \<open>An address is not given to a peer while another peer holds it.\<close>

lemma update_refused:
  assumes "dinv n d" "config_wf c" "view d k = Some v" "k \<noteq> pc_public_key c" "x \<in> pv_networks v" "x \<in> ipnet_key ` set (pc_allowed_ips c)"
  shows "\<exists>e d'. cl_update X c d = Ret (Inl e, d') \<and> view d' = view d"
proof -
  from update_ok [OF assms(1,2)] obtain r d' where u: "cl_update X c d = Ret (r, d')" "dinv n d'"
    "if isl r then view d' = view d else view d (pc_public_key c) \<noteq> None \<and> view d' = (view d)(pc_public_key c \<mapsto> core_view c)" by blast
  have "isl r"
  proof (rule ccontr)
    assume "\<not> isl r"
    then have "view d' = (view d)(pc_public_key c \<mapsto> core_view c)" using u(3) by simp
    then have "view d' k = Some v" "view d' (pc_public_key c) = Some (core_view c)" using assms(3,4) by auto
    from exclusive [OF u(2) this assms(5)] assms(4,6) show False by (auto simp: core_view_def config_view_def)
  qed
  with u show ?thesis by (auto simp: isl_def)
qed

text \<open>Whichever of the two peers is written first, the other still holds its address.\<close>

lemma apply_swapped:
  assumes "ce_client V = X" "plan_ok desired" "knows view V now rc" "dinv (length desired + n) (rc_client rc)"
    and "\<forall>k \<in> set actual \<inter> fst ` set desired. view (rc_client rc) k \<noteq> None"
    and "k1 \<noteq> k2" "k1 \<in> set actual" "k2 \<in> set actual" "(k1, q1) \<in> set desired" "(k2, q2) \<in> set desired"
    and "view (rc_client rc) k1 = Some v1" "x1 \<in> pv_networks v1" "x1 \<in> ipnet_key ` set (pc_allowed_ips (dp_config q2))"
    and "view (rc_client rc) k2 = Some v2" "x2 \<in> pv_networks v2" "x2 \<in> ipnet_key ` set (pc_allowed_ips (dp_config q1))"
    and "map_of (rc_fingerprints rc) k1 \<noteq> Some (ce_fingerprint V (dp_config q1))" "map_of (rc_fingerprints rc) k2 \<noteq> Some (ce_fingerprint V (dp_config q2))"
  shows "returns (\<lambda>(r, rc', rng'). isl r \<and> same_at view k1 rc rc' \<and> same_at view k2 rc rc') (apply_desired_peers V actual desired now rc rng)"
  using assms(2-5,9-)
proof (induction desired arbitrary: rc rng n)
  case (Cons e rest)
  obtain key p where e: "e = (key, p)" by force
  have d: "dinv (Suc (length rest + n)) (rc_client rc)" using Cons.prems(3) by simp
  have p: "dp_public_key p = key" "dp_policies p \<noteq> []" "key \<notin> fst ` set rest" "plan_ok rest" using Cons.prems(1) e by auto
  show ?case
  proof (cases "key = k1 \<or> key = k2")
    case True
    then have "\<exists>k v x. view (rc_client rc) k = Some v \<and> k \<noteq> pc_public_key (dp_config p) \<and> x \<in> pv_networks v \<and>
        x \<in> ipnet_key ` set (pc_allowed_ips (dp_config p)) \<and> key \<in> set actual \<and> map_of (rc_fingerprints rc) key \<noteq> Some (ce_fingerprint V (dp_config p))"
    proof
      assume "key = k1"
      then have "p = q1" using Cons.prems(5) p(3) e by force
      with \<open>key = k1\<close> Cons.prems assms(6-8) p(1) show ?thesis by (intro exI [of _ k2] exI [of _ v2] exI [of _ x2]) simp
    next
      assume "key = k2"
      then have "p = q2" using Cons.prems(6) p(3) e by force
      with \<open>key = k2\<close> Cons.prems assms(6-8) p(1) show ?thesis by (intro exI [of _ k1] exI [of _ v1] exI [of _ x1]) simp
    qed
    with update_refused [OF d, of "dp_config p"] obtain er d' where "cl_update X (dp_config p) (rc_client rc) = Ret (Inl er, d')" "view d' = view (rc_client rc)"
      "key \<in> set actual" "map_of (rc_fingerprints rc) key \<noteq> Some (ce_fingerprint V (dp_config p))" by force
    then show ?thesis using assms(1) e by (simp add: apply_one_def apply_peer_def write_peer_def Let_def same_at_def)
  next
    case False
    have a: "key \<in> set actual \<longrightarrow> view (rc_client rc) key \<noteq> None" using Cons.prems(4) e by simp
    show ?thesis unfolding e apply_desired_peers.simps
    proof (rule returns_bindI [OF apply_one_ok [OF assms(1) d Cons.prems(2) p(1,2) a]], clarify)
      fix r rc1 rng1
      assume one: "applied V (length rest + n) now [(key, p)] rc r rc1"
      then have s: "same_at view k rc rc1" if "k \<noteq> key" for k using that by (simp add: applied_def)
      then have s12: "same_at view k1 rc rc1" "same_at view k2 rc rc1" using False by auto
      show "returns (\<lambda>(r, rc', rng'). isl r \<and> same_at view k1 rc rc' \<and> same_at view k2 rc rc') (case r of Inl e \<Rightarrow> Ret (Inl e, rc1, rng1) | Inr _ \<Rightarrow> apply_desired_peers V actual rest now rc1 rng1)"
      proof (cases r)
        case (Inr u)
        from one obtain i where i: "length rest + n \<le> i" "dinv i (rc_client rc1)" "knows view V now rc1" by (auto simp: applied_def)
        then have i': "dinv (length rest + (i - length rest)) (rc_client rc1)" by simp
        have "view (rc_client rc1) k = view (rc_client rc) k" if "k \<in> fst ` set rest" for k
          using s [of k] that p(3) by (metis same_at_def)
        then have v: "\<forall>k \<in> set actual \<inter> fst ` set rest. view (rc_client rc1) k \<noteq> None" using Cons.prems(4) by (auto simp: e)
        have "(k1, q1) \<in> set rest" "(k2, q2) \<in> set rest" using Cons.prems(5,6) e False by auto
        from Cons.IH [OF p(4) i(3) i' v this] Cons.prems(7-) s12
        have "returns (\<lambda>(r, rc', rng'). isl r \<and> same_at view k1 rc1 rc' \<and> same_at view k2 rc1 rc') (apply_desired_peers V actual rest now rc1 rng1)"
          by (simp add: same_at_def)
        then have "returns (\<lambda>(r, rc', rng'). isl r \<and> same_at view k1 rc rc' \<and> same_at view k2 rc rc') (apply_desired_peers V actual rest now rc1 rng1)"
          by (rule returns_mono) (auto intro: same_at_trans [OF s12(1)] same_at_trans [OF s12(2)])
        then show ?thesis by (simp add: Inr)
      qed (use s12 in simp)
    qed
  qed
qed simp

lemma swap_refused:
  assumes V: "ce_client V = X" and k: "knows view V now rc"
    and d: "dinv (length (nm_peers m)) (rc_client rc)"
    and ks: "k1 \<noteq> k2" "last_with_key k1 (nm_peers m) = Some p1" "mp_tunnel_ip p1 = Some a2"
      "last_with_key k2 (nm_peers m) = Some p2" "mp_tunnel_ip p2 = Some a1"
    and v: "view (rc_client rc) k1 = Some v1" "ipnet_key (host_net a1) \<in> pv_networks v1"
      "view (rc_client rc) k2 = Some v2" "ipnet_key (host_net a2) \<in> pv_networks v2"
    and f: "\<forall>c. map_of (rc_fingerprints rc) k1 = Some (ce_fingerprint V c) \<longrightarrow> host_net a2 \<notin> set (pc_allowed_ips c)"
      "\<forall>c. map_of (rc_fingerprints rc) k2 = Some (ce_fingerprint V c) \<longrightarrow> host_net a1 \<notin> set (pc_allowed_ips c)"
  shows "returns (\<lambda>(r, rc', rng'). r \<noteq> Inr True \<and> (\<forall>k \<in> {k1, k2}. view (rc_client rc') k = view (rc_client rc) k \<and>
      map_of (rc_fingerprints rc') k = map_of (rc_fingerprints rc) k)) (reconcile_network_map V now m rc rng)"
proof (rule reconcile_returnsI [OF V k, where n = 0], goal_cases)
  case 1
  then show ?case using d by simp
next
  case (4 actual desired rc1 rc2 rng1)
  have "set actual = dom (view (rc_client rc1))" using 4(3,6) by simp
  note ready = removed_ready [OF 4(7) this]
  from ready(1) obtain n' where n': "dinv (length desired + n') (rc_client rc2)" by blast
  have q: "\<exists>q. map_of desired k = Some q \<and> set (pc_allowed_ips (dp_config q)) = {host_net a}"
    if "last_with_key k (nm_peers m) = Some p" "mp_tunnel_ip p = Some a" for k p a
    using that 4(2) [unfolded plan_of_def, rule_format, of k]
    by (auto simp: planned_def wanted_def reselected_def dp_config_def config_for_policy_def set_active_policy_def Let_def split: prod.splits)
  from q [OF ks(2,3)] q [OF ks(4,5)] obtain q1 q2 where qs: "map_of desired k1 = Some q1" "set (pc_allowed_ips (dp_config q1)) = {host_net a2}"
    "map_of desired k2 = Some q2" "set (pc_allowed_ips (dp_config q2)) = {host_net a1}" by blast
  have s: "same_at view k rc1 rc2" if "map_of desired k \<noteq> None" for k using 4(7) that by (simp add: removed_def)
  from s [of k1] s [of k2] qs 4(5,6) have rc2: "view (rc_client rc2) k1 = Some v1" "view (rc_client rc2) k2 = Some v2"
    "map_of (rc_fingerprints rc2) k1 = map_of (rc_fingerprints rc) k1" "map_of (rc_fingerprints rc2) k2 = map_of (rc_fingerprints rc) k2"
    using v by (simp_all add: same_at_def)
  have "returns (\<lambda>(r, rc', rng'). isl r \<and> same_at view k1 rc2 rc' \<and> same_at view k2 rc2 rc') (apply_desired_peers V actual desired now rc2 rng1)"
    using v f qs rc2 4(3) by (intro apply_swapped [OF V 4(1) ready(2) n' ready(4) ks(1) _ _ map_of_SomeD [OF qs(1)] map_of_SomeD [OF qs(3)] rc2(1) v(2) _ rc2(2) v(4)]) auto
  then show ?case by (rule returns_bindI) (use rc2 v in \<open>auto simp: commit_map_def same_at_def split: sum.splits\<close>)
qed simp_all

end

section \<open>The health pass over any client\<close>

text \<open>The desired peers with any of their policies selected.\<close>

definition same_routes :: "'d PeerReconciler \<Rightarrow> 'd PeerReconciler \<Rightarrow> bool" where
  "same_routes rc rc' \<longleftrightarrow> list_all2 (\<lambda>(k, p) (k', p'). k' = k \<and> reselected p p') (rc_desired rc) (rc_desired rc') \<and>
     rc_directories rc' = rc_directories rc \<and> rc_last_applied rc' = rc_last_applied rc"

lemma map_insert_same: "map_of m k = Some v \<Longrightarrow> map_insert k v m = m"
  by (induction k v m rule: map_insert.induct) (auto split: if_splits)

lemma map_insert_twice: "map_insert k w (map_insert k v m) = map_insert k w m"
  by (induction k v m rule: map_insert.induct) auto

lemma set_active_policy_twice [simp]: "set_active_policy i (set_active_policy j p) = set_active_policy i p"
  by (simp add: set_active_policy_def Let_def)

lemma reselected_trans: "reselected p q \<Longrightarrow> reselected q r \<Longrightarrow> reselected p r"
  by (auto simp: reselected_def)

lemma same_routes_refl [simp]: "same_routes rc rc"
  by (auto simp: same_routes_def reselected_def intro!: list_all2_refl)

lemma same_routes_trans: "same_routes a b \<Longrightarrow> same_routes b c \<Longrightarrow> same_routes a c"
proof -
  let ?R = "\<lambda>(k, p) (k', p'). k' = k \<and> reselected p p'"
  assume ab: "same_routes a b" and bc: "same_routes b c"
  then have "list_all2 ?R (rc_desired a) (rc_desired b)" "list_all2 ?R (rc_desired b) (rc_desired c)" by (simp_all add: same_routes_def)
  then have "list_all2 ?R (rc_desired a) (rc_desired c)" by (rule list_all2_trans [of ?R ?R ?R, rotated]) (auto intro: reselected_trans)
  with ab bc show ?thesis by (simp add: same_routes_def)
qed

lemma reselected_insert: "map_of m k = Some p \<Longrightarrow> reselected p p' \<Longrightarrow>
    list_all2 (\<lambda>(k, p) (k', p'). k' = k \<and> reselected p p') m (map_insert k p' m)"
  by (induction k p' m rule: map_insert.induct) (auto simp: reselected_def intro!: list_all2_refl split: if_splits)

lemma plan_settled: "plan_ok m \<Longrightarrow> (\<forall>(k, p) \<in> set m. P k p) \<longleftrightarrow> (\<forall>k p. map_of m k = Some p \<longrightarrow> P k p)"
  by (auto simp: plan_ok_def dest: map_of_SomeD map_of_is_SomeI)

lemma coherent_change:
  assumes "coherent view V rc" "map_of (rc_desired rc) key = Some p" "reselected p p'" "rc_desired rc' = map_insert key p' (rc_desired rc)"
    and "\<forall>k. k \<noteq> key \<longrightarrow> same_at view k rc rc'" "settled view V rc' key p'"
  shows "coherent view V rc'"
proof -
  have ok: "plan_ok (rc_desired rc)" and s: "\<forall>k p. map_of (rc_desired rc) k = Some p \<longrightarrow> settled view V rc k p"
    using assms(1) plan_settled [of "rc_desired rc" "settled view V rc"] by (auto simp: coherent_def)
  have ok': "plan_ok (rc_desired rc')"
    using plan_ok_insert [OF ok, of p' key] plan_ok_lookup [OF ok assms(2)] reselected_simps [OF assms(3)] assms(4) by simp
  have "settled view V rc' k q" if "map_of (rc_desired rc') k = Some q" for k q
  proof (cases "k = key")
    case True
    then show ?thesis using that assms(4,6) by simp
  next
    case False
    then have "same_at view k rc rc'" using assms(5) by simp
    then show ?thesis using that False assms(4) s same_at_settled [of view k rc rc' V q] by simp
  qed
  then have s': "\<forall>(k, q) \<in> set (rc_desired rc'). settled view V rc' k q" using plan_settled [OF ok', of "settled view V rc'"] by blast
  have "view (rc_client rc') k \<noteq> None \<longleftrightarrow> k \<in> fst ` set (rc_desired rc')" for k
  proof (cases "k = key")
    case True
    then show ?thesis using assms(4,6) by (auto simp: settled_def has_config_def in_force_def keys_map_insert_set)
  next
    case False
    then show ?thesis using assms(1,4,5) by (auto simp: coherent_def same_at_def keys_map_insert_set domIff)
  qed
  then show ?thesis using ok' s' by (auto simp: coherent_def)
qed

context device_client
begin

text \<open>What the whole pass leaves.\<close>

definition checked :: "('d, 'r) control_env \<Rightarrow> nat \<Rightarrow> instant \<Rightarrow> 'd PeerReconciler \<Rightarrow> 'd PeerReconciler \<Rightarrow> bool" where
  "checked V n now rc rc' \<longleftrightarrow> (\<exists>j \<ge> n. dinv j (rc_client rc')) \<and> knows view V now rc' \<and> same_routes rc rc' \<and>
     (coherent view V rc \<longrightarrow> coherent view V rc')"

lemma checked_trans: "checked V m now a b \<Longrightarrow> checked V n now b c \<Longrightarrow> checked V n now a c"
  by (auto simp: checked_def intro: same_routes_trans)

lemma checked_mono: "checked V m now a b \<Longrightarrow> n \<le> m \<Longrightarrow> checked V n now a b"
  by (auto simp: checked_def intro: le_trans)

text \<open>What a sample of one peer leaves.\<close>

definition sampled :: "('d, 'r) control_env \<Rightarrow> nat \<Rightarrow> instant \<Rightarrow> bytes \<Rightarrow> DesiredPeer \<Rightarrow> 'd PeerReconciler \<Rightarrow> 'd PeerReconciler \<Rightarrow> bool" where
  "sampled V n now key p rc rc' \<longleftrightarrow> (\<exists>j \<ge> n. dinv j (rc_client rc')) \<and> knows view V now rc' \<and>
     (\<exists>p'. reselected p p' \<and> rc_desired rc' = map_insert key p' (rc_desired rc) \<and> (settled view V rc key p \<longrightarrow> settled view V rc' key p')) \<and>
     (\<forall>k. k \<noteq> key \<longrightarrow> same_at view k rc rc') \<and> rc_directories rc' = rc_directories rc \<and> rc_last_applied rc' = rc_last_applied rc"

text \<open>A step that writes nothing to the device.\<close>

lemma sampled_quiet:
  assumes "knows view V now rc" "map_of (rc_desired rc) key = Some p" "view d = view (rc_client rc)" "dinv n d" "health_ok now hs"
    and "\<forall>k. k \<noteq> key \<longrightarrow> map_of hs k = map_of (rc_health rc) k" "follows (rc_health rc) key p \<longrightarrow> follows hs key p"
  shows "sampled V n now key p rc (rc\<lparr>rc_client := d, rc_health := hs\<rparr>)"
  using assms by (auto simp: sampled_def knows_def reselected_def same_at_def settled_def has_config_def in_force_def map_insert_same
      intro!: exI [of _ p])

lemma apply_active_ok:
  assumes "ce_client V = X" "dinv n (rc_client rc)" "map_of (rc_desired rc) key = Some p" "dp_public_key p = key"
  shows "returns (\<lambda>(r, rc'). dinv n (rc_client rc') \<and>
      wrote view V key (dp_config (set_active_policy i p)) (rc\<lparr>rc_desired := map_insert key (set_active_policy i p) (rc_desired rc)\<rparr>) r rc')
    (apply_active_policy V key i rc)"
  using update_ok [OF assms(2), of "dp_config (set_active_policy i p)"] assms
  by (auto simp: apply_active_policy_def Let_def intro!: write_peer_ok split: if_splits)

lemma sampled_switch:
  assumes k: "knows view V now rc" and v: "view d = view (rc_client rc)" and h: "health_ok now hs" "\<forall>k. k \<noteq> key \<longrightarrow> map_of hs k = map_of (rc_health rc) k"
    and f: "follows hs key (set_active_policy i p)" and j: "dinv n (rc_client rc3)"
    and w: "wrote view V key (dp_config (set_active_policy i p))
      (rc\<lparr>rc_client := d, rc_health := hs, rc_desired := map_insert key (set_active_policy i p) (rc_desired rc)\<rparr>) (Inr ()) rc3"
  shows "sampled V n now key p rc rc3"
proof -
  have "knows view V now (rc\<lparr>rc_client := d, rc_health := hs, rc_desired := map_insert key (set_active_policy i p) (rc_desired rc)\<rparr>)"
    using k v h(1) by (simp add: knows_def)
  then have "knows view V now rc3" using wrote_knows [OF w] by blast
  moreover have "settled view V rc3 key (set_active_policy i p)" using w f by (auto simp: wrote_def settled_def)
  moreover have "\<forall>k. k \<noteq> key \<longrightarrow> same_at view k rc rc3" using w v h(2) by (auto simp: wrote_def same_at_def)
  ultimately show ?thesis using w j by (auto simp: sampled_def reselected_def wrote_def intro!: exI [of _ "set_active_policy i p"])
qed

lemma sampled_rollback:
  assumes k: "knows view V now rc" and v: "view d = view (rc_client rc)" and h: "health_ok now hs"
    and hs': "health_ok now hs'" "\<forall>k. k \<noteq> key \<longrightarrow> map_of hs' k = map_of (rc_health rc) k" "follows hs' key p" and j: "dinv n (rc_client rc3)"
    and w: "wrote view V key c (rc\<lparr>rc_client := d, rc_health := hs, rc_desired := desired1\<rparr>) (Inl e) rc3"
    and d1: "desired1 = map_insert key (set_active_policy i p) (rc_desired rc)"
  shows "sampled V n now key p rc (rc3\<lparr>rc_health := hs', rc_desired := map_insert key (set_active_policy (active_policy_index p) p) desired1\<rparr>)"
proof -
  let ?p = "set_active_policy (active_policy_index p) p"
  let ?rc = "rc3\<lparr>rc_health := hs', rc_desired := map_insert key ?p desired1\<rparr>"
  have "knows view V now (rc\<lparr>rc_client := d, rc_health := hs, rc_desired := desired1\<rparr>)" using k v h by (simp add: knows_def)
  from wrote_knows [OF w this] have "knows view V now ?rc" using hs'(1) by (simp add: knows_def)
  moreover have "settled view V ?rc key ?p" if s: "settled view V rc key p"
  proof -
    have "dp_config ?p = dp_config p" using dp_config_back [of p 0] by simp
    moreover have "has_config view V ?rc key (dp_config p)"
      using s w v by (auto simp: wrote_def settled_def has_config_def in_force_def same_at_def)
    moreover have "active_policy_index ?p = active_policy_index p" by (simp, simp add: active_policy_index_def)
    then have "follows hs' key ?p" using hs'(3) by (simp add: follows_def)
    ultimately show ?thesis by (simp add: settled_def)
  qed
  moreover have "\<forall>k. k \<noteq> key \<longrightarrow> same_at view k rc ?rc" using w v hs'(2) by (auto simp: wrote_def same_at_def)
  ultimately show ?thesis using w j
    by (auto simp: sampled_def reselected_def wrote_def d1 map_insert_twice intro!: exI [of _ ?p])
qed

lemma decision_ok:
  assumes V: "ce_client V = X" and k: "knows view V now rc" and d: "view d = view (rc_client rc)" "dinv n d"
    and p: "map_of (rc_desired rc) key = Some p" "dp_public_key p = key" "dp_policies p \<noteq> []"
    and r: "route_keys_for_policies (cc_routes (ce_caps V)) (dp_policies p) = Inr routes"
    and hs: "health_ok now hs" "\<forall>k. k \<noteq> key \<longrightarrow> map_of hs k = map_of (rc_health rc) k"
    and h: "map_of hs key = Some h" "ph_active_policy h = active_policy_index p"
    and o: "observe (cc_routes (ce_caps V)) (peer_stats_of info) routes now h = (decision, h')"
  shows "returns (\<lambda>(r, rc', rng'). sampled V n now key p rc rc')
    (act_on_decision V key p h decision (rc\<lparr>rc_client := d, rc_health := map_insert key h' hs\<rparr>) rng)"
proof -
  have hi: "health_inv h" "last_switch h \<le> now" using hs(1) h(1) by (auto simp: health_ok_def)
  note s = observe_step [OF hi o]
  have h': "health_inv h'" "last_switch h' \<le> now" using s switch_post_last [OF _ hi(2)] by blast+
  have ok: "health_ok now (map_insert key h' hs)" by (rule health_ok_insert [OF hs(1) h'])
  have others: "\<forall>k. k \<noteq> key \<longrightarrow> map_of (map_insert key h' hs) k = map_of (rc_health rc) k" using hs(2) by simp
  have len: "length routes = length (dp_policies p)" using route_keys_eq [OF r] by simp
  show ?thesis
  proof (cases "\<exists>i why. decision = Switch i why")
    case False
    then have "ph_active_policy h' = active_policy_index p"
      using s h(2) len active_policy_less [OF p(3)] by (cases decision) (auto simp: switch_post_def)
    then have "sampled V n now key p rc (rc\<lparr>rc_client := d, rc_health := map_insert key h' hs\<rparr>)"
      using sampled_quiet [OF k p(1) d ok others] by (auto simp: follows_def)
    with False show ?thesis by (cases decision) (auto simp: act_on_decision_def)
  next
    case True
    then obtain i why where i: "decision = Switch i why" by blast
    let ?p = "set_active_policy i p" and ?hs = "map_insert key h' hs"
    let ?rc = "rc\<lparr>rc_client := d, rc_health := ?hs\<rparr>" and ?desired = "map_insert key (set_active_policy i p) (rc_desired rc)"
    have f: "follows ?hs key ?p" using s i len by (auto simp: switch_post_def follows_def)
    have "dinv n (rc_client ?rc)" "map_of (rc_desired ?rc) key = Some p" using d p by simp_all
    from returnsD [OF apply_active_ok [OF V this p(2), of i]] obtain q rc3 where a: "apply_active_policy V key i ?rc = Ret (q, rc3)" "dinv n (rc_client rc3)"
      "wrote view V key (dp_config ?p) (rc\<lparr>rc_client := d, rc_health := ?hs, rc_desired := ?desired\<rparr>) q rc3" by auto
    have rc3: "rc_health rc3 = ?hs" "rc_desired rc3 = ?desired" using a(3) by (auto simp: wrote_def)
    show ?thesis
    proof (cases q)
      case (Inr u)
      then show ?thesis using sampled_switch [OF k d(1) ok others f a(2)] a i by (simp add: act_on_decision_def)
    next
      case (Inl e)
      have "follows (map_insert key h ?hs) key p" "health_ok now (map_insert key h ?hs)"
        "\<forall>k. k \<noteq> key \<longrightarrow> map_of (map_insert key h ?hs) k = map_of (rc_health rc) k"
        using h(2) hs(2) health_ok_insert [OF ok hi] by (simp_all add: follows_def)
      from sampled_rollback [OF k d(1) ok this(2,3,1) a(2) a(3) [unfolded Inl] refl] show ?thesis
        using a(1) rc3 i Inl by (simp add: act_on_decision_def try_insert_entry_def)
    qed
  qed
qed

lemma sample_ok:
  assumes V: "ce_client V = X" and k: "knows view V now rc" and d: "dinv n (rc_client rc)"
    and p: "map_of (rc_desired rc) key = Some p" "dp_public_key p = key" "dp_policies p \<noteq> []"
    and r: "route_keys_for_policies (cc_routes (ce_caps V)) (dp_policies p) = Inr routes"
  shows "returns (\<lambda>(r, rc', rng'). sampled V n now key p rc rc') (sample_peer_health V key p routes now rc rng)"
proof -
  from get_ok [OF d, of key] obtain g d1 where g: "cl_get X key (rc_client rc) = Ret (g, d1)" "dinv n d1" "view d1 = view (rc_client rc)" by blast
  have hk: "health_ok now (rc_health rc)" using k by (simp add: knows_def)
  note quiet = sampled_quiet [OF k p(1) g(3,2)]
  show ?thesis
  proof (cases g)
    case (Inl e)
    then show ?thesis using quiet [OF hk] g V by (simp add: sample_peer_health_def)
  next
    case (Inr info)
    obtain t rc1 rng1 where t: "track_active_policy V key (active_policy_index p) routes now (rc\<lparr>rc_client := d1\<rparr>) rng = (t, rc1, rng1)"
      by (metis prod_cases3)
    from track_follows [OF t _ r p(3)] hk obtain hs where hs: "rc1 = rc\<lparr>rc_client := d1, rc_health := hs\<rparr>" "health_ok now hs"
      "\<forall>k. k \<noteq> key \<longrightarrow> map_of hs k = map_of (rc_health rc) k" "if isl t then hs = rc_health rc else follows hs key p" by auto
    show ?thesis
    proof (cases t)
      case t1: (Inl e)
      then show ?thesis using quiet [OF hs(2,3)] hs g V t Inr by (simp add: sample_peer_health_def)
    next
      case t1: (Inr u)
      then obtain h where h: "map_of hs key = Some h" "ph_active_policy h = active_policy_index p" using hs(4) by (auto simp: follows_def)
      obtain decision h' where o: "observe (cc_routes (ce_caps V)) (peer_stats_of info) routes now h = (decision, h')" by fastforce
      from decision_ok [OF V k g(3,2) p r hs(2,3) h o] show ?thesis using hs(1) g V t Inr t1 h o by (simp add: sample_peer_health_def)
    qed
  qed
qed

lemma sampled_checked:
  assumes "sampled V n now key p rc rc'" "map_of (rc_desired rc) key = Some p"
  shows "checked V n now rc rc'"
proof -
  from assms(1) obtain p' where p': "reselected p p'" "rc_desired rc' = map_insert key p' (rc_desired rc)" "settled view V rc key p \<longrightarrow> settled view V rc' key p'"
      "\<forall>k. k \<noteq> key \<longrightarrow> same_at view k rc rc'" by (auto simp: sampled_def)
  have "coherent view V rc'" if c: "coherent view V rc"
  proof -
    have "settled view V rc key p" using c map_of_SomeD [OF assms(2)] by (auto simp: coherent_def)
    with coherent_change [OF c assms(2) p'(1,2,4)] p'(3) show ?thesis by simp
  qed
  then show ?thesis using assms p' reselected_insert [OF assms(2) p'(1)] by (auto simp: checked_def sampled_def same_routes_def)
qed

lemma health_loop_ok:
  assumes "ce_client V = X" "knows view V now rc" "plan_ok (rc_desired rc)" "dinv n (rc_client rc)"
  shows "returns (\<lambda>(r, rc', rng'). checked V n now rc rc') (health_loop V keys now rc rng)"
  using assms(2-)
proof (induction keys arbitrary: rc rng n)
  case Nil
  then show ?case by (auto simp: checked_def)
next
  case (Cons key keys)
  have stay: "checked V n now rc rc" using Cons.prems by (auto simp: checked_def)
  note later = Cons.IH [OF Cons.prems, of rng]
  show ?case
  proof (cases "map_of (rc_desired rc) key")
    case None
    then show ?thesis using later by simp
  next
    case (Some p)
    have p: "dp_public_key p = key" "dp_policies p \<noteq> []" using plan_ok_lookup [OF Cons.prems(2) Some] by simp_all
    show ?thesis
    proof (cases "route_keys_for_policies (cc_routes (ce_caps V)) (dp_policies p)")
      case (Inl e)
      then show ?thesis using Some stay by simp
    next
      case (Inr routes)
      note one = sample_ok [OF assms(1) Cons.prems(1,3) Some p Inr, of rng]
      have "returns (\<lambda>(r, rc', rng'). checked V n now rc rc') (run_bind (sample_peer_health V key p routes now rc rng) (\<lambda>(r, rc', rng').
           case r of Inl e \<Rightarrow> Ret (Inl e, rc', rng') | Inr _ \<Rightarrow> health_loop V keys now rc' rng'))"
      proof (rule returns_bindI [OF one], clarify)
        fix r rc1 rng1
        assume "sampled V n now key p rc rc1"
        from sampled_checked [OF this Some] have c: "checked V n now rc rc1" .
        then obtain j where j: "n \<le> j" "dinv j (rc_client rc1)" "knows view V now rc1" "plan_ok (rc_desired rc1)"
          using Cons.prems(2) reselected_plan by (auto simp: checked_def same_routes_def)
        then have "returns (\<lambda>(r, rc', rng'). checked V n now rc rc') (health_loop V keys now rc1 rng1)"
          by (intro returns_mono [OF Cons.IH [OF j(3,4,2)]]) (auto intro: checked_trans [OF c checked_mono])
        with c show "returns (\<lambda>(r, rc', rng'). checked V n now rc rc') (case r of Inl e \<Rightarrow> Ret (Inl e, rc1, rng1) | Inr _ \<Rightarrow> health_loop V keys now rc1 rng1)"
          by (simp split: sum.split)
      qed
      then show ?thesis using Some Inr later by simp
    qed
  qed
qed

lemma health_ok_pass:
  assumes "ce_client V = X" "knows view V now rc" "plan_ok (rc_desired rc)" "dinv n (rc_client rc)"
  shows "returns (\<lambda>(r, rc', rng'). checked V n now rc rc') (reconcile_peer_health_at V now rc rng)"
proof (cases "health_keys (cc_peers (ce_caps V)) (map fst (rc_desired rc)) []")
  case (Inl e)
  then show ?thesis using assms by (auto simp: reconcile_peer_health_at_def checked_def)
next
  case (Inr keys)
  then show ?thesis using health_loop_ok [OF assms, of keys rng] by (simp add: reconcile_peer_health_at_def)
qed

end

end
