(* ===== verification/Device_Paths.thy ===== *)
theory Device_Paths
  imports Device
begin

text \<open>
  Where the packets of a device go, over the model of \<^verbatim>\<open>device.rs\<close> in the theory of the event
  loop: outgoing packets to the owner of their destination, relayed ones as authorized, decrypted
  ones to the interface, a packet from one device to another, and the queues of the peers in the
  pool they share.
\<close>

section \<open>Where packets go\<close>

text \<open>The endpoint a packet for a peer is sent to: its own, or that of its relay.\<close>

definition next_hop :: "PeerState \<Rightarrow> bytes \<Rightarrow> SocketAddr \<Rightarrow> bool" where
  "next_hop ps key addr \<longleftrightarrow> (\<exists>p. peer_by_key key ps = Some p \<and> (case pr_relay p of
     None \<Rightarrow> pr_endpoint p = Some addr
   | Some rk \<Rightarrow> (\<exists>rp. peer_by_key rk ps = Some rp \<and> pr_endpoint rp = Some addr)))"

text \<open>The peers differ in their tunnels only.\<close>

definition same_hops :: "PeerState \<Rightarrow> PeerState \<Rightarrow> bool" where
  "same_hops ps ps' \<longleftrightarrow> (\<forall>k. map_option (\<lambda>p. (pr_relay p, pr_endpoint p, pr_allowed_ips p)) (peer_by_key k ps') =
     map_option (\<lambda>p. (pr_relay p, pr_endpoint p, pr_allowed_ips p)) (peer_by_key k ps))"

lemma same_hopsD:
  assumes "same_hops ps ps'" "peer_by_key k ps' = Some q"
  shows "\<exists>p. peer_by_key k ps = Some p \<and> pr_relay p = pr_relay q \<and> pr_endpoint p = pr_endpoint q \<and> pr_allowed_ips p = pr_allowed_ips q"
  using assms(1) [unfolded same_hops_def, rule_format, of k] assms(2) by (cases "peer_by_key k ps") auto

lemma same_hops_put: "same_hops ps ps' \<Longrightarrow> peer_by_key k ps' = Some p \<Longrightarrow> same_hops ps (put_peer k (p\<lparr>pr_tunnel := t\<rparr>) ps')"
  by (simp add: same_hops_def view_more) (metis (no_types, lifting) option.map(2))

lemma drop_expired_hops:
  assumes "same_hops ps ps1"
  shows "run_all (\<lambda>(ps', pool'). same_hops ps ps') (drop_expired_packet_queues P now ps1 pool)"
proof -
  have "same_hops ps (ps1\<lparr>ps_peers := peers'\<rparr>)" if l: "list_all2 (\<lambda>x y. fst y = fst x \<and> only_queue (snd x) (snd y)) (ps_peers ps1) peers'" for peers'
  proof -
    have "map_option (\<lambda>p. (pr_relay p, pr_endpoint p, pr_allowed_ips p)) (map_of peers' k) =
        map_option (\<lambda>p. (pr_relay p, pr_endpoint p, pr_allowed_ips p)) (map_of (ps_peers ps1) k)" for k
      using l by (induction rule: list_all2_induct) (auto simp: only_queue_def)
    with assms show ?thesis by (simp add: same_hops_def peer_by_key_def)
  qed
  then show ?thesis
    unfolding drop_expired_packet_queues_def by (intro run_all_bindI [OF drop_queues_frame]) (auto simp: case_prod_beta)
qed

definition sent_to :: "PeerState \<Rightarrow> bytes \<Rightarrow> (bytes \<times> SocketAddr) option \<Rightarrow> bool" where
  "sent_to ps key pending \<longleftrightarrow> (\<forall>pkt addr. pending = Some (pkt, addr) \<longrightarrow> next_hop ps key addr)"

lemma send_through_hop:
  assumes "same_hops ps ps1" "peer_by_key rk ps1 = Some rp" "peer_by_key key ps = Some p" "pr_relay p = Some rk"
  shows "run_all (\<lambda>(pending, x). sent_to ps key pending) (send_through E now eph rk rp plain ps1 pool)"
proof -
  from same_hopsD [OF assms(1,2)] assms(3,4) have "next_hop ps key addr" if "pr_endpoint rp = Some addr" for addr
    using that by (auto simp: next_hop_def)
  then show ?thesis
    unfolding send_through_def
    by (intro run_all_bindI [where R = "\<lambda>_. True"]) (auto simp: Let_def sent_to_def split: TunnResult.split)
qed

lemma prepare_hop:
  assumes "same_hops ps ps1"
  shows "run_all (\<lambda>(pending, x). sent_to ps key pending) (prepare_packet_to_peer E now eph key packet ps1 pool)"
proof (cases "peer_by_key key ps1")
  case (Some q)
  from same_hopsD [OF assms this] obtain p where p: "peer_by_key key ps = Some p" "pr_relay p = pr_relay q" "pr_endpoint p = pr_endpoint q" by blast
  have relay: "run_all (\<lambda>(pending, x). sent_to ps key pending) (prepare_packet_to_peer_via_relay E now eph key rk packet ps1 pool)"
    if "pr_relay q = Some rk" for rk
  proof -
    have "run_all (\<lambda>(pending, x). sent_to ps key pending) (run_bind (drop_expired_packet_queues (ev_pool E) now ps1 pool) (\<lambda>(ps2, pool1).
      case peer_by_key rk ps2 of None \<Rightarrow> Ret (None, ps2, pool1)
      | Some relay_peer \<Rightarrow> send_through E now eph rk relay_peer plain ps2 pool1))" for plain
      by (rule run_all_bindI [OF drop_expired_hops [OF assms]])
        (use that p in \<open>auto simp: sent_to_def [of _ _ None] intro!: send_through_hop split: option.split\<close>)
    then show ?thesis by (simp add: prepare_packet_to_peer_via_relay_def sent_to_def [of _ _ None] split: sum.split)
  qed
  with Some p show ?thesis by (auto simp: prepare_packet_to_peer_def sent_to_def next_hop_def split: option.split)
qed (simp add: prepare_packet_to_peer_def sent_to_def)

lemma same_hops_refl: "same_hops ps ps"
  by (simp add: same_hops_def)

lemma pending_cases: "send_pending_packet pending = [] \<or> (\<exists>pkt addr. pending = Some (pkt, addr) \<and> send_pending_packet pending = [UdpSend pkt addr])"
  by (auto simp: send_pending_packet_def split: option.split)

definition tun_ok :: "PeerState \<Rightarrow> bytes \<Rightarrow> device_output list \<Rightarrow> bool" where
  "tun_ok ps src out \<longleftrightarrow> out = [] \<or> (\<exists>dst key p pkt addr. dst_address src = Some dst \<and> peer_by_key key ps = Some p \<and>
     is_allowed_ip dst p = Ret True \<and> next_hop ps key addr \<and> out = [UdpSend pkt addr])"

lemma tun_hop:
  assumes "peers_inv (dv_peers d)"
  shows "run_all (\<lambda>(out, d'). tun_ok (dv_peers d) src out) (handle_tun_packet E now eph src d)" (is "run_all ?Q _")
proof -
  have send: "run_all ?Q (run_bind (encapsulate C P now (eph 0) src buf (pr_tunnel peer) pool) (\<lambda>(r, t, pool1).
      let ps1 = put_peer key (peer\<lparr>pr_tunnel := t\<rparr>) ps in
      case r of
        Done \<Rightarrow> Ret ([], d\<lparr>dv_peers := ps1, dv_pool := pool1\<rparr>)
      | Err _ \<Rightarrow> Ret ([], d\<lparr>dv_peers := ps1, dv_pool := pool1\<rparr>)
      | WriteToNetwork packet \<Rightarrow>
          run_bind (prepare_packet_to_peer E now (eph 1) key packet ps1 pool1) (\<lambda>(pending, ps2, pool2).
          Ret (send_pending_packet pending, d\<lparr>dv_peers := ps2, dv_pool := pool2\<rparr>))
      | _ \<Rightarrow> Panic))"
    if dst: "dst_address src = Some dst" "allowed_ips_find dst (ps_by_ip (dv_peers d)) = Some (Some key)"
      and ps: "same_hops (dv_peers d) ps" "peer_by_key key ps = Some peer" for C P buf peer pool key ps dst
  proof -
    from route_lookup [OF assms, of dst] dst(2) obtain p where p: "peer_by_key key (dv_peers d) = Some p" "is_allowed_ip dst p = Ret True" by auto
    have "run_all ?Q (run_bind (prepare_packet_to_peer E now (eph 1) key packet (put_peer key (peer\<lparr>pr_tunnel := t\<rparr>) ps) pool1) (\<lambda>(pending, ps2, pool2).
          Ret (send_pending_packet pending, d\<lparr>dv_peers := ps2, dv_pool := pool2\<rparr>)))" for packet t pool1
      by (rule run_all_bindI [OF prepare_hop [OF same_hops_put [OF ps]]])
        (use dst(1) p pending_cases in \<open>fastforce simp: tun_ok_def sent_to_def\<close>)
    then show ?thesis
      by (intro run_all_bindI [where R = "\<lambda>_. True"]) (simp_all add: Let_def tun_ok_def [of _ _ "[]"] split: TunnResult.split prod.split)
  qed
  show ?thesis
    unfolding handle_tun_packet_def
    by (auto simp: from_option_all tun_ok_def [of _ _ "[]"] simp del: run_all_simps(3) intro!: run_all_bindI [where R = "\<lambda>x. allowed_ips_find _ (ps_by_ip (dv_peers d)) = Some x"]
        run_all_bindI [OF drop_expired_hops [OF same_hops_refl]] send split: option.split)
qed

definition forward_ok :: "'p env \<Rightarrow> PeerState \<Rightarrow> bytes \<Rightarrow> Envelope \<Rightarrow> bytes \<Rightarrow> SocketAddr \<Rightarrow> bool" where
  "forward_ok E ps key envelope pkt addr \<longleftrightarrow>
     validate_inner_packet (envelope_inner_packet envelope) = Inr () \<and> ev_authorize E key (envelope_destination envelope) \<and>
     next_hop ps (envelope_destination envelope) addr \<and>
     (case map_option pr_relay (peer_by_key (envelope_destination envelope) ps) of
        Some None \<Rightarrow> pkt = envelope_inner_packet envelope
      | _ \<Rightarrow> 1 < env_bytes envelope ! ENVELOPE_HOP_LIMIT_OFFSET)"

lemma forward_hop:
  assumes "same_hops ps ps1"
  shows "run_all (\<lambda>(pending, x). \<forall>pkt addr. pending = Some (pkt, addr) \<longrightarrow> forward_ok E ps key envelope pkt addr)
    (forward_envelope E now eph key envelope ps1 pool)" (is "run_all ?Q _")
proof -
  let ?dst = "envelope_destination envelope"
  have relay: "run_all ?Q (run_bind (drop_expired_packet_queues (ev_pool E) now ps1 pool) (\<lambda>(ps2, pool1).
      case peer_by_key rk ps2 of None \<Rightarrow> Ret (None, ps2, pool1)
      | Some relay_peer \<Rightarrow> (case decrement_hop_limit envelope of
          Inl _ \<Rightarrow> Ret (None, ps2, pool1)
        | Inr envelope' \<Rightarrow> send_through E now eph rk relay_peer (env_bytes envelope') ps2 pool1)))"
    if ok: "validate_inner_packet (envelope_inner_packet envelope) = Inr ()" "ev_authorize E key ?dst"
      and q: "peer_by_key ?dst ps1 = Some q" "pr_relay q = Some rk" for q rk
  proof (rule run_all_bindI [OF drop_expired_hops [OF assms]], clarify)
    fix ps2 pool1
    assume s: "same_hops ps ps2"
    from same_hopsD [OF assms q(1)] q(2) obtain p where p: "peer_by_key ?dst ps = Some p" "pr_relay p = Some rk" by auto
    have "run_all ?Q (send_through E now eph rk relay_peer plain ps2 pool1)"
      if "peer_by_key rk ps2 = Some relay_peer" "decrement_hop_limit envelope = Inr envelope'" for relay_peer plain envelope'
      by (rule run_all_mono [OF send_through_hop [OF s that(1) p]])
        (use ok p that(2) in \<open>auto simp: forward_ok_def sent_to_def decrement_hop_limit_def not_le split: if_splits\<close>)
    then show "run_all ?Q (case peer_by_key rk ps2 of None \<Rightarrow> Ret (None, ps2, pool1)
      | Some relay_peer \<Rightarrow> (case decrement_hop_limit envelope of
          Inl _ \<Rightarrow> Ret (None, ps2, pool1)
        | Inr envelope' \<Rightarrow> send_through E now eph rk relay_peer (env_bytes envelope') ps2 pool1))"
      by (simp split: option.split sum.split)
  qed
  have direct: "forward_ok E ps key envelope (envelope_inner_packet envelope) addr"
    if ok: "validate_inner_packet (envelope_inner_packet envelope) = Inr ()" "ev_authorize E key ?dst"
      and q: "peer_by_key ?dst ps1 = Some q" "pr_relay q = None" "pr_endpoint q = Some addr" for q addr
    using same_hopsD [OF assms q(1)] ok q(2,3) by (auto simp: forward_ok_def next_hop_def)
  show ?thesis
    unfolding forward_envelope_def Let_def
    by (auto simp del: run_all_simps(3) intro!: relay direct split: sum.split option.split)
qed

section \<open>From one device to another\<close>

lemma drop_expired_peer:
  assumes "drop_expired_packet_queues P now ps pool = Ret (ps', pool')"
  shows "peer_by_key k ps = Some p \<Longrightarrow> \<exists>q. peer_by_key k ps' = Some q \<and> only_queue p q"
    "ps_by_ip ps' = ps_by_ip ps" "ps_by_idx ps' = ps_by_idx ps"
proof -
  obtain n peers' where d: "drop_queues P now (ps_peers ps) pool = Ret (n, peers', pool')" "ps' = ps\<lparr>ps_peers := peers'\<rparr>"
    using assms by (auto simp: drop_expired_packet_queues_def run_bind_def split: run.splits)
  from run_allD [OF drop_queues_frame d(1)] have "list_all2 (\<lambda>x y. fst y = fst x \<and> only_queue (snd x) (snd y)) (ps_peers ps) peers'" by simp
  from list_all2_map_of(1) [OF this, of k] show "peer_by_key k ps = Some p \<Longrightarrow> \<exists>q. peer_by_key k ps' = Some q \<and> only_queue p q"
    by (cases "map_of peers' k") (auto simp: peer_by_key_def d(2))
  show "ps_by_ip ps' = ps_by_ip ps" "ps_by_idx ps' = ps_by_idx ps" using d(2) by simp_all
qed

lemma tun_sends:
  assumes inv: "peers_inv (dv_peers d)" and dst: "dst_address src = Some dst"
    and p: "peer_by_key key (dv_peers d) = Some p" "is_allowed_ip dst p = Ret True" "pr_relay p = None" "pr_endpoint p = Some addr"
    and drop: "drop_expired_packet_queues (ev_pool E) now (dv_peers d) (dv_pool d) = Ret (ps, pool)"
    and q: "peer_by_key key ps = Some q" "only_queue p q"
    and e: "encapsulate (ev_crypto E) (ev_pool E) now (eph 0) src (ev_dst E) (pr_tunnel q) pool = Ret (WriteToNetwork pkt, t', pool)"
  shows "\<exists>d'. device_step E now eph (TunRecv src) d = Ret ([UdpSend pkt addr], d')"
proof -
  obtain r where r: "allowed_ips_find dst (ps_by_ip (dv_peers d)) = Some r"
      "\<forall>k. r = Some k \<longleftrightarrow> (\<exists>p. peer_by_key k (dv_peers d) = Some p \<and> is_allowed_ip dst p = Ret True)"
    using route_lookup [OF inv, of dst] by blast
  then have "allowed_ips_find dst (ps_by_ip (dv_peers d)) = Some (Some key)" using p(1,2) by auto
  moreover have "pr_relay q = None" "pr_endpoint q = Some addr" using q(2) p(3,4) by (auto simp: only_queue_def)
  ultimately show ?thesis
    by (simp add: device_step_def handle_tun_packet_def dst from_option_def drop q(1) e prepare_packet_to_peer_def view_more send_pending_packet_def)
qed

lemma udp_delivers:
  assumes inv: "peers_inv (dv_peers d)" and pkt: "parse_incoming_packet pkt = Inr (PData x)"
    and p: "peer_by_key key (dv_peers d) = Some p" "drop_bit 8 (d_receiver_idx x) = pr_index p"
    and src: "src_address src = Some a" "is_allowed_ip a p = Ret True"
    and drop: "drop_expired_packet_queues (ev_pool E) now (dv_peers d) (dv_pool d) = Ret (ps, pool)"
    and q: "peer_by_key key ps = Some q" "only_queue p q"
    and e: "handle_verified_packet (ev_crypto E) now (eph 0) (ev_dst E) (PData x) (pr_tunnel q) =
      Ret (case a of AddrV4 v \<Rightarrow> WriteToInterfaceV4 src v | AddrV6 v \<Rightarrow> WriteToInterfaceV6 src v, u')"
  shows "\<exists>d'. device_step E now eph (UdpRecv pkt from_addr) d = Ret ([NicSend src key], d')"
proof -
  have "peer_key_by_index (d_receiver_idx x) (dv_peers d) = Some key"
    using peers_invD(4) [OF inv] p by (simp add: peer_key_by_index_def)
  moreover have "is_allowed_ip a q = Ret True" using src(2) q(2) by (auto simp: only_queue_def is_allowed_ip_def)
  then have "is_allowed_ip a (q\<lparr>pr_tunnel := u'\<rparr>) = Ret True" "is_allowed_ip a (set_endpoint e (q\<lparr>pr_tunnel := u'\<rparr>)) = Ret True" for e
    by (simp_all add: is_allowed_ip_def set_endpoint_def)
  ultimately show ?thesis
    by (cases a) (simp_all add: device_step_def handle_udp_packet_def verify_packet_def handshake_sender_def pkt packet_peer_def drop q(1)
        handle_peer_packet_def e deliver_def Let_def)
qed

lemma format_source:
  assumes "ipv4_format src \<or> ipv6_format src"
  shows "\<exists>a. src_address src = Some a \<and> (if ipv4_format src then WriteToInterfaceV4 src (from_be_bytes (slice 12 16 src))
    else WriteToInterfaceV6 src (from_be_bytes (slice 8 24 src))) = (case a of AddrV4 v \<Rightarrow> WriteToInterfaceV4 src v | AddrV6 v \<Rightarrow> WriteToInterfaceV6 src v)"
proof (cases "ipv4_format src")
  case True
  then have "validate_ip_packet src = WriteToInterfaceV4 src (from_be_bytes (slice 12 16 src))" unfolding validate_v4_iff by simp
  from interface_source(1) [OF this] True show ?thesis by simp
next
  case False
  with assms have "validate_ip_packet src = WriteToInterfaceV6 src (from_be_bytes (slice 8 24 src))" unfolding validate_v6_iff by simp
  from interface_source(2) [OF this] False show ?thesis by simp
qed

lemma tunnel_to_tunnel:
  assumes "crypto_correct C" "only_queue pA qA" "only_queue pB qB"
    and "tn_sessions (pr_tunnel pA) ! (tn_current (pr_tunnel pA) mod N_SESSIONS) = Some s"
    and "length (sender s) = 32" "sending_key_counter s < REJECT_AFTER_MESSAGES"
    and "mirrors s (pr_tunnel pB) n S" "n \<le> unat (sending_key_counter s) + 256" "unat (sending_key_counter s) \<notin> S"
    and "length src \<le> MTU" "MTU + 32 \<le> length dst" "MTU + 32 \<le> length dst'" and "ipv4_format src \<or> ipv6_format src"
  shows "\<exists>a pkt t' d u'. src_address src = Some a \<and>
    encapsulate C P now eph src dst (pr_tunnel qA) pool = Ret (WriteToNetwork pkt, t', pool) \<and> parse_incoming_packet pkt = Inr (PData d) \<and> d_receiver_idx d = sending_index s \<and>
    handle_verified_packet C now' eph' dst' (PData d) (pr_tunnel qB) =
      Ret (case a of AddrV4 v \<Rightarrow> WriteToInterfaceV4 src v | AddrV6 v \<Rightarrow> WriteToInterfaceV6 src v, u')"
proof -
  have "tn_sessions (pr_tunnel qA) ! (tn_current (pr_tunnel qA) mod N_SESSIONS) = Some s" "mirrors s (pr_tunnel qB) n S"
    using assms(4,7) only_queueD(2,3) [OF assms(2)] only_queueD(2) [OF assms(3)] by (simp_all add: mirrors_def)
  from tunnel_delivery [OF assms(1) this(1) assms(5,6) this(2) assms(8-13), of P now eph pool now' eph'] obtain pkt t' d u' where
    *: "encapsulate C P now eph src dst (pr_tunnel qA) pool = Ret (WriteToNetwork pkt, t', pool)" "parse_incoming_packet pkt = Inr (PData d)"
      "d_receiver_idx d = sending_index s" "handle_verified_packet C now' eph' dst' (PData d) (pr_tunnel qB) =
      Ret (if ipv4_format src then WriteToInterfaceV4 src (from_be_bytes (slice 12 16 src))
           else WriteToInterfaceV6 src (from_be_bytes (slice 8 24 src)), u')"
    by blast
  obtain a where "src_address src = Some a" "(if ipv4_format src then WriteToInterfaceV4 src (from_be_bytes (slice 12 16 src))
    else WriteToInterfaceV6 src (from_be_bytes (slice 8 24 src))) = (case a of AddrV4 v \<Rightarrow> WriteToInterfaceV4 src v | AddrV6 v \<Rightarrow> WriteToInterfaceV6 src v)"
    using format_source [OF assms(13)] by blast
  with * show ?thesis by auto
qed

text \<open>The device can send the packet to a peer directly, in the session \<open>s\<close>; the device of the peer has the mirrored session
  under the given key and has not seen the counter of the packet.\<close>

definition can_send :: "'p env \<Rightarrow> instant \<Rightarrow> bytes \<Rightarrow> SocketAddr \<Rightarrow> Session \<Rightarrow> 'p device \<Rightarrow> bool" where
  "can_send E now src addr s d \<longleftrightarrow> peers_inv (dv_peers d) \<and> length src \<le> MTU \<and> MTU + 32 \<le> length (ev_dst E) \<and>
     length (sender s) = 32 \<and> sending_key_counter s < REJECT_AFTER_MESSAGES \<and>
     (\<exists>ps pool. drop_expired_packet_queues (ev_pool E) now (dv_peers d) (dv_pool d) = Ret (ps, pool)) \<and>
     (\<exists>dst k p. dst_address src = Some dst \<and> peer_by_key k (dv_peers d) = Some p \<and> is_allowed_ip dst p = Ret True \<and>
        pr_relay p = None \<and> pr_endpoint p = Some addr \<and> tn_sessions (pr_tunnel p) ! (tn_current (pr_tunnel p) mod N_SESSIONS) = Some s)"

definition can_receive :: "'p env \<Rightarrow> instant \<Rightarrow> bytes \<Rightarrow> bytes \<Rightarrow> Session \<Rightarrow> 'p device \<Rightarrow> bool" where
  "can_receive E now src key s d \<longleftrightarrow> peers_inv (dv_peers d) \<and> MTU + 32 \<le> length (ev_dst E) \<and> (ipv4_format src \<or> ipv6_format src) \<and>
     (\<exists>ps pool. drop_expired_packet_queues (ev_pool E) now (dv_peers d) (dv_pool d) = Ret (ps, pool)) \<and>
     (\<exists>a p n S. src_address src = Some a \<and> peer_by_key key (dv_peers d) = Some p \<and> is_allowed_ip a p = Ret True \<and>
        pr_index p = drop_bit 8 (sending_index s) \<and> mirrors s (pr_tunnel p) n S \<and>
        n \<le> unat (sending_key_counter s) + 256 \<and> unat (sending_key_counter s) \<notin> S)"

lemma packet_crosses:
  assumes C: "crypto_correct (ev_crypto E)" "ev_crypto E' = ev_crypto E"
    and "can_send E now src addr s dA" and "can_receive E' now' src kA s dB"
  shows "\<exists>pkt dA' dB'. device_step E now eph (TunRecv src) dA = Ret ([UdpSend pkt addr], dA') \<and>
    device_step E' now' eph' (UdpRecv pkt from_addr) dB = Ret ([NicSend src kA], dB')"
proof -
  from assms(3) obtain dst kB pB psA poolA where A: "peers_inv (dv_peers dA)" "dst_address src = Some dst" "peer_by_key kB (dv_peers dA) = Some pB"
      "is_allowed_ip dst pB = Ret True" "pr_relay pB = None" "pr_endpoint pB = Some addr"
      "drop_expired_packet_queues (ev_pool E) now (dv_peers dA) (dv_pool dA) = Ret (psA, poolA)"
      "tn_sessions (pr_tunnel pB) ! (tn_current (pr_tunnel pB) mod N_SESSIONS) = Some s"
    and s: "length (sender s) = 32" "sending_key_counter s < REJECT_AFTER_MESSAGES"
    and len: "length src \<le> MTU" "MTU + 32 \<le> length (ev_dst E)"
    unfolding can_send_def by auto
  from assms(4) obtain a pA psB poolB n S where B: "peers_inv (dv_peers dB)" "peer_by_key kA (dv_peers dB) = Some pA"
      "drop_bit 8 (sending_index s) = pr_index pA" "src_address src = Some a" "is_allowed_ip a pA = Ret True"
      "drop_expired_packet_queues (ev_pool E') now' (dv_peers dB) (dv_pool dB) = Ret (psB, poolB)"
    and m: "mirrors s (pr_tunnel pA) n S" "n \<le> unat (sending_key_counter s) + 256" "unat (sending_key_counter s) \<notin> S"
    and ip: "MTU + 32 \<le> length (ev_dst E')" "ipv4_format src \<or> ipv6_format src"
    unfolding can_receive_def by auto
  obtain qB where qB: "peer_by_key kB psA = Some qB" "only_queue pB qB" using drop_expired_peer(1) [OF A(7,3)] by blast
  obtain qA where qA: "peer_by_key kA psB = Some qA" "only_queue pA qA" using drop_expired_peer(1) [OF B(6,2)] by blast
  from tunnel_to_tunnel [OF C(1) qB(2) qA(2) A(8) s m len ip, of "ev_pool E" now "eph 0" poolA now' "eph' 0"] B(4) obtain pkt t' d u' where
    *: "encapsulate (ev_crypto E) (ev_pool E) now (eph 0) src (ev_dst E) (pr_tunnel qB) poolA = Ret (WriteToNetwork pkt, t', poolA)"
      "parse_incoming_packet pkt = Inr (PData d)" "d_receiver_idx d = sending_index s"
      "handle_verified_packet (ev_crypto E) now' (eph' 0) (ev_dst E') (PData d) (pr_tunnel qA) =
        Ret (case a of AddrV4 v \<Rightarrow> WriteToInterfaceV4 src v | AddrV6 v \<Rightarrow> WriteToInterfaceV6 src v, u')"
    by auto
  have "\<exists>dA'. device_step E now eph (TunRecv src) dA = Ret ([UdpSend pkt addr], dA')"
    by (rule tun_sends [where eph = eph]) (fact A qB *)+
  moreover have "\<exists>dB'. device_step E' now' eph' (UdpRecv pkt from_addr) dB = Ret ([NicSend src kA], dB')"
    by (rule udp_delivers [where eph = eph' and u' = u', OF B(1) *(2) B(2) _ B(4-6) qA]) (use *(3,4) B(3) C(2) in simp_all)
  ultimately show ?thesis by blast
qed

section \<open>The queues of all peers\<close>

text \<open>The tunnels of the peers hold the chains \<open>hss\<close> of the pool they share.\<close>

definition queues_hold :: "(handle \<Rightarrow> queued option) \<Rightarrow> (bytes \<times> Peer) list \<Rightarrow> handle list list \<Rightarrow> bool" where
  "queues_hold v peers hss \<longleftrightarrow> list_all2 (\<lambda>x hs. holds v (pr_tunnel (snd x)) hs) peers hss \<and> distinct (concat hss)"

lemma holds_frame: "holds v q hs \<Longrightarrow> (\<And>h. h \<in> set hs \<Longrightarrow> v' h = v h) \<Longrightarrow> holds v' q hs"
  unfolding holds_def using seg_frame by blast

lemma filter_expired_frame:
  "(\<And>h. h \<in> set hs \<Longrightarrow> v' h = v h) \<Longrightarrow> filter (\<lambda>h. \<not> expired now v' h) hs = filter (\<lambda>h. \<not> expired now v h) hs"
  by (intro filter_cong) (auto simp: expired_def)

context packet_store
begin

lemma drop_queues_law:
  assumes "pinv p" "queues_hold (view p) peers hss"
  shows "\<exists>n peers' p'. drop_queues P now peers p = Ret (n, peers', p') \<and> pinv p' \<and>
    queues_hold (view p') peers' (map (filter (\<lambda>h. \<not> expired now (view p) h)) hss) \<and>
    (\<forall>h. h \<notin> set (concat hss) \<longrightarrow> view p' h = view p h)"
  using assms
proof (induction peers arbitrary: hss p)
  case (Cons x peers)
  obtain k pr where x: "x = (k, pr)" by (cases x)
  from Cons.prems(2) obtain hs hss' where hss: "hss = hs # hss'" "holds (view p) (pr_tunnel pr) hs" "queues_hold (view p) peers hss'"
      "set hs \<inter> set (concat hss') = {}"
    by (cases hss) (auto simp: queues_hold_def x)
  from drop_expired_law [OF Cons.prems(1) hss(2), of now] obtain q p1 where d:
      "drop_expired_queued_packets P now (pr_tunnel pr) p = Some (length (filter (expired now (view p)) hs), q, p1)" "pinv p1"
      "holds (view p1) q (filter (\<lambda>h. \<not> expired now (view p) h) hs)" "\<And>h. h \<notin> set hs \<Longrightarrow> view p1 h = view p h"
    by blast
  have eq: "view p1 h = view p h" if "h \<in> set (concat hss')" for h using d(4) hss(4) that by blast
  have "queues_hold (view p1) peers hss'"
    using hss(3) eq unfolding queues_hold_def by (auto elim!: list.rel_mono_strong intro: holds_frame)
  from Cons.IH [OF d(2) this] obtain n peers' p2 where i: "drop_queues P now peers p1 = Ret (n, peers', p2)" "pinv p2"
      "queues_hold (view p2) peers' (map (filter (\<lambda>h. \<not> expired now (view p1) h)) hss')"
      "\<And>h. h \<notin> set (concat hss') \<Longrightarrow> view p2 h = view p1 h" by blast
  have fl: "map (filter (\<lambda>h. \<not> expired now (view p1) h)) hss' = map (filter (\<lambda>h. \<not> expired now (view p) h)) hss'"
    using eq by (intro map_cong refl filter_expired_frame) auto
  have "holds (view p2) q (filter (\<lambda>h. \<not> expired now (view p) h) hs)"
    by (rule holds_frame [OF d(3)]) (use i(4) hss(4) in auto)
  moreover have "distinct (filter (\<lambda>h. \<not> expired now (view p) h) hs)" using d(3) by (simp add: holds_def)
  ultimately have "queues_hold (view p2) ((k, pr\<lparr>pr_tunnel := q\<rparr>) # peers') (map (filter (\<lambda>h. \<not> expired now (view p) h)) hss)"
    using i(3) hss(4) unfolding queues_hold_def hss(1) fl by auto
  moreover have "view p2 h = view p h" if "h \<notin> set (concat hss)" for h using i(4) d(4) that hss(1) by simp
  ultimately show ?case using d(1) i(1,2) by (simp add: x from_option_def)
qed (simp add: queues_hold_def)

end

section \<open>Samples\<close>

text \<open>A peer with the network 10.0.0.0/8, an endpoint and the given tunnel, alone on a device.\<close>

definition sample_peer :: "Tunn \<Rightarrow> unit AllowedIPs \<Rightarrow> Peer" where
  "sample_peer t a = \<lparr>pr_tunnel = t, pr_index = hs_prefix (tn_handshake t), pr_endpoint = Some (SocketV4 7 7), pr_relay = None, pr_allowed_ips = a\<rparr>"

definition sample_peers :: "bytes \<Rightarrow> Tunn \<Rightarrow> unit AllowedIPs \<Rightarrow> bytes AllowedIPs \<Rightarrow> PeerState" where
  "sample_peers k t a r = \<lparr>ps_peers = [(k, sample_peer t a)], ps_by_ip = r, ps_by_idx = [(hs_prefix (tn_handshake t), k)]\<rparr>"

definition sample_env :: "heap_pool env" where
  "sample_env = \<lparr>ev_caps = no_caps, ev_crypto = sample_crypto, ev_pool = heap_ops 4 100, ev_authorize = generic_authorize AllowAll,
     ev_dst = replicate 1400 0, ev_plain = replicate 1400 0, ev_relay = replicate 1400 0\<rparr>"

definition sample_device :: "PeerState \<Rightarrow> heap_pool device" where
  "sample_device ps = \<lparr>dv_private = [1], dv_public = public_key sample_crypto [1],
     dv_rate_limiter = rate_limiter_new sample_crypto 0 (public_key sample_crypto [1]) HANDSHAKE_RATE_LIMIT [5] [6],
     dv_peers = ps, dv_pool = heap_new, dv_gen = sample_gen, dv_stamper = timestamper_new 0 0, dv_ticks = 0\<rparr>"

lemma sample_tables:
  "\<exists>a r. peers_inv (sample_peers k t a r) \<and>
    (\<forall>v. is_allowed_ip v (sample_peer t a) = Ret (key_matches (ipnet_key sample_net) v))"
proof -
  obtain a :: "unit AllowedIPs" where a: "allowed_ips_wf a" "allowed_ips_map a = [ipnet_key sample_net \<mapsto> ()]"
    using sample_table_gen [of "()"] by blast
  obtain r :: "bytes AllowedIPs" where r: "allowed_ips_wf r" "allowed_ips_map r = [ipnet_key sample_net \<mapsto> k]"
    using sample_table_gen [of k] by blast
  have by_key: "peer_by_key j (sample_peers k t a r) = (if j = k then Some (sample_peer t a) else None)" for j
    by (simp add: sample_peers_def peer_by_key_def)
  have "peers_inv (sample_peers k t a r)"
    using a r unfolding peers_inv_def by_key
    by (auto simp: sample_peers_def sample_peer_def peer_ok_def hs_prefix_def no_overlap_def owns_def peer_by_key_def split: if_splits)
  moreover have "is_allowed_ip v (sample_peer t a) = Ret (key_matches (ipnet_key sample_net) v)" for v
    using is_allowed_ip_law [of "sample_peer t a" v] a by (auto simp: sample_peer_def)
  ultimately show ?thesis by blast
qed

lemma sample_drop:
  assumes "packet_queue_head t = None"
  shows "drop_expired_packet_queues P now (sample_peers k t a r) pool = Ret (sample_peers k t a r, pool)"
  using assms by (simp add: drop_expired_packet_queues_def sample_peers_def sample_peer_def drop_expired_queued_packets_def
      from_option_def drop_expired_loop.simps)

definition sample_datagram :: bytes where
  "sample_datagram = [0x45, 0, 0, 20] @ replicate 8 0 @ [10, 0, 0, 1, 10, 0, 0, 2]"

definition sample_sender :: Session where
  "sample_sender = session_new 0x701 0x702 (replicate 32 1) (replicate 32 2)"

definition sample_receiver :: Session where
  "sample_receiver = session_new 0x702 0x701 (replicate 32 2) (replicate 32 1)"

lemma sample_datagram_facts:
  "ipv4_format sample_datagram" "src_address sample_datagram = Some (AddrV4 0x0A000001)" "dst_address sample_datagram = Some (AddrV4 0x0A000002)"
  "from_be_bytes (slice 12 16 sample_datagram) = (0x0A000001 :: u32)" "length sample_datagram \<le> MTU"
proof -
  have l: "length sample_datagram = 20" "sample_datagram ! 0 = 0x45" "slice 2 4 sample_datagram = [0, 20]"
      "slice 12 16 sample_datagram = [10, 0, 0, 1]" "slice 16 20 sample_datagram = [10, 0, 0, 2]" "sample_datagram \<noteq> []"
    by (simp_all add: sample_datagram_def slice_def)
  show "ipv4_format sample_datagram" "from_be_bytes (slice 12 16 sample_datagram) = (0x0A000001 :: u32)" "length sample_datagram \<le> MTU"
    using l by (simp_all add: ipv4_format_def from_be_bytes_def Let_def MTU_def)
  show "src_address sample_datagram = Some (AddrV4 0x0A000001)" "dst_address sample_datagram = Some (AddrV4 0x0A000002)"
    using l by (simp_all add: src_address_def dst_address_def ip_consts valid_ipv4_header_len_def from_be_bytes_def Let_def)
qed

lemma sample_bits: "bits (0x0A000001 :: u32) 8 = bits (0x0A010203 :: u32) 8" "bits (0x0A000002 :: u32) 8 = bits (0x0A010203 :: u32) 8"
  by code_simp+

lemma sample_matches: "key_matches (ipnet_key sample_net) (AddrV4 0x0A000001)" "key_matches (ipnet_key sample_net) (AddrV4 0x0A000002)"
  by (subst key_matches_ipnet; simp add: sample_net_def word_le_nat_alt sample_bits)+

lemma sample_ends:
  "\<exists>a r. peers_inv (sample_peers k (sample_tunn s) a r) \<and>
    (let d = sample_device (sample_peers k (sample_tunn s) a r) in
     (s = sample_sender \<longrightarrow> can_send sample_env 0 sample_datagram (SocketV4 7 7) sample_sender d) \<and>
     (s = sample_receiver \<longrightarrow> can_receive sample_env 0 sample_datagram k sample_sender d))"
proof -
  let ?t = "sample_tunn s"
  obtain a r where ar: "peers_inv (sample_peers k ?t a r)"
      "\<And>v. is_allowed_ip v (sample_peer ?t a) = Ret (key_matches (ipnet_key sample_net) v)"
    using sample_tables [of k ?t] by blast
  let ?ps = "sample_peers k ?t a r"
  have p: "peer_by_key k ?ps = Some (sample_peer ?t a)" by (simp add: sample_peers_def peer_by_key_def)
  have drop: "drop_expired_packet_queues P now ?ps pool = Ret (?ps, pool)" for P :: "heap_pool pool_ops" and now pool
    by (rule sample_drop) (simp add: sample_tunn_def tunn_new_def)
  have idx: "pr_index (sample_peer ?t a) = 7"
    by (simp add: sample_peer_def sample_tunn_def tunn_new_def handshake_new_def hs_prefix_def)
  have "can_send sample_env 0 sample_datagram (SocketV4 7 7) sample_sender (sample_device ?ps)" if "s = sample_sender"
  proof -
    have "pr_relay (sample_peer ?t a) = None" "pr_endpoint (sample_peer ?t a) = Some (SocketV4 7 7)"
      "tn_sessions (pr_tunnel (sample_peer ?t a)) ! (tn_current (pr_tunnel (sample_peer ?t a)) mod N_SESSIONS) = Some sample_sender"
      by (simp_all add: sample_peer_def that sample_tunn_def tunn_new_def N_SESSIONS_def)
    moreover have "length (sender sample_sender) = 32" "sending_key_counter sample_sender < REJECT_AFTER_MESSAGES"
      by (simp_all add: sample_sender_def session_new_def word_less_nat_alt unat_REJECT)
    ultimately show ?thesis
      unfolding can_send_def using ar p drop sample_datagram_facts sample_matches(2)
      by (simp add: sample_env_def sample_device_def MTU_def) (rule exI [of _ k], simp)
  qed
  moreover have "can_receive sample_env 0 sample_datagram k sample_sender (sample_device ?ps)" if "s = sample_receiver"
  proof -
    have "mirrors sample_sender ?t 0 {}"
      by (simp add: that mirrors_def sample_tunn_def sample_sender_def sample_receiver_def session_new_def N_SESSIONS_def tracks_default)
    moreover have "drop_bit 8 (sending_index sample_sender) = 7" by (simp add: sample_sender_def session_new_def)
    ultimately show ?thesis
      unfolding can_receive_def using ar p drop idx sample_datagram_facts sample_matches(1)
      by (simp add: sample_env_def sample_device_def sample_peer_def MTU_def)
        (rule exI [of _ 0], simp, rule exI [of _ "{}"], simp)
  qed
  ultimately show ?thesis using ar by (auto simp: Let_def)
qed

section \<open>Properties\<close>

text \<open>C4. The tables of a device agree at all times: whatever packets, ticks and commands a device has handled since it
  was created, with at most as many peers given at its creation or added later as there are indices, every peer hands
  out session indices under its own prefix, the prefixes lead back to their peers, and the routing
  table holds exactly the allowed networks of the peers, none of them shared.\<close>

theorem device_tables_agree:
  assumes "reachable next_u32 E n d" and "n \<le> PERIOD"
  shows "peers_inv (dv_peers d)"
  using reachable_inv [OF assms] by (simp add: device_inv_def)

lemma sample_reachable: "reachable (\<lambda>r :: u32. (r, r + 1)) sample_env 0 (sample_device peer_state_new)"
proof -
  have "reachable (\<lambda>r :: u32. (r, r + 1)) sample_env (length ([] :: PeerConfig list)) (sample_device peer_state_new)"
    by (rule reachable.new [OF initialize_example, where now = 0 and priv = "[1]" and stamper = "timestamper_new 0 0" and
        secret_key = "[5]" and nonce_key = "[6]" and pool = heap_new])
      (simp_all add: device_new_def sample_device_def sample_env_def sample_gen_def)
  then show ?thesis by simp
qed

theorem device_tables_agree_witness:
  "\<exists>d. reachable (\<lambda>r :: u32. (r, r + 1)) sample_env 1 d \<and> peers_inv (dv_peers d) \<and> peer_by_key (replicate 32 7) (dv_peers d) \<noteq> None"
proof -
  obtain ps g p where a: "add_peer_to_state no_caps sample_crypto 0 [1] (timestamper_new 0 0) (sample_config\<lparr>pc_allowed_ips := []\<rparr>)
      peer_state_new sample_gen = Ret (Inr NoOutput, ps, g)" "peer_by_key (replicate 32 7) ps = Some p"
    using sample_added by blast
  let ?d = "(sample_device peer_state_new)\<lparr>dv_peers := ps, dv_gen := g\<rparr>"
  have "device_step sample_env 0 (\<lambda>_. []) (CommandRecv (Add (sample_config\<lparr>pc_allowed_ips := []\<rparr>))) (sample_device peer_state_new) =
      Ret ([Completion (Inr NoOutput)], ?d)"
    using a(1) by (simp add: device_step_def handle_peer_update_def sample_device_def sample_env_def)
  from reachable.event [OF sample_reachable _ this] have r: "reachable (\<lambda>r :: u32. (r, r + 1)) sample_env 1 ?d"
    by (simp add: config_wf_def)
  from device_tables_agree [OF this] a(2) r show ?thesis by (auto simp: PERIOD_def)
qed

text \<open>C2. A packet is delivered only from its owner: every packet a device gives to the interface names the peer it came
  from, and its source address is one that the device would route back to that peer.\<close>

theorem delivery_matches_route:
  assumes "peers_inv (dv_peers d)" and "device_step E now eph ev d = Ret (out, d')" and "NicSend packet key \<in> set out"
  shows "\<exists>a. src_address packet = Some a \<and> allowed_ips_find a (ps_by_ip (dv_peers d)) = Some (Some key)"
proof -
  have "\<forall>c. ev \<noteq> CommandRecv c" using assms(2,3) by (auto simp: device_step_def run_bind_def split: run.splits)
  from run_allD [OF device_step_delivers [OF assms(1) this] assms(2)] have "nic_ok (dv_peers d) (NicSend packet key)"
    using assms(3) unfolding delivered_def list_all_iff by auto
  then obtain a p where a: "src_address packet = Some a" "peer_by_key key (dv_peers d) = Some p" "is_allowed_ip a p = Ret True" by auto
  obtain r where "allowed_ips_find a (ps_by_ip (dv_peers d)) = Some r"
      "\<forall>k. r = Some k \<longleftrightarrow> (\<exists>p. peer_by_key k (dv_peers d) = Some p \<and> is_allowed_ip a p = Ret True)"
    using route_lookup [OF assms(1), of a] by blast
  with a show ?thesis by auto
qed

theorem delivery_matches_route_witness:
  "\<exists>d pkt d' a. device_step sample_env 0 (\<lambda>_. []) (UdpRecv pkt (SocketV4 9 9)) d = Ret ([NicSend sample_datagram (replicate 32 1)], d') \<and>
    src_address sample_datagram = Some a \<and> allowed_ips_find a (ps_by_ip (dv_peers d)) = Some (Some (replicate 32 1))"
proof -
  obtain dA where A: "can_send sample_env 0 sample_datagram (SocketV4 7 7) sample_sender dA" using sample_ends [of _ sample_sender] by (auto simp: Let_def)
  obtain dB where B: "can_receive sample_env 0 sample_datagram (replicate 32 1) sample_sender dB"
    using sample_ends [of "replicate 32 1" sample_receiver] by (auto simp: Let_def)
  have C: "crypto_correct (ev_crypto sample_env)" using sample_crypto_correct by (simp add: sample_env_def)
  from packet_crosses [OF C refl A B, of "\<lambda>_. []" "\<lambda>_. []" "SocketV4 9 9"] obtain pkt d' where
    d: "device_step sample_env 0 (\<lambda>_. []) (UdpRecv pkt (SocketV4 9 9)) dB = Ret ([NicSend sample_datagram (replicate 32 1)], d')" by blast
  have "peers_inv (dv_peers dB)" using B by (simp add: can_receive_def)
  from delivery_matches_route [OF this d, of sample_datagram "replicate 32 1"] d show ?thesis by auto
qed

text \<open>C1. A packet crosses from device to device: an IP packet read from the interface of one device, for an address of a
  peer it can reach directly and has a session with, leaves as one datagram to the endpoint of that
  peer, and the device of the peer, holding the mirrored session, writes exactly that packet to its
  interface, with the key of the sender, whatever address the datagram came from.\<close>

theorem device_to_device:
  assumes "crypto_correct (ev_crypto E)" and "ev_crypto E' = ev_crypto E"
    and "can_send E now src addr s dA" and "can_receive E' now' src kA s dB"
  shows "\<exists>pkt dA' dB'. device_step E now eph (TunRecv src) dA = Ret ([UdpSend pkt addr], dA') \<and>
    device_step E' now' eph' (UdpRecv pkt from_addr) dB = Ret ([NicSend src kA], dB')"
  by (rule packet_crosses [OF assms])

theorem device_to_device_witness:
  "\<exists>dA dB pkt dA' dB'. device_step sample_env 0 (\<lambda>_. []) (TunRecv sample_datagram) dA = Ret ([UdpSend pkt (SocketV4 7 7)], dA') \<and>
    device_step sample_env 0 (\<lambda>_. []) (UdpRecv pkt (SocketV4 9 9)) dB = Ret ([NicSend sample_datagram (replicate 32 1)], dB')"
proof -
  obtain dA where A: "can_send sample_env 0 sample_datagram (SocketV4 7 7) sample_sender dA" using sample_ends [of _ sample_sender] by (auto simp: Let_def)
  obtain dB where B: "can_receive sample_env 0 sample_datagram (replicate 32 1) sample_sender dB"
    using sample_ends [of "replicate 32 1" sample_receiver] by (auto simp: Let_def)
  have C: "crypto_correct (ev_crypto sample_env)" using sample_crypto_correct by (simp add: sample_env_def)
  from device_to_device [OF C refl A B, of "\<lambda>_. []" "\<lambda>_. []" "SocketV4 9 9"] show ?thesis by blast
qed

text \<open>C5. An outgoing packet leaves only towards the owner of its destination: whatever a device sends for a packet of the
  interface is one datagram, to the endpoint of the peer whose allowed networks hold the destination
  of the packet, or of the relay configured for that peer.\<close>

theorem tun_packet_to_owner:
  assumes "peers_inv (dv_peers d)" and "device_step E now eph (TunRecv src) d = Ret (out, d')" and "out \<noteq> []"
  shows "\<exists>dst key p pkt addr. dst_address src = Some dst \<and> peer_by_key key (dv_peers d) = Some p \<and> is_allowed_ip dst p = Ret True \<and>
    next_hop (dv_peers d) key addr \<and> out = [UdpSend pkt addr]"
  using run_allD [OF tun_hop [OF assms(1)], of E now eph src "(out, d')"] assms(2,3) by (auto simp: device_step_def tun_ok_def)

theorem tun_packet_to_owner_witness:
  "\<exists>d pkt d' key. device_step sample_env 0 (\<lambda>_. []) (TunRecv sample_datagram) d = Ret ([UdpSend pkt (SocketV4 7 7)], d') \<and>
    next_hop (dv_peers d) key (SocketV4 7 7)"
proof -
  obtain dA where A: "can_send sample_env 0 sample_datagram (SocketV4 7 7) sample_sender dA" using sample_ends [of _ sample_sender] by (auto simp: Let_def)
  obtain dB where B: "can_receive sample_env 0 sample_datagram (replicate 32 1) sample_sender dB"
    using sample_ends [of "replicate 32 1" sample_receiver] by (auto simp: Let_def)
  have C: "crypto_correct (ev_crypto sample_env)" using sample_crypto_correct by (simp add: sample_env_def)
  from packet_crosses [OF C refl A B, of "\<lambda>_. []" "\<lambda>_. []" "SocketV4 9 9"] obtain pkt d' where
    d: "device_step sample_env 0 (\<lambda>_. []) (TunRecv sample_datagram) dA = Ret ([UdpSend pkt (SocketV4 7 7)], d')" by blast
  have "peers_inv (dv_peers dA)" using A by (simp add: can_send_def)
  from tun_packet_to_owner [OF this d] d show ?thesis by auto
qed

text \<open>C16. A relay forwards only what it may: a device sends something on for a relay packet only when the packet is
  authentic, its envelope and the inner packet are well-formed, the authorizer allows this sender
  this destination, and the destination is a configured peer; it then sends one datagram, the inner
  packet unchanged to the endpoint of the destination or, with hops left, a new envelope to its relay.\<close>

theorem relay_forward_authorized:
  assumes "peer_by_key key (dv_peers d) = Some peer" and "handle_relay_packet E now eph key peer packet d = Ret (out, d')" and "out \<noteq> []"
  shows "\<exists>plaintext t envelope pkt addr. handle_verified_relay_packet (ev_crypto E) (length (ev_dst E)) packet (pr_tunnel peer) = Ret (Inr plaintext, t) \<and>
    envelope_parse plaintext = Inr envelope \<and> forward_ok E (dv_peers d) key envelope pkt addr \<and> out = [UdpSend pkt addr]"
proof -
  from assms(2,3) obtain plaintext t envelope where e:
      "handle_verified_relay_packet (ev_crypto E) (length (ev_dst E)) packet (pr_tunnel peer) = Ret (Inr plaintext, t)"
      "envelope_parse plaintext = Inr envelope"
    by (auto simp: handle_relay_packet_def run_bind_def Let_def split: run.splits sum.splits)
  with assms(2) obtain pending ps1 pool1 where f: "forward_envelope E now (eph 0) key envelope
        (put_peer key (peer\<lparr>pr_tunnel := t\<rparr>) (dv_peers d)) (dv_pool d) = Ret (pending, ps1, pool1)" "out = send_pending_packet pending"
    by (auto simp: handle_relay_packet_def run_bind_def Let_def split: run.splits)
  then obtain pkt addr where p: "pending = Some (pkt, addr)" "out = [UdpSend pkt addr]" using pending_cases assms(3) by blast
  with run_allD [OF forward_hop [OF same_hops_put [OF same_hops_refl assms(1)]] f(1)] e show ?thesis by blast
qed

lemma sample_relayed:
  "\<exists>d peer x out d'. peer_by_key (replicate 32 1) (dv_peers d) = Some peer \<and>
    handle_relay_packet sample_env 0 (\<lambda>_. []) (replicate 32 1) peer (PRelayData x) d = Ret (out, d') \<and> out \<noteq> []"
proof -
  define inner where "inner = to_le_bytes 4 DATA @ replicate 28 (0 :: u8)"
  define plain where "plain = [1, 8] @ to_le_bytes 2 (of_nat (length inner) :: u16) @ replicate 32 1 @ inner"
  have inner: "length inner = 32" "validate_inner_packet inner = Inr ()"
    by (simp_all add: inner_def validate_inner_packet_def message_consts slice_def Let_def)
  have plain: "padded plain = [1, 8] @ to_le_bytes 2 (of_nat (length inner) :: u16) @ replicate 32 1 @ inner @ replicate (padded_len plain - length plain) 0"
    by (simp add: padded_def plain_def)
  let ?e = "\<lparr>env_bytes = padded plain, env_inner_len = length inner\<rparr>"
  have parse: "envelope_parse (padded plain) = Inr ?e" unfolding plain by (rule envelope_parse_layout) (use inner in simp_all)
  have fields: "envelope_destination ?e = replicate 32 1" "envelope_inner_packet ?e = inner" unfolding plain by (rule envelope_fields_layout; simp)+
  obtain a r where ar: "peers_inv (sample_peers (replicate 32 1) (sample_tunn sample_receiver) a r)"
    using sample_ends [of "replicate 32 1" sample_receiver] by blast
  let ?d = "sample_device (sample_peers (replicate 32 1) (sample_tunn sample_receiver) a r)"
  let ?p = "sample_peer (sample_tunn sample_receiver) a"
  have p: "peer_by_key (replicate 32 1) (dv_peers ?d) = Some ?p" by (simp add: sample_device_def sample_peers_def peer_by_key_def)
  have m: "mirrors sample_sender (sample_tunn sample_receiver) 0 {}"
    by (simp add: mirrors_def sample_tunn_def sample_sender_def sample_receiver_def session_new_def N_SESSIONS_def tracks_default)
  have len: "length plain = 68" by (simp add: plain_def inner)
  obtain x u' where x: "decrypt_raw_data sample_crypto 1400 x (sample_tunn sample_receiver) = Ret (Inr (padded plain), u')"
    by (rule sent_is_decrypted [OF sample_crypto_correct, of RELAY_DATA sample_sender "sample_tunn sample_receiver" 0 "{}" plain "replicate 1400 0" 1400])
      (use m len in \<open>auto simp: sample_sender_def session_new_def word_less_nat_alt unat_REJECT padded_len_def aead_max_plaintext_def\<close>)
  then have v: "handle_verified_relay_packet (ev_crypto sample_env) (length (ev_dst sample_env)) (PRelayData x) (pr_tunnel ?p) = Ret (Inr (padded plain), u')"
    by (simp add: handle_verified_relay_packet_def sample_env_def sample_peer_def)
  have "\<exists>out d'. handle_relay_packet sample_env 0 (\<lambda>_. []) (replicate 32 1) ?p (PRelayData x) ?d = Ret (out, d') \<and> out \<noteq> []"
    unfolding handle_relay_packet_def v
    by (simp add: Let_def parse forward_envelope_def fields [unfolded inner(1)] inner view_more sample_env_def generic_authorize_def sample_peer_def send_pending_packet_def)
  with p show ?thesis by blast
qed

theorem relay_forward_authorized_witness:
  "\<exists>d x envelope pkt addr out. out = [UdpSend pkt addr] \<and> forward_ok sample_env (dv_peers d) (replicate 32 1) envelope pkt addr \<and>
    (\<exists>peer d'. handle_relay_packet sample_env 0 (\<lambda>_. []) (replicate 32 1) peer (PRelayData x) d = Ret (out, d'))"
proof -
  obtain d peer x out d' where r: "peer_by_key (replicate 32 1) (dv_peers d) = Some peer"
      "handle_relay_packet sample_env 0 (\<lambda>_. []) (replicate 32 1) peer (PRelayData x) d = Ret (out, d')" "out \<noteq> []"
    using sample_relayed by blast
  from relay_forward_authorized [OF r] r(2) show ?thesis by blast
qed

text \<open>C35. Stale packets are dropped for every peer: over a well-formed pool in which the queues of the peers are disjoint
  chains, dropping returns, leaves the pool well-formed, and leaves every peer exactly its packets
  that have not expired, in order.\<close>

theorem expired_packets_dropped:
  assumes "heap_inv N BYTES pool" and "queues_hold (heap_view pool) (ps_peers ps) hss"
  shows "\<exists>ps' pool'. drop_expired_packet_queues (heap_ops N BYTES) now ps pool = Ret (ps', pool') \<and> heap_inv N BYTES pool' \<and>
    queues_hold (heap_view pool') (ps_peers ps') (map (filter (\<lambda>h. \<not> expired now (heap_view pool) h)) hss)"
  using heap.drop_queues_law [OF assms, of now] by (auto simp: drop_expired_packet_queues_def)

definition sample_queued :: heap_pool where
  "sample_queued = \<lparr>hp_slots = [Some \<lparr>hs_next = None, hs_queued_at = 0, hs_packet_type = 4, hs_data = [1, 2]\<rparr>], hp_free = [], hp_used_bytes = 2\<rparr>"

definition sample_waiting :: Tunn where
  "sample_waiting = (sample_tunn sample_session)\<lparr>packet_queue_head := Some 0, packet_queue_tail := Some 0, packet_queue_len := 1\<rparr>"

lemma sample_queues:
  "heap_inv 4 100 sample_queued" "queues_hold (heap_view sample_queued) (ps_peers (sample_peers k sample_waiting a r)) [[0]]"
proof -
  show "heap_inv 4 100 sample_queued" by (auto simp: heap_inv_def sample_queued_def slot_bytes_def less_Suc_eq)
  show "queues_hold (heap_view sample_queued) (ps_peers (sample_peers k sample_waiting a r)) [[0]]"
    by (simp add: queues_hold_def sample_peers_def sample_peer_def holds_def sample_waiting_def heap_view_def heap_slot_at_def
        sample_queued_def last_opt_def)
qed

theorem expired_packets_dropped_witness:
  "\<exists>ps' pool'. drop_expired_packet_queues (heap_ops 4 100) (40 * SECOND) (sample_peers [1] sample_waiting allowed_ips_new allowed_ips_new) sample_queued = Ret (ps', pool') \<and>
    queues_hold (heap_view pool') (ps_peers ps') [[]]"
proof -
  have "expired (40 * SECOND) (heap_view sample_queued) 0"
    by (simp add: expired_def heap_view_def heap_slot_at_def sample_queued_def PENDING_PACKET_TTL_def SECOND_def)
  with expired_packets_dropped [OF sample_queues(1) sample_queues(2) [of "[1]" allowed_ips_new allowed_ips_new], of "40 * SECOND"] show ?thesis by auto
qed

text \<open>C36. Removing a peer leaks its queue: the packets queued for a peer when it is removed stay allocated in the pool, no
  peer refers to them, and dropping the expired packets never frees them, whatever the time.\<close>

theorem removed_peer_keeps_packets:
  assumes "peers_inv (dv_peers d)" and "peer_by_key key (dv_peers d) = Some p"
    and "heap_inv N BYTES (dv_pool d)" and "queues_hold (heap_view (dv_pool d)) (ps_peers (dv_peers d)) hss"
    and "device_step E now eph (CommandRecv (Remove key)) d = Ret (out, d')"
  shows "\<exists>hs. holds (heap_view (dv_pool d)) (pr_tunnel p) hs \<and> peer_by_key key (dv_peers d') = None \<and>
    (\<forall>time. \<exists>ps pool. drop_expired_packet_queues (heap_ops N BYTES) time (dv_peers d') (dv_pool d') = Ret (ps, pool) \<and>
       (\<forall>h \<in> set hs. heap_view pool h = heap_view (dv_pool d) h \<and> heap_view pool h \<noteq> None))"
proof -
  let ?ps = "dv_peers d" and ?v = "heap_view (dv_pool d)"
  have d': "d' = d\<lparr>dv_peers := remove_peer_from_state key ?ps\<rparr>" using assms(5) by (simp add: device_step_def handle_peer_update_def)
  have dist: "distinct (map fst (ps_peers ?ps))" using peers_invD(1) [OF assms(1)] .
  from assms(2) have "(key, p) \<in> set (ps_peers ?ps)" by (auto simp: peer_by_key_def dest: map_of_SomeD)
  then obtain xs ys where xs: "ps_peers ?ps = xs @ (key, p) # ys" by (auto dest: split_list)
  with assms(4) obtain us hs vs where hss: "hss = us @ hs # vs" "list_all2 (\<lambda>x hs. holds ?v (pr_tunnel (snd x)) hs) xs us"
      "holds ?v (pr_tunnel p) hs" "list_all2 (\<lambda>x hs. holds ?v (pr_tunnel (snd x)) hs) ys vs"
    by (auto simp: queues_hold_def list_all2_append1 list_all2_Cons1)
  have peers': "ps_peers (dv_peers d') = xs @ ys"
  proof -
    have "key \<notin> fst ` set xs" "key \<notin> fst ` set ys" using dist xs by simp_all
    then have "filter (\<lambda>e. fst e \<noteq> key) xs = xs" "filter (\<lambda>e. fst e \<noteq> key) ys = ys" by (auto intro!: filter_True)
    then show ?thesis using xs assms(2) unfolding d' by (simp add: remove_peer_from_state_def remove_peer_storage_def map_remove_def)
  qed
  then have "queues_hold ?v (ps_peers (dv_peers d')) (us @ vs)" "set hs \<inter> set (concat (us @ vs)) = {}"
    using assms(4) hss by (auto simp: queues_hold_def list_all2_appendI)
  note Q = this
  have "\<exists>ps pool. drop_expired_packet_queues (heap_ops N BYTES) time (dv_peers d') (dv_pool d') = Ret (ps, pool) \<and>
      (\<forall>h \<in> set hs. heap_view pool h = ?v h \<and> heap_view pool h \<noteq> None)" for time
  proof -
    from heap.drop_queues_law [OF assms(3) Q(1), of time] obtain n peers' pool where
      r: "drop_queues (heap_ops N BYTES) time (ps_peers (dv_peers d')) (dv_pool d) = Ret (n, peers', pool)"
      "\<And>h. h \<notin> set (concat (us @ vs)) \<Longrightarrow> heap_view pool h = ?v h" by blast
    have "heap_view pool h = ?v h \<and> heap_view pool h \<noteq> None" if "h \<in> set hs" for h
    proof -
      have "heap_view pool h = ?v h" using r(2) Q(2) that by blast
      moreover have "\<exists>q. ?v h = Some q" using hss(3) that seg_live by (auto simp: holds_def)
      ultimately show ?thesis by auto
    qed
    moreover have "drop_expired_packet_queues (heap_ops N BYTES) time (dv_peers d') (dv_pool d') = Ret ((dv_peers d')\<lparr>ps_peers := peers'\<rparr>, pool)"
      using r(1) by (simp add: drop_expired_packet_queues_def d')
    ultimately show ?thesis by blast
  qed
  moreover have "peer_by_key key (dv_peers d') = None" using dist xs peers' by (auto simp: peer_by_key_def map_of_eq_None_iff)
  ultimately show ?thesis using hss(3) by blast
qed

theorem removed_peer_keeps_packets_witness:
  "\<exists>d d' hs. device_step sample_env 0 (\<lambda>_. []) (CommandRecv (Remove [1])) d = Ret ([Completion (Inr NoOutput)], d') \<and> hs \<noteq> [] \<and>
    (\<forall>time. \<exists>ps pool. drop_expired_packet_queues (heap_ops 4 100) time (dv_peers d') (dv_pool d') = Ret (ps, pool) \<and>
       (\<forall>h \<in> set hs. heap_view pool h \<noteq> None))"
proof -
  obtain a r where ar: "peers_inv (sample_peers [1] sample_waiting a r)" using sample_tables [of "[1]" sample_waiting] by blast
  let ?d = "(sample_device (sample_peers [1] sample_waiting a r))\<lparr>dv_pool := sample_queued\<rparr>"
  have h: "peers_inv (dv_peers ?d)" "heap_inv 4 100 (dv_pool ?d)" "queues_hold (heap_view (dv_pool ?d)) (ps_peers (dv_peers ?d)) [[0]]"
      "peer_by_key [1] (dv_peers ?d) = Some (sample_peer sample_waiting a)"
    using ar sample_queues by (simp_all add: sample_device_def) (simp add: sample_peers_def peer_by_key_def)
  obtain d' where s: "device_step sample_env 0 (\<lambda>_. []) (CommandRecv (Remove [1])) ?d = Ret ([Completion (Inr NoOutput)], d')"
    by (simp add: device_step_def handle_peer_update_def)
  from removed_peer_keeps_packets [OF h(1,4,2,3) s] obtain hs where hs: "holds (heap_view (dv_pool ?d)) (pr_tunnel (sample_peer sample_waiting a)) hs"
      "\<forall>time. \<exists>ps pool. drop_expired_packet_queues (heap_ops 4 100) time (dv_peers d') (dv_pool d') = Ret (ps, pool) \<and>
         (\<forall>h \<in> set hs. heap_view pool h = heap_view (dv_pool ?d) h \<and> heap_view pool h \<noteq> None)"
    by blast
  from hs(1) have "length hs = 1" by (simp add: holds_def sample_peer_def sample_waiting_def)
  then have "hs \<noteq> []" by auto
  moreover have "\<exists>ps pool. drop_expired_packet_queues (heap_ops 4 100) time (dv_peers d') (dv_pool d') = Ret (ps, pool) \<and>
      (\<forall>h \<in> set hs. heap_view pool h \<noteq> None)" for time using hs(2) [rule_format, of time] by blast
  ultimately show ?thesis using s by (intro exI [of _ ?d] exI [of _ d'] exI [of _ hs]) simp
qed

end
