(* ===== verification/Control_Plane.thy ===== *)
theory Control_Plane
  imports Reconciler Device_Paths
begin

text \<open>
  The control plane over the device: the passes of the reconciler with the client of the command
  queue, whose laws give the properties. A device can take as many additions as its index generator has
  indices left, one for each peer of the map at most; no other command draws one.
\<close>

section \<open>A device without peers\<close>

lemma empty_installed [simp]: "installed (sample_device peer_state_new) = Map.empty"
  by (simp add: fun_eq_iff installed_def peers_view_def peer_by_key_def sample_device_def peer_state_new_def)

lemma empty_can_take: assumes "n \<le> PERIOD" shows "can_take sample_env n (sample_device peer_state_new)"
proof -
  have "issued sample_gen 0 (dv_gen (sample_device peer_state_new)) (dv_peers (sample_device peer_state_new))"
    using sample_gen_issued by (simp add: sample_device_def)
  then show ?thesis using assms peers_inv_new
    by (auto simp: can_take_def device_inv_def sample_device_def sample_env_def peers_fit_def no_caps_def intro!: exI [of _ sample_gen])
qed

lemma can_take_mono: "can_take E m d \<Longrightarrow> n \<le> m \<Longrightarrow> can_take E n d"
proof -
  assume m: "can_take E m d" and n: "n \<le> m"
  then have le: "PERIOD - m \<le> PERIOD - n" by simp
  from m obtain g0 i where "i \<le> PERIOD - m" "issued g0 i (dv_gen d) (dv_peers d)" by (auto simp: can_take_def device_inv_def)
  with le have "\<exists>g0 i. i \<le> PERIOD - n \<and> issued g0 i (dv_gen d) (dv_peers d)" using le_trans by blast
  with m n show ?thesis by (simp add: can_take_def device_inv_def)
qed

text \<open>A map with one peer that has two routes, and no bounds on the collections.\<close>

definition sample_control :: "(heap_pool device, u64) control_env" where
  "sample_control = \<lparr>ce_caps = \<lparr>cc_peers = None, cc_allowed = None, cc_routes = None\<rparr>, ce_client = command_client sample_env 0,
     ce_fingerprint = (\<lambda>c. if pc_relay c = None then 1 else 2), ce_next_u64 = (\<lambda>r. (r, r + 1))\<rparr>"

definition two_routes :: NetworkMap where
  "two_routes = \<lparr>nm_updated_at = 7, nm_peers =
     [\<lparr>mp_id = 1, mp_public_key = replicate 32 7, mp_tunnel_ip = None, mp_is_directory = True,
       mp_routes = [\<lparr>rt_priority = 5, rt_kind = KindDirect (Some (SocketV4 7 7))\<rparr>, \<lparr>rt_priority = 9, rt_kind = KindDirect None\<rparr>]\<rparr>]\<rparr>"

definition sample_reconciler :: "heap_pool device PeerReconciler" where
  "sample_reconciler = reconciler_new (sample_device peer_state_new) []"

lemma sample_knows: "knows installed sample_control now sample_reconciler"
  by (simp add: knows_def tracked_def health_ok_def sample_reconciler_def reconciler_new_def)

lemma empty_list: "cl_list (command_client sample_env t) (sample_device peer_state_new) = Ret (Inr [], sample_device peer_state_new)"
  by (simp add: command_client_def client_list_peers_def execute_def device_step_def handle_peer_update_def peer_keys_def sample_device_def
      peer_state_new_def)

lemma empty_iter: "allowed_ips_iter (allowed_ips_new :: unit AllowedIPs) = Some []"
  by (simp add: allowed_ips_iter_def allowed_ips_new_def trie_new_def trie_iter_def node_new_def)

lemma empty_add:
  assumes "pc_allowed_ips c = []"
  shows "\<exists>d. cl_add (command_client sample_env t) c (sample_device peer_state_new) = Ret (Inr (), d)"
  using assms
  by (simp add: command_client_def client_add_peer_def execute_def device_step_def handle_peer_update_def sample_device_def sample_env_def
      add_peer_to_state_def peer_by_key_def peer_state_new_def new_index_def sample_gen_def LFSR_MAX_def peer_new_def
      allowed_ips_from_slice_def allowed_ips_try_from_iter_def rebuilt_peers_by_ip_with_def insert_table_def empty_iter
      insert_peer_storage_def try_insert_entry_def has_room_def no_caps_def Let_def done_unit_def)

lemma sample_applies:
  "\<exists>rc rng. reconcile_network_map sample_control 0 two_routes sample_reconciler 3 = Ret (Inr True, rc, rng)"
proof -
  obtain p rng where d: "desired_peers_from_map (ce_caps sample_control) (ce_next_u64 sample_control) two_routes 3 = (Inr [(replicate 32 7, p)], rng)"
      "dp_allowed_ips p = []"
    by (simp add: desired_peers_from_map_def two_routes_def sample_control_def route_policies_for_peer_def try_push_def has_room_def
        dedupe_and_sort_policies_def initial_policy_index_def random_below_def try_insert_entry_def desired_peer_def Let_def)
  have "pc_allowed_ips (dp_config p) = []" using d(2) by (simp add: dp_config_def config_for_policy_def split: prod.split)
  from empty_add [OF this, of 0] obtain d1 where "cl_add (command_client sample_env 0) (dp_config p) (sample_device peer_state_new) = Ret (Inr (), d1)" by blast
  moreover have "ce_client sample_control = command_client sample_env 0" "cc_peers (ce_caps sample_control) = None" "cc_routes (ce_caps sample_control) = None"
    by (simp_all add: sample_control_def)
  moreover have "route_keys_for_policies None ps = Inr (map route_key ps)" for ps
  proof -
    have "route_keys_loop None ps acc = Inr (acc @ map route_key ps)" for acc
      by (induction ps arbitrary: acc) (simp_all add: try_push_def has_room_def)
    then show ?thesis by (simp add: route_keys_for_policies_def)
  qed
  ultimately show ?thesis using d(1)
    by (cases "ce_next_u64 sample_control rng") (simp add: reconcile_network_map_def sample_reconciler_def reconciler_new_def empty_list apply_one_def apply_peer_def
        write_peer_def record_fingerprint_def track_active_policy_def try_insert_entry_def has_room_def commit_map_def directory_servers_from_map_def
        try_push_def two_routes_def Let_def)
qed

section \<open>A device with two peers\<close>

lemma table_add:
  assumes "allowed_ips_wf t" "ipnet_wf n" "(if is_ipv4 n then length (ai_v4 t) else length (ai_v6 t)) + 2 < 2 ^ 16"
  shows "\<exists>t'. allowed_ips_wf t' \<and> allowed_ips_map t' = (allowed_ips_map t)(ipnet_key n \<mapsto> v) \<and> (is_ipv4 n \<longrightarrow> ai_v6 t' = ai_v6 t)"
proof -
  from allowed_ips_insert_strong [OF assms(1,2), of None v]
  obtain r t' where r: "allowed_ips_insert None n v t = Some (r, t')" "allowed_ips_wf t'"
    "case r of Inr old \<Rightarrow> old = allowed_ips_map t (ipnet_key n) \<and> allowed_ips_map t' = (allowed_ips_map t)(ipnet_key n \<mapsto> v)
     | Inl e \<Rightarrow> e = Full \<and> t' = t \<and> arena_room None < (if is_ipv4 n then length (ai_v4 t) else length (ai_v6 t)) + 2" by blast
  have "allowed_ips_map t' = (allowed_ips_map t)(ipnet_key n \<mapsto> v)"
    using r(3) assms(3) by (auto simp: arena_room_def split: sum.splits)
  moreover have "is_ipv4 n \<longrightarrow> ai_v6 t' = ai_v6 t"
    using r(1) by (cases n) (auto simp: allowed_ips_insert_def Let_def)
  ultimately show ?thesis using r(2) by blast
qed

lemma new_lengths [simp]: "length (ai_v4 allowed_ips_new) = 1" "length (ai_v6 allowed_ips_new) = 1"
  by (simp_all add: allowed_ips_new_def trie_new_def)

definition net4 :: IpNet where "net4 = host_net (AddrV4 0x0A000001)"
definition net6 :: IpNet where "net6 = host_net (AddrV6 1)"

lemma nets: "ipnet_wf net4" "ipnet_wf net6" "is_ipv4 net4" "\<not> is_ipv4 net6" "ipnet_key net4 \<noteq> ipnet_key net6"
    "key_matches (ipnet_key net4) a \<Longrightarrow> \<not> key_matches (ipnet_key net6) a"
  by (cases a; simp add: net4_def net6_def)+

lemma pair_tables:
  "\<exists>(a4 :: unit AllowedIPs) (a6 :: unit AllowedIPs) (r :: bytes AllowedIPs). allowed_ips_wf a4 \<and> allowed_ips_wf a6 \<and> allowed_ips_wf r \<and>
     allowed_ips_map a4 = [ipnet_key net4 \<mapsto> ()] \<and> allowed_ips_map a6 = [ipnet_key net6 \<mapsto> ()] \<and>
     allowed_ips_map r = [ipnet_key net4 \<mapsto> [4], ipnet_key net6 \<mapsto> [6]]"
proof -
  obtain a4 a6 :: "unit AllowedIPs" where a: "allowed_ips_wf a4" "allowed_ips_map a4 = [ipnet_key net4 \<mapsto> ()]"
      "allowed_ips_wf a6" "allowed_ips_map a6 = [ipnet_key net6 \<mapsto> ()]"
    using table_add [OF allowed.new_inv nets(1), of "()"] table_add [OF allowed.new_inv nets(2), of "()"] nets by (auto simp: allowed.new_map)
  obtain r4 :: "bytes AllowedIPs" where r4: "allowed_ips_wf r4" "allowed_ips_map r4 = [ipnet_key net4 \<mapsto> [4]]" "ai_v6 r4 = ai_v6 allowed_ips_new"
    using table_add [OF allowed.new_inv nets(1), of "[4]"] nets by (auto simp: allowed.new_map)
  obtain r :: "bytes AllowedIPs" where "allowed_ips_wf r" "allowed_ips_map r = [ipnet_key net4 \<mapsto> [4], ipnet_key net6 \<mapsto> [6]]"
    using table_add [OF r4(1) nets(2), of "[6]"] nets r4 by auto
  with a show ?thesis by blast
qed

text \<open>The peer with key 4 has the IPv4 address, the peer with key 6 the IPv6 address.\<close>

definition pair_peer :: "nat \<Rightarrow> bytes \<Rightarrow> unit AllowedIPs \<Rightarrow> Peer" where
  "pair_peer i k a = sample_peer (tunn_new sample_crypto 0 [1] k None (nth_index sample_gen i) (timestamper_new 0 0)) a"

definition pair_device :: "unit AllowedIPs \<Rightarrow> unit AllowedIPs \<Rightarrow> bytes AllowedIPs \<Rightarrow> heap_pool device" where
  "pair_device a4 a6 r = (sample_device \<lparr>ps_peers = [([4], pair_peer 0 [4] a4), ([6], pair_peer 1 [6] a6)], ps_by_ip = r,
     ps_by_idx = [(nth_index sample_gen 0, [4]), (nth_index sample_gen 1, [6])]\<rparr>)
     \<lparr>dv_gen := sample_gen\<lparr>ig_remaining := ig_remaining sample_gen - 2, ig_lfsr := (lfsr_step ^^ 2) (ig_lfsr sample_gen)\<rparr>\<rparr>"

lemma pair_index: "nth_index sample_gen 0 \<noteq> nth_index sample_gen (Suc 0)" "pr_index (pair_peer i k a) = nth_index sample_gen i"
  "drop_bit 8 (next_local_index (tn_handshake (pr_tunnel (pair_peer i k a)))) = nth_index sample_gen i"
proof -
  have r: "ready sample_gen" using sample_gen_issued by (simp add: issued_def)
  show "nth_index sample_gen 0 \<noteq> nth_index sample_gen (Suc 0)"
    using nth_index_fresh [OF r, of 1] by (auto simp: PERIOD_def lessThan_Suc)
  have "drop_bit 8 (push_bit 8 (nth_index sample_gen i)) = nth_index sample_gen i" by (rule drop_push_index [OF nth_index_range [OF r]])
  then show "pr_index (pair_peer i k a) = nth_index sample_gen i"
    "drop_bit 8 (next_local_index (tn_handshake (pr_tunnel (pair_peer i k a)))) = nth_index sample_gen i"
    by (simp_all add: pair_peer_def sample_peer_def hs_prefix_def tunn_new_def handshake_new_def)
qed

lemma pair_exists:
  "\<exists>d. can_take sample_env 100 d \<and> installed d = [[4] \<mapsto> \<lparr>pv_endpoint = None, pv_relay = None, pv_keepalive = None, pv_networks = {ipnet_key net4}\<rparr>,
     [6] \<mapsto> \<lparr>pv_endpoint = None, pv_relay = None, pv_keepalive = None, pv_networks = {ipnet_key net6}\<rparr>]"
proof -
  obtain a4 a6 :: "unit AllowedIPs" and r :: "bytes AllowedIPs" where t: "allowed_ips_wf a4" "allowed_ips_wf a6" "allowed_ips_wf r"
     "allowed_ips_map a4 = [ipnet_key net4 \<mapsto> ()]" "allowed_ips_map a6 = [ipnet_key net6 \<mapsto> ()]"
     "allowed_ips_map r = [ipnet_key net4 \<mapsto> [4], ipnet_key net6 \<mapsto> [6]]" using pair_tables by blast
  let ?d = "pair_device a4 a6 r" and ?ps = "dv_peers (pair_device a4 a6 r)"
  have ps: "?ps = \<lparr>ps_peers = [([4], pair_peer 0 [4] a4), ([6], pair_peer 1 [6] a6)], ps_by_ip = r,
     ps_by_idx = [(nth_index sample_gen 0, [4]), (nth_index sample_gen 1, [6])]\<rparr>" by (simp add: pair_device_def sample_device_def)
  have by_key: "peer_by_key k ?ps = (if k = [4] then Some (pair_peer 0 [4] a4) else if k = [6] then Some (pair_peer 1 [6] a6) else None)" for k
    by (simp add: ps peer_by_key_def)
  have ips: "pr_allowed_ips (pair_peer i k a) = a" "pr_relay (pair_peer i k a) = None" "persistent_keepalive (pr_tunnel (pair_peer i k a)) = None" for i k a
    by (simp_all add: pair_peer_def sample_peer_def persistent_keepalive_def tunn_new_def timers_new_def Let_def)
  have "no_overlap (allowed_ips_map r)" using nets(6) by (auto simp: no_overlap_def t split: if_splits)
  then have "peers_inv ?ps"
    unfolding peers_inv_def by_key using t nets(5) pair_index
    by (auto simp: ps peer_ok_def owns_def peer_by_key_def ips split: if_splits)
  moreover have "issued sample_gen 2 (dv_gen ?d) ?ps"
  proof -
    have "dv_gen ?d = sample_gen\<lparr>ig_remaining := ig_remaining sample_gen - of_nat 2, ig_lfsr := (lfsr_step ^^ 2) (ig_lfsr sample_gen)\<rparr>" "2 \<le> PERIOD"
      by (simp_all add: pair_device_def PERIOD_def)
    moreover have "i \<in> nth_index sample_gen ` {..<2}" if "map_of (ps_by_idx ?ps) i = Some k" for i k
      using that by (auto simp: ps split: if_splits)
    ultimately show ?thesis using sample_gen_issued by (auto simp: issued_def)
  qed
  ultimately have "can_take sample_env 100 ?d"
    by (auto simp: can_take_def device_inv_def PERIOD_def sample_env_def peers_fit_def no_caps_def intro!: exI [of _ sample_gen] exI [of _ 2])
  moreover have "installed ?d = [[4] \<mapsto> \<lparr>pv_endpoint = None, pv_relay = None, pv_keepalive = None, pv_networks = {ipnet_key net4}\<rparr>,
     [6] \<mapsto> \<lparr>pv_endpoint = None, pv_relay = None, pv_keepalive = None, pv_networks = {ipnet_key net6}\<rparr>]"
    by (auto simp: fun_eq_iff installed_def peers_view_def by_key peer_view_of_def ips t)
  ultimately show ?thesis by blast
qed

section \<open>Properties\<close>

text \<open>C7. The map pass brings the device in line with the map: it returns, with every outcome leaving the fingerprints true to
  the device and the health states well-formed. When it reports the map as applied, the device has
  exactly the peers of the map, each with the fingerprint of its desired configuration, the health
  of each follows the selected policy, and the desired peers are those of the map with one of
  their policies selected; a map that is not newer changes nothing, and an error leaves the
  previous plan.\<close>

theorem map_pass_applies:
  assumes "ce_client V = command_client E t" and "knows installed V now rc"
    and "can_take E (length (nm_peers m) + n) (rc_client rc)"
  shows "\<exists>r rc' rng'. reconcile_network_map V now m rc rng = Ret (r, rc', rng') \<and> (\<exists>j \<ge> n. can_take E j (rc_client rc')) \<and>
    knows installed V now rc' \<and> map_outcome installed V m rc r rc'"
  using returnsD [OF command.reconcile_ok [OF assms, of rng]] by auto

theorem map_pass_applies_witness:
  "\<exists>rc rng. reconcile_network_map sample_control 0 two_routes sample_reconciler 3 = Ret (Inr True, rc, rng) \<and>
    coherent installed sample_control rc \<and> plan_of two_routes (rc_desired rc)"
proof -
  have c: "ce_client sample_control = command_client sample_env 0" by (simp add: sample_control_def)
  have t: "can_take sample_env (length (nm_peers two_routes) + 0) (rc_client sample_reconciler)"
    by (simp add: sample_reconciler_def reconciler_new_def two_routes_def empty_can_take PERIOD_def)
  from map_pass_applies [OF c sample_knows t, of 0 3] sample_applies show ?thesis by (fastforce simp: map_outcome_def)
qed

text \<open>C9. The health pass never lets the views diverge: it returns, and when the device, the desired peers and the health
  states agree before it, they agree after it, also when the device refuses a switch and the pass
  ends with an error; it changes the selected policies and nothing else of the plan.\<close>

theorem health_pass_keeps_views:
  assumes "ce_client V = command_client E t" and "knows installed V now rc" and "coherent installed V rc"
    and "can_take E n (rc_client rc)"
  shows "\<exists>r rc' rng'. reconcile_peer_health_at V now rc rng = Ret (r, rc', rng') \<and> (\<exists>j \<ge> n. can_take E j (rc_client rc')) \<and>
    knows installed V now rc' \<and> coherent installed V rc' \<and> same_routes rc rc'"
proof -
  have "plan_ok (rc_desired rc)" using assms(3) by (simp add: coherent_def)
  from returnsD [OF command.health_ok_pass [OF assms(1,2) this assms(4), of rng]] assms(3) show ?thesis by (auto simp: command.checked_def)
qed

theorem health_pass_keeps_views_witness:
  "\<exists>rc rng. reconcile_network_map sample_control 0 two_routes sample_reconciler 3 = Ret (Inr True, rc, rng) \<and>
    (\<exists>r rc' rng'. reconcile_peer_health_at sample_control 0 rc rng = Ret (r, rc', rng') \<and> coherent installed sample_control rc')"
proof -
  have c: "ce_client sample_control = command_client sample_env 0" by (simp add: sample_control_def)
  have t: "can_take sample_env (length (nm_peers two_routes) + 2) (rc_client sample_reconciler)"
    by (simp add: sample_reconciler_def reconciler_new_def two_routes_def empty_can_take PERIOD_def)
  obtain rc rng where a: "reconcile_network_map sample_control 0 two_routes sample_reconciler 3 = Ret (Inr True, rc, rng)" using sample_applies by blast
  from returnsD [OF command.reconcile_ok [OF c sample_knows t, of 0 3]] a obtain j where j: "2 \<le> j" "can_take sample_env j (rc_client rc)"
    "knows installed sample_control 0 rc" "coherent installed sample_control rc" "plan_of two_routes (rc_desired rc)"
    by (fastforce simp: map_outcome_def)
  from health_pass_keeps_views [OF c j(3,4,2)] a show ?thesis by blast
qed

text \<open>C38. Two peers cannot exchange their tunnel addresses: while the device has one address for each of two peers, a map
  that gives each of them the address of the other is not applied, in whatever order the peers are
  written, since the device refuses an address another peer holds and the reconciler does not make
  room first; both peers are left as they were, so that a later pass with the map meets the same state.\<close>

theorem swapped_addresses_not_applied:
  assumes "ce_client V = command_client E t" and "knows installed V now rc"
    and "can_take E (length (nm_peers m)) (rc_client rc)"
    and "k1 \<noteq> k2" and "last_with_key k1 (nm_peers m) = Some p1" and "mp_tunnel_ip p1 = Some a2"
    and "last_with_key k2 (nm_peers m) = Some p2" and "mp_tunnel_ip p2 = Some a1"
    and "installed (rc_client rc) k1 = Some v1" and "ipnet_key (host_net a1) \<in> pv_networks v1"
    and "installed (rc_client rc) k2 = Some v2" and "ipnet_key (host_net a2) \<in> pv_networks v2"
    and "\<forall>c. map_of (rc_fingerprints rc) k1 = Some (ce_fingerprint V c) \<longrightarrow> host_net a2 \<notin> set (pc_allowed_ips c)"
    and "\<forall>c. map_of (rc_fingerprints rc) k2 = Some (ce_fingerprint V c) \<longrightarrow> host_net a1 \<notin> set (pc_allowed_ips c)"
  shows "\<exists>r rc' rng'. reconcile_network_map V now m rc rng = Ret (r, rc', rng') \<and> r \<noteq> Inr True \<and>
    (\<forall>k \<in> {k1, k2}. installed (rc_client rc') k = installed (rc_client rc) k \<and> map_of (rc_fingerprints rc') k = map_of (rc_fingerprints rc) k)"
  using returnsD [OF command.swap_refused [OF assms, of rng]] by auto

definition swap_map :: NetworkMap where
  "swap_map = \<lparr>nm_updated_at = 8, nm_peers =
     [\<lparr>mp_id = 1, mp_public_key = [4], mp_tunnel_ip = Some (AddrV6 1), mp_is_directory = False, mp_routes = []\<rparr>,
      \<lparr>mp_id = 2, mp_public_key = [6], mp_tunnel_ip = Some (AddrV4 0x0A000001), mp_is_directory = False, mp_routes = []\<rparr>]\<rparr>"

definition net_print :: "PeerConfig \<Rightarrow> u64" where
  "net_print c = (if pc_allowed_ips c = [net6] then 6 else if pc_allowed_ips c = [net4] then 4 else 0)"

theorem swapped_addresses_not_applied_witness:
  "\<exists>rc r rc' rng'. dom (installed (rc_client rc)) = {[4], [6]} \<and>
    reconcile_network_map (sample_control\<lparr>ce_fingerprint := net_print\<rparr>) 0 swap_map rc 3 = Ret (r, rc', rng') \<and> r \<noteq> Inr True"
proof -
  obtain d where d: "can_take sample_env 100 d" "installed d = [[4] \<mapsto> \<lparr>pv_endpoint = None, pv_relay = None, pv_keepalive = None, pv_networks = {ipnet_key net4}\<rparr>,
     [6] \<mapsto> \<lparr>pv_endpoint = None, pv_relay = None, pv_keepalive = None, pv_networks = {ipnet_key net6}\<rparr>]" using pair_exists by blast
  let ?V = "sample_control\<lparr>ce_fingerprint := net_print\<rparr>"
  define rc where "rc = (reconciler_new d [])\<lparr>rc_fingerprints := [([4], 4), ([6], 6)]\<rparr>"
  have c: "ce_client ?V = command_client sample_env 0" by (simp add: sample_control_def)
  have v: "installed d [4] = Some \<lparr>pv_endpoint = None, pv_relay = None, pv_keepalive = None, pv_networks = {ipnet_key net4}\<rparr>"
    "installed d [6] = Some \<lparr>pv_endpoint = None, pv_relay = None, pv_keepalive = None, pv_networks = {ipnet_key net6}\<rparr>" by (simp_all add: d(2))
  let ?c = "\<lambda>n. \<lparr>pc_public_key = [], pc_endpoint = None, pc_allowed_ips = [n], pc_keepalive = None, pc_relay = None\<rparr>"
  have "net_print (?c net4) = 4 \<and> installed d [4] = Some (core_view (?c net4))" "net_print (?c net6) = 6 \<and> installed d [6] = Some (core_view (?c net6))"
    using nets by (auto simp: v net_print_def core_view_def config_view_def)
  then have k: "knows installed ?V 0 rc"
    by (auto simp: knows_def tracked_def health_ok_def rc_def reconciler_new_def split: if_splits)
  have dom: "dom (installed d) = {[4], [6]}" by (auto simp: d(2))
  have t: "can_take sample_env (length (nm_peers swap_map)) (rc_client rc)"
    using can_take_mono [OF d(1)] by (simp add: rc_def reconciler_new_def swap_map_def)
  have f: "\<forall>c. map_of (rc_fingerprints rc) [4] = Some (ce_fingerprint ?V c) \<longrightarrow> host_net (AddrV6 1) \<notin> set (pc_allowed_ips c)"
    "\<forall>c. map_of (rc_fingerprints rc) [6] = Some (ce_fingerprint ?V c) \<longrightarrow> host_net (AddrV4 0x0A000001) \<notin> set (pc_allowed_ips c)"
    using nets(3,4) by (auto simp: rc_def net_print_def net4_def net6_def split: if_splits)
  have cl: "rc_client rc = d" by (simp add: rc_def reconciler_new_def)
  have p: "last_with_key [4] (nm_peers swap_map) = Some (nm_peers swap_map ! 0)" "mp_tunnel_ip (nm_peers swap_map ! 0) = Some (AddrV6 1)"
    "last_with_key [6] (nm_peers swap_map) = Some (nm_peers swap_map ! 1)" "mp_tunnel_ip (nm_peers swap_map ! 1) = Some (AddrV4 0x0A000001)"
    by (simp_all add: swap_map_def)
  have n: "ipnet_key (host_net (AddrV4 0x0A000001)) \<in> pv_networks \<lparr>pv_endpoint = None, pv_relay = None, pv_keepalive = None, pv_networks = {ipnet_key net4}\<rparr>"
    "ipnet_key (host_net (AddrV6 1)) \<in> pv_networks \<lparr>pv_endpoint = None, pv_relay = None, pv_keepalive = None, pv_networks = {ipnet_key net6}\<rparr>"
    unfolding net4_def net6_def peer_view.simps by (rule singletonI)+
  have ne: "[4] \<noteq> [6 :: u8]" by simp
  note swap = swapped_addresses_not_applied [OF c k t ne p v(1) [folded cl] n(1) v(2) [folded cl] n(2) f, of 3]
  from swap have "\<exists>r rc' rng'. reconcile_network_map ?V 0 swap_map rc 3 = Ret (r, rc', rng') \<and> r \<noteq> Inr True" by blast
  moreover have "dom (installed (rc_client rc)) = {[4], [6]}" unfolding cl by (rule dom)
  ultimately show ?thesis by metis
qed

end
