(* ===== verification/Command_Channel.thy ===== *)
theory Command_Channel
  imports Control_Plane
begin

text \<open>
  The queue between a command client and its device (\<^verbatim>\<open>CommandChannel\<close>, \<^verbatim>\<open>execute\<close>, \<^verbatim>\<open>receive_command\<close> and
  \<^verbatim>\<open>try_send_command_completion\<close> of \<^verbatim>\<open>device.rs\<close>), with callers and event loop as interleaved steps.
  The two mailboxes (a \<^verbatim>\<open>watch\<close> channel of tokio or a \<^verbatim>\<open>Signal\<close> of embassy) are arguments. As long as
  no caller gives up while it waits, the steps refine one in which a command and its answer are one
  step, which is how the other theories use \<^const>\<open>execute\<close>.
\<close>

section \<open>Mailboxes\<close>

text \<open>
  A mailbox holds at most the last value sent: \<open>mb_ready\<close> is the value a receiver has not seen,
  \<open>mb_seen\<close> marks it (\<^verbatim>\<open>borrow_and_update\<close>) or takes it (\<^verbatim>\<open>try_take\<close>).
\<close>

record ('m, 'v) mailbox =
  mb_send :: "'v \<Rightarrow> 'm \<Rightarrow> 'm"
  mb_ready :: "'m \<Rightarrow> 'v option"
  mb_seen :: "'m \<Rightarrow> 'm"

definition mailbox_ok :: "('m, 'v) mailbox \<Rightarrow> bool" where
  "mailbox_ok M \<longleftrightarrow> (\<forall>v m. mb_ready M (mb_send M v m) = Some v) \<and> (\<forall>m. mb_ready M (mb_seen M m) = None)"

lemma mailbox_okD [simp]:
  "mailbox_ok M \<Longrightarrow> mb_ready M (mb_send M v m) = Some v" "mailbox_ok M \<Longrightarrow> mb_ready M (mb_seen M m) = None"
  by (auto simp: mailbox_ok_def)

type_synonym completion = "DeviceError + CommandOutput"

record ('s, 'c) ports =
  po_submissions :: "('s, Command) mailbox"
  po_completions :: "('c, completion) mailbox"

definition ports_ok :: "('s, 'c) ports \<Rightarrow> bool" where
  "ports_ok P \<longleftrightarrow> mailbox_ok (po_submissions P) \<and> mailbox_ok (po_completions P)"

lemma ports_okD [dest]: "ports_ok P \<Longrightarrow> mailbox_ok (po_submissions P)" "ports_ok P \<Longrightarrow> mailbox_ok (po_completions P)"
  by (simp_all add: ports_ok_def)

section \<open>The channel\<close>

text \<open>
  The holder of the client's lock with its command, the command the event loop works on, and what
  the callers were answered, in the order the lock was released. A \<^verbatim>\<open>watch\<close> channel is closed when the
  device is dropped and orphaned when the last client is; a static \<^verbatim>\<open>Signal\<close> never is.
\<close>

record ('p, 's, 'c) channel =
  ch_submissions :: 's
  ch_completions :: 'c
  ch_holder :: "(nat \<times> Command) option"
  ch_busy :: "Command option"
  ch_device :: "'p device"
  ch_closed :: bool
  ch_orphaned :: bool
  ch_answers :: "(nat \<times> Command \<times> completion) list"

definition submit :: "('s, 'c) ports \<Rightarrow> Command \<Rightarrow> ('p, 's, 'c) channel \<Rightarrow> (DeviceError + unit) \<times> ('p, 's, 'c) channel" where
  "submit P command s = (if ch_closed s then (Inl Io, s)
     else (Inr (), s\<lparr>ch_submissions := mb_send (po_submissions P) command (ch_submissions s)\<rparr>))"

definition discard_current :: "('s, 'c) ports \<Rightarrow> ('p, 's, 'c) channel \<Rightarrow> ('p, 's, 'c) channel" where
  "discard_current P s = s\<lparr>ch_completions := mb_seen (po_completions P) (ch_completions s)\<rparr>"

text \<open>The future of \<open>wait_next\<close> is ready when there is a completion, or when none can come.\<close>

definition wait_next :: "('s, 'c) ports \<Rightarrow> ('p, 's, 'c) channel \<Rightarrow> (completion \<times> ('p, 's, 'c) channel) option" where
  "wait_next P s = (case mb_ready (po_completions P) (ch_completions s) of
     Some r \<Rightarrow> Some (r, s\<lparr>ch_completions := mb_seen (po_completions P) (ch_completions s)\<rparr>)
   | None \<Rightarrow> if ch_closed s then Some (Inl Io, s) else None)"

definition receive_command :: "('s, 'c) ports \<Rightarrow> ('p, 's, 'c) channel \<Rightarrow> (Command \<times> ('p, 's, 'c) channel) option" where
  "receive_command P s = (case mb_ready (po_submissions P) (ch_submissions s) of
     Some command \<Rightarrow> Some (command, s\<lparr>ch_submissions := mb_seen (po_submissions P) (ch_submissions s)\<rparr>)
   | None \<Rightarrow> if ch_orphaned s then Some (NoCommand, s) else None)"

definition try_send_command_completion :: "('s, 'c) ports \<Rightarrow> completion \<Rightarrow> ('p, 's, 'c) channel \<Rightarrow> ('p, 's, 'c) channel" where
  "try_send_command_completion P r s = (if ch_orphaned s then s
     else s\<lparr>ch_completions := mb_send (po_completions P) r (ch_completions s)\<rparr>)"

text \<open>The two halves of \<open>execute\<close>, before and after the wait, and the command arm of \<open>run\<close>.\<close>

definition answer :: "nat \<Rightarrow> Command \<Rightarrow> completion \<Rightarrow> ('p, 's, 'c) channel \<Rightarrow> ('p, 's, 'c) channel" where
  "answer i command r s = s\<lparr>ch_holder := None, ch_answers := ch_answers s @ [(i, command, r)]\<rparr>"

definition execute_submit :: "('s, 'c) ports \<Rightarrow> nat \<Rightarrow> Command \<Rightarrow> ('p, 's, 'c) channel \<Rightarrow> ('p, 's, 'c) channel" where
  "execute_submit P i command s = (case submit P command (discard_current P s) of
     (Inl e, s') \<Rightarrow> answer i command (Inl e) s'
   | (Inr _, s') \<Rightarrow> s'\<lparr>ch_holder := Some (i, command)\<rparr>)"

definition execute_wait :: "('s, 'c) ports \<Rightarrow> ('p, 's, 'c) channel \<Rightarrow> ('p, 's, 'c) channel option" where
  "execute_wait P s = (case ch_holder s of
     None \<Rightarrow> None
   | Some (i, command) \<Rightarrow> map_option (\<lambda>(r, s'). answer i command r s') (wait_next P s))"

definition loop_receive :: "('s, 'c) ports \<Rightarrow> ('p, 's, 'c) channel \<Rightarrow> ('p, 's, 'c) channel option" where
  "loop_receive P s = map_option (\<lambda>(command, s'). s'\<lparr>ch_busy := Some command\<rparr>) (receive_command P s)"

definition loop_complete :: "'p env \<Rightarrow> instant \<Rightarrow> ('s, 'c) ports \<Rightarrow> ('p, 's, 'c) channel \<Rightarrow> ('p, 's, 'c) channel run" where
  "loop_complete E now P s = (case ch_busy s of
     None \<Rightarrow> Ret s
   | Some command \<Rightarrow> run_bind (execute E now command (ch_device s)) (\<lambda>(r, d').
       Ret (try_send_command_completion P r (s\<lparr>ch_busy := None, ch_device := d'\<rparr>))))"

section \<open>Interleavings\<close>

inductive channel_step :: "'p env \<Rightarrow> ('s, 'c) ports \<Rightarrow> ('p, 's, 'c) channel \<Rightarrow> ('p, 's, 'c) channel \<Rightarrow> bool" for E P where
  enter: "ch_holder s = None \<Longrightarrow> \<not> ch_orphaned s \<Longrightarrow> channel_step E P s (execute_submit P i command s)"
| finish: "execute_wait P s = Some s' \<Longrightarrow> channel_step E P s s'"
| receive: "\<not> ch_closed s \<Longrightarrow> ch_busy s = None \<Longrightarrow> loop_receive P s = Some s' \<Longrightarrow> channel_step E P s s'"
| complete: "\<not> ch_closed s \<Longrightarrow> ch_busy s \<noteq> None \<Longrightarrow> loop_complete E now P s = Ret s' \<Longrightarrow> channel_step E P s s'"
| event: "\<not> ch_closed s \<Longrightarrow> ch_busy s = None \<Longrightarrow> \<not> is_command ev \<Longrightarrow> device_step E now eph ev (ch_device s) = Ret (out, d) \<Longrightarrow>
    channel_step E P s (s\<lparr>ch_device := d\<rparr>)"
| drop_device: "channel_step E P s (s\<lparr>ch_closed := True, ch_busy := None\<rparr>)"
| drop_client: "ch_holder s = None \<Longrightarrow> channel_step E P s (s\<lparr>ch_orphaned := True\<rparr>)"

text \<open>A caller may also drop its future while it waits: the lock is released and the mailboxes stay as they are.\<close>

inductive cancel_step :: "'p env \<Rightarrow> ('s, 'c) ports \<Rightarrow> ('p, 's, 'c) channel \<Rightarrow> ('p, 's, 'c) channel \<Rightarrow> bool" for E P where
  step: "channel_step E P s s' \<Longrightarrow> cancel_step E P s s'"
| abandon: "ch_holder s \<noteq> None \<Longrightarrow> cancel_step E P s (s\<lparr>ch_holder := None\<rparr>)"

definition channel_new :: "'s \<Rightarrow> 'c \<Rightarrow> 'p device \<Rightarrow> ('p, 's, 'c) channel" where
  "channel_new sub com d = \<lparr>ch_submissions = sub, ch_completions = com, ch_holder = None, ch_busy = None, ch_device = d,
     ch_closed = False, ch_orphaned = False, ch_answers = []\<rparr>"

section \<open>Commands as one step\<close>

record 'p atomic =
  at_device :: "'p device"
  at_gone :: bool
  at_answers :: "(nat \<times> Command \<times> completion) list"

inductive atomic_step :: "'p env \<Rightarrow> 'p atomic \<Rightarrow> 'p atomic \<Rightarrow> bool" for E where
  exec: "\<not> at_gone a \<Longrightarrow> execute E now command (at_device a) = Ret (r, d) \<Longrightarrow>
    atomic_step E a (a\<lparr>at_device := d, at_answers := at_answers a @ [(i, command, r)]\<rparr>)"
| other: "\<not> at_gone a \<Longrightarrow> \<not> is_command ev \<Longrightarrow> device_step E now eph ev (at_device a) = Ret (out, d) \<Longrightarrow>
    atomic_step E a (a\<lparr>at_device := d\<rparr>)"
| leave: "atomic_step E a (a\<lparr>at_gone := True\<rparr>)"
| refuse: "at_gone a \<Longrightarrow> atomic_step E a (a\<lparr>at_answers := at_answers a @ [(i, command, Inl Io)]\<rparr>)"

definition pending :: "('s, 'c) ports \<Rightarrow> ('p, 's, 'c) channel \<Rightarrow> (nat \<times> Command \<times> completion) list" where
  "pending P s = (case ch_holder s of
     None \<Rightarrow> []
   | Some (i, command) \<Rightarrow> (case mb_ready (po_completions P) (ch_completions s) of None \<Rightarrow> [] | Some r \<Rightarrow> [(i, command, r)]))"

definition channel_abs :: "('s, 'c) ports \<Rightarrow> ('p, 's, 'c) channel \<Rightarrow> 'p atomic" where
  "channel_abs P s = \<lparr>at_device = ch_device s, at_gone = ch_closed s, at_answers = ch_answers s @ pending P s\<rparr>"

text \<open>Where the command of the holder is: submitted, with the event loop, or completed.\<close>

definition in_flight :: "('s, 'c) ports \<Rightarrow> Command \<Rightarrow> ('p, 's, 'c) channel \<Rightarrow> bool" where
  "in_flight P c s \<longleftrightarrow> (let sub = mb_ready (po_submissions P) (ch_submissions s); com = mb_ready (po_completions P) (ch_completions s) in
     sub = Some c \<and> ch_busy s = None \<and> com = None \<or> sub = None \<and> ch_busy s = Some c \<and> com = None \<or>
     sub = None \<and> ch_busy s = None \<and> com \<noteq> None)"

definition channel_inv :: "('s, 'c) ports \<Rightarrow> ('p, 's, 'c) channel \<Rightarrow> bool" where
  "channel_inv P s \<longleftrightarrow> (case ch_holder s of
     Some (i, c) \<Rightarrow> \<not> ch_orphaned s \<and> (\<not> ch_closed s \<longrightarrow> in_flight P c s)
   | None \<Rightarrow> \<not> ch_closed s \<longrightarrow> mb_ready (po_submissions P) (ch_submissions s) = None \<and>
       (ch_busy s = None \<or> ch_busy s = Some NoCommand \<and> ch_orphaned s))"

lemmas channel_ops = submit_def discard_current_def wait_next_def receive_command_def try_send_command_completion_def answer_def
  execute_submit_def execute_wait_def loop_receive_def loop_complete_def

lemma no_command: "execute E now NoCommand d = Ret (Inr NoOutput, d)"
  by (simp add: execute_def device_step_def handle_peer_update_def)

lemma channel_step_inv: "channel_step E P s s' \<Longrightarrow> ports_ok P \<Longrightarrow> channel_inv P s \<Longrightarrow> channel_inv P s'"
proof (induction rule: channel_step.induct)
  case (complete s now s')
  then show ?case
    by (cases "execute E now (the (ch_busy s)) (ch_device s)")
      (auto simp: channel_ops channel_inv_def in_flight_def Let_def split: option.splits if_splits)
qed (auto simp: channel_ops channel_inv_def in_flight_def Let_def split: option.splits if_splits)

lemma atomic_execI: "\<not> at_gone a \<Longrightarrow> execute E now c (at_device a) = Ret (r, at_device b) \<Longrightarrow> \<not> at_gone b \<Longrightarrow>
    at_answers b = at_answers a @ [(i, c, r)] \<Longrightarrow> atomic_step E a b"
  using exec [of a E now c r "at_device b" i] by (cases a, cases b) simp

lemma atomic_refuseI: "at_gone a \<Longrightarrow> at_gone b \<Longrightarrow> at_device b = at_device a \<Longrightarrow>
    at_answers b = at_answers a @ [(i, c, Inl Io)] \<Longrightarrow> atomic_step E a b"
  using refuse [of a E i c] by (cases a, cases b) simp

lemma finish_atomic:
  assumes "execute_wait P s = Some s'"
  shows "channel_abs P s' = channel_abs P s \<or> atomic_step E (channel_abs P s) (channel_abs P s')"
proof (cases "pending P s")
  case Nil
  with assms obtain i c where "ch_closed s" "s' = answer i c (Inl Io) s"
    by (auto simp: channel_ops pending_def split: option.splits if_splits)
  with Nil show ?thesis by (intro disjI2 atomic_refuseI [where i = i and c = c]) (simp_all add: channel_abs_def pending_def answer_def)
next
  case Cons
  with assms show ?thesis by (auto simp: channel_ops channel_abs_def pending_def split: option.splits)
qed

lemma complete_atomic:
  assumes "\<not> ch_closed s" "ch_busy s \<noteq> None" "loop_complete E now P s = Ret s'" "ports_ok P" "channel_inv P s"
  shows "channel_abs P s' = channel_abs P s \<or> atomic_step E (channel_abs P s) (channel_abs P s')"
proof (cases "ch_holder s")
  case None
  with assms have "ch_busy s = Some NoCommand" "ch_orphaned s" by (auto simp: channel_inv_def)
  with assms(3) None show ?thesis by (auto simp: loop_complete_def no_command channel_abs_def pending_def try_send_command_completion_def)
next
  case (Some h)
  obtain i c where h: "h = (i, c)" by force
  with Some assms(1,2,5) have i: "ch_busy s = Some c" "\<not> ch_orphaned s" "mb_ready (po_completions P) (ch_completions s) = None"
    by (auto simp: channel_inv_def in_flight_def Let_def)
  with assms(3) obtain r d where e: "execute E now c (ch_device s) = Ret (r, d)"
    by (cases "execute E now c (ch_device s)") (auto simp: loop_complete_def)
  with assms(3) i have s': "s' = try_send_command_completion P r (s\<lparr>ch_busy := None, ch_device := d\<rparr>)" by (simp add: loop_complete_def)
  show ?thesis using e i Some h assms(1) ports_okD(2) [OF assms(4)]
    by (intro disjI2 atomic_execI [where now = now and c = c and r = r and i = i])
      (simp_all add: s' channel_abs_def pending_def try_send_command_completion_def)
qed

lemma channel_step_atomic:
  "channel_step E P s s' \<Longrightarrow> ports_ok P \<Longrightarrow> channel_inv P s \<Longrightarrow>
    channel_abs P s' = channel_abs P s \<or> atomic_step E (channel_abs P s) (channel_abs P s')"
proof (induction rule: channel_step.induct)
  case (enter s i c)
  show ?case
  proof (cases "ch_closed s")
    case True
    with enter show ?thesis
      by (intro disjI2 atomic_refuseI [where i = i and c = c]) (simp_all add: channel_ops channel_abs_def pending_def)
  next
    case False
    with enter ports_okD(2) [OF enter(3)] show ?thesis by (simp add: channel_ops channel_abs_def pending_def)
  qed
next
  case (finish s s')
  then show ?case by (intro finish_atomic)
next
  case (receive s s')
  then show ?case by (auto simp: channel_ops channel_abs_def pending_def split: option.splits if_splits)
next
  case (complete s now s')
  then show ?case by (intro complete_atomic)
next
  case (event s ev now eph out d)
  then have "atomic_step E (channel_abs P s) (channel_abs P s\<lparr>at_device := d\<rparr>)" by (intro other) (simp_all add: channel_abs_def)
  moreover have "channel_abs P s\<lparr>at_device := d\<rparr> = channel_abs P (s\<lparr>ch_device := d\<rparr>)"
    by (simp add: channel_abs_def pending_def split: option.split)
  ultimately show ?case by simp
next
  case (drop_device s)
  have "atomic_step E (channel_abs P s) (channel_abs P s\<lparr>at_gone := True\<rparr>)" by (rule leave)
  moreover have "channel_abs P s\<lparr>at_gone := True\<rparr> = channel_abs P (s\<lparr>ch_closed := True, ch_busy := None\<rparr>)"
    by (simp add: channel_abs_def pending_def split: option.split)
  ultimately show ?case by simp
next
  case (drop_client s)
  then show ?case by (simp add: channel_abs_def pending_def)
qed

lemma channel_new_inv: "mb_ready (po_submissions P) sub = None \<Longrightarrow> channel_inv P (channel_new sub com d)"
  by (simp add: channel_inv_def channel_new_def)

lemma channel_reach:
  assumes "(channel_step E P)\<^sup>*\<^sup>* s t" "ports_ok P" "channel_inv P s"
  shows "channel_inv P t \<and> (atomic_step E)\<^sup>*\<^sup>* (channel_abs P s) (channel_abs P t)"
  using assms
proof (induction rule: rtranclp_induct)
  case (step t u)
  then have "channel_inv P t" "(atomic_step E)\<^sup>*\<^sup>* (channel_abs P s) (channel_abs P t)" by simp_all
  with step.hyps(2) step.prems(1) show ?case
    using channel_step_inv [of E P t u] channel_step_atomic [of E P t u] rtranclp.rtrancl_into_rtrancl by metis
qed simp

section \<open>A mailbox with one slot\<close>

definition slot :: "('v option, 'v) mailbox" where
  "slot = \<lparr>mb_send = \<lambda>v _. Some v, mb_ready = \<lambda>m. m, mb_seen = \<lambda>_. None\<rparr>"

definition slot_ports :: "(Command option, completion option) ports" where
  "slot_ports = \<lparr>po_submissions = slot, po_completions = slot\<rparr>"

definition sample_channel :: "(heap_pool, Command option, completion option) channel" where
  "sample_channel = channel_new None None (sample_device peer_state_new)"

lemma slot_ports_ok: "ports_ok slot_ports" "mb_ready (po_submissions slot_ports) None = None"
  by (simp_all add: ports_ok_def mailbox_ok_def slot_ports_def slot_def)

lemma sample_entered: "(channel_step sample_env slot_ports)\<^sup>*\<^sup>* sample_channel (execute_submit slot_ports 1 List sample_channel)"
  by (intro r_into_rtranclp enter) (simp_all add: sample_channel_def channel_new_def)

section \<open>From a submission to its answer\<close>

text \<open>The steps that serve the caller that waits: the event loop takes a command or completes it, the caller takes the
  completion. No caller enters, the device and the clients stay, and no packet comes between.\<close>

inductive serve_step :: "'p env \<Rightarrow> ('s, 'c) ports \<Rightarrow> ('p, 's, 'c) channel \<Rightarrow> ('p, 's, 'c) channel \<Rightarrow> bool" for E P where
  finish: "execute_wait P s = Some s' \<Longrightarrow> serve_step E P s s'"
| receive: "\<not> ch_closed s \<Longrightarrow> ch_busy s = None \<Longrightarrow> loop_receive P s = Some s' \<Longrightarrow> serve_step E P s s'"
| complete: "\<not> ch_closed s \<Longrightarrow> ch_busy s \<noteq> None \<Longrightarrow> loop_complete E now P s = Ret s' \<Longrightarrow> serve_step E P s s'"

text \<open>The reply a waiting caller is owed: the completion that is there, the I/O error when the device is gone, or what its
  command does on the device.\<close>

definition reply_of :: "'p env \<Rightarrow> ('s, 'c) ports \<Rightarrow> Command \<Rightarrow> ('p, 's, 'c) channel \<Rightarrow> completion \<Rightarrow> 'p device \<Rightarrow> bool" where
  "reply_of E P c t r d \<longleftrightarrow> (case mb_ready (po_completions P) (ch_completions t) of
     Some r' \<Rightarrow> r = r' \<and> d = ch_device t
   | None \<Rightarrow> if ch_closed t then r = Inl Io \<and> d = ch_device t else \<exists>now. execute E now c (ch_device t) = Ret (r, d))"

text \<open>How many steps are left: to receive, to complete, to finish.\<close>

definition waits :: "nat \<Rightarrow> Command \<Rightarrow> ('p, 's, 'c) channel \<Rightarrow> ('p, 's, 'c) channel \<Rightarrow> bool" where
  "waits i c t u \<longleftrightarrow> ch_holder u = Some (i, c) \<and> ch_answers u = ch_answers t \<and> ch_closed u = ch_closed t \<and> \<not> ch_orphaned u"

fun steps_left :: "'p env \<Rightarrow> ('s, 'c) ports \<Rightarrow> nat \<Rightarrow> Command \<Rightarrow> ('p, 's, 'c) channel \<Rightarrow> nat \<Rightarrow> ('p, 's, 'c) channel \<Rightarrow> bool" where
  "steps_left E P i c t 0 u \<longleftrightarrow> (\<exists>r. ch_holder u = None \<and> ch_answers u = ch_answers t @ [(i, c, r)] \<and> reply_of E P c t r (ch_device u)) \<and>
     (ch_closed u \<or> mb_ready (po_submissions P) (ch_submissions u) = None \<and> ch_busy u = None \<and> \<not> ch_orphaned u)"
| "steps_left E P i c t (Suc 0) u \<longleftrightarrow> waits i c t u \<and>
     (\<exists>r. reply_of E P c t r (ch_device u) \<and> (mb_ready (po_completions P) (ch_completions u) = Some r \<or>
        mb_ready (po_completions P) (ch_completions u) = None \<and> ch_closed u \<and> r = Inl Io)) \<and>
     (ch_closed u \<or> mb_ready (po_submissions P) (ch_submissions u) = None \<and> ch_busy u = None)"
| "steps_left E P i c t (Suc (Suc n)) u \<longleftrightarrow> waits i c t u \<and> \<not> ch_closed u \<and> n \<le> 1 \<and> ch_device u = ch_device t \<and>
     mb_ready (po_completions P) (ch_completions t) = None \<and> mb_ready (po_completions P) (ch_completions u) = None \<and>
     mb_ready (po_submissions P) (ch_submissions u) = (if n = 0 then None else Some c) \<and> ch_busy u = (if n = 0 then Some c else None)"

lemma steps_left_start:
  assumes "channel_inv P t" "ch_holder t = Some (i, c)"
  shows "\<exists>k \<in> {1..3}. steps_left E P i c t k t"
proof -
  have w: "waits i c t t" using assms by (simp add: waits_def channel_inv_def)
  consider r where "mb_ready (po_completions P) (ch_completions t) = Some r" "ch_closed t \<or> in_flight P c t"
    | "mb_ready (po_completions P) (ch_completions t) = None" "ch_closed t"
    | "mb_ready (po_completions P) (ch_completions t) = None" "\<not> ch_closed t" "in_flight P c t"
    using assms by (cases "mb_ready (po_completions P) (ch_completions t)"; cases "ch_closed t") (auto simp: channel_inv_def)
  then show ?thesis
  proof cases
    case 1
    then have "steps_left E P i c t 1 t" using w by (auto simp: reply_of_def in_flight_def Let_def)
    then show ?thesis by (intro bexI [of _ 1]) simp_all
  next
    case 2
    then have "steps_left E P i c t 1 t" using w by (auto simp: reply_of_def)
    then show ?thesis by (intro bexI [of _ 1]) simp_all
  next
    case 3
    then have "steps_left E P i c t 2 t \<or> steps_left E P i c t 3 t"
      using w by (auto simp: in_flight_def Let_def numeral_2_eq_2 numeral_3_eq_3)
    then show ?thesis
    proof
      assume "steps_left E P i c t 2 t"
      then show ?thesis by (intro bexI [of _ 2]) simp_all
    next
      assume "steps_left E P i c t 3 t"
      then show ?thesis by (intro bexI [of _ 3]) simp_all
    qed
  qed
qed

text \<open>Every step brings the answer nearer, and there is one until it is there.\<close>

lemma steps_left_next:
  assumes "ports_ok P" "steps_left E P i c t k u" "serve_step E P u v"
  shows "\<exists>j. k = Suc j \<and> steps_left E P i c t j v"
proof -
  note ports = ports_okD [OF assms(1)]
  consider "k = 0" | "k = Suc 0" | "k = Suc (Suc 0)" | n where "k = Suc (Suc (Suc n))" by (metis not0_implies_Suc)
  then show ?thesis
  proof cases
    case 1
    with assms(2,3) show ?thesis by (auto simp: execute_wait_def loop_receive_def receive_command_def elim!: serve_step.cases)
  next
    case 2
    with assms(2,3) ports show ?thesis
      by (auto simp: waits_def execute_wait_def wait_next_def answer_def loop_receive_def receive_command_def elim!: serve_step.cases split: option.splits if_splits)
  next
    case 3
    with assms(2) have u: "waits i c t u" "\<not> ch_closed u" "ch_device u = ch_device t" "mb_ready (po_completions P) (ch_completions t) = None"
      "mb_ready (po_completions P) (ch_completions u) = None" "mb_ready (po_submissions P) (ch_submissions u) = None" "ch_busy u = Some c" by simp_all
    from assms(3) u obtain now where v: "loop_complete E now P u = Ret v"
      by (auto simp: waits_def execute_wait_def wait_next_def elim!: serve_step.cases)
    with u obtain r d where r: "execute E now c (ch_device t) = Ret (r, d)" "v = try_send_command_completion P r (u\<lparr>ch_busy := None, ch_device := d\<rparr>)"
      by (cases "execute E now c (ch_device t)") (auto simp: loop_complete_def)
    have "ch_closed t = ch_closed u" "\<not> ch_orphaned u" using u(1) by (simp_all add: waits_def)
    with r u ports have "steps_left E P i c t (Suc 0) v" by (auto simp: waits_def try_send_command_completion_def reply_of_def)
    with 3 show ?thesis by blast
  next
    case 4
    with assms(2) have u: "waits i c t u" "\<not> ch_closed u" "n = 0" "ch_device u = ch_device t" "mb_ready (po_completions P) (ch_completions t) = None"
      "mb_ready (po_completions P) (ch_completions u) = None" "mb_ready (po_submissions P) (ch_submissions u) = Some c" "ch_busy u = None" by simp_all
    from assms(3) u have "loop_receive P u = Some v"
      by (auto simp: waits_def execute_wait_def wait_next_def elim!: serve_step.cases)
    with u ports have "steps_left E P i c t (Suc (Suc 0)) v" by (auto simp: waits_def loop_receive_def receive_command_def)
    with 4 u(3) show ?thesis by blast
  qed
qed

lemma steps_left_serves:
  assumes "steps_left E P i c t (Suc k) u" "can_take E (draws c + n) (ch_device t)" "command_wf c"
  shows "ch_holder u = Some (i, c)" "\<exists>v. serve_step E P u v"
proof -
  show "ch_holder u = Some (i, c)" using assms(1) by (cases k) (simp_all add: waits_def)
  consider "k = 0" | "k = Suc 0" | j where "k = Suc (Suc j)" by (metis not0_implies_Suc)
  then show "\<exists>v. serve_step E P u v"
  proof cases
    case 1
    with assms(1) obtain v where "execute_wait P u = Some v" by (auto simp: waits_def execute_wait_def wait_next_def)
    then show ?thesis using serve_step.finish by blast
  next
    case 2
    from execute_step [OF assms(2,3), of 0] obtain r d where "execute E 0 c (ch_device t) = Ret (r, d)" by blast
    with 2 assms(1) obtain v where "loop_complete E 0 P u = Ret v" by (auto simp: loop_complete_def)
    with 2 assms(1) show ?thesis using serve_step.complete [of u E 0 P v] by auto
  next
    case 3
    with assms(1) obtain v where "loop_receive P u = Some v" by (auto simp: loop_receive_def receive_command_def)
    with 3 assms(1) show ?thesis using serve_step.receive [of u P v E] by auto
  qed
qed

lemma steps_left_run:
  assumes "ports_ok P" "(serve_step E P ^^ j) t u" "steps_left E P i c t k t"
  shows "j \<le> k \<and> steps_left E P i c t (k - j) u"
  using assms(2)
proof (induction j arbitrary: u)
  case (Suc j)
  then obtain v where v: "(serve_step E P ^^ j) t v" "serve_step E P v u" by auto
  from steps_left_next [OF assms(1) _ v(2)] Suc.IH [OF v(1)] obtain l where "k - j = Suc l" "steps_left E P i c t l u" by blast
  moreover from this(1) have "Suc j \<le> k" "k - Suc j = l" by simp_all
  ultimately show ?case by simp
qed (use assms(3) in simp)

lemma serve_channel: "serve_step E P s s' \<Longrightarrow> channel_step E P s s'"
  by (cases rule: serve_step.cases) (auto intro: channel_step.intros)

text \<open>A list of the peers of a new device takes three steps.\<close>

lemma sample_served:
  "\<exists>t. (serve_step sample_env slot_ports ^^ 3) (execute_submit slot_ports 1 List sample_channel) t \<and>
    ch_holder t = None \<and> ch_answers t = [(1, List, Inr (KeysOutput []))]"
proof -
  let ?S = "serve_step sample_env slot_ports" and ?s1 = "execute_submit slot_ports 1 List sample_channel"
  have x: "execute sample_env 0 List (sample_device peer_state_new) = Ret (Inr (KeysOutput []), sample_device peer_state_new)"
    by (simp add: execute_def device_step_def handle_peer_update_def peer_keys_def sample_device_def peer_state_new_def)
  let ?s2 = "the (loop_receive slot_ports ?s1)" and ?com = "\<lambda>s. try_send_command_completion slot_ports (Inr (KeysOutput [])) (s\<lparr>ch_busy := None\<rparr>)"
  have s2: "loop_receive slot_ports ?s1 = Some ?s2" "ch_busy ?s2 = Some List" "\<not> ch_closed ?s2" "ch_device ?s2 = sample_device peer_state_new"
    by (simp_all add: channel_ops sample_channel_def channel_new_def slot_ports_def slot_def)
  have s3: "loop_complete sample_env 0 slot_ports ?s2 = Ret (?com ?s2)"
    using s2 x by (cases ?s2) (simp add: loop_complete_def try_send_command_completion_def)
  obtain t where t: "execute_wait slot_ports (?com ?s2) = Some t" "ch_holder t = None" "ch_answers t = [(1, List, Inr (KeysOutput []))]"
    by (simp add: channel_ops sample_channel_def channel_new_def slot_ports_def slot_def)
  have "?S ?s1 ?s2" using s2(1) by (intro serve_step.receive) (simp_all add: channel_ops sample_channel_def channel_new_def)
  moreover have "?S ?s2 (?com ?s2)" using s2 s3 by (intro serve_step.complete) simp_all
  moreover have "?S (?com ?s2) t" using t(1) by (intro serve_step.finish)
  ultimately have "(?S ^^ 3) ?s1 t" by (auto simp: numeral_3_eq_3 OO_def)
  with t show ?thesis by blast
qed

lemma sample_answered:
  "\<exists>t. (channel_step sample_env slot_ports)\<^sup>*\<^sup>* sample_channel t \<and> ch_holder t = None \<and> ch_answers t = [(1, List, Inr (KeysOutput []))]"
proof -
  obtain t where t: "(serve_step sample_env slot_ports ^^ 3) (execute_submit slot_ports 1 List sample_channel) t"
    "ch_holder t = None" "ch_answers t = [(1, List, Inr (KeysOutput []))]" using sample_served by blast
  have "(serve_step sample_env slot_ports)\<^sup>*\<^sup>* (execute_submit slot_ports 1 List sample_channel) t" using t(1) by (rule relpowp_imp_rtranclp)
  then have "(channel_step sample_env slot_ports)\<^sup>*\<^sup>* (execute_submit slot_ports 1 List sample_channel) t"
    by (rule rtranclp_mono [THEN predicate2D, rotated]) (auto intro: serve_channel)
  with sample_entered t(2,3) show ?thesis using rtranclp_trans by metis
qed

section \<open>Properties\<close>

text \<open>C12. As long as no caller gives up while it waits, callers and event loop behave, whatever their
  interleaving, as if a command and its answer were one step of the device: every answer is that of
  the caller's own command, executed once, and the answers come in the order of the executions; when
  the device is gone, the answer is the I/O error.\<close>

theorem execute_is_atomic:
  assumes "ports_ok P" "mb_ready (po_submissions P) sub = None" "(channel_step E P)\<^sup>*\<^sup>* (channel_new sub com d) t"
  shows "(atomic_step E)\<^sup>*\<^sup>* \<lparr>at_device = d, at_gone = False, at_answers = []\<rparr> (channel_abs P t)"
  using channel_reach [OF assms(3,1) channel_new_inv [OF assms(2)]] by (simp add: channel_abs_def pending_def channel_new_def)

theorem execute_is_atomic_witness:
  "\<exists>t. ch_answers t = [(1, List, Inr (KeysOutput []))] \<and> ch_holder t = None \<and>
    (atomic_step sample_env)\<^sup>*\<^sup>* \<lparr>at_device = sample_device peer_state_new, at_gone = False, at_answers = []\<rparr> (channel_abs slot_ports t)"
  using sample_answered execute_is_atomic [OF slot_ports_ok, of sample_env None "sample_device peer_state_new"]
  unfolding sample_channel_def by blast

text \<open>C30. A caller that waits is answered, and with what it is owed: whatever happened before, the steps of the event loop
  and of the caller, at most three, cannot stop before the caller has its answer, whichever of them
  comes next. The answer is the completion of its command when that is there, the I/O error when
  the device is gone, and otherwise the result of its command on the device as it was, which is then
  as the command leaves it. No submission and no completion is lost.\<close>

theorem execute_is_answered:
  assumes "ports_ok P" "mb_ready (po_submissions P) sub = None" "(channel_step E P)\<^sup>*\<^sup>* (channel_new sub com d) t"
    and "ch_holder t = Some (i, c)" "can_take E (draws c + n) (ch_device t)" "command_wf c"
    and "(serve_step E P ^^ k) t u"
  shows "k \<le> 3 \<and> (if ch_holder u = Some (i, c) then \<exists>v. serve_step E P u v
    else ch_holder u = None \<and> (\<exists>r. ch_answers u = ch_answers t @ [(i, c, r)] \<and> reply_of E P c t r (ch_device u)))"
proof -
  have "channel_inv P t" using channel_reach [OF assms(3,1) channel_new_inv [OF assms(2)]] by simp
  from steps_left_start [OF this assms(4), of E] obtain l where l: "l \<le> 3" "steps_left E P i c t l t" by auto
  from steps_left_run [OF assms(1,7) l(2)] have k: "k \<le> l" "steps_left E P i c t (l - k) u" by simp_all
  show ?thesis
  proof (cases "l - k")
    case 0
    with k l(1) show ?thesis by auto
  next
    case (Suc j)
    from steps_left_serves [OF k(2) [unfolded Suc] assms(5,6)] k(1) l(1) show ?thesis by auto
  qed
qed

theorem execute_is_answered_witness:
  "\<exists>u r. (serve_step sample_env slot_ports ^^ 3) (execute_submit slot_ports 1 List sample_channel) u \<and> ch_holder u = None \<and>
    ch_answers u = [(1, List, r)] \<and> reply_of sample_env slot_ports List (execute_submit slot_ports 1 List sample_channel) r (ch_device u)"
proof -
  let ?t = "execute_submit slot_ports 1 List sample_channel"
  have t: "ch_holder ?t = Some (1, List)" "ch_answers ?t = []" "ch_device ?t = sample_device peer_state_new"
    by (simp_all add: sample_channel_def channel_new_def channel_ops)
  have "can_take sample_env (draws List + 0) (ch_device ?t)" "command_wf List" unfolding t(3) using empty_can_take [of 0] by simp_all
  note ans = execute_is_answered [OF slot_ports_ok sample_entered [unfolded sample_channel_def], folded sample_channel_def, OF t(1) this]
  obtain u where u: "(serve_step sample_env slot_ports ^^ 3) ?t u" "ch_holder u = None" using sample_served by blast
  from ans [OF u(1)] u t(2) show ?thesis by auto
qed

text \<open>C37. A caller that gives up after the event loop has taken its command leaves a completion behind
  that the next caller gets: \<open>discard_current\<close> runs before it is sent. Here an addition is answered
  with success by the removal before it, and the device has not added anything.\<close>

theorem abandoned_completion_misleads:
  assumes "ports_ok P" "can_take E n d"
  shows "\<exists>t. (cancel_step E P)\<^sup>*\<^sup>* (channel_new sub com d) t \<and> ch_holder t = None \<and> ch_answers t = [(2, Add c, Inr NoOutput)] \<and>
    installed (ch_device t) = (installed d)(k := None)"
proof -
  note ports = ports_okD [OF assms(1)]
  from execute_step [of E "Remove k" n d 0] assms(2) obtain d' where d': "execute E 0 (Remove k) d = Ret (Inr NoOutput, d')"
      "peers_view (dv_peers d') = (peers_view (dv_peers d))(k := None)" by (auto simp: command_spec_def)
  let ?s0 = "channel_new sub com d" and ?R = "(cancel_step E P)\<^sup>*\<^sup>*"
  define s1 where "s1 = execute_submit P 1 (Remove k) ?s0"
  define s2 where "s2 = the (loop_receive P s1)"
  define s4 where "s4 = execute_submit P 2 (Add c) (s2\<lparr>ch_holder := None\<rparr>)"
  have s2: "loop_receive P s1 = Some s2" "ch_holder s2 = Some (1, Remove k)" "ch_busy s2 = Some (Remove k)" "ch_device s2 = d"
      "\<not> ch_closed s2" "\<not> ch_orphaned s2" "ch_answers s2 = []"
    using ports by (simp_all add: s2_def s1_def channel_ops channel_new_def)
  have s4: "ch_holder s4 = Some (2, Add c)" "ch_busy s4 = Some (Remove k)" "ch_device s4 = d" "\<not> ch_closed s4" "\<not> ch_orphaned s4" "ch_answers s4 = []"
    using s2 by (simp_all add: s4_def channel_ops)
  define s5 where "s5 = try_send_command_completion P (Inr NoOutput) (s4\<lparr>ch_busy := None, ch_device := d'\<rparr>)"
  have s5: "loop_complete E 0 P s4 = Ret s5" using s4 d'(1) by (simp add: loop_complete_def s5_def)
  obtain t where t: "execute_wait P s5 = Some t" "ch_holder t = None" "ch_answers t = [(2, Add c, Inr NoOutput)]" "ch_device t = d'"
    using s4 ports by (simp add: s5_def execute_wait_def wait_next_def answer_def try_send_command_completion_def)
  have "?R ?s0 s1" unfolding s1_def by (intro r_into_rtranclp cancel_step.step channel_step.enter) (simp_all add: channel_new_def)
  also have "?R s1 s2" using s2(1) by (intro r_into_rtranclp cancel_step.step channel_step.receive) (simp_all add: s1_def channel_ops channel_new_def)
  also have "?R s2 (s2\<lparr>ch_holder := None\<rparr>)" using s2(2) by (intro r_into_rtranclp cancel_step.abandon) simp
  also have "?R (s2\<lparr>ch_holder := None\<rparr>) s4" unfolding s4_def using s2 by (intro r_into_rtranclp cancel_step.step channel_step.enter) simp_all
  also have "?R s4 s5" using s4 s5 by (intro r_into_rtranclp cancel_step.step channel_step.complete) simp_all
  also have "?R s5 t" using t(1) by (intro r_into_rtranclp cancel_step.step channel_step.finish)
  finally show ?thesis using t installed_upd(2) [OF d'(2)] by blast
qed

theorem abandoned_completion_misleads_witness:
  "\<exists>t. (cancel_step sample_env slot_ports)\<^sup>*\<^sup>* sample_channel t \<and> ch_answers t = [(2, Add sample_config, Inr NoOutput)] \<and>
    installed (ch_device t) = Map.empty"
proof -
  have "can_take sample_env (Suc 0) (sample_device peer_state_new)" by (rule empty_can_take) (simp add: PERIOD_def)
  from abandoned_completion_misleads [OF slot_ports_ok(1) this, of None None sample_config "[]"] show ?thesis
    unfolding sample_channel_def by (auto simp: fun_upd_idem)
qed

text \<open>Once the last client is dropped, the command arm of the loop is ready at once, forever, and changes nothing.\<close>

theorem orphaned_loop_spins:
  assumes "ch_orphaned s" "ch_busy s = None" "mb_ready (po_submissions P) (ch_submissions s) = None"
  shows "\<exists>s'. loop_receive P s = Some s' \<and> loop_complete E now P s' = Ret s"
  using assms by (cases s) (simp add: loop_receive_def receive_command_def loop_complete_def no_command try_send_command_completion_def)

end
