(* ===== verification/Address_Text.thy ===== *)
theory Address_Text
  imports Ipnet
begin

text \<open>
  The text forms of addresses: the printer and the parser of the standard library that the networks
  of \<^verbatim>\<open>ipnet.rs\<close>, the configuration and the directory URLs rely on. A printer is the list of pieces
  it writes, in order; a parser returns the value and what is left of its input, and leaves the
  input alone when it fails.
\<close>

section \<open>Digits\<close>

definition digit_char :: "nat \<Rightarrow> char" where
  "digit_char d = ''0123456789abcdef'' ! d"

definition to_digit :: "nat \<Rightarrow> char \<Rightarrow> nat option" where
  "to_digit radix c = (let n = of_char c :: nat;
     d = (if 48 \<le> n \<and> n \<le> 57 then Some (n - 48)
          else if 97 \<le> n \<and> n \<le> 102 then Some (n - 87)
          else if 65 \<le> n \<and> n \<le> 70 then Some (n - 55) else None) in
     case d of Some v \<Rightarrow> if v < radix then Some v else None | None \<Rightarrow> None)"

fun show_radix :: "nat \<Rightarrow> nat \<Rightarrow> string" where
  "show_radix radix n = (if radix \<le> 1 \<or> n < radix then [digit_char n] else show_radix radix (n div radix) @ [digit_char (n mod radix)])"

declare show_radix.simps [simp del]

section \<open>The parser\<close>

type_synonym 'a parser = "string \<Rightarrow> ('a \<times> string) option"

definition read_given_char :: "char \<Rightarrow> unit parser" where
  "read_given_char c s = (case s of x # rest \<Rightarrow> if x = c then Some ((), rest) else None | [] \<Rightarrow> None)"

definition read_separator :: "char \<Rightarrow> nat \<Rightarrow> 'a parser \<Rightarrow> 'a parser" where
  "read_separator sep index inner s = (if index > 0
     then (case read_given_char sep s of None \<Rightarrow> None | Some (_, rest) \<Rightarrow> inner rest)
     else inner s)"

text \<open>The digits of a number: the value, their count and the rest; too many digits are a failure.\<close>

fun read_digits :: "nat \<Rightarrow> nat \<Rightarrow> nat \<Rightarrow> nat \<Rightarrow> string \<Rightarrow> (nat \<times> nat \<times> string) option" where
  "read_digits radix max_digits result count [] = Some (result, count, [])"
| "read_digits radix max_digits result count (c # s) = (case to_digit radix c of
     None \<Rightarrow> Some (result, count, c # s)
   | Some d \<Rightarrow> if count + 1 > max_digits then None else read_digits radix max_digits (result * radix + d) (count + 1) s)"

definition read_number :: "nat \<Rightarrow> nat \<Rightarrow> bool \<Rightarrow> 'w::len word parser" where
  "read_number radix max_digits allow_zero_prefix s = (case read_digits radix max_digits 0 0 s of
     None \<Rightarrow> None
   | Some (result, count, rest) \<Rightarrow>
       if count = 0 then None
       else if \<not> allow_zero_prefix \<and> hd s = CHR ''0'' \<and> count > 1 then None
       else if result < 2 ^ LENGTH('w) then Some (of_nat result, rest) else None)"

fun read_octets :: "nat \<Rightarrow> nat \<Rightarrow> bytes parser" where
  "read_octets 0 i s = Some ([], s)"
| "read_octets (Suc k) i s = (case read_separator (CHR ''.'') i (read_number 10 3 False) s of
     None \<Rightarrow> None
   | Some (b, rest) \<Rightarrow> (case read_octets k (i + 1) rest of None \<Rightarrow> None | Some (bs, rest') \<Rightarrow> Some (b # bs, rest')))"

definition read_ipv4_addr :: "u32 parser" where
  "read_ipv4_addr s = (case read_octets 4 0 s of None \<Rightarrow> None | Some (bs, rest) \<Rightarrow> Some (from_be_bytes bs, rest))"

text \<open>Up to \<open>k\<close> groups, \<open>i\<close> already read; the flag tells that the last two came as an IPv4 address.\<close>

fun read_groups :: "nat \<Rightarrow> nat \<Rightarrow> string \<Rightarrow> u16 list \<times> bool \<times> string" where
  "read_groups 0 i s = ([], False, s)"
| "read_groups (Suc k) i s = (case (if k > 0 then read_separator (CHR '':'') i read_ipv4_addr s else None) of
     Some (a, rest) \<Rightarrow> (let b = to_be_bytes 4 a in ([from_be_bytes (take 2 b), from_be_bytes (drop 2 b)], True, rest))
   | None \<Rightarrow> (case read_separator (CHR '':'') i (read_number 16 4 True) s of
       Some (g, rest) \<Rightarrow> (case read_groups k (i + 1) rest of (gs, v4, rest') \<Rightarrow> (g # gs, v4, rest'))
     | None \<Rightarrow> ([], False, s)))"

definition from_segments :: "u16 list \<Rightarrow> u128" where
  "from_segments gs = from_be_bytes (concat (map (to_be_bytes 2) gs))"

definition read_ipv6_addr :: "u128 parser" where
  "read_ipv6_addr s = (case read_groups 8 0 s of (front, v4, rest) \<Rightarrow>
     if length front = 8 then Some (from_segments front, rest)
     else if v4 then None
     else (case read_given_char (CHR '':'') rest of None \<Rightarrow> None
       | Some (_, rest1) \<Rightarrow> (case read_given_char (CHR '':'') rest1 of None \<Rightarrow> None
       | Some (_, rest2) \<Rightarrow> (case read_groups (8 - (length front + 1)) 0 rest2 of (back, _, rest3) \<Rightarrow>
           Some (from_segments (front @ replicate (8 - length front - length back) 0 @ back), rest3)))))"

definition parse_with :: "'a parser \<Rightarrow> string \<Rightarrow> 'a option" where
  "parse_with p s = (case p s of Some (a, []) \<Rightarrow> Some a | _ \<Rightarrow> None)"

definition ipv4_from_str :: "string \<Rightarrow> u32 option" where
  "ipv4_from_str s = (if length s > 15 then None else parse_with read_ipv4_addr s)"

definition ipv6_from_str :: "string \<Rightarrow> u128 option" where
  "ipv6_from_str s = parse_with read_ipv6_addr s"

definition read_ip_addr :: "IpAddr parser" where
  "read_ip_addr s = (case read_ipv4_addr s of
     Some (a, rest) \<Rightarrow> Some (AddrV4 a, rest)
   | None \<Rightarrow> map_option (\<lambda>(a, rest). (AddrV6 a, rest)) (read_ipv6_addr s))"

definition ip_from_str :: "string \<Rightarrow> IpAddr option" where
  "ip_from_str s = parse_with read_ip_addr s"

text \<open>\<^verbatim>\<open>u8::from_str\<close>: an optional sign, at least one digit, checked arithmetic.\<close>

fun u8_digits :: "nat \<Rightarrow> string \<Rightarrow> u8 option" where
  "u8_digits result [] = Some (of_nat result)"
| "u8_digits result (c # s) = (case to_digit 10 c of
     None \<Rightarrow> None
   | Some d \<Rightarrow> if result * 10 + d > 255 then None else u8_digits (result * 10 + d) s)"

definition u8_from_str :: "string \<Rightarrow> u8 option" where
  "u8_from_str s = (let t = (case s of c # rest \<Rightarrow> if c = CHR ''+'' then rest else s | [] \<Rightarrow> s) in
     if t = [] then None else u8_digits 0 t)"

section \<open>The printer\<close>

definition ipv4_display :: "u32 \<Rightarrow> string list" where
  "ipv4_display a = (case to_be_bytes 4 a of
     [b0, b1, b2, b3] \<Rightarrow> [show_radix 10 (unat b0), ''.'', show_radix 10 (unat b1), ''.'', show_radix 10 (unat b2), ''.'', show_radix 10 (unat b3)]
   | _ \<Rightarrow> [])"

fun pair_up :: "bytes \<Rightarrow> u16 list" where
  "pair_up (a # b # bs) = from_be_bytes [a, b] # pair_up bs"
| "pair_up _ = []"

definition segments :: "u128 \<Rightarrow> u16 list" where
  "segments a = pair_up (to_be_bytes 16 a)"

text \<open>The longest run of zero segments, as its start and length; the first one of that length.\<close>

fun zero_run :: "nat \<Rightarrow> u16 list \<Rightarrow> nat \<times> nat \<Rightarrow> nat \<times> nat \<Rightarrow> nat \<times> nat" where
  "zero_run i [] cur longest = longest"
| "zero_run i (g # gs) cur longest = (if g = 0
     then (let cur' = (if snd cur = 0 then i else fst cur, snd cur + 1) in
           zero_run (i + 1) gs cur' (if snd cur' > snd longest then cur' else longest))
     else zero_run (i + 1) gs (0, 0) longest)"

fun fmt_subslice :: "u16 list \<Rightarrow> string list" where
  "fmt_subslice [] = []"
| "fmt_subslice (g # gs) = show_radix 16 (unat g) # concat (map (\<lambda>h. ['':'', show_radix 16 (unat h)]) gs)"

definition ipv6_display :: "u128 \<Rightarrow> string list" where
  "ipv6_display a = (let gs = segments a in
     if take 5 gs = replicate 5 0 \<and> gs ! 5 = 0xFFFF
     then ''::ffff:'' # ipv4_display (ucast a)
     else case zero_run 0 gs (0, 0) (0, 0) of (start, len) \<Rightarrow>
       if len > 1 then fmt_subslice (take start gs) @ [''::''] @ fmt_subslice (drop (start + len) gs)
       else fmt_subslice gs)"

definition ip_display :: "IpAddr \<Rightarrow> string list" where
  "ip_display ip = (case ip of AddrV4 a \<Rightarrow> ipv4_display a | AddrV6 a \<Rightarrow> ipv6_display a)"

section \<open>Numbers are read back\<close>

definition no_digit :: "nat \<Rightarrow> string \<Rightarrow> bool" where
  "no_digit radix s \<longleftrightarrow> (case s of [] \<Rightarrow> True | c # _ \<Rightarrow> to_digit radix c = None)"

lemma no_digit_simps [simp]: "no_digit radix []" "no_digit radix (c # s) \<longleftrightarrow> to_digit radix c = None"
  by (simp_all add: no_digit_def)

lemma separators_no_digit [simp]: "to_digit radix (CHR ''.'') = None" "to_digit radix (CHR '':'') = None" "to_digit radix (CHR ''/'') = None"
  by (simp_all add: to_digit_def)

lemma digit_char_16: "d < 16 \<Longrightarrow> to_digit 16 (digit_char d) = Some d \<and> (digit_char d = CHR ''0'' \<longleftrightarrow> d = 0)"
proof -
  have "\<forall>d < 16. to_digit 16 (digit_char d) = Some d \<and> (digit_char d = CHR ''0'' \<longleftrightarrow> d = 0)"
    by (simp add: numeral_eq_Suc All_less_Suc) (simp add: digit_char_def to_digit_def)
  then show "d < 16 \<Longrightarrow> ?thesis" by blast
qed

lemma to_digit_mono: "to_digit radix c = Some d \<Longrightarrow> radix \<le> radix' \<Longrightarrow> to_digit radix' c = Some d"
  by (auto simp: to_digit_def Let_def split: option.splits if_splits)

lemma to_digit_char: "d < radix \<Longrightarrow> radix \<le> 16 \<Longrightarrow> to_digit radix (digit_char d) = Some d"
  using digit_char_16 [of d] by (auto simp: to_digit_def Let_def split: option.splits if_splits)

abbreviation value_of :: "nat \<Rightarrow> nat \<Rightarrow> string \<Rightarrow> nat" where
  "value_of radix acc s \<equiv> foldl (\<lambda>a c. a * radix + the (to_digit radix c)) acc s"

lemma show_radix_nonempty [simp]: "show_radix radix n \<noteq> []"
  by (subst show_radix.simps) simp

lemma show_radix_read:
  assumes "1 < radix" "radix \<le> 16"
  shows "value_of radix 0 (show_radix radix n) = n \<and> (\<forall>c \<in> set (show_radix radix n). to_digit radix c \<noteq> None) \<and>
    (hd (show_radix radix n) = CHR ''0'' \<longrightarrow> n = 0)"
  using assms
proof (induction radix n rule: show_radix.induct)
  case (1 radix n)
  show ?case
  proof (cases "n < radix")
    case True
    with 1(2,3) show ?thesis using digit_char_16 [of n] to_digit_char [of n radix] by (subst (1 2 3) show_radix.simps) simp
  next
    case False
    have "n mod radix < radix" "n div radix > 0" using 1(2) False by (auto simp: div_greater_zero_iff)
    then show ?thesis using 1 False to_digit_char [of "n mod radix" radix]
      by (subst (1 2 3) show_radix.simps) (auto simp: hd_append mult.commute)
  qed
qed

lemmas show_radix_value = show_radix_read [THEN conjunct1]
  and show_radix_digits = show_radix_read [THEN conjunct2, THEN conjunct1]
  and show_radix_zero = show_radix_read [THEN conjunct2, THEN conjunct2, rule_format]

lemma show_radix_length: "1 < radix \<Longrightarrow> 0 < k \<Longrightarrow> n < radix ^ k \<Longrightarrow> length (show_radix radix n) \<le> k"
proof (induction radix n arbitrary: k rule: show_radix.induct)
  case (1 radix n)
  show ?case
  proof (cases "n < radix")
    case True
    with 1(2,3) show ?thesis by (subst show_radix.simps) simp
  next
    case False
    then obtain k' where k: "k = Suc k'" "0 < k'" using 1(3,4) by (cases k; cases "k - 1") auto
    then have "n div radix < radix ^ k'" using 1(2,4) by (simp add: less_mult_imp_div_less mult.commute)
    with 1 False k show ?thesis by (subst show_radix.simps) simp
  qed
qed

lemma show_radix_small: "n < radix \<Longrightarrow> show_radix radix n = [digit_char n]"
  by (subst show_radix.simps) simp

lemma read_digits_app:
  "\<forall>c \<in> set xs. to_digit radix c \<noteq> None \<Longrightarrow> n + length xs \<le> M \<Longrightarrow>
    read_digits radix M r n (xs @ ys) = read_digits radix M (value_of radix r xs) (n + length xs) ys"
  by (induction xs arbitrary: r n) auto

lemma read_digits_stop: "no_digit radix s \<Longrightarrow> read_digits radix M r n s = Some (r, n, s)"
  by (cases s) simp_all

lemma read_number_show:
  fixes w :: "'w::len word"
  assumes "1 < radix" "radix \<le> 16" "2 ^ LENGTH('w) \<le> radix ^ M" "no_digit radix rest"
  shows "read_number radix M z (show_radix radix (unat w) @ rest) = Some (w, rest)"
proof -
  have lt: "unat w < 2 ^ LENGTH('w)" by (rule unsigned_less)
  have "(1 :: nat) < 2 ^ LENGTH('w)" by (rule one_less_power) simp_all
  then have "0 < M" using assms(3) by (cases M) auto
  moreover have "unat w < radix ^ M" using lt assms(3) by (rule less_le_trans)
  ultimately have len: "length (show_radix radix (unat w)) \<le> M" using assms(1) show_radix_length by blast
  have "read_digits radix M 0 0 (show_radix radix (unat w) @ rest) = Some (unat w, length (show_radix radix (unat w)), rest)"
    using read_digits_app [OF show_radix_digits [OF assms(1,2)], of 0 "unat w" M 0 rest] len assms
    by (simp add: show_radix_value read_digits_stop)
  moreover have "hd (show_radix radix (unat w)) = CHR ''0'' \<Longrightarrow> length (show_radix radix (unat w)) = 1"
    using show_radix_zero [OF assms(1,2), of "unat w"] assms(1) by (simp add: show_radix_small)
  ultimately show ?thesis using lt by (auto simp: read_number_def hd_append)
qed

lemma read_number_fails: "no_digit radix s \<Longrightarrow> read_number radix M z s = None"
  by (simp add: read_number_def read_digits_stop)

lemma read_digits_rest: "read_digits radix M r n s = Some (v, m, rest) \<Longrightarrow> rest = dropWhile (\<lambda>c. to_digit radix c \<noteq> None) s"
  by (induction radix M r n s rule: read_digits.induct) (auto split: option.splits if_splits)

lemma read_number_rest: "read_number radix M z s = Some (v, rest) \<Longrightarrow> rest = dropWhile (\<lambda>c. to_digit radix c \<noteq> None) s"
  by (auto simp: read_number_def split: option.splits if_splits dest: read_digits_rest)

section \<open>Addresses are read back\<close>

lemma ipv4_bytes:
  obtains b0 b1 b2 b3 where "to_be_bytes 4 (a :: u32) = [b0, b1, b2, b3]" "from_be_bytes [b0, b1, b2, b3] = a"
proof -
  have "\<exists>b0 b1 b2 b3. bs = [b0, b1, b2, b3]" if "length bs = 4" for bs :: bytes
    using that by (auto simp: numeral_eq_Suc length_Suc_conv)
  from this [of "to_be_bytes 4 a"] obtain b0 b1 b2 b3 where "to_be_bytes 4 a = [b0, b1, b2, b3]" by auto
  then show thesis using that from_be_to_be_bytes [of 4 a] by simp
qed

lemma read_octets_4: "read_octets 4 i s = read_octets (Suc (Suc (Suc (Suc 0)))) i s"
  by (simp only: numeral_eq_Suc pred_numeral_simps BitM.simps)

lemma no_dot: "s = [] \<or> hd s \<noteq> CHR ''.'' \<Longrightarrow> read_octets (Suc k) (Suc i) s = None"
  by (cases s) (simp_all add: read_separator_def read_given_char_def)

lemma read_ipv4_display: "no_digit 10 rest \<Longrightarrow> read_ipv4_addr (concat (ipv4_display a) @ rest) = Some (a, rest)"
  by (rule ipv4_bytes [of a]) (simp add: read_ipv4_addr_def ipv4_display_def read_octets_4 read_separator_def read_given_char_def
      read_number_show [where 'w = 8])

text \<open>A hexadecimal group, or none, is no octet when no dot follows.\<close>

lemma read_ipv4_group:
  assumes "\<forall>c \<in> set xs. to_digit 16 c \<noteq> None" "no_digit 10 rest" "rest = [] \<or> hd rest \<noteq> CHR ''.''"
  shows "read_ipv4_addr (xs @ rest) = None"
proof -
  let ?d = "dropWhile (\<lambda>c. to_digit 10 c \<noteq> None)"
  have rest: "?d rest = rest" using assms(2) by (cases rest) simp_all
  have "?d (xs @ rest) = [] \<or> hd (?d (xs @ rest)) \<noteq> CHR ''.''" using assms(1)
  proof (induction xs)
    case Nil
    with rest assms(3) show ?case by simp
  next
    case (Cons c xs)
    then have "c \<noteq> CHR ''.''" by auto
    with Cons show ?case by simp
  qed
  then have dot: "read_octets (Suc (Suc (Suc 0))) (Suc 0) (?d (xs @ rest)) = None" by (rule no_dot)
  show ?thesis
  proof (cases "read_number 10 3 False (xs @ rest) :: (u8 \<times> string) option")
    case None
    then show ?thesis by (simp add: read_ipv4_addr_def read_octets_4 read_separator_def)
  next
    case (Some r)
    moreover obtain b t where "r = (b, t)" by force
    ultimately have "read_octets (Suc (Suc (Suc 0))) (Suc 0) t = None" using read_number_rest dot by metis
    with Some \<open>r = (b, t)\<close> show ?thesis unfolding read_ipv4_addr_def read_octets_4
      by (subst read_octets.simps) (simp add: read_separator_def del: read_octets.simps)
  qed
qed

abbreviation hex :: "u16 \<Rightarrow> string" where
  "hex g \<equiv> show_radix 16 (unat g)"

lemma hex_digits: "\<forall>c \<in> set (hex g). to_digit 16 c \<noteq> None"
  using show_radix_digits [of 16] by simp

lemma read_hex: "no_digit 16 rest \<Longrightarrow> read_number 16 4 True (hex g @ rest) = Some (g, rest)"
  by (rule read_number_show) simp_all

definition colons :: "u16 list \<Rightarrow> string" where
  "colons gs = concat (map (\<lambda>g. CHR '':'' # hex g) gs)"

lemma colons_Nil [simp]: "colons [] = []"
  by (simp add: colons_def)

lemma concat_subslice: "concat (fmt_subslice gs) = (case gs of [] \<Rightarrow> [] | g # hs \<Rightarrow> hex g @ colons hs)"
proof -
  have "concat (concat (map (\<lambda>h. ['':'', hex h]) hs)) = colons hs" for hs by (induction hs) (simp_all add: colons_def)
  then show ?thesis by (cases gs) simp_all
qed

text \<open>What can follow the groups: the end, or the two colons.\<close>

definition stops :: "string \<Rightarrow> bool" where
  "stops s \<longleftrightarrow> s = [] \<or> (\<exists>t. s = CHR '':'' # CHR '':'' # t)"

lemma stopped: "stops rest \<Longrightarrow> read_groups k i rest = ([], False, rest)"
proof (cases k)
  case (Suc k')
  assume "stops rest"
  moreover have "read_ipv4_addr (CHR '':'' # t) = None" for t using read_ipv4_group [of "[]" "CHR '':'' # t"] by simp
  moreover have "read_ipv4_addr [] = None" using read_ipv4_group [of "[]" "[]"] by simp
  ultimately show ?thesis using Suc by (auto simp: stops_def read_separator_def read_given_char_def read_number_fails)
qed simp

lemma hex_group:
  assumes "stops rest"
  shows "read_ipv4_addr (hex g @ colons hs @ rest) = None" "read_number 16 4 True (hex g @ colons hs @ rest) = Some (g, colons hs @ rest)"
proof -
  have t: "no_digit radix (colons hs @ rest)" "colons hs @ rest = [] \<or> hd (colons hs @ rest) \<noteq> CHR ''.''" for radix
    using assms by (cases hs; auto simp: colons_def stops_def)+
  show "read_ipv4_addr (hex g @ colons hs @ rest) = None" by (rule read_ipv4_group [OF hex_digits t])
  show "read_number 16 4 True (hex g @ colons hs @ rest) = Some (g, colons hs @ rest)" by (rule read_hex [OF t(1)])
qed

lemma groups_more: "stops rest \<Longrightarrow> length hs \<le> k \<Longrightarrow> read_groups k (Suc i) (colons hs @ rest) = (hs, False, rest)"
proof (induction hs arbitrary: k i)
  case Nil
  then show ?case by (simp add: colons_def stopped)
next
  case (Cons h hs)
  then obtain k' where "k = Suc k'" "length hs \<le> k'" by (cases k) auto
  moreover have "colons (h # hs) @ rest = CHR '':'' # hex h @ colons hs @ rest" by (simp add: colons_def)
  ultimately show ?case using Cons.IH [OF Cons.prems(1), of k' "Suc i"] hex_group [OF Cons.prems(1), of h hs]
    by (auto simp: read_separator_def read_given_char_def)
qed

lemma read_subslice: "stops rest \<Longrightarrow> length gs \<le> k \<Longrightarrow> read_groups k 0 (concat (fmt_subslice gs) @ rest) = (gs, False, rest)"
proof (cases gs)
  case Nil
  assume "stops rest"
  with Nil show ?thesis by (simp add: stopped)
next
  case (Cons g hs)
  assume rest: "stops rest" and "length gs \<le> k"
  with Cons obtain k' where "k = Suc k'" "length hs \<le> k'" by (cases k) auto
  with Cons rest show ?thesis using groups_more [OF rest, of hs k' 0] hex_group [OF rest, of g hs]
    by (auto simp: concat_subslice read_separator_def simp del: fmt_subslice.simps)
qed

lemma length_pair_up: "length (pair_up bs) = length bs div 2"
  by (induction bs rule: pair_up.induct) simp_all

lemma pair_up_bytes: "even (length bs) \<Longrightarrow> concat (map (to_be_bytes 2) (pair_up bs)) = bs"
proof (induction bs rule: pair_up.induct)
  case (1 a b bs)
  have "to_be_bytes 2 (from_be_bytes [a, b] :: u16) = [a, b]"
    using to_be_from_be_bytes [where 'a = 16, of "[a, b]"] by (simp add: numeral_2_eq_2)
  with 1 show ?case by simp
qed simp_all

lemma segments_length [simp]: "length (segments a) = 8"
  by (simp add: segments_def length_pair_up)

lemma from_segments [simp]: "from_segments (segments a) = a"
  by (simp add: from_segments_def segments_def pair_up_bytes)

definition zeroes :: "u16 list \<Rightarrow> nat \<times> nat \<Rightarrow> bool" where
  "zeroes gs r \<longleftrightarrow> fst r + snd r \<le> length gs \<and> take (snd r) (drop (fst r) gs) = replicate (snd r) 0"

lemma zero_run_zeroes:
  "drop i gs = hs \<Longrightarrow> i \<le> length gs \<Longrightarrow> zeroes gs cur \<Longrightarrow> snd cur = 0 \<or> fst cur + snd cur = i \<Longrightarrow> zeroes gs longest \<Longrightarrow> zeroes gs (zero_run i hs cur longest)"
proof (induction i hs cur longest rule: zero_run.induct)
  case (2 i g hs cur longest)
  have lt: "i < length gs" using 2(3) by (metis drop_all list.distinct(1) not_le)
  with 2(3) have i: "drop (i + 1) gs = hs" "i + 1 \<le> length gs" "gs ! i = g" using Cons_nth_drop_Suc [of i gs] by simp_all
  let ?cur = "(if snd cur = 0 then i else fst cur, snd cur + 1)"
  show ?case
  proof (cases "g = 0")
    case True
    have "zeroes gs ?cur" using 2(5,6) i True
      by (auto simp: zeroes_def take_Suc_conv_app_nth replicate_append_same [symmetric])
    with 2 i True show ?thesis by (auto simp: Let_def)
  next
    case False
    with 2 i show ?thesis by (simp add: zeroes_def)
  qed
qed simp

lemma stops_simps [simp]: "stops []" "stops (CHR '':'' # CHR '':'' # t)"
  by (simp_all add: stops_def)

lemma read_ipv6_plain: "length gs = 8 \<Longrightarrow> read_ipv6_addr (concat (fmt_subslice gs)) = Some (from_segments gs, [])"
  using read_subslice [of "[]" gs 8] by (simp add: read_ipv6_addr_def)

lemma read_ipv6_gap:
  assumes "length front < 8" "read_groups (8 - (length front + 1)) 0 t = (back, v4, [])"
  shows "read_ipv6_addr (concat (fmt_subslice front) @ CHR '':'' # CHR '':'' # t) =
    Some (from_segments (front @ replicate (8 - length front - length back) 0 @ back), [])"
  using read_subslice [of "CHR '':'' # CHR '':'' # t" front 8] assms by (simp add: read_ipv6_addr_def read_given_char_def)

lemma read_ipv6_compressed:
  assumes "zeroes gs (start, len)" "1 < len" "length gs = 8"
  shows "read_ipv6_addr (concat (fmt_subslice (take start gs) @ [''::''] @ fmt_subslice (drop (start + len) gs))) = Some (from_segments gs, [])"
proof -
  have len: "start + len \<le> 8" and zero: "take len (drop start gs) = replicate len 0" using assms by (simp_all add: zeroes_def)
  have tail: "read_groups (8 - (length (take start gs) + 1)) 0 (concat (fmt_subslice (drop (start + len) gs))) = (drop (start + len) gs, False, [])"
    using read_subslice [of "[]" "drop (start + len) gs"] assms len by simp
  have join: "take start gs @ replicate (8 - length (take start gs) - length (drop (start + len) gs)) 0 @ drop (start + len) gs = gs"
    using len assms(3) zero append_take_drop_id [of len "drop start gs"] append_take_drop_id [of start gs] by (simp add: add.commute)
  have "length (take start gs) < 8" using len assms(2,3) by simp
  from read_ipv6_gap [OF this tail] show ?thesis unfolding join by simp
qed

text \<open>An address that embeds an IPv4 address prints it with dots.\<close>

lemma drop_pair_up: "drop n (pair_up bs) = pair_up (drop (2 * n) bs)"
proof (induction n arbitrary: bs)
  case (Suc n)
  then show ?case by (cases bs rule: pair_up.cases) simp_all
qed simp

lemma low_bytes: "to_be_bytes 4 (ucast (a :: u128) :: u32) = drop 12 (to_be_bytes 16 a)"
proof -
  have "ucast (drop_bit (8 * i) (ucast a :: u32)) = (ucast (drop_bit (8 * i) a) :: u8)" if "i < 4" for i
    using that by (intro bit_word_eqI) (auto simp: bit_ucast_iff bit_drop_bit_eq dest: bit_imp_le_length)
  then have "to_le_bytes 4 (ucast a :: u32) = take 4 (to_le_bytes 16 a)" by (simp add: to_le_bytes_def take_map)
  then show ?thesis by (simp add: to_be_bytes_def drop_rev)
qed

lemma mapped_bytes:
  assumes "take 5 (segments a) = replicate 5 0" "segments a ! 5 = 0xFFFF" "b = to_be_bytes 4 (ucast a :: u32)"
  shows "segments a = replicate 5 0 @ [0xFFFF, from_be_bytes (take 2 b), from_be_bytes (drop 2 b)]"
proof -
  have "segments a = take 5 (segments a) @ segments a ! 5 # drop 6 (segments a)"
    using id_take_nth_drop [of 5 "segments a"] by simp
  moreover have "drop 6 (segments a) = pair_up b" using drop_pair_up [of 6] by (simp add: segments_def assms(3) low_bytes)
  moreover have "pair_up b = [from_be_bytes (take 2 b), from_be_bytes (drop 2 b)]" if "length b = 4"
    using that by (auto simp: numeral_eq_Suc length_Suc_conv)
  ultimately show ?thesis using assms by simp
qed

lemma read_ipv6_mapped:
  "read_ipv6_addr (''::ffff:'' @ concat (ipv4_display v)) =
    Some (from_segments (replicate 5 0 @ [0xFFFF, from_be_bytes (take 2 (to_be_bytes 4 v)), from_be_bytes (drop 2 (to_be_bytes 4 v))]), [])"
proof -
  have ffff: "hex 0xFFFF = ''ffff''" by (simp add: show_radix.simps digit_char_def)
  have "read_ipv4_addr (''ffff'' @ CHR '':'' # t) = None" "read_number 16 4 True (''ffff'' @ CHR '':'' # t) = Some (0xFFFF :: u16, CHR '':'' # t)" for t
    using read_ipv4_group [OF hex_digits, of "CHR '':'' # t" "0xFFFF"] read_hex [of "CHR '':'' # t" "0xFFFF"] unfolding ffff by simp_all
  then have "read_groups 7 0 (''ffff:'' @ concat (ipv4_display v)) =
      ([0xFFFF, from_be_bytes (take 2 (to_be_bytes 4 v)), from_be_bytes (drop 2 (to_be_bytes 4 v))], True, [])"
    using read_ipv4_display [of "[]" v] by (simp add: numeral_eq_Suc read_separator_def read_given_char_def Let_def)
  then show ?thesis using read_ipv6_gap [of "[]"] by simp
qed

lemma read_ipv6_display: "read_ipv6_addr (concat (ipv6_display a)) = Some (a, [])"
proof (cases "take 5 (segments a) = replicate 5 0 \<and> segments a ! 5 = 0xFFFF")
  case True
  then have "ipv6_display a = ''::ffff:'' # ipv4_display (ucast a)" by (simp add: ipv6_display_def Let_def)
  then show ?thesis using read_ipv6_mapped [of "ucast a"] mapped_bytes [of a] True from_segments [of a] by simp
next
  case False
  obtain start len where run: "zero_run 0 (segments a) (0, 0) (0, 0) = (start, len)" by force
  have "zeroes (segments a) (start, len)"
    using zero_run_zeroes [of 0 "segments a" "segments a" "(0, 0)" "(0, 0)"] run by (simp add: zeroes_def)
  then have "read_ipv6_addr (concat (if len > 1 then fmt_subslice (take start (segments a)) @ [''::''] @ fmt_subslice (drop (start + len) (segments a))
      else fmt_subslice (segments a))) = Some (a, [])"
    using read_ipv6_compressed [of "segments a" start len] read_ipv6_plain [of "segments a"] by simp
  then show ?thesis unfolding ipv6_display_def Let_def if_not_P [OF False] run by simp
qed

lemma octet_text_length: "length (show_radix 10 (unat (b :: u8))) \<le> 3"
proof -
  have "unat b < 10 ^ 3" using unsigned_less [of b, where 'a = nat] by simp
  then show ?thesis using show_radix_length [of 10 3 "unat b"] by simp
qed

lemma ipv4_text_length: "length (concat (ipv4_display a)) \<le> 15"
proof (rule ipv4_bytes [of a])
  fix b0 b1 b2 b3 assume "to_be_bytes 4 a = [b0, b1, b2, b3]"
  then show ?thesis
    using octet_text_length [of b0] octet_text_length [of b1] octet_text_length [of b2] octet_text_length [of b3] by (simp add: ipv4_display_def)
qed

lemma subslice_length: "length (concat (fmt_subslice gs)) \<le> 5 * length gs"
proof -
  have h: "length (hex g) \<le> 4" for g :: u16
  proof -
    have "unat g < 16 ^ 4" using unsigned_less [of g, where 'a = nat] by simp
    then show ?thesis using show_radix_length [of 16 4 "unat g"] by simp
  qed
  have c: "length (colons hs) \<le> 5 * length hs" for hs
  proof (induction hs)
    case (Cons g hs)
    then show ?case using h [of g] by (simp add: colons_def)
  qed simp
  show ?thesis
  proof (cases gs)
    case (Cons g hs)
    then show ?thesis using h [of g] c [of hs] by (simp add: concat_subslice del: fmt_subslice.simps)
  qed simp
qed

lemma ipv6_text_length: "length (concat (ipv6_display a)) \<le> 42"
proof -
  obtain start len where run: "zero_run 0 (segments a) (0, 0) (0, 0) = (start, len)" by force
  have "length (concat (fmt_subslice (take start (segments a)))) + length (concat (fmt_subslice (drop (start + len) (segments a)))) \<le>
      5 * (length (take start (segments a)) + length (drop (start + len) (segments a)))"
    using subslice_length [of "take start (segments a)"] subslice_length [of "drop (start + len) (segments a)"] by simp
  also have "\<dots> \<le> 5 * 8" by simp
  finally show ?thesis using subslice_length [of "segments a"] ipv4_text_length [of "ucast a"] run by (simp add: ipv6_display_def Let_def)
qed

lemma ipv4_from_display: "ipv4_from_str (concat (ipv4_display a)) = Some a"
  using ipv4_text_length [of a] read_ipv4_display [of "[]" a] by (simp add: ipv4_from_str_def parse_with_def)

lemma ipv6_from_display: "ipv6_from_str (concat (ipv6_display a)) = Some a"
  by (simp add: ipv6_from_str_def parse_with_def read_ipv6_display)

lemma ipv6_no_ipv4: "read_ipv4_addr (concat (ipv6_display a)) = None"
proof -
  have colon: "read_ipv4_addr (CHR '':'' # t) = None" for t using read_ipv4_group [of "[]" "CHR '':'' # t"] by simp
  have gap: "read_ipv4_addr (concat (fmt_subslice gs) @ CHR '':'' # CHR '':'' # t) = None" for gs t
    using hex_group(1) [of "CHR '':'' # CHR '':'' # t"] by (cases gs) (simp_all add: concat_subslice colon del: fmt_subslice.simps)
  have "segments a \<noteq> []" using segments_length [of a] by force
  then have plain: "read_ipv4_addr (concat (fmt_subslice (segments a))) = None"
    using hex_group(1) [of "[]"] by (cases "segments a") (simp_all add: concat_subslice del: fmt_subslice.simps)
  show ?thesis using gap plain by (auto simp: ipv6_display_def Let_def colon split: prod.split)
qed

lemma ip_from_display: "ip_from_str (concat (ip_display ip)) = Some ip"
  using read_ipv4_display [of "[]"] read_ipv6_display
  by (cases ip) (simp_all add: ip_from_str_def parse_with_def read_ip_addr_def ip_display_def ipv6_no_ipv4)

end
