(* ===== verification/Net_Text.thy ===== *)
theory Net_Text
  imports Address_Text
begin

text \<open>
  The text and serialized forms of networks (\<^verbatim>\<open>Display\<close>, \<^verbatim>\<open>FromStr\<close>, \<^verbatim>\<open>Serialize\<close> and \<^verbatim>\<open>Deserialize\<close>
  of \<^verbatim>\<open>ipnet.rs\<close>). The bounded string the human-readable form is written to is an argument.
\<close>

section \<open>Text\<close>

datatype AddrParseError = AddrParseError

definition split_once :: "char \<Rightarrow> string \<Rightarrow> (string \<times> string) option" where
  "split_once c s = (if c \<in> set s then Some (takeWhile (\<lambda>x. x \<noteq> c) s, tl (dropWhile (\<lambda>x. x \<noteq> c) s)) else None)"

definition ok_or :: "'e \<Rightarrow> 'a option \<Rightarrow> 'e + 'a" where
  "ok_or e r = (case r of Some a \<Rightarrow> Inr a | None \<Rightarrow> Inl e)"

definition try_then :: "'e + 'a \<Rightarrow> ('a \<Rightarrow> 'e + 'b) \<Rightarrow> 'e + 'b" where
  "try_then r f = (case r of Inl e \<Rightarrow> Inl e | Inr a \<Rightarrow> f a)"

definition net_display :: "string list \<Rightarrow> u8 \<Rightarrow> string list" where
  "net_display pieces prefix_len = pieces @ [''/'', show_radix 10 (unat prefix_len)]"

definition ipv4net_display :: "Ipv4Net \<Rightarrow> string list" where
  "ipv4net_display n = net_display (ipv4_display (v4_addr n)) (v4_prefix_len n)"

definition ipv4net_from_str :: "string \<Rightarrow> AddrParseError + Ipv4Net" where
  "ipv4net_from_str s =
     try_then (ok_or AddrParseError (split_once (CHR ''/'') s)) (\<lambda>(addr_s, prefix_s).
     try_then (ok_or AddrParseError (ipv4_from_str addr_s)) (\<lambda>addr.
     try_then (ok_or AddrParseError (u8_from_str prefix_s)) (\<lambda>prefix_len.
     map_sum (\<lambda>_. AddrParseError) (\<lambda>n. n) (ipv4net_new addr prefix_len))))"

definition ipv6net_display :: "Ipv6Net \<Rightarrow> string list" where
  "ipv6net_display n = net_display (ipv6_display (v6_addr n)) (v6_prefix_len n)"

definition ipv6net_from_str :: "string \<Rightarrow> AddrParseError + Ipv6Net" where
  "ipv6net_from_str s =
     try_then (ok_or AddrParseError (split_once (CHR ''/'') s)) (\<lambda>(addr_s, prefix_s).
     try_then (ok_or AddrParseError (ipv6_from_str addr_s)) (\<lambda>addr.
     try_then (ok_or AddrParseError (u8_from_str prefix_s)) (\<lambda>prefix_len.
     map_sum (\<lambda>_. AddrParseError) (\<lambda>n. n) (ipv6net_new addr prefix_len))))"

fun ipnet_display :: "IpNet \<Rightarrow> string list" where
  "ipnet_display (NetV4 n) = ipv4net_display n"
| "ipnet_display (NetV6 n) = ipv6net_display n"

definition ipnet_from_str :: "string \<Rightarrow> AddrParseError + IpNet" where
  "ipnet_from_str s =
     try_then (ok_or AddrParseError (split_once (CHR ''/'') s)) (\<lambda>(addr_s, prefix_s).
     try_then (ok_or AddrParseError (u8_from_str prefix_s)) (\<lambda>prefix_len.
     try_then (ok_or AddrParseError (ip_from_str addr_s)) (\<lambda>ip. case ip of
       AddrV4 addr \<Rightarrow> map_sum (\<lambda>_. AddrParseError) NetV4 (ipv4net_new addr prefix_len)
     | AddrV6 addr \<Rightarrow> map_sum (\<lambda>_. AddrParseError) NetV6 (ipv6net_new addr prefix_len))))"

section \<open>Serialized forms\<close>

text \<open>What a serializer is given and a deserializer finds: a string, a tuple of bytes, or a variant of an enumeration with one.\<close>

datatype data = DataStr string | DataTuple bytes | DataVariant nat data

definition ipv4net_ser :: "(nat \<Rightarrow> string list \<Rightarrow> string) \<Rightarrow> bool \<Rightarrow> Ipv4Net \<Rightarrow> data" where
  "ipv4net_ser buffer human n = (if human then DataStr (buffer 18 (ipv4net_display n)) else DataTuple (ipv4net_serialize n))"

definition ipv4net_de :: "bool \<Rightarrow> data \<Rightarrow> Ipv4Net option" where
  "ipv4net_de human x = (if human
     then (case x of DataStr s \<Rightarrow> (case ipv4net_from_str s of Inl _ \<Rightarrow> None | Inr n \<Rightarrow> Some n) | _ \<Rightarrow> None)
     else (case x of DataTuple b \<Rightarrow> (case ipv4net_deserialize b of Some (Inr n) \<Rightarrow> Some n | _ \<Rightarrow> None) | _ \<Rightarrow> None))"

definition ipv6net_ser :: "(nat \<Rightarrow> string list \<Rightarrow> string) \<Rightarrow> bool \<Rightarrow> Ipv6Net \<Rightarrow> data" where
  "ipv6net_ser buffer human n = (if human then DataStr (buffer 64 (ipv6net_display n)) else DataTuple (ipv6net_serialize n))"

definition ipv6net_de :: "bool \<Rightarrow> data \<Rightarrow> Ipv6Net option" where
  "ipv6net_de human x = (if human
     then (case x of DataStr s \<Rightarrow> (case ipv6net_from_str s of Inl _ \<Rightarrow> None | Inr n \<Rightarrow> Some n) | _ \<Rightarrow> None)
     else (case x of DataTuple b \<Rightarrow> (case ipv6net_deserialize b of Some (Inr n) \<Rightarrow> Some n | _ \<Rightarrow> None) | _ \<Rightarrow> None))"

definition ipnet_ser :: "(nat \<Rightarrow> string list \<Rightarrow> string) \<Rightarrow> bool \<Rightarrow> IpNet \<Rightarrow> data" where
  "ipnet_ser buffer human net = (if human
     then (case net of NetV4 n \<Rightarrow> ipv4net_ser buffer human n | NetV6 n \<Rightarrow> ipv6net_ser buffer human n)
     else (case net of NetV4 n \<Rightarrow> DataVariant 0 (ipv4net_ser buffer human n) | NetV6 n \<Rightarrow> DataVariant 1 (ipv6net_ser buffer human n)))"

definition ipnet_de :: "bool \<Rightarrow> data \<Rightarrow> IpNet option" where
  "ipnet_de human x = (if human
     then (case x of DataStr s \<Rightarrow> (case ipnet_from_str s of Inl _ \<Rightarrow> None | Inr n \<Rightarrow> Some n) | _ \<Rightarrow> None)
     else (case x of
         DataVariant i y \<Rightarrow> if i = 0 then map_option NetV4 (ipv4net_de human y)
           else if i = 1 then map_option NetV6 (ipv6net_de human y) else None
       | _ \<Rightarrow> None))"

section \<open>Reading what was printed\<close>

lemma try_then_simps [simp]: "try_then (Inr a) f = f a" "try_then (Inl e) f = Inl e"
  by (simp_all add: try_then_def)

lemma ok_or_simps [simp]: "ok_or e (Some a) = Inr a" "ok_or e None = Inl e"
  by (simp_all add: ok_or_def)

lemma try_then_Inr: "try_then r f = Inr b \<longleftrightarrow> (\<exists>a. r = Inr a \<and> f a = Inr b)"
  by (cases r) simp_all

lemma ok_or_Inr: "ok_or e r = Inr a \<longleftrightarrow> r = Some a"
  by (cases r) simp_all

lemma split_once_app: "c \<notin> set xs \<Longrightarrow> split_once c (xs @ c # ys) = Some (xs, ys)"
proof -
  assume c: "c \<notin> set xs"
  then have "takeWhile (\<lambda>x. x \<noteq> c) (xs @ c # ys) = xs" "dropWhile (\<lambda>x. x \<noteq> c) (xs @ c # ys) = c # ys"
    by (subst takeWhile_append2 dropWhile_append2; auto)+
  then show ?thesis by (simp add: split_once_def)
qed

lemma slash_free: "CHR ''/'' \<notin> set (show_radix 10 n)" "CHR ''/'' \<notin> set (show_radix 16 n)"
  using show_radix_digits [of 10 n] show_radix_digits [of 16 n] by (auto dest!: bspec)

lemma slash_free_ipv4: "CHR ''/'' \<notin> set (concat (ipv4_display a))"
  by (rule ipv4_bytes [of a]) (simp add: ipv4_display_def slash_free)

lemma slash_free_ipv6: "CHR ''/'' \<notin> set (concat (ipv6_display a))"
proof -
  have "CHR ''/'' \<notin> set (concat (fmt_subslice gs))" for gs by (cases gs) (auto simp: slash_free)
  then show ?thesis using slash_free_ipv4 [of "ucast a"] by (auto simp: ipv6_display_def Let_def split: prod.split)
qed

lemma value_of_ge: "r \<le> value_of 10 r s"
proof (induction s arbitrary: r)
  case (Cons c s)
  have "r \<le> r * 10 + the (to_digit 10 c)" by simp
  also have "\<dots> \<le> value_of 10 (r * 10 + the (to_digit 10 c)) s" by (rule Cons)
  finally show ?case by simp
qed simp

lemma u8_digits_value:
  "\<forall>c \<in> set s. to_digit 10 c \<noteq> None \<Longrightarrow> value_of 10 r s \<le> 255 \<Longrightarrow> u8_digits r s = Some (of_nat (value_of 10 r s))"
proof (induction s arbitrary: r)
  case (Cons c s)
  then obtain d where "to_digit 10 c = Some d" by auto
  moreover from this have "r * 10 + d \<le> 255" using Cons.prems(2) value_of_ge [of "r * 10 + d" s] by simp
  ultimately show ?case using Cons by simp
qed simp

lemma u8_from_show: "u8_from_str (show_radix 10 (unat (n :: u8))) = Some n"
proof -
  have "unat n \<le> 255" using unsigned_less [of n, where 'a = nat] by simp
  then have "u8_digits 0 (show_radix 10 (unat n)) = Some n"
    using u8_digits_value [OF show_radix_digits [of 10 "unat n"], of 0] show_radix_value [of 10 "unat n"] by simp
  moreover have "hd (show_radix 10 (unat n)) \<noteq> CHR ''+''" using show_radix_digits [of 10 "unat n"] by (auto dest!: bspec [OF _ hd_in_set] simp: to_digit_def)
  ultimately show ?thesis by (cases "show_radix 10 (unat n)") (simp_all add: u8_from_str_def)
qed

lemma concat_net_display: "concat (net_display ps n) = concat ps @ CHR ''/'' # show_radix 10 (unat n)"
  by (simp add: net_display_def)

lemma ipv4net_from_display: "v4_prefix_len n \<le> 32 \<Longrightarrow> ipv4net_from_str (concat (ipv4net_display n)) = Inr n"
  by (simp add: ipv4net_from_str_def ipv4net_display_def concat_net_display split_once_app [OF slash_free_ipv4] ipv4_from_display u8_from_show
      ipv4net_new_def not_less [symmetric])

lemma ipv6net_from_display: "v6_prefix_len n \<le> 128 \<Longrightarrow> ipv6net_from_str (concat (ipv6net_display n)) = Inr n"
  by (simp add: ipv6net_from_str_def ipv6net_display_def concat_net_display split_once_app [OF slash_free_ipv6] ipv6_from_display u8_from_show
      ipv6net_new_def not_less [symmetric])

lemma ipnet_from_display: "ipnet_wf net \<Longrightarrow> ipnet_from_str (concat (ipnet_display net)) = Inr net"
  using ip_from_display [of "ipnet_addr net"]
  by (cases net) (simp_all add: ipnet_from_str_def ipv4net_display_def ipv6net_display_def concat_net_display split_once_app [OF slash_free_ipv4]
      split_once_app [OF slash_free_ipv6] ip_display_def u8_from_show ipv4net_new_def ipv6net_new_def not_less [symmetric])

text \<open>A bounded string keeps what fits.\<close>

definition buffer_ok :: "(nat \<Rightarrow> string list \<Rightarrow> string) \<Rightarrow> bool" where
  "buffer_ok buffer \<longleftrightarrow> (\<forall>cap ps. length (concat ps) \<le> cap \<longrightarrow> buffer cap ps = concat ps)"

lemma prefix_text_length: "n \<le> 32 \<Longrightarrow> length (show_radix 10 (unat (n :: u8))) \<le> 2"
  using show_radix_length [of 10 2 "unat n"] by (simp add: word_le_nat_alt)

lemma net_text_fits:
  "v4_prefix_len n \<le> 32 \<Longrightarrow> length (concat (ipv4net_display n)) \<le> 18" "length (concat (ipv6net_display m)) \<le> 64"
  using prefix_text_length [of "v4_prefix_len n"] ipv4_text_length [of "v4_addr n"] octet_text_length [of "v6_prefix_len m"] ipv6_text_length [of "v6_addr m"]
  by (simp_all add: ipv4net_display_def ipv6net_display_def concat_net_display)

section \<open>Reading what was given\<close>

lemma ipnet_parsed:
  assumes "ipnet_from_str s = Inr net"
  shows "ipnet_wf net" "\<exists>a p. split_once (CHR ''/'') s = Some (a, p) \<and> ip_from_str a = Some (ipnet_addr net) \<and>
    u8_from_str p = Some (ipnet_prefix_len net)"
proof -
  from assms obtain a p l ip where r: "split_once (CHR ''/'') s = Some (a, p)" "u8_from_str p = Some l" "ip_from_str a = Some ip"
    "(case ip of AddrV4 x \<Rightarrow> map_sum (\<lambda>_. AddrParseError) NetV4 (ipv4net_new x l) | AddrV6 x \<Rightarrow> map_sum (\<lambda>_. AddrParseError) NetV6 (ipv6net_new x l)) = Inr net"
    by (auto simp: ipnet_from_str_def try_then_Inr ok_or_Inr)
  from r(4) have "ipnet_new ip l = Inr net" by (cases ip) (auto simp: ipnet_new_def ipv4net_new_def ipv6net_new_def split: if_splits)
  from ipnet_new_wf [OF this] r show "ipnet_wf net" "\<exists>a p. split_once (CHR ''/'') s = Some (a, p) \<and>
      ip_from_str a = Some (ipnet_addr net) \<and> u8_from_str p = Some (ipnet_prefix_len net)" by simp_all
qed

lemma slice_last: "length b = Suc n \<Longrightarrow> slice 0 n b @ [b ! n] = b"
  using take_Suc_conv_app_nth [of n b] by (simp add: slice_def)

lemma ipv4net_decoded:
  assumes "ipv4net_de False x = Some n"
  shows "v4_prefix_len n \<le> 32 \<and> x = DataTuple (ipv4net_serialize n)"
proof -
  from assms obtain b where b: "x = DataTuple b" "length b = 5" "ipv4net_new (from_be_bytes (slice 0 4 b)) (b ! 4) = Inr n"
    by (auto simp: ipv4net_de_def ipv4net_deserialize_def split: data.splits option.splits sum.splits if_splits)
  then have "v4_addr n = from_be_bytes (slice 0 4 b)" "v4_prefix_len n = b ! 4" "v4_prefix_len n \<le> 32"
    by (auto simp: ipv4net_new_def split: if_splits)
  moreover have "length (slice 0 4 b) = 4" using b(2) by (simp add: slice_def)
  ultimately show ?thesis
    using b(1,2) to_be_from_be_bytes [where 'a = 32, of "slice 0 4 b"] slice_last [of b 4] by (simp add: ipv4net_serialize_def)
qed

lemma ipv6net_decoded:
  assumes "ipv6net_de False x = Some n"
  shows "v6_prefix_len n \<le> 128 \<and> x = DataTuple (ipv6net_serialize n)"
proof -
  from assms obtain b where b: "x = DataTuple b" "length b = 17" "ipv6net_new (from_be_bytes (slice 0 16 b)) (b ! 16) = Inr n"
    by (auto simp: ipv6net_de_def ipv6net_deserialize_def split: data.splits option.splits sum.splits if_splits)
  then have "v6_addr n = from_be_bytes (slice 0 16 b)" "v6_prefix_len n = b ! 16" "v6_prefix_len n \<le> 128"
    by (auto simp: ipv6net_new_def split: if_splits)
  moreover have "length (slice 0 16 b) = 16" using b(2) by (simp add: slice_def)
  ultimately show ?thesis
    using b(1,2) to_be_from_be_bytes [where 'a = 128, of "slice 0 16 b"] slice_last [of b 16] by (simp add: ipv6net_serialize_def)
qed

lemma ipnet_binary_decoded:
  assumes "ipnet_de False x = Some net"
  shows "ipnet_wf net \<and> x = ipnet_ser buffer False net"
  using assms by (auto simp: ipnet_de_def ipnet_ser_def ipv4net_ser_def ipv6net_ser_def split: data.splits if_splits
      dest!: ipv4net_decoded ipv6net_decoded)

section \<open>Properties\<close>

text \<open>C28. A network survives both serialized forms: the text form is never cut by the bounded string it is
  written to, and the parser reads back the very network, for IPv6 with the longest run of zeroes
  left out and an embedded IPv4 address in dots.\<close>

theorem ipnet_forms_roundtrip:
  assumes "ipnet_wf net" "buffer_ok buffer"
  shows "ipnet_de human (ipnet_ser buffer human net) = Some net"
proof (cases net)
  case (NetV4 n)
  then have "v4_prefix_len n \<le> 32" using assms(1) by simp
  then show ?thesis using NetV4 assms ipnet_from_display [OF assms(1)] net_text_fits(1) [of n] ipnet_serialize_roundtrip(1) [of n]
    by (simp add: ipnet_ser_def ipnet_de_def ipv4net_ser_def ipv4net_de_def buffer_ok_def)
next
  case (NetV6 n)
  then have "v6_prefix_len n \<le> 128" using assms(1) by simp
  then show ?thesis using NetV6 assms ipnet_from_display [OF assms(1)] net_text_fits(2) [of n] ipnet_serialize_roundtrip(2) [of n]
    by (simp add: ipnet_ser_def ipnet_de_def ipv6net_ser_def ipv6net_de_def buffer_ok_def)
qed

theorem ipnet_forms_roundtrip_witness:
  "ipnet_de True (ipnet_ser (\<lambda>_. concat) True (NetV6 \<lparr>v6_addr = 0x20010DB8000000000000000000000001, v6_prefix_len = 64\<rparr>)) =
     Some (NetV6 \<lparr>v6_addr = 0x20010DB8000000000000000000000001, v6_prefix_len = 64\<rparr>)"
proof -
  have "ipnet_wf (NetV6 \<lparr>v6_addr = 0x20010DB8000000000000000000000001, v6_prefix_len = 64\<rparr>)" "buffer_ok (\<lambda>_. concat)"
    by (simp_all add: buffer_ok_def)
  then show ?thesis by (rule ipnet_forms_roundtrip)
qed

text \<open>C29. Every network the module lets in is valid and the one that was given: a network that is built, parsed or
  decoded has a prefix length within the width of its address family, the address and the length of the
  arguments or of the two parts of the text, and a decoded binary form is exactly the one the encoder
  writes for it.\<close>

theorem ipnet_inputs_valid:
  "(ipnet_new ip l = Inr net \<longrightarrow> ipnet_wf net \<and> ipnet_addr net = ip \<and> ipnet_prefix_len net = l) \<and>
   (ipnet_from_str s = Inr net \<longrightarrow> ipnet_wf net \<and> (\<exists>a p. split_once (CHR ''/'') s = Some (a, p) \<and>
      ip_from_str a = Some (ipnet_addr net) \<and> u8_from_str p = Some (ipnet_prefix_len net))) \<and>
   (ipnet_de True x = Some net \<longrightarrow> ipnet_wf net \<and> (\<exists>s a p. x = DataStr s \<and> split_once (CHR ''/'') s = Some (a, p) \<and>
      ip_from_str a = Some (ipnet_addr net) \<and> u8_from_str p = Some (ipnet_prefix_len net))) \<and>
   (ipnet_de False x = Some net \<longrightarrow> ipnet_wf net \<and> x = ipnet_ser buffer False net)"
proof (intro conjI impI)
  assume "ipnet_new ip l = Inr net"
  then show "ipnet_wf net" "ipnet_addr net = ip" "ipnet_prefix_len net = l" using ipnet_new_wf by simp_all
next
  assume "ipnet_from_str s = Inr net"
  from ipnet_parsed [OF this] show "ipnet_wf net" "\<exists>a p. split_once (CHR ''/'') s = Some (a, p) \<and>
      ip_from_str a = Some (ipnet_addr net) \<and> u8_from_str p = Some (ipnet_prefix_len net)" by simp_all
next
  assume "ipnet_de True x = Some net"
  then obtain t where "x = DataStr t" "ipnet_from_str t = Inr net" by (auto simp: ipnet_de_def split: data.splits sum.splits)
  with ipnet_parsed [of t net] show "ipnet_wf net" "\<exists>s a p. x = DataStr s \<and> split_once (CHR ''/'') s = Some (a, p) \<and>
      ip_from_str a = Some (ipnet_addr net) \<and> u8_from_str p = Some (ipnet_prefix_len net)" by simp_all
next
  assume "ipnet_de False x = Some net"
  then show "ipnet_wf net" "x = ipnet_ser buffer False net" using ipnet_binary_decoded by simp_all
qed

theorem ipnet_inputs_valid_witness:
  "ipnet_from_str ''10.0.0.1/8'' = Inr (NetV4 \<lparr>v4_addr = 0x0A000001, v4_prefix_len = 8\<rparr>) \<and>
   ipnet_wf (NetV4 \<lparr>v4_addr = 0x0A000001, v4_prefix_len = 8\<rparr>) \<and>
   DataVariant 0 (DataTuple [10, 0, 0, 1, 8]) = ipnet_ser (\<lambda>_. concat) False (NetV4 \<lparr>v4_addr = 0x0A000001, v4_prefix_len = 8\<rparr>)"
proof -
  have "ipnet_from_str ''10.0.0.1/8'' = Inr (NetV4 \<lparr>v4_addr = 0x0A000001, v4_prefix_len = 8\<rparr>)" by code_simp
  moreover have "ipnet_de False (DataVariant 0 (DataTuple [10, 0, 0, 1, 8])) = Some (NetV4 \<lparr>v4_addr = 0x0A000001, v4_prefix_len = 8\<rparr>)"
    by code_simp
  ultimately show ?thesis
    using ipnet_inputs_valid [of "AddrV4 0" 0 "NetV4 \<lparr>v4_addr = 0x0A000001, v4_prefix_len = 8\<rparr>" "''10.0.0.1/8''"
      "DataVariant 0 (DataTuple [10, 0, 0, 1, 8])" "\<lambda>_. concat"]
    by blast
qed

end
