(* ===== verification/Serialized_Forms.thy ===== *)
theory Serialized_Forms
  imports Net_Text Control_Plane
begin

text \<open>
  The serialized forms of keys (\<^verbatim>\<open>serialization.rs\<close>), of the time stamp of a network map
  (\<^verbatim>\<open>map_timestamp\<close> of \<^verbatim>\<open>net_map.rs\<close>) and of the errors of the directory (\<^verbatim>\<open>error.rs\<close>). The base64 and
  hexadecimal codecs and the range of the calendar library are arguments.
\<close>

section \<open>Keys\<close>

text \<open>The codecs decode into a buffer of the given size and return the bytes written.\<close>

record codecs =
  base64_encode :: "bytes \<Rightarrow> string"
  base64_decode :: "nat \<Rightarrow> string \<Rightarrow> bytes option"
  hex_decode :: "nat \<Rightarrow> string \<Rightarrow> bytes option"

definition codecs_ok :: "codecs \<Rightarrow> bool" where
  "codecs_ok C \<longleftrightarrow> (\<forall>k. length k = 32 \<longrightarrow> length (base64_encode C k) = 44 \<and> base64_decode C 32 (base64_encode C k) = Some k) \<and>
     (\<forall>n s b. hex_decode C n s = Some b \<longrightarrow> length b = n) \<and> (\<forall>n s. length s mod 4 \<noteq> 0 \<longrightarrow> base64_decode C n s = None)"

datatype KeyError = IllegalCharacter | IllegalSize | InvalidLength nat | WrongForm

definition key_from_str :: "codecs \<Rightarrow> string \<Rightarrow> KeyError + bytes" where
  "key_from_str C s = (
     if length s = 64 then ok_or IllegalCharacter (hex_decode C 32 s)
     else if length s = 43 \<or> length s = 44 then
       (case base64_decode C 32 s of
          None \<Rightarrow> Inl IllegalCharacter
        | Some b \<Rightarrow> if length b \<noteq> 32 then Inl IllegalSize else Inr b)
     else Inl IllegalSize)"

definition key_display :: "codecs \<Rightarrow> bytes \<Rightarrow> string" where
  "key_display C k = base64_encode C k"

definition key_ser :: "codecs \<Rightarrow> bool \<Rightarrow> bytes \<Rightarrow> data" where
  "key_ser C human k = (if human then DataStr (base64_encode C k) else DataTuple k)"

definition visit_bytes :: "bytes \<Rightarrow> KeyError + bytes" where
  "visit_bytes b = (if length b = 32 then Inr b else Inl (InvalidLength (length b)))"

text \<open>The elements of a sequence are taken one by one into an array of 32 bytes; one more is an error.\<close>

fun visit_elements :: "nat \<Rightarrow> bytes \<Rightarrow> bytes \<Rightarrow> KeyError + (bytes \<times> bytes)" where
  "visit_elements 0 acc xs = Inr (acc, xs)"
| "visit_elements (Suc k) acc [] = Inl (InvalidLength (length acc))"
| "visit_elements (Suc k) acc (x # xs) = visit_elements k (acc @ [x]) xs"

definition visit_seq :: "bytes \<Rightarrow> KeyError + bytes" where
  "visit_seq xs = try_then (visit_elements 32 [] xs) (\<lambda>(b, rest). if rest \<noteq> [] then Inl (InvalidLength 33) else Inr b)"

definition key_de :: "codecs \<Rightarrow> bool \<Rightarrow> data \<Rightarrow> KeyError + bytes" where
  "key_de C human x = (case x of
     DataStr s \<Rightarrow> if human then key_from_str C s else Inl WrongForm
   | DataTuple b \<Rightarrow> if human then Inl WrongForm else visit_seq b
   | DataVariant _ _ \<Rightarrow> Inl WrongForm)"

lemma visit_elements_take:
  "visit_elements k acc xs = (if k \<le> length xs then Inr (acc @ take k xs, drop k xs) else Inl (InvalidLength (length acc + length xs)))"
  by (induction k acc xs rule: visit_elements.induct) auto

lemma visit_seq_exact: "visit_seq xs = (if length xs = 32 then Inr xs else Inl (InvalidLength (min 33 (length xs))))"
  by (simp add: visit_seq_def visit_elements_take)

section \<open>Time stamps and errors\<close>

text \<open>A time in nanoseconds since the epoch; the binary form has its whole seconds.\<close>

definition timestamp :: "int \<Rightarrow> int" where
  "timestamp t = t div 10 ^ 9"

definition map_timestamp_serialize :: "bool \<Rightarrow> int \<Rightarrow> int" where
  "map_timestamp_serialize human t = (if human then t else timestamp t)"

definition map_timestamp_deserialize :: "(int \<Rightarrow> bool) \<Rightarrow> bool \<Rightarrow> int \<Rightarrow> int option" where
  "map_timestamp_deserialize in_range human x = (if human then Some x else if in_range x then Some (x * 10 ^ 9) else None)"

definition format_message :: "nat \<Rightarrow> nat \<Rightarrow> string list" where
  "format_message actual limit =
     [''found '', show_radix 10 actual, '' peers, exceeds max of '', show_radix 10 limit, '' peers'']"

datatype ErrorCode = TooManyPeers

record DirectoryError =
  de_code :: ErrorCode
  de_message :: string

definition too_many_peers :: "(nat \<Rightarrow> string list \<Rightarrow> string) \<Rightarrow> nat \<Rightarrow> nat \<Rightarrow> DirectoryError" where
  "too_many_peers buffer actual limit = \<lparr>de_code = TooManyPeers, de_message = buffer 128 (format_message actual limit)\<rparr>"

lemma message_fits:
  assumes "actual < 2 ^ 64" "limit < 2 ^ 64"
  shows "length (concat (format_message actual limit)) \<le> 128"
proof -
  have "length (show_radix 10 n) \<le> 20" if "n < 2 ^ 64" for n
    using show_radix_length [of 10 20 n] that by simp
  from this [OF assms(1)] this [OF assms(2)] show ?thesis by (simp add: format_message_def)
qed

section \<open>Properties\<close>

text \<open>A key survives both serialized forms, and every key that is read, from text or from a sequence,
  has 32 bytes.\<close>

theorem key_forms_roundtrip:
  assumes "codecs_ok C"
  shows "(length k = 32 \<longrightarrow> key_de C human (key_ser C human k) = Inr k) \<and> (key_de C human x = Inr k' \<longrightarrow> length k' = 32)"
proof -
  have "key_from_str C s = Inr k' \<Longrightarrow> length k' = 32" for s
    using assms by (auto simp: key_from_str_def codecs_ok_def ok_or_Inr split: if_splits option.splits)
  then show ?thesis using assms
    by (auto simp: key_de_def key_ser_def key_from_str_def codecs_ok_def visit_seq_exact split: data.splits if_splits)
qed

definition plain_codecs :: codecs where
  "plain_codecs = \<lparr>base64_encode = \<lambda>k. map (\<lambda>b. char_of (unat b)) k @ replicate 12 CHR ''='',
     base64_decode = \<lambda>n s. if length s mod 4 = 0 then Some (map (\<lambda>c. of_nat (of_char c)) (take n s)) else None, hex_decode = \<lambda>_ _. None\<rparr>"

lemma plain_codecs_ok: "codecs_ok plain_codecs"
proof -
  have "of_nat (of_char (char_of (unat b) :: char)) = b" for b :: u8
    using unsigned_less [of b, where 'a = nat] by simp
  then show ?thesis by (simp add: codecs_ok_def plain_codecs_def comp_def)
qed

theorem key_forms_roundtrip_witness:
  "key_de plain_codecs True (key_ser plain_codecs True (replicate 32 7)) = Inr (replicate 32 7)"
  using key_forms_roundtrip [OF plain_codecs_ok, of "replicate 32 7" True "DataStr []" "[]"] by simp

text \<open>A key in base64 without its padding has 43 characters, a length \<open>from_str\<close> lets through, and the padded codec refuses it.\<close>

theorem unpadded_key_refused: "codecs_ok C \<Longrightarrow> length s = 43 \<Longrightarrow> key_from_str C s = Inl IllegalCharacter"
  by (simp add: key_from_str_def codecs_ok_def)

text \<open>C40. The binary form of a network map has the whole seconds of its time stamp only: a map that was
  changed later within the second of the map in force is taken for a stale one and never applied,
  as long as it stays the newest.\<close>

theorem same_second_map_is_stale:
  assumes "timestamp t' = timestamp t" "in_range (timestamp t)"
    and "rc_last_applied rc = map_timestamp_deserialize in_range False (map_timestamp_serialize False t)"
    and "Some (nm_updated_at m) = map_timestamp_deserialize in_range False (map_timestamp_serialize False t')"
  shows "reconcile_network_map V now m rc rng = Ret (Inr False, rc, rng)"
  using assms by (simp add: reconcile_network_map_def map_timestamp_deserialize_def map_timestamp_serialize_def)

theorem same_second_map_is_stale_witness:
  "reconcile_network_map sample_control 0 (two_routes\<lparr>nm_updated_at := 5 * 10 ^ 9\<rparr>) (sample_reconciler\<lparr>rc_last_applied := Some (5 * 10 ^ 9)\<rparr>) 3 =
     Ret (Inr False, sample_reconciler\<lparr>rc_last_applied := Some (5 * 10 ^ 9)\<rparr>, 3)"
  by (rule same_second_map_is_stale [where t = "5 * 10 ^ 9 + 2" and t' = "5 * 10 ^ 9 + 9" and in_range = "\<lambda>_. True"])
    (simp_all add: timestamp_def map_timestamp_serialize_def map_timestamp_deserialize_def)

end
