(* ===== verification/Desktop_Client.thy ===== *)
theory Desktop_Client
  imports Serialized_Forms
begin

text \<open>
  The desktop client (\<^verbatim>\<open>src/desktop-client\<close>): the directories of its configuration, the start of the
  device and of the reconciler, and the fetcher of network maps. Name lookup, the connection bound
  to the interface, the HTTP exchange and the decoder of maps are arguments.
\<close>

section \<open>Directories\<close>

record Directory =
  dir_public_key :: bytes
  dir_tunnel_ips :: "IpAddr list"
  dir_endpoint :: string

record Config =
  cf_listen_port :: u16
  cf_private_key :: bytes
  cf_address :: IpNet
  cf_directories :: "Directory list"

datatype ClientError =
    NoDirectories
  | NoTunnelIps bytes
  | NoEndpoint bytes
  | ResolveFailed string
  | NoAddresses string
  | InvalidPrefix
  | DeviceCreation DeviceError
  | HttpFailed string
  | HttpStatus nat
  | InvalidUrl string
  | DecodeFailed

text \<open>The trait \<^verbatim>\<open>DirectoryPeer\<close> and its two implementations; \<open>resolve\<close> is the lookup of a host and port.\<close>

record 'd directory_peer =
  dp_key :: "'d \<Rightarrow> bytes"
  dp_tunnel_ips :: "'d \<Rightarrow> IpAddr list"
  dp_endpoint :: "'d \<Rightarrow> ClientError + SocketAddr option"

definition directory_endpoint :: "(string \<Rightarrow> SocketAddr list option) \<Rightarrow> Directory \<Rightarrow> ClientError + SocketAddr option" where
  "directory_endpoint resolve d = (case resolve (dir_endpoint d) of
     None \<Rightarrow> Inl (ResolveFailed (dir_endpoint d))
   | Some [] \<Rightarrow> Inl (NoAddresses (dir_endpoint d))
   | Some (a # _) \<Rightarrow> Inr (Some a))"

definition config_directory :: "(string \<Rightarrow> SocketAddr list option) \<Rightarrow> Directory directory_peer" where
  "config_directory resolve = \<lparr>dp_key = dir_public_key, dp_tunnel_ips = dir_tunnel_ips, dp_endpoint = directory_endpoint resolve\<rparr>"

fun direct_endpoint :: "Route list \<Rightarrow> SocketAddr option" where
  "direct_endpoint [] = None"
| "direct_endpoint (r # rs) = (case rt_kind r of
     KindDirect (Some e) \<Rightarrow> Some e
   | _ \<Rightarrow> direct_endpoint rs)"

definition map_directory :: "MapPeer directory_peer" where
  "map_directory = \<lparr>dp_key = mp_public_key, dp_tunnel_ips = (\<lambda>p. case mp_tunnel_ip p of Some ip \<Rightarrow> [ip] | None \<Rightarrow> []),
     dp_endpoint = (\<lambda>p. Inr (direct_endpoint (mp_routes p)))\<rparr>"

section \<open>The fetcher\<close>

definition DEFAULT_HTTP_PORT :: u16 where "DEFAULT_HTTP_PORT = 80"
definition NETWORK_MAP_PATH :: string where "NETWORK_MAP_PATH = ''/v1alpha1/map''"

record DirectoryMapEndpoint =
  ep_host :: string
  ep_port :: u16
  ep_path :: string

definition from_directory :: "'d directory_peer \<Rightarrow> 'd \<Rightarrow> ClientError + DirectoryMapEndpoint" where
  "from_directory D d = (case dp_tunnel_ips D d of
     [] \<Rightarrow> Inl (NoTunnelIps (dp_key D d))
   | ip # _ \<Rightarrow> Inr \<lparr>ep_host = concat (ip_display ip), ep_port = DEFAULT_HTTP_PORT, ep_path = NETWORK_MAP_PATH\<rparr>)"

definition format_http_host :: "string \<Rightarrow> string" where
  "format_http_host host = (if CHR '':'' \<in> set host \<and> hd host \<noteq> CHR ''['' then ''['' @ host @ '']'' else host)"

definition request_url :: "DirectoryMapEndpoint \<Rightarrow> string" where
  "request_url ep = ''http://'' @ format_http_host (ep_host ep) @ '':'' @ show_radix 10 (unat (ep_port ep)) @ ep_path ep"

text \<open>The conversion of a host and port: a literal address is taken as it is, anything else looked up.\<close>

definition to_socket_addrs :: "(string \<Rightarrow> SocketAddr list option) \<Rightarrow> string \<Rightarrow> u16 \<Rightarrow> SocketAddr list option" where
  "to_socket_addrs lookup host port = (case ipv4_from_str host of
     Some a \<Rightarrow> Some [SocketV4 a port]
   | None \<Rightarrow> (case ipv6_from_str host of Some a \<Rightarrow> Some [SocketV6 a port 0 0] | None \<Rightarrow> lookup host))"

definition socket_addr :: "(string \<Rightarrow> SocketAddr list option) \<Rightarrow> DirectoryMapEndpoint \<Rightarrow> ClientError + SocketAddr" where
  "socket_addr lookup ep = (case to_socket_addrs lookup (ep_host ep) (ep_port ep) of
     None \<Rightarrow> Inl (ResolveFailed (ep_host ep))
   | Some [] \<Rightarrow> Inl (NoAddresses (ep_host ep))
   | Some (a # _) \<Rightarrow> Inr a)"

text \<open>
  The network: a connection bound to an interface with the HTTP handshake on it, the check of a URL,
  and an exchange on a connection, which fails, or times out, or gives a status and a body.
\<close>

record 'c http =
  ht_lookup :: "string \<Rightarrow> SocketAddr list option"
  ht_connect :: "string \<Rightarrow> SocketAddr \<Rightarrow> string + 'c"
  ht_url_ok :: "string \<Rightarrow> bool"
  ht_send :: "'c \<Rightarrow> string \<Rightarrow> string + (nat \<times> (string + bytes))"
  ht_decode :: "bytes \<Rightarrow> NetworkMap option"

definition get_network_map_bytes :: "'c http \<Rightarrow> string \<Rightarrow> DirectoryMapEndpoint \<Rightarrow> ClientError + bytes" where
  "get_network_map_bytes H iface ep =
     try_then (socket_addr (ht_lookup H) ep) (\<lambda>addr.
     try_then (map_sum HttpFailed (\<lambda>c. c) (ht_connect H iface addr)) (\<lambda>c.
     if \<not> ht_url_ok H (request_url ep) then Inl (InvalidUrl (request_url ep)) else
     try_then (map_sum HttpFailed (\<lambda>x. x) (ht_send H c (request_url ep))) (\<lambda>(status, body).
     if \<not> (200 \<le> status \<and> status < 300) then Inl (HttpStatus status) else
     map_sum HttpFailed (\<lambda>b. b) body)))"

definition fetch_from :: "'c http \<Rightarrow> string \<Rightarrow> DirectoryMapEndpoint \<Rightarrow> ClientError + NetworkMap" where
  "fetch_from H iface ep = try_then (get_network_map_bytes H iface ep) (\<lambda>body. ok_or DecodeFailed (ht_decode H body))"

fun fetch_loop :: "'c http \<Rightarrow> string \<Rightarrow> 'd directory_peer \<Rightarrow> 'd list \<Rightarrow> ClientError option \<Rightarrow> ClientError + NetworkMap" where
  "fetch_loop H iface D [] last_error = Inl (case last_error of Some e \<Rightarrow> e | None \<Rightarrow> HttpFailed ''failed to fetch network map'')"
| "fetch_loop H iface D (d # ds) last_error = try_then (from_directory D d) (\<lambda>ep. case fetch_from H iface ep of
     Inr m \<Rightarrow> Inr m
   | Inl e \<Rightarrow> fetch_loop H iface D ds (Some e))"

definition fetch :: "'c http \<Rightarrow> string \<Rightarrow> 'd directory_peer \<Rightarrow> 'd list \<Rightarrow> ClientError + NetworkMap" where
  "fetch H iface D directories = (if directories = [] then Inl NoDirectories else fetch_loop H iface D directories None)"

definition fetch_network_map :: "'c http \<Rightarrow> string \<Rightarrow> MapPeer list \<Rightarrow> ClientError + NetworkMap" where
  "fetch_network_map H iface directories = fetch H iface map_directory directories"

section \<open>The start\<close>

fun collect :: "('a \<Rightarrow> 'e + 'b) \<Rightarrow> 'a list \<Rightarrow> 'e + 'b list" where
  "collect f [] = Inr []"
| "collect f (x # xs) = try_then (f x) (\<lambda>y. try_then (collect f xs) (\<lambda>ys. Inr (y # ys)))"

definition directory_peer_config :: "'d directory_peer \<Rightarrow> 'd \<Rightarrow> ClientError + PeerConfig" where
  "directory_peer_config D d =
     try_then (collect (\<lambda>ip. case ip of
         AddrV4 a \<Rightarrow> map_sum (\<lambda>_. InvalidPrefix) (\<lambda>n. n) (ipnet_new (AddrV4 a) 32)
       | AddrV6 a \<Rightarrow> map_sum (\<lambda>_. InvalidPrefix) (\<lambda>n. n) (ipnet_new (AddrV6 a) 128)) (dp_tunnel_ips D d)) (\<lambda>allowed_ips.
     try_then (dp_endpoint D d) (\<lambda>endpoint.
     try_then (ok_or (NoEndpoint (dp_key D d)) endpoint) (\<lambda>e.
     Inr \<lparr>pc_public_key = dp_key D d, pc_endpoint = Some e, pc_allowed_ips = allowed_ips, pc_keepalive = Some 25, pc_relay = None\<rparr>)))"

definition directory_peer_configs :: "'d directory_peer \<Rightarrow> 'd list \<Rightarrow> ClientError + PeerConfig list" where
  "directory_peer_configs D directories = (if directories = [] then Inl NoDirectories else collect (directory_peer_config D) directories)"

definition reconciler_directory :: "(string \<Rightarrow> SocketAddr list option) \<Rightarrow> nat \<times> Directory \<Rightarrow> ClientError + MapPeer" where
  "reconciler_directory resolve x = (case x of (index, d) \<Rightarrow>
     try_then (directory_endpoint resolve d) (\<lambda>endpoint.
     Inr \<lparr>mp_id = int index, mp_public_key = dir_public_key d,
       mp_tunnel_ip = (case dir_tunnel_ips d of [] \<Rightarrow> None | ip # _ \<Rightarrow> Some ip), mp_is_directory = True,
       mp_routes = [\<lparr>rt_priority = 0, rt_kind = KindDirect endpoint\<rparr>]\<rparr>))"

definition reconciler_directories_from_config :: "(string \<Rightarrow> SocketAddr list option) \<Rightarrow> Directory list \<Rightarrow> ClientError + MapPeer list" where
  "reconciler_directories_from_config resolve directories = (if directories = [] then Inl NoDirectories
     else collect (reconciler_directory resolve) (List.enumerate 0 directories))"

definition forwarding_authorizer :: "bool \<Rightarrow> GenericAuthorizer" where
  "forwarding_authorizer relay = (if relay then AllowAll else RejectAll)"

text \<open>What \<open>main\<close> builds before it starts the two loops: the device with the directories as peers, and the reconciler.\<close>

definition client_start ::
  "'p env \<Rightarrow> instant \<Rightarrow> (string \<Rightarrow> SocketAddr list option) \<Rightarrow> Config \<Rightarrow> TimeStamper \<Rightarrow> IndexGenerator \<Rightarrow> bytes \<Rightarrow> bytes \<Rightarrow> 'p \<Rightarrow>
     (ClientError + 'p device PeerReconciler) run" where
  "client_start E now resolve config stamper g secret_key nonce_key pool =
     (case directory_peer_configs (config_directory resolve) (cf_directories config) of
        Inl e \<Rightarrow> Ret (Inl e)
      | Inr peers \<Rightarrow> run_bind (device_new (ev_caps E) (ev_crypto E) now (cf_private_key config) peers stamper g secret_key nonce_key pool)
          (\<lambda>r. case r of
             Inl e \<Rightarrow> Ret (Inl (DeviceCreation e))
           | Inr d \<Rightarrow> (case reconciler_directories_from_config resolve (cf_directories config) of
               Inl e \<Rightarrow> Ret (Inl e)
             | Inr directories \<Rightarrow> Ret (Inr (reconciler_new d directories)))))"

section \<open>Where the fetcher connects\<close>

definition http_socket :: "IpAddr \<Rightarrow> SocketAddr" where
  "http_socket ip = (case ip of AddrV4 a \<Rightarrow> SocketV4 a 80 | AddrV6 a \<Rightarrow> SocketV6 a 80 0 0)"

definition http_host :: "IpAddr \<Rightarrow> string" where
  "http_host ip = (case ip of AddrV4 a \<Rightarrow> concat (ipv4_display a) | AddrV6 a \<Rightarrow> ''['' @ concat (ipv6_display a) @ '']'')"

lemma colon_free: "CHR '':'' \<notin> set (show_radix 10 n)"
  using show_radix_digits [of 10 n] by (auto dest!: bspec)

lemma ipv4_no_colon: "CHR '':'' \<notin> set (concat (ipv4_display a))"
  by (rule ipv4_bytes [of a]) (simp add: ipv4_display_def colon_free)

lemma ipv6_colon: "CHR '':'' \<in> set (concat (ipv6_display a))"
proof -
  obtain g h gs where "segments a = g # h # gs"
    using segments_length [of a] by (cases "segments a"; cases "tl (segments a)") auto
  then have "CHR '':'' \<in> set (concat (fmt_subslice (segments a)))" by simp
  then show ?thesis by (cases "zero_run 0 (segments a) (0, 0) (0, 0)") (simp add: ipv6_display_def Let_def)
qed

lemma subslice_head: "s = concat (fmt_subslice gs) @ CHR '':'' # t \<or> s = concat (fmt_subslice gs) \<and> gs \<noteq> [] \<Longrightarrow> hd s \<noteq> CHR ''[''"
proof -
  have "hd (hex g) \<noteq> CHR ''[''" for g using bspec [OF hex_digits hd_in_set, of g] by (auto simp: to_digit_def)
  then show "s = concat (fmt_subslice gs) @ CHR '':'' # t \<or> s = concat (fmt_subslice gs) \<and> gs \<noteq> [] \<Longrightarrow> ?thesis" by (cases gs) auto
qed

lemma ipv6_head: "hd (concat (ipv6_display a)) \<noteq> CHR ''[''"
proof -
  have "segments a \<noteq> []" using segments_length [of a] by force
  then have "hd (concat (fmt_subslice (segments a))) \<noteq> CHR ''[''" using subslice_head [of _ "segments a"] by blast
  moreover have "hd (concat (fmt_subslice gs) @ CHR '':'' # t) \<noteq> CHR ''[''" for gs t using subslice_head by blast
  ultimately show ?thesis by (cases "zero_run 0 (segments a) (0, 0) (0, 0)") (simp add: ipv6_display_def Let_def)
qed

lemma http_host_text: "format_http_host (concat (ip_display ip)) = http_host ip"
  using ipv4_no_colon ipv6_colon ipv6_head by (cases ip) (simp_all add: format_http_host_def http_host_def ip_display_def)

lemma ipv6_not_ipv4: "ipv4_from_str (concat (ipv6_display a)) = None"
  by (simp add: ipv4_from_str_def parse_with_def ipv6_no_ipv4)

lemma http_socket_text: "to_socket_addrs lookup (concat (ip_display ip)) 80 = Some [http_socket ip]"
  by (cases ip) (simp_all add: to_socket_addrs_def ip_display_def ipv4_from_display ipv6_from_display ipv6_not_ipv4 http_socket_def)

section \<open>The answer of the fetcher\<close>

definition answer_of :: "'c http \<Rightarrow> string \<Rightarrow> 'd directory_peer \<Rightarrow> 'd \<Rightarrow> ClientError + NetworkMap" where
  "answer_of H iface D d = try_then (from_directory D d) (fetch_from H iface)"

lemma fetch_loop_failing:
  "\<forall>d \<in> set ds. dp_tunnel_ips D d \<noteq> [] \<and> isl (answer_of H iface D d) \<Longrightarrow>
    fetch_loop H iface D (ds @ es) e = fetch_loop H iface D es (if ds = [] then e else Some (projl (answer_of H iface D (last ds))))"
proof (induction ds arbitrary: e)
  case (Cons d ds)
  then obtain ep x where "from_directory D d = Inr ep" "fetch_from H iface ep = Inl x"
    by (cases "dp_tunnel_ips D d"; cases "answer_of H iface D d") (auto simp: answer_of_def from_directory_def try_then_def)
  with Cons show ?case by (auto simp: answer_of_def)
qed simp

lemma fetch_loop_found:
  assumes "\<forall>d \<in> set ds. dp_tunnel_ips D d \<noteq> [] \<and> isl (answer_of H iface D d)" "answer_of H iface D d = Inr m"
  shows "fetch_loop H iface D (ds @ d # es) e = Inr m"
proof -
  from assms(2) obtain ep where "from_directory D d = Inr ep" "fetch_from H iface ep = Inr m" by (auto simp: answer_of_def try_then_Inr)
  then show ?thesis by (simp add: fetch_loop_failing [OF assms(1)])
qed

section \<open>Properties\<close>

text \<open>The fetcher asks a directory at its first tunnel address, port 80, and nowhere else: the address it
  prints into the endpoint is read back as that very address, without a name lookup, and the host
  of the URL is in brackets exactly for IPv6.\<close>

theorem fetch_connects_to_tunnel_ip:
  assumes "dp_tunnel_ips D d = ip # ips"
  shows "\<exists>ep. from_directory D d = Inr ep \<and> socket_addr lookup ep = Inr (http_socket ip) \<and>
    request_url ep = ''http://'' @ http_host ip @ '':80/v1alpha1/map''"
proof -
  have "show_radix 10 80 = ''80''" by (simp add: show_radix.simps digit_char_def)
  then show ?thesis using assms http_socket_text [of lookup ip]
    by (simp add: from_directory_def socket_addr_def request_url_def http_host_text DEFAULT_HTTP_PORT_def NETWORK_MAP_PATH_def)
qed

theorem fetch_connects_to_tunnel_ip_witness:
  "\<exists>ep. from_directory map_directory \<lparr>mp_id = 1, mp_public_key = [7], mp_tunnel_ip = Some (AddrV6 1), mp_is_directory = True, mp_routes = []\<rparr> = Inr ep \<and>
    socket_addr (\<lambda>_. None) ep = Inr (SocketV6 1 80 0 0)"
proof -
  let ?p = "\<lparr>mp_id = 1, mp_public_key = [7], mp_tunnel_ip = Some (AddrV6 1), mp_is_directory = True, mp_routes = []\<rparr> :: MapPeer"
  have "dp_tunnel_ips map_directory ?p = AddrV6 1 # []" by (simp add: map_directory_def)
  from fetch_connects_to_tunnel_ip [OF this, of "\<lambda>_. None"] show ?thesis by (auto simp: http_socket_def)
qed

text \<open>As long as every directory has a tunnel address, the fetcher returns the map of the first directory
  that answers with one, and the error of the last directory when none does.\<close>

theorem fetch_first_answer:
  assumes "\<forall>d \<in> set directories. dp_tunnel_ips D d \<noteq> []" "directories \<noteq> []"
  shows "fetch H iface D directories = (case filter (\<lambda>r. \<not> isl r) (map (answer_of H iface D) directories) of
    r # _ \<Rightarrow> r | [] \<Rightarrow> answer_of H iface D (last directories))"
proof (cases "\<exists>d \<in> set directories. \<not> isl (answer_of H iface D d)")
  case True
  then obtain ds d es where split: "directories = ds @ d # es" "\<not> isl (answer_of H iface D d)" "\<forall>x \<in> set ds. isl (answer_of H iface D x)"
    using split_list_first_prop [of directories "\<lambda>d. \<not> isl (answer_of H iface D d)"] by blast
  then obtain m where m: "answer_of H iface D d = Inr m" by (cases "answer_of H iface D d") auto
  have "fetch H iface D directories = Inr m"
    using fetch_loop_found [of ds D H iface d m es None] split m assms(1) by (auto simp: fetch_def)
  moreover have "filter (\<lambda>r. \<not> isl r) (map (answer_of H iface D) ds) = []" using split(3) by (auto simp: filter_empty_conv)
  ultimately show ?thesis using split(1,2) m by simp
next
  case False
  then have "filter (\<lambda>r. \<not> isl r) (map (answer_of H iface D) directories) = []" by (auto simp: filter_empty_conv)
  moreover have "fetch H iface D directories = Inl (projl (answer_of H iface D (last directories)))"
    using fetch_loop_failing [of directories D H iface "[]" None] False assms by (auto simp: fetch_def)
  moreover have "isl (answer_of H iface D (last directories))" using False assms(2) by auto
  ultimately show ?thesis by (cases "answer_of H iface D (last directories)") simp_all
qed

text \<open>C39. A directory without a tunnel address ends the fetch with an error as soon as it is its turn: the
  directories after it are never asked, whatever they would answer.\<close>

theorem fetch_stops_at_unaddressed:
  assumes "\<forall>d \<in> set ds. dp_tunnel_ips D d \<noteq> [] \<and> isl (answer_of H iface D d)" "dp_tunnel_ips D d = []"
  shows "fetch H iface D (ds @ d # es) = Inl (NoTunnelIps (dp_key D d))"
  using fetch_loop_failing [OF assms(1), of "d # es" None] assms(2) by (simp add: fetch_def from_directory_def)

text \<open>Two directories, the second of which answers: in this order it is found, behind one without an address it is not.\<close>

definition sample_directory :: "IpAddr option \<Rightarrow> MapPeer" where
  "sample_directory ip = \<lparr>mp_id = 1, mp_public_key = [7], mp_tunnel_ip = ip, mp_is_directory = True, mp_routes = []\<rparr>"

definition sample_http :: "SocketAddr http" where
  "sample_http = \<lparr>ht_lookup = (\<lambda>_. None), ht_connect = (\<lambda>_ a. if a = SocketV4 2 80 then Inr a else Inl ''refused''), ht_url_ok = (\<lambda>_. True),
     ht_send = (\<lambda>_ _. Inr (200, Inr [])), ht_decode = (\<lambda>_. Some two_routes)\<rparr>"

lemma sample_answer: "answer_of sample_http iface map_directory (sample_directory (Some (AddrV4 a))) = (if a = 2 then Inr two_routes else Inl (HttpFailed ''refused''))"
proof -
  have "dp_tunnel_ips map_directory (sample_directory (Some (AddrV4 a))) = [AddrV4 a]" by (simp add: map_directory_def sample_directory_def)
  moreover have "socket_addr lookup \<lparr>ep_host = concat (ip_display (AddrV4 a)), ep_port = DEFAULT_HTTP_PORT, ep_path = NETWORK_MAP_PATH\<rparr> = Inr (SocketV4 a 80)" for lookup
    using http_socket_text [of lookup "AddrV4 a"] by (simp add: socket_addr_def DEFAULT_HTTP_PORT_def http_socket_def)
  ultimately show ?thesis by (simp add: answer_of_def from_directory_def fetch_from_def get_network_map_bytes_def sample_http_def)
qed

theorem fetch_first_answer_witness:
  "fetch sample_http ''wg0'' map_directory [sample_directory (Some (AddrV4 1)), sample_directory (Some (AddrV4 2))] = Inr two_routes"
proof -
  have "\<forall>d \<in> set [sample_directory (Some (AddrV4 1)), sample_directory (Some (AddrV4 2))]. dp_tunnel_ips map_directory d \<noteq> []"
    by (simp add: map_directory_def sample_directory_def)
  from fetch_first_answer [OF this, of sample_http "''wg0''"] show ?thesis by (simp add: sample_answer)
qed

theorem fetch_stops_at_unaddressed_witness:
  "fetch sample_http ''wg0'' map_directory ([sample_directory (Some (AddrV4 1))] @ sample_directory None # [sample_directory (Some (AddrV4 2))]) = Inl (NoTunnelIps [7])"
proof -
  have "\<forall>d \<in> set [sample_directory (Some (AddrV4 1))]. dp_tunnel_ips map_directory d \<noteq> [] \<and> isl (answer_of sample_http ''wg0'' map_directory d)"
    by (simp add: sample_answer) (simp add: map_directory_def sample_directory_def)
  moreover have "dp_tunnel_ips map_directory (sample_directory None) = []" "dp_key map_directory (sample_directory None) = [7]"
    by (simp_all add: map_directory_def sample_directory_def)
  ultimately show ?thesis using fetch_stops_at_unaddressed by metis
qed

end
