(* ===== verification/Install_Success.thy ===== *)
theory Install_Success
  imports Control_Plane
begin

text \<open>
  When maps succeed. With collections that grow, the specification of the commands leaves only two
  reasons to refuse a peer: an address it shares with another one, or no room in the arenas of the
  prefix tables. So a map whose peers have distinct addresses is applied.
\<close>

section \<open>Commands that succeed\<close>

text \<open>A configuration fits when its networks share no address with those of the other peers and the tables have room.\<close>

definition config_fits :: "(bytes \<Rightarrow> peer_view option) \<Rightarrow> PeerConfig \<Rightarrow> bool" where
  "config_fits v c \<longleftrightarrow> spread (config_nets c) \<and> (\<forall>k w. v k = Some w \<and> k \<noteq> pc_public_key c \<longrightarrow> far (config_nets c) (pv_networks w)) \<and>
     length (pc_allowed_ips c) + total_nets v \<le> TABLE_ROOM"

lemma config_fits_spec:
  assumes "config_fits (installed d) c"
  shows "config_apart (peers_view (dv_peers d)) c" "config_room no_caps (peers_view (dv_peers d)) c"
proof -
  let ?v = "peers_view (dv_peers d)"
  have n: "?v k = Some w \<Longrightarrow> installed d k = Some (w\<lparr>pv_endpoint := None\<rparr>)" for k w by (simp add: installed_def)
  have "far (config_nets c) (pv_networks w)" if "?v k = Some w" "k \<noteq> pc_public_key c" for k w
    using assms n [OF that(1)] that(2) unfolding config_fits_def by fastforce
  then show "config_apart ?v c" using assms unfolding config_apart_def config_fits_def by blast
  have "total_nets ?v = total_nets (installed d)"
    unfolding total_nets_def installed_dom(2) by (intro sum.cong) (auto simp: n)
  then show "config_room no_caps ?v c" using assms by (simp add: config_room_def config_fits_def no_caps_def has_room_def)
qed

text \<open>A device whose collections grow.\<close>

definition open_take :: "'p env \<Rightarrow> nat \<Rightarrow> 'p device \<Rightarrow> bool" where
  "open_take E n d \<longleftrightarrow> can_take E n d \<and> ev_caps E = no_caps"

lemma fits_installs:
  assumes "config_fits (installed d) c" "installs no_caps c (peers_view (dv_peers d)) r v"
  shows "r = Inr NoOutput"
  using config_fits_spec [OF assms(1)] assms(2) by (auto simp: installs_def refusal_def split: sum.splits)

lemma add_succeeds:
  assumes "open_take E (Suc n) d" "config_wf c" "config_fits (installed d) c" "installed d (pc_public_key c) = None"
  shows "\<exists>d'. cl_add (command_client E now) c d = Ret (Inr (), d')"
proof -
  from execute_step [of E "Add c" n d now] assms(1,2) obtain r d' where e: "execute E now (Add c) d = Ret (r, d')"
    "command_spec no_caps (Add c) (peers_view (dv_peers d)) r (peers_view (dv_peers d'))" by (auto simp: open_take_def)
  then have "r = Inr NoOutput" using fits_installs [OF assms(3)] assms(4) by (simp add: command_spec_def installed_dom)
  with e show ?thesis by (simp add: command_client_def client_add_peer_def done_unit_def)
qed

lemma update_succeeds:
  assumes "open_take E n d" "config_wf c" "config_fits (installed d) c" "installed d (pc_public_key c) \<noteq> None"
  shows "\<exists>d'. cl_update (command_client E now) c d = Ret (Inr (), d')"
proof -
  from execute_step [of E "Update c" n d now] assms(1,2) obtain r d' where e: "execute E now (Update c) d = Ret (r, d')"
    "command_spec no_caps (Update c) (peers_view (dv_peers d)) r (peers_view (dv_peers d'))" by (auto simp: open_take_def)
  then have "r = Inr NoOutput" using fits_installs [OF assms(3)] assms(4) by (simp add: command_spec_def installed_dom split: if_splits)
  with e show ?thesis by (simp add: command_client_def client_update_peer_def done_unit_def)
qed

section \<open>A client whose commands succeed\<close>

locale open_client = device_client +
  assumes add_done: "dinv (Suc n) d \<Longrightarrow> config_wf c \<Longrightarrow> config_fits (view d) c \<Longrightarrow> view d (pc_public_key c) = None \<Longrightarrow>
      \<exists>d'. cl_add X c d = Ret (Inr (), d')"
    and update_done: "dinv n d \<Longrightarrow> config_wf c \<Longrightarrow> config_fits (view d) c \<Longrightarrow> view d (pc_public_key c) \<noteq> None \<Longrightarrow>
      \<exists>d'. cl_update X c d = Ret (Inr (), d')"
    and finite_view: "dinv n d \<Longrightarrow> finite (dom (view d))"

interpretation open_command: open_client "command_client E now" "open_take E" installed
proof (unfold_locales, goal_cases)
  case (1 n d c) then show ?case using command.add_ok [of E n d c now] by (simp add: open_take_def)
next
  case (2 n d c) then show ?case using command.update_ok [of E n d c now] by (simp add: open_take_def)
next
  case (3 n d k) then show ?case using command.remove_ok [of E n d now k] by (simp add: open_take_def)
next
  case (4 n d k) then show ?case using command.get_ok [of E n d now k] by (simp add: open_take_def)
next
  case (5 n d) then show ?case using command.list_ok [of E n d now] by (simp add: open_take_def)
next
  case (6 n d k1 v1 k2 v2 x) then show ?case using command.exclusive [of E n d k1 v1 k2 v2 x] by (simp add: open_take_def)
next
  case (7 n d c) then show ?case by (rule add_succeeds)
next
  case (8 n d c) then show ?case by (rule update_succeeds)
next
  case (9 n d) show ?case unfolding installed_dom peers_view_def peer_by_key_def by (simp add: dom_map_option finite_dom_map_of)
qed

section \<open>A map whose addresses are distinct\<close>

lemma bits_full: "bits (x :: 'w::len word) LENGTH('w) = bits y LENGTH('w) \<longleftrightarrow> x = y"
proof
  assume b: "bits x LENGTH('w) = bits y LENGTH('w)"
  show "x = y"
  proof (rule bit_word_eqI)
    fix n assume n: "n < LENGTH('w)"
    then have "bit_at x (LENGTH('w) - 1 - n) = bit_at y (LENGTH('w) - 1 - n)" using arg_cong [OF b, of "\<lambda>l. l ! (LENGTH('w) - 1 - n)"] by simp
    with n show "bit x n \<longleftrightarrow> bit y n" by (simp add: bit_at_bit)
  qed
qed simp

lemma host_matches: "key_matches (ipnet_key (host_net a)) b \<longleftrightarrow> b = a"
  using bits_full [where 'w = 32] bits_full [where 'w = 128] by (cases a; cases b) (auto simp: prefix_bits_iff)

lemma far_address: "(\<And>x. x \<in> B \<Longrightarrow> \<not> key_matches x a) \<Longrightarrow> far {ipnet_key (host_net a)} B"
  by (auto simp: far_def apart_def host_matches)

definition addresses_distinct :: "NetworkMap \<Rightarrow> bool" where
  "addresses_distinct m \<longleftrightarrow> (\<forall>k j p q a. last_with_key k (nm_peers m) = Some p \<and> last_with_key j (nm_peers m) = Some q \<and>
     mp_tunnel_ip p = Some a \<and> mp_tunnel_ip q = Some a \<longrightarrow> k = j)"

text \<open>No other installed peer of the map holds the address of a peer; those not in the map are removed first.\<close>

definition addresses_free :: "NetworkMap \<Rightarrow> (bytes \<Rightarrow> peer_view option) \<Rightarrow> bool" where
  "addresses_free m v \<longleftrightarrow> (\<forall>k j p a w x. last_with_key k (nm_peers m) = Some p \<and> mp_tunnel_ip p = Some a \<and>
     last_with_key j (nm_peers m) \<noteq> None \<and> v j = Some w \<and> x \<in> pv_networks w \<and> key_matches x a \<longrightarrow> k = j)"

lemma planned_address: "planned m p d \<Longrightarrow> dp_allowed_ips d = (case mp_tunnel_ip p of None \<Rightarrow> [] | Some a \<Rightarrow> [a])"
  by (auto simp: planned_def wanted_def reselected_def set_active_policy_def Let_def)

lemma dp_config_nets: "pc_allowed_ips (dp_config p) = map host_net (dp_allowed_ips p)" "pv_networks (core_view c) = config_nets c"
  by (auto simp: dp_config_def config_for_policy_def core_view_def config_view_def config_nets_def split: prod.split)

lemma route_keys_done: "route_keys_for_policies None ps = Inr (map route_key ps)"
proof -
  have "route_keys_loop None ps acc = Inr (acc @ map route_key ps)" for acc
    by (induction ps arbitrary: acc) (simp_all add: try_push_def has_room_def)
  then show ?thesis by (simp add: route_keys_for_policies_def)
qed

lemma directories_done: "\<exists>ds. directory_servers_from_map None m = Inr ds"
proof -
  have "\<exists>ds. directory_loop None ps acc = Inr ds" for ps acc
    by (induction ps arbitrary: acc) (simp_all add: try_push_def has_room_def)
  then show ?thesis by (simp add: directory_servers_from_map_def)
qed

lemma policies_done: "\<exists>ps. route_policies_for_peer None m p = Inr ps"
proof -
  have "\<exists>out. expand_routes None m p rs ps = Inr out" for rs ps
    by (induction rs arbitrary: ps) (auto simp: try_push_def has_room_def split: RouteKind.split option.split)
  moreover have "\<exists>out. dedupe_loop None ps es = Inr out" for ps es
    by (induction ps arbitrary: es) (auto simp: try_push_def has_room_def split: option.split)
  ultimately show ?thesis unfolding route_policies_for_peer_def dedupe_and_sort_policies_def
    by (smt (verit) capacity_simps(1) has_room_def option.simps(4) sum.simps(6) try_push_def)
qed

lemma desired_done: "\<exists>desired rng'. desired_peers_from_map \<lparr>cc_peers = None, cc_allowed = None, cc_routes = None\<rparr> next_u64 m rng = (Inr desired, rng')"
proof -
  let ?K = "\<lparr>cc_peers = None, cc_allowed = None, cc_routes = None\<rparr>"
  have "\<exists>out rng'. desired_loop ?K next_u64 m ps rng desired = (Inr out, rng')" for ps rng desired
  proof (induction ps arbitrary: rng desired)
    case (Cons p ps)
    from policies_done [of m p] obtain policies where "route_policies_for_peer None m p = Inr policies" by blast
    with Cons show ?case by (auto simp: try_push_def try_insert_entry_def has_room_def split: option.split prod.split)
  qed simp
  then show ?thesis by (simp add: desired_peers_from_map_def)
qed

lemma total_nets_update: assumes "finite (dom v)" shows "total_nets (v(k \<mapsto> w)) \<le> total_nets v + card (pv_networks w)"
proof -
  have "total_nets (v(k \<mapsto> w)) = card (pv_networks w) + (\<Sum>j \<in> dom v - {k}. card (pv_networks (the ((v(k \<mapsto> w)) j))))"
    using assms by (simp add: total_nets_def sum.insert_remove)
  also have "(\<Sum>j \<in> dom v - {k}. card (pv_networks (the ((v(k \<mapsto> w)) j)))) = (\<Sum>j \<in> dom v - {k}. card (pv_networks (the (v j))))"
    by (intro sum.cong) auto
  also have "\<dots> \<le> total_nets v" unfolding total_nets_def using assms by (intro sum_mono2) auto
  finally show ?thesis by (simp only: add.commute add_le_mono1)
qed

lemma total_nets_part: assumes "finite (dom v)" "\<forall>k. v' k = None \<or> v' k = v k" shows "total_nets v' \<le> total_nets v"
proof -
  have "total_nets v' = (\<Sum>k \<in> dom v'. card (pv_networks (the (v k))))" unfolding total_nets_def
    using assms(2) by (intro sum.cong) (auto, metis option.sel option.distinct(1))
  also have "\<dots> \<le> total_nets v" unfolding total_nets_def
    using assms by (intro sum_mono2) (auto, metis option.distinct(1))
  finally show ?thesis .
qed

text \<open>What the desired peers need of the device: room, and addresses no other peer holds.\<close>

definition addressed :: "desired_map \<Rightarrow> bool" where
  "addressed desired \<longleftrightarrow> (\<forall>(k, p) \<in> set desired. length (dp_allowed_ips p) \<le> 1 \<and>
     (\<forall>(j, q) \<in> set desired. k \<noteq> j \<longrightarrow> far (config_nets (dp_config p)) (config_nets (dp_config q))))"

definition accepts :: "desired_map \<Rightarrow> (bytes \<Rightarrow> peer_view option) \<Rightarrow> bool" where
  "accepts desired v \<longleftrightarrow> total_nets v + length desired \<le> TABLE_ROOM \<and>
     (\<forall>(k, p) \<in> set desired. \<forall>j w. v j = Some w \<and> j \<noteq> k \<longrightarrow> far (config_nets (dp_config p)) (pv_networks w))"

lemma short_nets: assumes "length (dp_allowed_ips p) \<le> 1"
  shows "spread (config_nets (dp_config p))" "card (config_nets (dp_config p)) \<le> 1"
proof -
  consider "dp_allowed_ips p = []" | a where "dp_allowed_ips p = [a]"
    using assms by (cases "dp_allowed_ips p") auto
  then have "spread (config_nets (dp_config p)) \<and> card (config_nets (dp_config p)) \<le> 1"
    by cases (simp_all add: config_nets_def dp_config_nets spread_def)
  then show "spread (config_nets (dp_config p))" "card (config_nets (dp_config p)) \<le> 1" by simp_all
qed

lemma accepts_fits:
  assumes "accepts ((k, p) # rest) v" "length (dp_allowed_ips p) \<le> 1" "dp_public_key p = k"
  shows "config_fits v (dp_config p)"
proof -
  have "length (pc_allowed_ips (dp_config p)) + total_nets v \<le> TABLE_ROOM"
    using assms(1,2) by (simp add: accepts_def dp_config_nets)
  then show ?thesis using assms short_nets(1) by (simp add: config_fits_def accepts_def)
qed

lemma accepts_next:
  assumes "accepts ((k, p) # rest) v" "addressed ((k, p) # rest)" "k \<notin> fst ` set rest" "finite (dom v)"
    and "v' k = Some (core_view (dp_config p)) \<or> v' k = v k" "\<forall>j. j \<noteq> k \<longrightarrow> v' j = v j"
  shows "accepts rest v'"
proof -
  have v': "v' = v(k \<mapsto> core_view (dp_config p)) \<or> v' = v" using assms(5,6) by (auto simp: fun_eq_iff)
  have p: "length (dp_allowed_ips p) \<le> 1" using assms(2) by (simp add: addressed_def)
  have "total_nets v' \<le> total_nets v + 1"
    using total_nets_update [OF assms(4), of k "core_view (dp_config p)"] short_nets(2) [OF p] v' by (auto simp: dp_config_nets)
  then have "total_nets v' + length rest \<le> TABLE_ROOM" using assms(1) by (simp add: accepts_def)
  moreover have "far (config_nets (dp_config q)) (pv_networks w)" if "(i, q) \<in> set rest" "v' j = Some w" "j \<noteq> i" for i q j w
  proof (cases "j = k \<and> v' k \<noteq> v k")
    case True
    then have "i \<noteq> k" using that(3) by simp
    with assms(2) that(1) have "far (config_nets (dp_config q)) (config_nets (dp_config p))" unfolding addressed_def by fastforce
    moreover have "w = core_view (dp_config p)" using True that(2) assms(5) by simp
    ultimately show ?thesis by (simp add: dp_config_nets)
  next
    case False
    then have "v j = Some w" using that(2) assms(6) by metis
    with assms(1) that show ?thesis unfolding accepts_def by fastforce
  qed
  ultimately show ?thesis unfolding accepts_def by blast
qed

lemma plan_member:
  assumes "plan_of m desired" "plan_ok desired" "(k, d) \<in> set desired"
  shows "\<exists>p. last_with_key k (nm_peers m) = Some p \<and>
    config_nets (dp_config d) = (case mp_tunnel_ip p of None \<Rightarrow> {} | Some a \<Rightarrow> {ipnet_key (host_net a)}) \<and> length (dp_allowed_ips d) \<le> 1"
proof -
  have d: "map_of desired k = Some d" using assms(2,3) by (simp add: plan_ok_def)
  with assms(1) [unfolded plan_of_def, rule_format, of k] obtain p where p: "last_with_key k (nm_peers m) = Some p" "planned m p d"
    by (auto split: option.splits)
  then show ?thesis using planned_address [OF p(2)] by (cases "mp_tunnel_ip p") (simp_all add: config_nets_def dp_config_nets)
qed

lemma plan_length: assumes "plan_of m desired" "plan_ok desired" shows "length desired \<le> length (nm_peers m)"
proof -
  have "last_with_key k ps = Some p \<Longrightarrow> k \<in> mp_public_key ` set ps" for k ps p
    by (induction ps) (auto split: if_splits option.splits)
  then have "fst ` set desired \<subseteq> mp_public_key ` set (nm_peers m)" using plan_member [OF assms] by fastforce
  then have "card (fst ` set desired) \<le> card (mp_public_key ` set (nm_peers m))" by (simp add: card_mono)
  also have "\<dots> \<le> length (nm_peers m)" by (meson card_image_le card_length finite_set le_trans)
  finally show ?thesis using assms(2) distinct_card [of "map fst desired"] by (simp add: plan_ok_def)
qed

lemma plan_addressed:
  assumes "plan_of m desired" "plan_ok desired" "addresses_distinct m"
  shows "addressed desired"
proof -
  have "far (config_nets (dp_config p)) (config_nets (dp_config q))" if "(k, p) \<in> set desired" "(j, q) \<in> set desired" "k \<noteq> j" for k p j q
  proof -
    from plan_member [OF assms(1,2) that(1)] plan_member [OF assms(1,2) that(2)] obtain x y where
      x: "last_with_key k (nm_peers m) = Some x" "config_nets (dp_config p) = (case mp_tunnel_ip x of None \<Rightarrow> {} | Some a \<Rightarrow> {ipnet_key (host_net a)})" and
      y: "last_with_key j (nm_peers m) = Some y" "config_nets (dp_config q) = (case mp_tunnel_ip y of None \<Rightarrow> {} | Some a \<Rightarrow> {ipnet_key (host_net a)})"
      by blast
    have "mp_tunnel_ip x = Some a \<Longrightarrow> mp_tunnel_ip y = Some b \<Longrightarrow> a \<noteq> b" for a b
      using assms(3) x(1) y(1) that(3) unfolding addresses_distinct_def by blast
    then show ?thesis unfolding x y by (auto intro!: far_address simp: host_matches split: option.split)
  qed
  then show ?thesis using plan_member [OF assms(1,2)] unfolding addressed_def by fastforce
qed

lemma plan_accepted:
  assumes "plan_of m desired" "plan_ok desired" "addresses_free m v" "finite (dom v)" "total_nets v + length desired \<le> TABLE_ROOM"
    and "\<forall>k. v' k = (if k \<in> fst ` set desired then v k else None)"
  shows "accepts desired v'"
proof -
  have "far (config_nets (dp_config p)) (pv_networks w)" if "(k, p) \<in> set desired" "v' j = Some w" "j \<noteq> k" for k p j w
  proof -
    from that(2) assms(6) have j: "j \<in> fst ` set desired" "v j = Some w" by (auto split: if_splits)
    then obtain q where "(j, q) \<in> set desired" by force
    from plan_member [OF assms(1,2) this] have "last_with_key j (nm_peers m) \<noteq> None" by auto
    moreover from plan_member [OF assms(1,2) that(1)] obtain x where
      x: "last_with_key k (nm_peers m) = Some x" "config_nets (dp_config p) = (case mp_tunnel_ip x of None \<Rightarrow> {} | Some a \<Rightarrow> {ipnet_key (host_net a)})" by blast
    ultimately have "\<not> key_matches y a" if "mp_tunnel_ip x = Some a" "y \<in> pv_networks w" for a y
      using assms(3) j(2) that \<open>j \<noteq> k\<close> unfolding addresses_free_def by blast
    then show ?thesis unfolding x(2) by (auto intro!: far_address split: option.split)
  qed
  moreover have "total_nets v' \<le> total_nets v" by (rule total_nets_part [OF assms(4)]) (use assms(6) in simp)
  then have "total_nets v' + length desired \<le> TABLE_ROOM" using assms(5) by simp
  ultimately show ?thesis unfolding accepts_def by blast
qed

section \<open>The map pass over a client whose commands succeed\<close>

context open_client
begin

lemma apply_one_done:
  assumes "ce_client V = X" "cc_peers (ce_caps V) = None" "cc_routes (ce_caps V) = None" "dinv (Suc n) (rc_client rc)"
    and "dp_public_key p = key" "key \<in> set actual \<longleftrightarrow> view (rc_client rc) key \<noteq> None" "config_fits (view (rc_client rc)) (dp_config p)"
  shows "returns (\<lambda>(r, rc', rng'). r = Inr () \<and>
    (view (rc_client rc') key = Some (core_view (dp_config p)) \<or> view (rc_client rc') key = view (rc_client rc) key)) (apply_one V actual key p now rc rng)"
proof -
  have o: "\<exists>d'. op (dp_config p) (rc_client rc) = Ret (Inr (), d') \<and> view d' key = Some (core_view (dp_config p))"
    if op: "op = (if key \<in> set actual then cl_update X else cl_add X)" for op
  proof (cases "key \<in> set actual")
    case True
    with update_done [OF assms(4) _ assms(7)] update_ok [OF assms(4), of "dp_config p"] assms(5,6) op show ?thesis by auto
  next
    case False
    with add_done [OF assms(4) _ assms(7)] add_ok [OF assms(4), of "dp_config p"] assms(5,6) op show ?thesis by auto
  qed
  have w: "returns (\<lambda>(r, rc'). r = Inr () \<and> view (rc_client rc') key = Some (core_view (dp_config p))) (write_peer V op key (dp_config p) rc)"
    if "op = (if key \<in> set actual then cl_update X else cl_add X)" for op
    using o [OF that] assms(2) by (auto simp: write_peer_def record_fingerprint_def try_insert_entry_def has_room_def)
  have "returns (\<lambda>(r, rc'). r = Inr () \<and> (view (rc_client rc') key = Some (core_view (dp_config p)) \<or> view (rc_client rc') key = view (rc_client rc) key))
    (apply_peer V actual key p rc)"
    using w assms(1) by (auto simp: apply_peer_def Let_def intro: returns_mono)
  then show ?thesis unfolding apply_one_def assms(3) route_keys_done
    by (rule returns_bindI)
      (use assms(2) in \<open>auto simp: track_active_policy_def try_insert_entry_def has_room_def split: option.split prod.split\<close>)
qed

lemma apply_desired_done:
  assumes "ce_client V = X" "cc_peers (ce_caps V) = None" "cc_routes (ce_caps V) = None" "plan_ok desired" "knows view V now rc"
    and "dinv (length desired + n) (rc_client rc)" "\<forall>k \<in> fst ` set desired. k \<in> set actual \<longleftrightarrow> view (rc_client rc) k \<noteq> None"
    and "addressed desired" "accepts desired (view (rc_client rc))"
  shows "returns (\<lambda>(r, rc', rng'). r = Inr ()) (apply_desired_peers V actual desired now rc rng)"
  using assms(4-)
proof (induction desired arbitrary: rc rng n)
  case (Cons e rest)
  obtain key p where e: "e = (key, p)" by force
  let ?m = "length rest + n"
  have p: "dp_public_key p = key" "dp_policies p \<noteq> []" "key \<notin> fst ` set rest" "plan_ok rest" "length (dp_allowed_ips p) \<le> 1"
    using Cons.prems(1,5) e by (auto simp: addressed_def)
  have d: "dinv (Suc ?m) (rc_client rc)" and a: "key \<in> set actual \<longleftrightarrow> view (rc_client rc) key \<noteq> None"
    using Cons.prems(3,4) e by simp_all
  from Cons.prems(6) e have acc: "accepts ((key, p) # rest) (view (rc_client rc))" by simp
  from returnsD [OF apply_one_done [OF assms(1-3) d p(1) a accepts_fits [OF acc p(5,1)]], of now rng] obtain rc1 rng1 where
    one: "apply_one V actual key p now rc rng = Ret (Inr (), rc1, rng1)" and
    key: "view (rc_client rc1) key = Some (core_view (dp_config p)) \<or> view (rc_client rc1) key = view (rc_client rc) key" by auto
  with returnsD [OF apply_one_ok [OF assms(1) d Cons.prems(2) p(1,2), of actual rng]] a
  have ap: "applied V ?m now [(key, p)] rc (Inr ()) rc1" by auto
  then obtain i where i: "i \<ge> ?m" "dinv i (rc_client rc1)" "knows view V now rc1" by (auto simp: applied_def)
  from ap have same: "view (rc_client rc1) k = view (rc_client rc) k" if "k \<noteq> key" for k using that by (simp add: applied_def same_at_def)
  from ap have some: "view (rc_client rc1) key \<noteq> None" by (auto simp: applied_def settled_def has_config_def in_force_def)
  have "accepts rest (view (rc_client rc1))"
    by (rule accepts_next [OF acc _ p(3) finite_view [OF d], where v' = "view (rc_client rc1)"]) (use key Cons.prems(5) e same in auto)
  moreover have "\<forall>k \<in> fst ` set rest. k \<in> set actual \<longleftrightarrow> view (rc_client rc1) k \<noteq> None"
  proof
    fix k assume k: "k \<in> fst ` set rest"
    then have "k \<noteq> key" using p(3) by blast
    moreover have "k \<in> fst ` set (e # rest)" using k by simp
    then have "k \<in> set actual \<longleftrightarrow> view (rc_client rc) k \<noteq> None" using Cons.prems(4) by blast
    ultimately show "k \<in> set actual \<longleftrightarrow> view (rc_client rc1) k \<noteq> None" using same [of k] by simp
  qed
  moreover have "dinv (length rest + (i - length rest)) (rc_client rc1)" using i by simp
  moreover have "addressed rest" using Cons.prems(5) e by (auto simp: addressed_def)
  ultimately show ?case using Cons.IH [OF p(4) i(3)] one e by simp
qed simp

lemma map_pass_done:
  assumes V: "ce_client V = X" "ce_caps V = \<lparr>cc_peers = None, cc_allowed = None, cc_routes = None\<rparr>" and k: "knows view V now rc"
    and d: "dinv (length (nm_peers m) + n) (rc_client rc)"
    and fresh: "\<forall>t. rc_last_applied rc = Some t \<longrightarrow> t < nm_updated_at m"
    and a: "addresses_distinct m" "addresses_free m (view (rc_client rc))"
    and room: "total_nets (view (rc_client rc)) + length (nm_peers m) \<le> TABLE_ROOM"
  shows "returns (\<lambda>(r, rc', rng'). r = Inr True) (reconcile_network_map V now m rc rng)"
proof (rule reconcile_returnsI [OF V(1) k d], goal_cases)
  case (1 t)
  then show ?case using fresh by auto
next
  case (2 e rng')
  then show ?case using desired_done [of "ce_next_u64 V" m rng] V(2) by simp
next
  case (3 actual desired rc1 rc2 rng1)
  have act: "set actual = dom (view (rc_client rc1))" using 3(3,6) by simp
  note ready = removed_ready [OF 3(7) act]
  from ready(1) obtain n' where n': "dinv (length desired + n') (rc_client rc2)" by blast
  have v: "\<forall>k. view (rc_client rc2) k = (if k \<in> fst ` set desired then view (rc_client rc) k else None)"
    using 3(3,6,7) by (auto simp: removed_def map_of_eq_None_iff)
  have "accepts desired (view (rc_client rc2))" using room plan_length [OF 3(2,1)] by (intro plan_accepted [OF 3(2,1) a(2) finite_view [OF d] _ v]) simp
  moreover have "\<forall>k \<in> fst ` set desired. k \<in> set actual \<longleftrightarrow> view (rc_client rc2) k \<noteq> None" using v 3(3) by auto
  ultimately have "returns (\<lambda>(r, rc', rng'). r = Inr ()) (apply_desired_peers V actual desired now rc2 rng1)"
    using V(2) by (intro apply_desired_done [OF V(1) _ _ 3(1) ready(2) n' _ plan_addressed [OF 3(2,1) a(1)]]) simp_all
  then show ?case by (rule returns_bindI) (use directories_done [of m] V(2) in \<open>auto simp: commit_map_def\<close>)
qed

end

lemma open_map_pass:
  assumes "ce_client V = command_client E t" and "ev_caps E = no_caps" and "ce_caps V = \<lparr>cc_peers = None, cc_allowed = None, cc_routes = None\<rparr>"
    and "knows installed V now rc" and "can_take E (length (nm_peers m) + n) (rc_client rc)"
    and "\<forall>s. rc_last_applied rc = Some s \<longrightarrow> s < nm_updated_at m"
    and "addresses_distinct m" and "addresses_free m (installed (rc_client rc))"
    and "total_nets (installed (rc_client rc)) + length (nm_peers m) \<le> TABLE_ROOM"
  shows "\<exists>rc' rng'. reconcile_network_map V now m rc rng = Ret (Inr True, rc', rng') \<and> coherent installed V rc' \<and> plan_of m (rc_desired rc')"
proof -
  have o: "open_take E (length (nm_peers m) + n) (rc_client rc)"
    using assms(2,5) by (simp add: open_take_def)
  from returnsD [OF open_command.map_pass_done [OF assms(1,3,4) o assms(6-9), of rng]] obtain rc' rng' where
    "reconcile_network_map V now m rc rng = Ret (Inr True, rc', rng')" by auto
  with returnsD [OF command.reconcile_ok [OF assms(1,4,5), of rng]] show ?thesis by (auto simp: map_outcome_def)
qed

section \<open>Properties\<close>

text \<open>C8. A map with distinct addresses is applied: without bounds on the collections, when no two peers of the map have
  the same tunnel address, no address is held by another peer of the map, the tables have room and the
  index generator can pay, a newer map is reported as applied, and the device and the plan are those of the
  map, whatever peers were installed before, and whatever the generator draws.\<close>

theorem map_pass_succeeds:
  assumes "ce_client V = command_client E t" and "ev_caps E = no_caps" and "ce_caps V = \<lparr>cc_peers = None, cc_allowed = None, cc_routes = None\<rparr>"
    and "knows installed V now rc" and "can_take E (length (nm_peers m) + n) (rc_client rc)"
    and "\<forall>s. rc_last_applied rc = Some s \<longrightarrow> s < nm_updated_at m"
    and "addresses_distinct m" and "addresses_free m (installed (rc_client rc))"
    and "total_nets (installed (rc_client rc)) + length (nm_peers m) \<le> TABLE_ROOM"
  shows "\<exists>rc' rng'. reconcile_network_map V now m rc rng = Ret (Inr True, rc', rng') \<and> coherent installed V rc' \<and> plan_of m (rc_desired rc')"
  using open_map_pass [OF assms, of rng] .

text \<open>A map that moves the address of one of two installed peers to a new peer.\<close>

definition moved_map :: NetworkMap where
  "moved_map = \<lparr>nm_updated_at = 8, nm_peers =
     [\<lparr>mp_id = 1, mp_public_key = [4], mp_tunnel_ip = Some (AddrV4 0x0A000002), mp_is_directory = False, mp_routes = []\<rparr>,
      \<lparr>mp_id = 2, mp_public_key = [8], mp_tunnel_ip = Some (AddrV6 1), mp_is_directory = False, mp_routes = []\<rparr>]\<rparr>"

theorem map_pass_succeeds_witness:
  "\<exists>rc rc' rng'. dom (installed (rc_client rc)) = {[4], [6]} \<and>
    reconcile_network_map sample_control 0 moved_map rc 3 = Ret (Inr True, rc', rng') \<and> coherent installed sample_control rc' \<and>
    plan_of moved_map (rc_desired rc')"
proof -
  obtain d where d: "can_take sample_env 100 d" "installed d = [[4] \<mapsto> \<lparr>pv_endpoint = None, pv_relay = None, pv_keepalive = None, pv_networks = {ipnet_key net4}\<rparr>,
     [6] \<mapsto> \<lparr>pv_endpoint = None, pv_relay = None, pv_keepalive = None, pv_networks = {ipnet_key net6}\<rparr>]" using pair_exists by blast
  let ?rc = "reconciler_new d []"
  have dom: "dom (installed d) = {[4], [6]}" by (auto simp: d(2))
  have two: "card (dom (installed d)) = 2" by (simp add: dom)
  have k: "knows installed sample_control 0 ?rc" by (simp add: knows_def tracked_def health_ok_def reconciler_new_def)
  have c: "ce_client sample_control = command_client sample_env 0" "ev_caps sample_env = no_caps"
    "ce_caps sample_control = \<lparr>cc_peers = None, cc_allowed = None, cc_routes = None\<rparr>" by (simp_all add: sample_control_def sample_env_def)
  have t: "can_take sample_env (length (nm_peers moved_map) + 0) (rc_client ?rc)"
    using can_take_mono [OF d(1)] two by (simp add: reconciler_new_def moved_map_def)
  have "addresses_distinct moved_map" by (auto simp: addresses_distinct_def moved_map_def split: if_splits)
  moreover have "addresses_free moved_map (installed (rc_client ?rc))"
    by (auto simp: addresses_free_def moved_map_def reconciler_new_def d(2) net4_def host_matches split: if_splits)
  moreover have "total_nets (installed (rc_client ?rc)) + length (nm_peers moved_map) \<le> TABLE_ROOM"
    by (simp add: total_nets_def reconciler_new_def dom, simp add: d(2) moved_map_def TABLE_ROOM_def)
  moreover have "\<forall>s. rc_last_applied ?rc = Some s \<longrightarrow> s < nm_updated_at moved_map" by (simp add: reconciler_new_def)
  ultimately have "\<exists>rc' rng'. reconcile_network_map sample_control 0 moved_map ?rc 3 = Ret (Inr True, rc', rng') \<and>
      coherent installed sample_control rc' \<and> plan_of moved_map (rc_desired rc')"
    using map_pass_succeeds [OF c k t] by blast
  moreover have "dom (installed (rc_client ?rc)) = {[4], [6]}" by (simp add: reconciler_new_def dom)
  ultimately show ?thesis by blast
qed

end
