(* ===== verification/Client_Run.thy ===== *)
theory Client_Run
  imports Desktop_Client Install_Success
begin

text \<open>
  The running client: the device, started with the directories of the configuration, handles packets
  and timers while the control plane fetches maps and checks the health of the routes, also between
  the commands of one pass. The clock, the packets and the behaviour of the network are arbitrary; a
  run is charged for the peers its maps may add, since the indices of the peers are finite.
\<close>

section \<open>Traffic\<close>

text \<open>Any event but a command, in any number.\<close>

inductive traffic :: "'p env \<Rightarrow> 'p device \<Rightarrow> 'p device \<Rightarrow> bool" for E where
  event: "\<not> is_command ev \<Longrightarrow> device_step E now eph ev d = Ret (out, d') \<Longrightarrow> traffic E d d'"

lemma traffic_reach: "(traffic E)\<^sup>*\<^sup>* d d' \<Longrightarrow> can_take E n d \<Longrightarrow> can_take E n d' \<and> installed d' = installed d"
proof (induction rule: rtranclp_induct)
  case (step d1 d2)
  then have "can_take E n d1" "installed d1 = installed d" by simp_all
  with step.hyps(2) traffic_keeps show ?case by (metis traffic.cases)
qed simp

text \<open>
  The client of the command queue while the device handles \<open>\<tau> c\<close> between the previous command and \<open>c\<close>.
  The commands of a pass are all different, so a function of the command is as good as any schedule.
\<close>

definition busy_client :: "'p env \<Rightarrow> instant \<Rightarrow> (Command \<Rightarrow> 'p device \<Rightarrow> 'p device) \<Rightarrow> 'p device client_ops" where
  "busy_client E now \<tau> = \<lparr>cl_add = \<lambda>c d. client_add_peer E now c (\<tau> (Add c) d), cl_update = \<lambda>c d. client_update_peer E now c (\<tau> (Update c) d),
     cl_remove = \<lambda>k d. client_remove_peer E now k (\<tau> (Remove k) d), cl_get = \<lambda>k d. client_get_peer E now k (\<tau> (Get k) d),
     cl_list = \<lambda>d. client_list_peers E now (\<tau> List d)\<rparr>"

definition between :: "'p env \<Rightarrow> (Command \<Rightarrow> 'p device \<Rightarrow> 'p device) \<Rightarrow> bool" where
  "between E \<tau> \<longleftrightarrow> (\<forall>c d. (traffic E)\<^sup>*\<^sup>* d (\<tau> c d))"

lemma busy_ops:
  "cl_add (busy_client E now \<tau>) c d = cl_add (command_client E now) c (\<tau> (Add c) d)"
  "cl_update (busy_client E now \<tau>) c d = cl_update (command_client E now) c (\<tau> (Update c) d)"
  "cl_remove (busy_client E now \<tau>) k d = cl_remove (command_client E now) k (\<tau> (Remove k) d)"
  "cl_get (busy_client E now \<tau>) k d = cl_get (command_client E now) k (\<tau> (Get k) d)"
  "cl_list (busy_client E now \<tau>) d = cl_list (command_client E now) (\<tau> List d)"
  by (simp_all add: busy_client_def command_client_def)

lemma idle_client: "busy_client E now (\<lambda>c d. d) = command_client E now" "between E (\<lambda>c d. d)"
  by (simp_all add: busy_client_def command_client_def between_def)

lemma busy_device_client:
  assumes "between E \<tau>"
  shows "device_client (busy_client E now \<tau>) (can_take E) installed"
proof -
  have t: "can_take E n (\<tau> c d)" "installed (\<tau> c d) = installed d" if "can_take E n d" for n c d
    using assms traffic_reach that unfolding between_def by blast+
  show ?thesis
  proof (unfold_locales, goal_cases)
    case (1 n d c) then show ?case
      using command.add_ok [OF t(1) [OF 1(1), of "Add c"] 1(2), where now = now]
      unfolding busy_ops t(2) [OF 1(1)] by blast
  next
    case (2 n d c) then show ?case
      using command.update_ok [OF t(1) [OF 2(1), of "Update c"] 2(2), where now = now]
      unfolding busy_ops t(2) [OF 2(1)] by blast
  next
    case (3 n d k) then show ?case
      using command.remove_ok [OF t(1) [OF 3, of "Remove k"], where now = now and k = k]
      unfolding busy_ops t(2) [OF 3] by blast
  next
    case (4 n d k) then show ?case
      using command.get_ok [OF t(1) [OF 4, of "Get k"], where now = now and k = k]
      unfolding busy_ops t(2) [OF 4] by blast
  next
    case (5 n d) then show ?case using command.list_ok [OF t(1) [OF 5, of List], where now = now]
      unfolding busy_ops t(2) [OF 5] by blast
  next
    case (6 n d k1 v1 k2 v2 x) then show ?case by (rule command.exclusive)
  qed
qed

section \<open>Runs\<close>

record ('p, 'r) running =
  rn_now :: instant
  rn_spent :: nat
  rn_rc :: "'p device PeerReconciler"
  rn_rng :: 'r

text \<open>The client the control plane uses at a time, and the peers a tick may add.\<close>

definition control_at :: "('p device, 'r) control_env \<Rightarrow> 'p env \<Rightarrow> (Command \<Rightarrow> 'p device \<Rightarrow> 'p device) \<Rightarrow> instant \<Rightarrow>
    ('p device, 'r) control_env" where
  "control_at V E \<tau> now = V\<lparr>ce_client := busy_client E now \<tau>\<rparr>"

definition tick_cost :: "'e control_event \<Rightarrow> nat" where
  "tick_cost ev = (case ev of MapTick (Inr m) \<Rightarrow> length (nm_peers m) | _ \<Rightarrow> 0)"

definition map_tick :: "'c http \<Rightarrow> string \<Rightarrow> 'p device PeerReconciler \<Rightarrow> ClientError control_event" where
  "map_tick H iface rc = MapTick (fetch_network_map H iface (rc_directories rc))"

definition started :: "('g \<Rightarrow> u32 \<times> 'g) \<Rightarrow> 'p env \<Rightarrow> Config \<Rightarrow> ('p, 'r) running \<Rightarrow> bool" where
  "started next_u32 E config s \<longleftrightarrow> (\<exists>rnd rnd' g resolve stamper secret_key nonce_key pool.
     initialize next_u32 rnd index_generator_new = Some (g, rnd') \<and>
     client_start E (rn_now s) resolve config stamper g secret_key nonce_key pool = Ret (Inr (rn_rc s)) \<and>
     rn_spent s = length (cf_directories config))"

inductive client_step :: "'p env \<Rightarrow> ('p device, 'r) control_env \<Rightarrow> (instant \<Rightarrow> 'c http) \<Rightarrow> string \<Rightarrow> ('p, 'r) running \<Rightarrow> ('p, 'r) running \<Rightarrow> bool"
  for E V net iface where
  packets: "traffic E (rc_client (rn_rc s)) d \<Longrightarrow> client_step E V net iface s (s\<lparr>rn_rc := (rn_rc s)\<lparr>rc_client := d\<rparr>\<rparr>)"
| tick: "rn_now s \<le> now \<Longrightarrow> between E \<tau> \<Longrightarrow> ev = map_tick (net now) iface (rn_rc s) \<or> ev = HealthTick \<Longrightarrow>
    control_step (control_at V E \<tau> now) now ev (rn_rc s) (rn_rng s) = Ret (rc, rng) \<Longrightarrow>
    client_step E V net iface s \<lparr>rn_now = now, rn_spent = rn_spent s + tick_cost ev, rn_rc = rc, rn_rng = rng\<rparr>"

section \<open>The invariant\<close>

definition client_inv :: "'p env \<Rightarrow> ('p device, 'r) control_env \<Rightarrow> ('p, 'r) running \<Rightarrow> bool" where
  "client_inv E V s \<longleftrightarrow> knows installed V (rn_now s) (rn_rc s) \<and> plan_ok (rc_desired (rn_rc s)) \<and>
     can_take E (PERIOD - rn_spent s) (rc_client (rn_rc s))"

lemma startedI:
  assumes "initialize next_u32 rnd index_generator_new = Some (g, rnd')"
    and "client_start E (rn_now s) resolve config stamper g secret_key nonce_key pool = Ret (Inr (rn_rc s))"
    and "rn_spent s = length (cf_directories config)"
  shows "started next_u32 E config s"
  using assms unfolding started_def by blast

lemma control_at_simps [simp]:
  "ce_client (control_at V E \<tau> now) = busy_client E now \<tau>" "knows view (control_at V E \<tau> now) t rc = knows view V t rc"
  "coherent view (control_at V E \<tau> now) rc = coherent view V rc"
  by (simp_all add: control_at_def knows_def coherent_def settled_def has_config_def)

lemma control_at_outcome [simp]: "map_outcome view (control_at V E \<tau> now) m rc r rc' = map_outcome view V m rc r rc'"
  by (cases r) (simp_all add: map_outcome_def)

lemma knows_later: "knows view V t rc \<Longrightarrow> t \<le> now \<Longrightarrow> knows view V now rc"
  by (fastforce simp: knows_def health_ok_def)

lemma same_routes_plan:
  assumes "same_routes rc rc'"
  shows "plan_ok (rc_desired rc) \<Longrightarrow> plan_ok (rc_desired rc')" "plan_of m (rc_desired rc) \<Longrightarrow> plan_of m (rc_desired rc')"
proof -
  have r: "list_all2 (\<lambda>(k, p) (k', p'). k' = k \<and> reselected p p') (rc_desired rc) (rc_desired rc')" using assms by (simp add: same_routes_def)
  from reselected_plan [OF r] show "plan_ok (rc_desired rc) \<Longrightarrow> plan_ok (rc_desired rc')" by blast
  have "rel_option reselected (map_of (rc_desired rc) k) (map_of (rc_desired rc') k)" for k using reselected_plan [OF r, of k] by blast
  note rel = this
  have "case last_with_key k (nm_peers m) of None \<Rightarrow> map_of (rc_desired rc') k = None
      | Some p \<Rightarrow> \<exists>d. map_of (rc_desired rc') k = Some d \<and> planned m p d"
    if p: "case last_with_key k (nm_peers m) of None \<Rightarrow> map_of (rc_desired rc) k = None | Some p \<Rightarrow> \<exists>d. map_of (rc_desired rc) k = Some d \<and> planned m p d" for k
  proof (cases "map_of (rc_desired rc) k")
    case None
    then have "map_of (rc_desired rc') k = None" using rel [of k] by simp
    with None p show ?thesis by (simp split: option.splits)
  next
    case (Some d)
    then obtain d' where d': "map_of (rc_desired rc') k = Some d'" "reselected d d'" using rel [of k] by (auto simp: option_rel_Some1)
    have "planned m x d'" if "planned m x d" for x using that d'(2) reselected_trans by (auto simp: planned_def)
    with Some d'(1) p show ?thesis by (simp split: option.splits)
  qed
  then show "plan_of m (rc_desired rc) \<Longrightarrow> plan_of m (rc_desired rc')" unfolding plan_of_def by blast
qed

text \<open>What a tick leaves.\<close>

definition ticked :: "'p env \<Rightarrow> ('p device, 'r) control_env \<Rightarrow> (Command \<Rightarrow> 'p device \<Rightarrow> 'p device) \<Rightarrow> instant \<Rightarrow> 'e control_event \<Rightarrow>
    'p device PeerReconciler \<Rightarrow> 'r \<Rightarrow> 'p device PeerReconciler \<Rightarrow> 'r \<Rightarrow> bool" where
  "ticked E V \<tau> now ev rc rng rc' rng' \<longleftrightarrow> (case ev of
     MapTick (Inr m) \<Rightarrow> \<exists>r. reconcile_network_map (control_at V E \<tau> now) now m rc rng = Ret (r, rc', rng') \<and> map_outcome installed V m rc r rc'
   | MapTick (Inl _) \<Rightarrow> rc' = rc
   | HealthTick \<Rightarrow> same_routes rc rc' \<and> (coherent installed V rc \<longrightarrow> coherent installed V rc'))"

text \<open>A tick within the budget returns and keeps what the control plane knows.\<close>

lemma tick_ok:
  assumes \<tau>: "between E \<tau>" and k: "knows installed V now rc" "plan_ok (rc_desired rc)" and d: "can_take E (tick_cost ev + n) (rc_client rc)"
  shows "returns (\<lambda>(rc', rng'). knows installed V now rc' \<and> plan_ok (rc_desired rc') \<and> can_take E n (rc_client rc') \<and>
      ticked E V \<tau> now ev rc rng rc' rng') (control_step (control_at V E \<tau> now) now ev rc rng)"
proof (cases ev)
  case (MapTick fetched)
  show ?thesis
  proof (cases fetched)
    case (Inl e)
    with assms MapTick show ?thesis by (simp add: control_step_def fetch_and_reconcile_network_map_def tick_cost_def ticked_def)
  next
    case (Inr m)
    have "can_take E (length (nm_peers m) + n) (rc_client rc)" using d MapTick Inr by (simp add: tick_cost_def)
    from returnsD [OF device_client.reconcile_ok [OF busy_device_client [OF \<tau>], where V = "control_at V E \<tau> now", OF _ _ this, of now now rng]] k(1)
    obtain r rc' rng' j where r: "reconcile_network_map (control_at V E \<tau> now) now m rc rng = Ret (r, rc', rng')"
      "n \<le> j" "can_take E j (rc_client rc')" "knows installed V now rc'" "map_outcome installed V m rc r rc'" by auto
    moreover have "plan_ok (rc_desired rc')" using r(5) k(2) by (auto simp: map_outcome_def same_plan_def coherent_def split: sum.splits if_splits)
    ultimately show ?thesis using MapTick Inr can_take_mono [OF r(3,2)]
      by (simp add: control_step_def fetch_and_reconcile_network_map_def ticked_def)
  qed
next
  case HealthTick
  then have "can_take E n (rc_client rc)" using d by (simp add: tick_cost_def)
  from returnsD [OF device_client.health_ok_pass [OF busy_device_client [OF \<tau>], where V = "control_at V E \<tau> now", OF _ _ k(2) this, of now now rng]] k(1)
  obtain r rc' rng' where r: "reconcile_peer_health_at (control_at V E \<tau> now) now rc rng = Ret (r, rc', rng')"
    "command.checked E (control_at V E \<tau> now) n now rc rc'" by auto
  then have "knows installed V now rc'" "same_routes rc rc'" "\<exists>j \<ge> n. can_take E j (rc_client rc')" "coherent installed V rc \<longrightarrow> coherent installed V rc'"
    by (simp_all add: command.checked_def)
  then show ?thesis using HealthTick r(1) same_routes_plan(1) [of rc rc'] k(2) can_take_mono by (auto simp: control_step_def ticked_def)
qed

lemma tick_within_budget:
  assumes "client_inv E V s" "between E \<tau>" "rn_now s \<le> now" "rn_spent s + tick_cost ev \<le> PERIOD"
  shows "\<exists>rc rng. control_step (control_at V E \<tau> now) now ev (rn_rc s) (rn_rng s) = Ret (rc, rng) \<and>
    knows installed V now rc \<and> plan_ok (rc_desired rc) \<and> can_take E (PERIOD - (rn_spent s + tick_cost ev)) (rc_client rc) \<and>
    ticked E V \<tau> now ev (rn_rc s) (rn_rng s) rc rng"
proof -
  let ?c = "tick_cost ev"
  have "knows installed V now (rn_rc s)" using assms(1,3) knows_later by (auto simp: client_inv_def)
  moreover have "?c + (PERIOD - (rn_spent s + ?c)) = PERIOD - rn_spent s" using assms(4) by simp
  then have "can_take E (?c + (PERIOD - (rn_spent s + ?c))) (rc_client (rn_rc s))" using assms(1) by (simp add: client_inv_def)
  moreover have "plan_ok (rc_desired (rn_rc s))" using assms(1) by (simp add: client_inv_def)
  ultimately show ?thesis using returnsD [OF tick_ok [OF assms(2), of V now "rn_rc s" ev "PERIOD - (rn_spent s + ?c)" "rn_rng s"]] by auto
qed

lemma client_step_inv:
  assumes "client_step E V net iface s s'" "client_inv E V s" "rn_spent s' \<le> PERIOD"
  shows "client_inv E V s'"
  using assms
proof (induction rule: client_step.induct)
  case (packets s d)
  then have "can_take E (PERIOD - rn_spent s) d" "installed d = installed (rc_client (rn_rc s))"
    using traffic_reach [of E "rc_client (rn_rc s)" d "PERIOD - rn_spent s"] by (auto simp: client_inv_def)
  with packets show ?case by (simp add: client_inv_def knows_def)
next
  case (tick s now \<tau> ev rc rng)
  from tick_within_budget [OF tick.prems(1) tick.hyps(2,1), of ev] tick show ?case by (simp add: client_inv_def)
qed

lemma step_spends: "client_step E V net iface s s' \<Longrightarrow> rn_spent s \<le> rn_spent s'"
  by (induction rule: client_step.induct) simp_all

lemma collect_Inr: "collect f xs = Inr ys \<Longrightarrow> list_all2 (\<lambda>x y. f x = Inr y) xs ys"
  by (induction xs arbitrary: ys) (auto simp: try_then_Inr)

lemma collect_host_nets:
  "collect (\<lambda>ip. case ip of AddrV4 a \<Rightarrow> map_sum (\<lambda>_. InvalidPrefix) (\<lambda>n. n) (ipnet_new (AddrV4 a) 32)
     | AddrV6 a \<Rightarrow> map_sum (\<lambda>_. InvalidPrefix) (\<lambda>n. n) (ipnet_new (AddrV6 a) 128)) ips = Inr (map host_net ips)"
  by (induction ips) (auto simp: ipnet_new_def ipv4net_new_def ipv6net_new_def split: IpAddr.split)

lemma directory_config_wf: "directory_peer_config D d = Inr c \<Longrightarrow> config_wf c"
  unfolding directory_peer_config_def collect_host_nets by (auto simp: try_then_Inr config_wf_def)

lemma started_inv:
  assumes "started next_u32 E config s" "rn_spent s \<le> PERIOD"
  shows "client_inv E V s"
proof -
  from assms(1) obtain rnd rnd' g resolve stamper secret_key nonce_key pool where
    g: "initialize next_u32 rnd index_generator_new = Some (g, rnd')" and
    c: "client_start E (rn_now s) resolve config stamper g secret_key nonce_key pool = Ret (Inr (rn_rc s))" and
    n: "rn_spent s = length (cf_directories config)" unfolding started_def by blast
  from c obtain peers d dirs where p: "directory_peer_configs (config_directory resolve) (cf_directories config) = Inr peers"
    "device_new (ev_caps E) (ev_crypto E) (rn_now s) (cf_private_key config) peers stamper g secret_key nonce_key pool = Ret (Inr d)"
    "reconciler_new d dirs = rn_rc s"
    by (auto simp: client_start_def run_bind_def split: sum.splits run.splits)
  from p(1) have l: "list_all2 (\<lambda>x y. directory_peer_config (config_directory resolve) x = Inr y) (cf_directories config) peers"
    by (auto simp: directory_peer_configs_def split: if_splits dest: collect_Inr)
  then have "list_all config_wf peers"
    by (induction rule: list_all2_induct) (simp_all add: directory_config_wf)
  from reachable_inv [OF reachable.new [OF g this p(2)]] list_all2_lengthD [OF l] n assms(2)
  have "device_inv (ev_caps E) (rn_spent s) d" by simp
  then show ?thesis using p(3) [symmetric] assms(2) by (simp add: client_inv_def knows_def tracked_def health_ok_def reconciler_new_def can_take_def)
qed

lemma client_reach_inv:
  assumes "(client_step E V net iface)\<^sup>*\<^sup>* s t" "started next_u32 E config s" "rn_spent t \<le> PERIOD"
  shows "client_inv E V t"
  using assms
proof (induction rule: rtranclp_induct)
  case base
  then show ?case by (rule started_inv)
next
  case (step t u)
  then show ?case using client_step_inv step_spends le_trans by metis
qed

section \<open>Maps in force\<close>

text \<open>The device, the desired peers and the health states agree on the plan of the map, and the map is the last one applied.\<close>

definition map_in_force :: "('p device, 'r) control_env \<Rightarrow> NetworkMap \<Rightarrow> 'p device PeerReconciler \<Rightarrow> bool" where
  "map_in_force V m rc \<longleftrightarrow> coherent installed V rc \<and> plan_of m (rc_desired rc) \<and> rc_last_applied rc = Some (nm_updated_at m)"

text \<open>A step that fetches a newer map and either puts it in force or fails, then with the plan unchanged.\<close>

definition superseded :: "'p env \<Rightarrow> ('p device, 'r) control_env \<Rightarrow> (instant \<Rightarrow> 'c http) \<Rightarrow> string \<Rightarrow> NetworkMap \<Rightarrow>
    ('p, 'r) running \<Rightarrow> ('p, 'r) running \<Rightarrow> bool" where
  "superseded E V net iface m s s' \<longleftrightarrow> (\<exists>m'. fetch_network_map (net (rn_now s')) iface (rc_directories (rn_rc s)) = Inr m' \<and>
     nm_updated_at m < nm_updated_at m' \<and>
     (map_in_force V m' (rn_rc s') \<or>
      same_plan (rn_rc s) (rn_rc s') \<and> (\<exists>\<tau> e. between E \<tau> \<and>
        reconcile_network_map (control_at V E \<tau> (rn_now s')) (rn_now s') m' (rn_rc s) (rn_rng s) = Ret (Inl e, rn_rc s', rn_rng s'))))"

lemma in_force_tick:
  assumes "ticked E V \<tau> now ev rc rng rc' rng'" "map_in_force V m rc" "\<And>m'. ev \<noteq> MapTick (Inr m')"
  shows "map_in_force V m rc'"
proof (cases ev)
  case HealthTick
  with assms(1) have "same_routes rc rc'" "coherent installed V rc \<longrightarrow> coherent installed V rc'" by (simp_all add: ticked_def)
  with assms(2) same_routes_plan(2) [of rc rc' m] show ?thesis by (simp add: map_in_force_def same_routes_def)
next
  case (MapTick fetched)
  with assms show ?thesis by (cases fetched) (auto simp: ticked_def)
qed

lemma in_force_step:
  assumes "client_step E V net iface s s'" "client_inv E V s" "rn_spent s' \<le> PERIOD" "map_in_force V m (rn_rc s)"
  shows "map_in_force V m (rn_rc s') \<or> superseded E V net iface m s s'"
  using assms(1)
proof cases
  case (packets d)
  then have "installed d = installed (rc_client (rn_rc s))"
    using assms(2) traffic_reach [of E "rc_client (rn_rc s)" d "PERIOD - rn_spent s"] by (auto simp: client_inv_def)
  with packets assms(4) show ?thesis by (auto simp: map_in_force_def coherent_def settled_def has_config_def)
next
  case (tick now \<tau> ev rc rng)
  from tick_within_budget [OF assms(2) tick(3,2), of ev] tick(1,5) assms(3) have t: "ticked E V \<tau> now ev (rn_rc s) (rn_rng s) rc rng" by simp
  show ?thesis
  proof (cases "\<exists>m'. ev = MapTick (Inr m')")
    case False
    with in_force_tick [OF t assms(4)] tick(1) show ?thesis by auto
  next
    case True
    then obtain m' where ev: "ev = MapTick (Inr m')" by blast
    then obtain r where r: "reconcile_network_map (control_at V E \<tau> now) now m' (rn_rc s) (rn_rng s) = Ret (r, rc, rng)"
      "map_outcome installed V m' (rn_rc s) r rc" using t by (auto simp: ticked_def)
    have fetch: "fetch_network_map (net now) iface (rc_directories (rn_rc s)) = Inr m'" using tick(4) ev by (auto simp: map_tick_def)
    show ?thesis
    proof (cases "nm_updated_at m' \<le> nm_updated_at m")
      case True
      then have "reconcile_network_map (control_at V E \<tau> now) now m' (rn_rc s) (rn_rng s) = Ret (Inr False, rn_rc s, rn_rng s)"
        using assms(4) by (simp add: reconcile_network_map_def map_in_force_def)
      with r(1) assms(4) tick(1) show ?thesis by simp
    next
      case newer: False
      then have "r \<noteq> Inr False" using r(2) assms(4) by (auto simp: map_outcome_def map_in_force_def)
      then have "map_in_force V m' rc \<or> (\<exists>e. r = Inl e) \<and> same_plan (rn_rc s) rc"
        using r(2) by (cases r) (auto simp: map_outcome_def map_in_force_def)
      with newer fetch r(1) tick(1,3) show ?thesis by (auto simp: superseded_def)
    qed
  qed
qed

section \<open>Properties\<close>

text \<open>C10. The control loop of a running client never stops: after any run from the start, with any packets and timers
  before and between the commands of a pass, any maps and any failures of the network, the next tick
  returns, as long as the index generator has an index for each peer of its map, and what the control
  plane remembers of the device is still true of it.\<close>

theorem control_loop_never_stops:
  assumes "started next_u32 E config s" "(client_step E V net iface)\<^sup>*\<^sup>* s t" "between E \<tau>" "rn_now t \<le> now"
    and "rn_spent t + tick_cost ev \<le> PERIOD"
  shows "\<exists>rc rng. control_step (control_at V E \<tau> now) now ev (rn_rc t) (rn_rng t) = Ret (rc, rng) \<and>
    knows installed V now rc \<and> plan_ok (rc_desired rc) \<and> can_take E (PERIOD - (rn_spent t + tick_cost ev)) (rc_client rc)"
proof -
  have "client_inv E V t" using client_reach_inv [OF assms(2,1)] assms(5) by simp
  from tick_within_budget [OF this assms(3,4,5)] show ?thesis by blast
qed

definition sample_client :: Config where
  "sample_client = \<lparr>cf_listen_port = 0, cf_private_key = [1], cf_address = sample_net,
     cf_directories = [\<lparr>dir_public_key = replicate 32 7, dir_tunnel_ips = [AddrV4 2], dir_endpoint = ''directory:51820''\<rparr>]\<rparr>"

lemma sample_directory_added:
  assumes "pc_allowed_ips c = [host_net a]"
  shows "\<exists>d. device_new (ev_caps sample_env) (ev_crypto sample_env) 0 [1] [c] (timestamper_new 0 0) sample_gen [5] [6] heap_new = Ret (Inr d) \<and>
    installed d = [pc_public_key c \<mapsto> core_view c]"
proof -
  let ?d = "sample_device peer_state_new"
  have wf: "config_wf c" using assms by (simp add: config_wf_def)
  have o: "open_take sample_env (Suc 0) ?d" using empty_can_take [of "Suc 0"] by (simp add: open_take_def PERIOD_def sample_env_def)
  have fit: "config_fits (installed ?d) c" by (simp add: config_fits_def assms config_nets_def spread_def total_nets_def TABLE_ROOM_def)
  have new: "installed ?d (pc_public_key c) = None" by simp
  from execute_step [of sample_env "Add c" 0 ?d 0] o wf obtain r1 d1 where e: "execute sample_env 0 (Add c) ?d = Ret (r1, d1)"
    "command_spec no_caps (Add c) (peers_view (dv_peers ?d)) r1 (peers_view (dv_peers d1))" by (auto simp: open_take_def sample_env_def)
  moreover have "peers_view (dv_peers ?d) (pc_public_key c) = None" using new unfolding installed_dom .
  ultimately have "r1 = Inr NoOutput" using fits_installs [OF fit] by (simp add: command_spec_def)
  with e(1) obtain ps g where
    a: "add_peer_to_state no_caps sample_crypto 0 [1] (timestamper_new 0 0) c peer_state_new sample_gen = Ret (Inr NoOutput, ps, g)"
    by (auto simp: execute_def device_step_def handle_peer_update_def sample_device_def sample_env_def run_bind_def split: run.splits)
  then have cl: "cl_add (command_client sample_env 0) c ?d = Ret (Inr (), ?d\<lparr>dv_peers := ps, dv_gen := g\<rparr>)"
    by (simp add: command_client_def client_add_peer_def execute_def device_step_def handle_peer_update_def done_unit_def sample_device_def sample_env_def)
  from open_command.add_ok [OF o wf, of 0] obtain r d' where r: "cl_add (command_client sample_env 0) c ?d = Ret (r, d')"
    "if isl r then installed d' = installed ?d else installed ?d (pc_public_key c) = None \<and> installed d' = (installed ?d)(pc_public_key c \<mapsto> core_view c)" by blast
  with cl have "r = Inr ()" "d' = ?d\<lparr>dv_peers := ps, dv_gen := g\<rparr>" by auto
  with r(2) have v: "installed (?d\<lparr>dv_peers := ps, dv_gen := g\<rparr>) = [pc_public_key c \<mapsto> core_view c]" by simp
  have "\<exists>d. device_new (ev_caps sample_env) (ev_crypto sample_env) 0 [1] [c] (timestamper_new 0 0) sample_gen [5] [6] heap_new = Ret (Inr d) \<and> dv_peers d = ps"
    using a by (simp add: device_new_def sample_env_def)
  moreover have "dv_peers d = ps \<Longrightarrow> installed d = installed (?d\<lparr>dv_peers := ps, dv_gen := g\<rparr>)" for d by (simp add: fun_eq_iff installed_def)
  ultimately show ?thesis using v by auto
qed

lemma sample_started:
  obtains s :: "(heap_pool, u64) running" and x where "started (\<lambda>r :: u32. (r, r + 1)) sample_env sample_client s" "rn_now s = 0" "rn_spent s = 1"
    "rc_desired (rn_rc s) = []" "rc_last_applied (rn_rc s) = None" "rc_directories (rn_rc s) = [x]" "mp_tunnel_ip x = Some (AddrV4 2)"
    "dom (installed (rc_client (rn_rc s))) = {replicate 32 7}" "total_nets (installed (rc_client (rn_rc s))) = 1"
proof -
  let ?resolve = "\<lambda>_. Some [SocketV4 0x0A000001 51820]"
  let ?c = "\<lparr>pc_public_key = replicate 32 7, pc_endpoint = Some (SocketV4 0x0A000001 51820), pc_allowed_ips = [host_net (AddrV4 2)],
     pc_keepalive = Some 25, pc_relay = None\<rparr>"
  have peers: "directory_peer_configs (config_directory ?resolve) (cf_directories sample_client) = Inr [?c]"
    unfolding directory_peer_configs_def directory_peer_config_def collect_host_nets
    by (simp add: sample_client_def config_directory_def directory_endpoint_def directory_peer_config_def collect_host_nets)
  have "pc_allowed_ips ?c = [host_net (AddrV4 2)]" by simp
  from sample_directory_added [OF this] obtain d where
    d: "device_new (ev_caps sample_env) (ev_crypto sample_env) 0 [1] [?c] (timestamper_new 0 0) sample_gen [5] [6] heap_new = Ret (Inr d)"
    "installed d = [replicate 32 7 \<mapsto> core_view ?c]" by auto
  obtain x where x: "reconciler_directories_from_config ?resolve (cf_directories sample_client) = Inr [x]" "mp_tunnel_ip x = Some (AddrV4 2)"
    by (simp add: reconciler_directories_from_config_def sample_client_def reconciler_directory_def directory_endpoint_def)
  have "client_start sample_env 0 ?resolve sample_client (timestamper_new 0 0) sample_gen [5] [6] heap_new = Ret (Inr (reconciler_new d [x]))"
    unfolding client_start_def peers using d(1) x(1) by (simp add: sample_client_def)
  moreover have "length (cf_directories sample_client) = 1" by (simp add: sample_client_def)
  ultimately have "started (\<lambda>r :: u32. (r, r + 1)) sample_env sample_client \<lparr>rn_now = 0, rn_spent = 1, rn_rc = reconciler_new d [x], rn_rng = 3 :: u64\<rparr>"
    using initialize_example [folded sample_gen_def] by (intro startedI [where resolve = ?resolve]) simp_all
  moreover have "dom (installed d) = {replicate 32 7}" "total_nets (installed d) = 1"
    by (simp_all add: d(2) total_nets_def dp_config_nets config_nets_def)
  ultimately show ?thesis using x(2)
    by (intro that [of "\<lparr>rn_now = 0, rn_spent = 1, rn_rc = reconciler_new d [x], rn_rng = 3\<rparr>" x]) (simp_all add: reconciler_new_def)
qed

theorem control_loop_never_stops_witness:
  "\<exists>s :: (heap_pool, u64) running. started (\<lambda>r :: u32. (r, r + 1)) sample_env sample_client s \<and>
    (\<exists>rc rng. control_step (control_at sample_control sample_env (\<lambda>c d. d) 9) 9 (HealthTick :: ClientError control_event) (rn_rc s) (rn_rng s) =
        Ret (rc, rng) \<and> plan_ok (rc_desired rc))"
proof -
  obtain s :: "(heap_pool, u64) running" and x where s: "started (\<lambda>r :: u32. (r, r + 1)) sample_env sample_client s" "rn_now s = 0" "rn_spent s = 1"
    "rc_desired (rn_rc s) = []" by (rule sample_started)
  have "rn_spent s + tick_cost (HealthTick :: ClientError control_event) \<le> PERIOD" using s by (simp add: tick_cost_def PERIOD_def)
  moreover have "rn_now s \<le> 9" by (simp add: s(2))
  ultimately obtain rc rng where
    "control_step (control_at sample_control sample_env (\<lambda>c d. d) 9) 9 (HealthTick :: ClientError control_event) (rn_rc s) (rn_rng s) = Ret (rc, rng)"
    "plan_ok (rc_desired rc)" using control_loop_never_stops [OF s(1) rtranclp.rtrancl_refl idle_client(2), of 9 _ sample_control] by blast
  with s(1) show ?thesis by blast
qed

text \<open>C11. A map that was applied stays in force until a newer one comes: over any further run of the client, with
  packets and timers, health checks, failing fetches and stale maps in any order, the device keeps
  exactly the peers of its plan with the routes the control plane believes in, and the map counts as
  the last one applied. Only a step that fetches a map with a later date ends that: it puts the new map
  in force, or its pass fails, and then the old plan is still the desired one.\<close>

theorem applied_map_stays_in_force:
  assumes "started next_u32 E config s" "(client_step E V net iface)\<^sup>*\<^sup>* s t" "map_in_force V m (rn_rc t)"
    and "(client_step E V net iface)\<^sup>*\<^sup>* t u" "rn_spent u \<le> PERIOD"
  shows "map_in_force V m (rn_rc u) \<or>
    (\<exists>v w. (client_step E V net iface)\<^sup>*\<^sup>* t v \<and> map_in_force V m (rn_rc v) \<and> client_step E V net iface v w \<and>
      superseded E V net iface m v w \<and> (client_step E V net iface)\<^sup>*\<^sup>* w u)"
  using assms(4,5)
proof (induction rule: rtranclp_induct)
  case (step v w)
  have spent: "rn_spent v \<le> PERIOD" using step_spends [OF step.hyps(2)] step.prems by simp
  have reach: "(client_step E V net iface)\<^sup>*\<^sup>* s v" using assms(2) step.hyps(1) by (rule rtranclp_trans)
  show ?case
  proof (cases "map_in_force V m (rn_rc v)")
    case True
    from in_force_step [OF step.hyps(2) client_reach_inv [OF reach assms(1) spent] step.prems True] step.hyps True show ?thesis by blast
  next
    case False
    with step.IH [OF spent] step.hyps(2) show ?thesis by (meson rtranclp.rtrancl_into_rtrancl)
  qed
qed (use assms(3) in simp)

text \<open>The first fetch brings the map of the directory, and every later one fails.\<close>

definition sample_net_at :: "instant \<Rightarrow> SocketAddr http" where
  "sample_net_at now = (if now = 9 then sample_http else sample_http\<lparr>ht_connect := (\<lambda>_ _. Inl ''down'')\<rparr>)"

lemma sample_fetch:
  assumes "mp_tunnel_ip x = Some (AddrV4 2)"
  shows "fetch_network_map (sample_net_at 9) iface [x] = Inr two_routes"
proof -
  have "answer_of sample_http iface map_directory x = answer_of sample_http iface map_directory (sample_directory (Some (AddrV4 2)))"
    using assms by (simp add: answer_of_def from_directory_def map_directory_def sample_directory_def)
  then have "fetch_loop sample_http iface map_directory ([] @ x # []) None = Inr two_routes" by (intro fetch_loop_found) (simp_all add: sample_answer)
  then show ?thesis by (simp add: fetch_network_map_def fetch_def sample_net_at_def)
qed

lemma two_routes_addresses: "addresses_distinct two_routes" "addresses_free two_routes v"
  by (auto simp: addresses_distinct_def addresses_free_def two_routes_def split: if_splits)

lemma sample_down: "now \<noteq> 9 \<Longrightarrow> fetch_network_map (sample_net_at now) iface ds \<noteq> Inr m"
proof -
  assume now: "now \<noteq> 9"
  then have "fetch_from (sample_net_at now) iface ep \<noteq> Inr m" for ep
    by (auto simp: fetch_from_def get_network_map_bytes_def sample_net_at_def try_then_Inr)
  then have "fetch_loop (sample_net_at now) iface map_directory ds e \<noteq> Inr m" for e
    by (induction ds arbitrary: e) (auto simp: try_then_Inr split: sum.splits)
  then show ?thesis by (simp add: fetch_network_map_def fetch_def)
qed

lemma step_time: "client_step E V net iface s s' \<Longrightarrow> rn_now s \<le> rn_now s'"
  by (induction rule: client_step.induct) simp_all

lemma run_time: "(client_step E V net iface)\<^sup>*\<^sup>* s s' \<Longrightarrow> rn_now s \<le> rn_now s'"
  by (induction rule: rtranclp_induct) (auto dest: step_time)

lemma sample_not_superseded: "9 < rn_now s' \<Longrightarrow> \<not> superseded E V sample_net_at iface m s s'"
  using sample_down by (auto simp: superseded_def)

text \<open>The client fetches the map at time 9.\<close>

lemma sample_in_force:
  obtains s t :: "(heap_pool, u64) running" where "started (\<lambda>r :: u32. (r, r + 1)) sample_env sample_client s"
    "client_step sample_env sample_control sample_net_at ''wg0'' s t" "rn_now t = 9" "rn_spent t = 2" "map_in_force sample_control two_routes (rn_rc t)"
proof -
  obtain s :: "(heap_pool, u64) running" and x where s: "started (\<lambda>r :: u32. (r, r + 1)) sample_env sample_client s" "rn_now s = 0" "rn_spent s = 1"
    "rc_last_applied (rn_rc s) = None" "rc_directories (rn_rc s) = [x]" "mp_tunnel_ip x = Some (AddrV4 2)"
    "dom (installed (rc_client (rn_rc s))) = {replicate 32 7}" "total_nets (installed (rc_client (rn_rc s))) = 1" by (rule sample_started)
  let ?V = "control_at sample_control sample_env (\<lambda>c d. d) 9" and ?ev = "map_tick (sample_net_at 9) ''wg0'' (rn_rc s)"
  have ev: "?ev = MapTick (Inr two_routes)" using sample_fetch [OF s(6)] s(5) by (simp add: map_tick_def)
  have cost: "tick_cost ?ev = 1" unfolding ev by (simp add: tick_cost_def two_routes_def)
  have inv: "client_inv sample_env sample_control s" by (rule started_inv [OF s(1)]) (simp add: s(3) PERIOD_def)
  then have k: "knows installed ?V 9 (rn_rc s)" using knows_later [of installed sample_control "rn_now s" "rn_rc s" 9] s(2) by (simp add: client_inv_def)
  have t: "can_take sample_env (length (nm_peers two_routes) + 0) (rc_client (rn_rc s))"
    by (rule can_take_mono [of _ "PERIOD - rn_spent s"]) (use inv in \<open>simp_all add: client_inv_def s(3) two_routes_def PERIOD_def\<close>)
  have V: "ce_client ?V = command_client sample_env 9" "ev_caps sample_env = no_caps" "ce_caps ?V = \<lparr>cc_peers = None, cc_allowed = None, cc_routes = None\<rparr>"
    by (simp_all add: idle_client(1)) (simp_all add: control_at_def sample_control_def sample_env_def)
  have "\<forall>a. rc_last_applied (rn_rc s) = Some a \<longrightarrow> a < nm_updated_at two_routes" by (simp add: s(4))
  moreover have "total_nets (installed (rc_client (rn_rc s))) + length (nm_peers two_routes) \<le> TABLE_ROOM"
    by (simp add: s(8) two_routes_def TABLE_ROOM_def)
  ultimately obtain rc rng where rc: "reconcile_network_map ?V 9 two_routes (rn_rc s) (rn_rng s) = Ret (Inr True, rc, rng)"
    using open_map_pass [OF V k t] two_routes_addresses by blast
  have c: "control_step ?V 9 ?ev (rn_rc s) (rn_rng s) = Ret (rc, rng)"
    unfolding ev using rc by (simp add: control_step_def fetch_and_reconcile_network_map_def)
  have "ticked sample_env sample_control (\<lambda>c d. d) 9 ?ev (rn_rc s) (rn_rng s) rc rng"
    using tick_within_budget [OF inv idle_client(2), of 9 ?ev] c s(2,3) by (auto simp: cost PERIOD_def)
  then have "map_outcome installed sample_control two_routes (rn_rc s) (Inr True) rc" using rc by (simp add: ticked_def ev)
  then have "map_in_force sample_control two_routes rc" by (simp add: map_outcome_def map_in_force_def)
  moreover note c
  then have "client_step sample_env sample_control sample_net_at ''wg0'' s \<lparr>rn_now = 9, rn_spent = rn_spent s + tick_cost ?ev, rn_rc = rc, rn_rng = rng\<rparr>"
    using s(2) idle_client(2) by (intro client_step.tick) simp_all
  ultimately show ?thesis using that [OF s(1)] by (simp add: cost s(3))
qed

lemma health_step:
  assumes "client_inv E V s" "rn_spent s \<le> PERIOD" "rn_now s \<le> now"
  obtains u where "client_step E V net iface s u" "rn_now u = now" "rn_spent u = rn_spent s"
proof -
  have z: "tick_cost (HealthTick :: ClientError control_event) = 0" by (simp add: tick_cost_def)
  from tick_within_budget [OF assms(1) idle_client(2) assms(3), of "HealthTick :: ClientError control_event"] assms(2) obtain rc rng where
    "control_step (control_at V E (\<lambda>c d. d) now) now (HealthTick :: ClientError control_event) (rn_rc s) (rn_rng s) = Ret (rc, rng)" by (auto simp: z)
  from client_step.tick [OF assms(3) idle_client(2) _ this, of net iface] that show thesis by (simp add: z)
qed

theorem applied_map_stays_in_force_witness:
  "\<exists>s t u :: (heap_pool, u64) running. started (\<lambda>r :: u32. (r, r + 1)) sample_env sample_client s \<and>
    (client_step sample_env sample_control sample_net_at ''wg0'')\<^sup>*\<^sup>* s t \<and> rn_now t = 10 \<and>
    (client_step sample_env sample_control sample_net_at ''wg0'')\<^sup>*\<^sup>* t u \<and> rn_now u = 11 \<and> map_in_force sample_control two_routes (rn_rc u)"
proof -
  let ?R = "client_step sample_env sample_control sample_net_at ''wg0'' :: (heap_pool, u64) running \<Rightarrow> _"
  obtain s t0 :: "(heap_pool, u64) running" where s: "started (\<lambda>r :: u32. (r, r + 1)) sample_env sample_client s" "?R s t0" "rn_now t0 = 9" "rn_spent t0 = 2"
    "map_in_force sample_control two_routes (rn_rc t0)" by (rule sample_in_force)
  have P: "2 \<le> PERIOD" by (simp add: PERIOD_def)
  have "?R\<^sup>*\<^sup>* s t0" using s(2) by (rule r_into_rtranclp)
  from client_reach_inv [OF this s(1)] s(4) P have i0: "client_inv sample_env sample_control t0" by simp
  from health_step [OF i0, of 10] s(3,4) P obtain t where t: "?R t0 t" "rn_now t = 10" "rn_spent t = 2" by auto
  have in_t: "map_in_force sample_control two_routes (rn_rc t)"
    using in_force_step [OF t(1) i0 _ s(5)] sample_not_superseded [of t] t(2,3) P by auto
  have st: "?R\<^sup>*\<^sup>* s t" using s(2) t(1) by (meson converse_rtranclp_into_rtranclp r_into_rtranclp)
  have "client_inv sample_env sample_control t" using client_reach_inv [OF st s(1)] t(3) P by simp
  from health_step [OF this, of 11] t(2,3) P obtain u where u: "?R t u" "rn_now u = 11" "rn_spent u = 2" by auto
  have tu: "?R\<^sup>*\<^sup>* t u" using u(1) by (rule r_into_rtranclp)
  have "\<not> superseded sample_env sample_control sample_net_at ''wg0'' two_routes v w" if "?R\<^sup>*\<^sup>* t v" "?R v w" for v w
    by (rule sample_not_superseded) (use run_time [OF that(1)] step_time [OF that(2)] t(2) in simp)
  with applied_map_stays_in_force [OF s(1) st in_t tu] u(3) P have "map_in_force sample_control two_routes (rn_rc u)" by auto
  with s(1) st t(2) tu u(2) show ?thesis by blast
qed

end
