(* ===== verification/Spec2Isabelle.thy ===== *)
theory Spec2Isabelle
  imports Index_Generator Tunnel_Timers Command_Channel Client_Run
begin

text \<open>
  \<^bold>\<open>A verification of tendrilix\<close>, a user-space WireGuard overlay network library written in Rust
  (\<^verbatim>\<open>src/tendrilix/src\<close>). The definitions are translated from the sources under their names there;
  the theorems are about these definitions.

  \<^bold>\<open>The program.\<close> A device (\<^verbatim>\<open>device.rs\<close>) owns a network interface, a datagram socket and a set of
  peers. Each peer has a tunnel (\<^verbatim>\<open>noise/mod.rs\<close>): a handshake (\<^verbatim>\<open>noise/handshake.rs\<close>) that gives
  transport sessions (\<^verbatim>\<open>noise/session.rs\<close>), timers (\<^verbatim>\<open>noise/timers.rs\<close>) and a queue of packets that wait
  for a session in a pool the peers share (\<^verbatim>\<open>packet_pool.rs\<close>). Packets from the interface are routed
  by the allowed-IP table (\<^verbatim>\<open>allowed_ips.rs\<close>) to a peer, encrypted, and sent to the endpoint of the
  peer or, wrapped in an envelope (\<^verbatim>\<open>noise/relay.rs\<close>), through a relay. Datagrams are parsed, rate-limited
  (\<^verbatim>\<open>noise/rate_limiter.rs\<close>), given to the peer their index names, decrypted and checked against the
  networks of the peer. The control plane fetches a network map, turns it into the peers the device
  should have (\<^verbatim>\<open>control/reconciler.rs\<close>), installs them through the commands of the device, and moves a
  peer to another route when its health (\<^verbatim>\<open>control/peer_health.rs\<close>) says so. The desktop client
  (\<^verbatim>\<open>src/desktop-client\<close>) starts a device with the directories of its configuration as peers and runs the
  event loop and the control loop beside each other; the control loop gives its commands to the
  event loop through a channel.

  \<^bold>\<open>Theories.\<close>

  \<^item> \<^verbatim>\<open>Prelude\<close>: bytes and their little- and big-endian readings, slices, the result of code that may
    panic (\<open>Ret\<close> or \<open>Panic\<close>) with its rules, time in nanoseconds (\<open>instant\<close>, \<open>duration\<close>).
  \<^item> \<^verbatim>\<open>Replay_Window\<close>, \<^verbatim>\<open>Session\<close> (\<^verbatim>\<open>noise/session.rs\<close>): the bitmap of received counters with the three loops
    of \<^verbatim>\<open>mark_did_receive\<close>, encryption and decryption of data packets, and the counter as the two atomic
    accesses of concurrent senders. Reception refines a specification with the set of the counters
    received; no nonce is used twice and no counter accepted twice under every interleaving.
  \<^item> \<^verbatim>\<open>Packets\<close> (\<^verbatim>\<open>noise/mod.rs\<close>): the wire formats; \<^verbatim>\<open>Ip_Packet\<close> (\<^verbatim>\<open>ip_packet.rs\<close> and the checks of \<^verbatim>\<open>noise/mod.rs\<close>):
    IP headers and the validation of decrypted packets.
  \<^item> \<^verbatim>\<open>Ipnet\<close>, \<^verbatim>\<open>Prefix_Trie\<close>, \<^verbatim>\<open>Allowed_IPs\<close> (\<^verbatim>\<open>ipnet.rs\<close>, \<^verbatim>\<open>allowed_ips.rs\<close>): networks, the arena of trie nodes with
    its 16-bit links, and the table over both address families. The locale \<open>prefix_table\<close> states what
    a table promises; the trie meets it, and a lookup is the longest-prefix match of an abstract map.
  \<^item> \<^verbatim>\<open>Table_Room\<close>: how many networks a table takes. An insertion uses at most two nodes of the arena, so from
    the 16-bit node links follows the number of networks for which there is room (\<open>TABLE_ROOM\<close> = \<open>2\<^sup>1\<^sup>5 - 1\<close> in the
    build with \<^verbatim>\<open>alloc\<close>); networks without a shared address (\<open>apart\<close>, \<open>spread\<close>) overlap nowhere.
  \<^item> \<^verbatim>\<open>Packet_Pool\<close>, \<^verbatim>\<open>Tunnel_Queue\<close> (\<^verbatim>\<open>packet_pool.rs\<close>, the queue of \<^verbatim>\<open>noise/mod.rs\<close>): both builds of the pool, a
    byte arena with descriptors and one with heap payloads. The locale \<open>packet_store\<close> states what a
    pool promises to the queues linked through it, with the condition \<open>room\<close> under which an allocation
    succeeds; both pools are interpretations, and the lemmas on queues hold for both: first in first out,
    a packet is appended exactly when fewer than eight fresh ones are queued and the pool has room, no
    effect on the queues of other peers.
  \<^item> \<^verbatim>\<open>Lfsr_Period\<close>, \<^verbatim>\<open>Index_Generator\<close> (\<^verbatim>\<open>index.rs\<close>): the shift register of the peer indices, its period of
    \<open>2\<^sup>2\<^sup>4 - 1\<close> by matrices over bits, and concurrent callers as interleaved atomic accesses.
  \<^item> \<^verbatim>\<open>Relay_Envelope\<close> (\<^verbatim>\<open>noise/relay.rs\<close>), \<^verbatim>\<open>Timestamper\<close> (\<^verbatim>\<open>timestamper.rs\<close>), \<^verbatim>\<open>Bounded\<close> (\<^verbatim>\<open>bounded.rs\<close>).
  \<^item> \<^verbatim>\<open>Handshake\<close>, \<^verbatim>\<open>Rate_Limiter\<close> (\<^verbatim>\<open>noise/handshake.rs\<close>, \<^verbatim>\<open>noise/rate_limiter.rs\<close>): both sides of the key exchange, the
    cookies and the limiter. The primitives are the fields of a record \<open>crypto\<close>; the theorems name the
    laws they use (the Diffie-Hellman exchange commutes, an opened box is the sealed text) and a
    concrete instance shows that the laws can hold.
  \<^item> \<^verbatim>\<open>Tunnel\<close>, \<^verbatim>\<open>Tunnel_Timers\<close> (\<^verbatim>\<open>noise/mod.rs\<close>, \<^verbatim>\<open>noise/timers.rs\<close>): the tunnel with every handler, the ring of
    sessions and the timer handler.
  \<^item> \<^verbatim>\<open>Peers\<close>, \<^verbatim>\<open>Device\<close>, \<^verbatim>\<open>Device_Paths\<close> (\<^verbatim>\<open>device.rs\<close>, \<^verbatim>\<open>authz.rs\<close>): the three tables of the peers and the commands on them,
    which refine a specification over one map (\<open>command_spec\<close>): an addition or update is refused as an overlap only
    for a shared address, for capacity only without room, and succeeds otherwise; the event loop as one step per event (a packet from
    the interface, a datagram, a timer tick, a command), with what is sent and written as the
    output of the step; the reachable states, whose tables agree; and the way of a packet from one
    device to another.
  \<^item> \<^verbatim>\<open>Peer_Health\<close> (\<^verbatim>\<open>control/peer_health.rs\<close>): the state machine of the routes of a peer.
  \<^item> \<^verbatim>\<open>Route_Policy\<close> (\<^verbatim>\<open>control/reconciler.rs\<close>, \<^verbatim>\<open>types/v1alpha1/net_map.rs\<close>): the network map and the peers it asks for.
  \<^item> \<^verbatim>\<open>Command_Client\<close>, \<^verbatim>\<open>Reconciler\<close>, \<^verbatim>\<open>Control_Plane\<close> (\<^verbatim>\<open>device.rs\<close>, \<^verbatim>\<open>control/reconciler.rs\<close>): the locale \<open>device_client\<close> is
    the interface of the device to the control plane. The passes of the reconciler are verified over
    any client with its laws; the client of the command queue meets them, so that the properties hold
    of the reconciler over the modelled device: an applied map is what the device has, and the views
    of the health pass do not diverge, also after errors.
  \<^item> \<^verbatim>\<open>Install_Success\<close>: when maps succeed. With growing collections the specification of the commands leaves
    only a shared address and a full table as reasons to refuse a peer. The locale \<open>open_client\<close> extends \<open>device_client\<close> with that
    promise, and a newer map with distinct addresses is applied.
  \<^item> \<^verbatim>\<open>Command_Channel\<close> (\<^verbatim>\<open>device.rs\<close>): the channel between callers and event loop as interleaved steps, with the
    mailboxes of the runtimes as arguments. Without a caller that gives up, the steps refine one in which a
    command and its answer are one step, which the theories before take for granted; and a caller that waits is
    answered within three steps of the event loop and its own, with what its command is owed.
  \<^item> \<^verbatim>\<open>Address_Text\<close>, \<^verbatim>\<open>Net_Text\<close>, \<^verbatim>\<open>Serialized_Forms\<close> (\<^verbatim>\<open>ipnet.rs\<close>, \<^verbatim>\<open>serialization.rs\<close>, \<^verbatim>\<open>types/v1alpha1\<close>): the printer and the
    parser of IP addresses of the standard library, the text and the binary form of networks, which are read back as what was
    written, the forms of keys, and the time stamp of a map.
  \<^item> \<^verbatim>\<open>Desktop_Client\<close>, \<^verbatim>\<open>Client_Run\<close> (\<^verbatim>\<open>src/desktop-client\<close>): the start of the client and the fetcher of maps, and the
    running client as an inductive relation: packets and timers of the device in any order with map
    and health ticks, under any behaviour of the network. A pass of the control plane is one step of the relation, but
    the device may handle any packets and timers before each of its commands (\<open>busy_client\<close>). A map tick is charged
    with the peers of its map, which it may add (\<open>tick_cost\<close>); within the \<open>PERIOD\<close> of the generator no tick fails to
    return, and an applied map stays in force until a later one is fetched.

  \<^bold>\<open>State and effects.\<close> A struct is a record, an enum a datatype, and a method on \<^verbatim>\<open>&mut self\<close> a function that
  returns the new state. Errors are values of a sum type; \<open>Panic\<close>, or \<open>None\<close> in the theories of tries
  and queues, is a panic of the source (an index out of range, a failed \<^verbatim>\<open>expect\<close>), and the theorems
  show that it is not reached. Machine integers are words of their width, or natural numbers with
  the saturation or wrap-around written out. A hash map is a list of entries with distinct keys whose
  order stands for the order of iteration, which no theorem fixes. The unstable sort of the policies
  is a stable one; no lemma depends on the order of equal priorities.

  \<^bold>\<open>Bounds and loops.\<close> Most loops are structural recursion or functions with a measure. Those along links or on wrapping
  counters, which could run forever on a corrupt state (the trie descents, the chains of queued
  packets, the loop over whole words of the window, the draw of a random index), are partial
  functions into \<open>option\<close> with \<open>None\<close> for not returning, and the theorems prove that they return in the states
  that the invariants describe. No fuel is used but the bound the source has itself (\<open>MAX_ITR\<close> = 100 packets
  flushed at a time). The index generator gives \<open>PERIOD = 2\<^sup>2\<^sup>4 - 1\<close> indices and then panics, so that the theorems
  on runs of a device bound the number of peers that are added by \<open>PERIOD\<close> (\<open>draws\<close>, \<open>event_cost\<close>: an \<open>Add\<close> command
  counts one, any other command and any packet nothing); \<open>can_take\<close> is that bound for the control plane. Capacities of the builds without \<^verbatim>\<open>alloc\<close> are arguments (\<open>None\<close> is the build with \<^verbatim>\<open>alloc\<close>).

  \<^bold>\<open>Arguments of the model.\<close> Code outside the repository is an argument of the definitions that use it: the
  cryptographic primitives, random numbers, the clock, the hash behind the fingerprints of the
  reconciler, the forwarding authorizer, the mailboxes of the runtime (with the hypothesis that a value sent is
  there until it is seen), the codecs of keys and the bounded string of \<^verbatim>\<open>heapless\<close>, and
  name lookup, connections, the HTTP exchange and the decoder of maps. A handler reads the clock
  once where the source may read it several times within one event.

  \<^bold>\<open>Findings.\<close> Where the code does not do what it means to, a theorem shows it: the indices that repeat when the
  generator is initialized during a call, the fallback that names another route after a
  reordering, the packets a removed peer leaves in the pool, the exchange of two tunnel addresses
  that a map cannot bring about, the completion that a caller leaves behind when it gives up and that
  the next caller takes for its own, the event loop that spins once all clients are dropped, the
  unpadded key that the parser means to accept and refuses, the directory without an address that
  ends a fetch, and the map changed twice in a second whose second version is taken for stale.

  \<^bold>\<open>Not modelled.\<close> The adapters of the interface (\<^verbatim>\<open>nic.rs\<close>) and the sockets of \<^verbatim>\<open>device.rs\<close> are input and output; what
  they are given is the output of a step. The command line, the TUN device and the HTTP connection of
  the desktop client (\<^verbatim>\<open>main.rs\<close>, \<^verbatim>\<open>http_client.rs\<close>) belong to libraries. The derived serializers of maps and
  errors (\<^verbatim>\<open>types\<close>) are generated code. The re-exports and feature flags (\<^verbatim>\<open>lib.rs\<close>) have no behaviour. The loss
  estimate and the round-trip statistics of a tunnel are floating-point readings that nothing in the
  library depends on. Waiting and wake-up of tasks are not modelled beyond the interleavings of
  \<^verbatim>\<open>Session\<close>, \<^verbatim>\<open>Index_Generator\<close> and \<^verbatim>\<open>Command_Channel\<close>: elsewhere the event loop holds the state alone.
\<close>

end
